(* ===== verification/Net_Prelude.thy ===== *)
theory Net_Prelude
  imports Main "HOL-Library.Word"
begin

section \<open>Shared vocabulary of the development\<close>

text \<open>
  Types and facts used by every component: the machine integers of the C++ sources as
  fixed-width words, bytes as characters, the decimal text that \<open>snprintf\<close> prints for
  \<open>%u\<close> and \<open>%llu\<close>, byte access to a block of memory, and the fact collections the
  component theories fill. An operation that the C++ standard leaves undefined (a write
  outside its block) or that ends the process (a failed \<open>assert\<close>) is \<open>None\<close> in every
  model of this library.
\<close>

unbundle bit_operations_syntax

subsection \<open>Machine integers\<close>

type_synonym u8 = "8 word"
type_synonym u16 = "16 word"
type_synonym u32 = "32 word"
type_synonym u64 = "64 word"

named_theorems wire_simps "evaluation of the text formats on printed messages"
named_theorems block_simps "cursor arithmetic of memory blocks"
named_theorems lease_simps "state updates of the lease protocol roles"
named_theorems mdb_simps "field updates of the cache's stores"

subsection \<open>Bytes and digits\<close>

definition char_code :: "char \<Rightarrow> nat" where
  "char_code c = of_char c"

definition is_digit :: "char \<Rightarrow> bool" where
  "is_digit c \<longleftrightarrow> 48 \<le> char_code c \<and> char_code c \<le> 57"

definition digit_char :: "nat \<Rightarrow> char" where
  "digit_char d = char_of (48 + d)"

definition digit_val :: "char \<Rightarrow> nat" where
  "digit_val c = char_code c - 48"

text \<open>The text of an unsigned number in base ten, as the C library prints it.\<close>

fun dec :: "nat \<Rightarrow> string" where
  "dec n = (if n < 10 then [digit_char n] else dec (n div 10) @ [digit_char (n mod 10)])"

declare dec.simps [simp del]

subsection \<open>Byte access\<close>

text \<open>Storing the bytes \<open>bs\<close> at offset \<open>pos\<close> of a block; outside the block is undefined.\<close>

definition poke :: "nat \<Rightarrow> string \<Rightarrow> string \<Rightarrow> string option" where
  "poke pos bs mem =
     (if pos + length bs \<le> length mem
      then Some (take pos mem @ bs @ drop (pos + length bs) mem) else None)"

definition peek :: "nat \<Rightarrow> nat \<Rightarrow> string \<Rightarrow> string" where
  "peek pos n mem = take n (drop pos mem)"

subsection \<open>Facts on digits\<close>

lemma char_code_digit_char [simp]: "d < 10 \<Longrightarrow> char_code (digit_char d) = 48 + d"
  by (simp add: char_code_def digit_char_def)

lemma is_digit_digit_char [simp]: "d < 10 \<Longrightarrow> is_digit (digit_char d)"
  by (simp add: is_digit_def)

lemma digit_val_digit_char [simp]: "d < 10 \<Longrightarrow> digit_val (digit_char d) = d"
  by (simp add: digit_val_def)

lemma digit_val_less: "is_digit c \<Longrightarrow> digit_val c < 10"
  by (auto simp: is_digit_def digit_val_def)

lemma dec_nonempty [simp]: "dec n \<noteq> []"
  by (subst dec.simps) simp

lemma dec_digits: "\<forall>c \<in> set (dec n). is_digit c"
proof (induction n rule: dec.induct)
  case (1 n)
  then show ?case by (cases "n < 10") (auto simp: dec.simps [of n])
qed

lemma length_dec_le: "n < 10 ^ k \<Longrightarrow> 0 < k \<Longrightarrow> length (dec n) \<le> k"
proof (induction n arbitrary: k rule: dec.induct)
  case (1 n)
  show ?case
  proof (cases "n < 10")
    case True
    with "1.prems" show ?thesis by (simp add: dec.simps [of n])
  next
    case False
    with "1.prems" obtain j where k: "k = Suc j" and j: "0 < j"
      by (cases k; cases "k - 1") auto
    from "1.prems" k have "n div 10 < 10 ^ j" by (simp add: div_less_iff_less_mult mult.commute)
    with "1.IH" [OF False] j have "length (dec (n div 10)) \<le> j" by blast
    with False k show ?thesis by (simp add: dec.simps [of n])
  qed
qed

subsection \<open>Facts on byte access\<close>

lemma poke_Some [block_simps]:
  "poke pos bs mem = Some mem' \<longleftrightarrow>
     pos + length bs \<le> length mem \<and> mem' = take pos mem @ bs @ drop (pos + length bs) mem"
  by (auto simp: poke_def)

lemma poke_None [block_simps]: "poke pos bs mem = None \<longleftrightarrow> length mem < pos + length bs"
  by (auto simp: poke_def)

lemma length_poke: "poke pos bs mem = Some mem' \<Longrightarrow> length mem' = length mem"
  by (auto simp: poke_def split: if_splits)

lemma peek_poke_prefix: "poke pos (as @ bs) mem = Some mem' \<Longrightarrow> peek pos (length as) mem' = as"
  by (auto simp: poke_def peek_def split: if_splits)

lemma peek_poke_same: "poke pos bs mem = Some mem' \<Longrightarrow> peek pos (length bs) mem' = bs"
  using peek_poke_prefix [of pos bs "[]"] by simp

lemma peek_poke_before:
  "poke pos bs mem = Some mem' \<Longrightarrow> p + n \<le> pos \<Longrightarrow> peek p n mem' = peek p n mem"
  by (auto simp: poke_def peek_def take_drop split: if_splits)

lemma peek_append: "peek p (m + n) mem = peek p m mem @ peek (p + m) n mem"
  by (simp add: peek_def take_add add.commute)

lemma length_peek [simp]: "p + n \<le> length mem \<Longrightarrow> length (peek p n mem) = n"
  by (simp add: peek_def)

lemma unat_ucast_u32: "unat (ucast (w :: u32) :: u64) = unat w"
proof -
  have "unat w < 2 ^ 64" using unsigned_less [of w, where 'a = nat] by simp
  then show ?thesis by (simp add: unsigned_ucast_eq take_bit_nat_eq_self)
qed

end
