(* ===== verification/Text_Codec.thy ===== *)
theory Text_Codec
  imports Net_Prelude
begin

section \<open>Text formats: number parsing and the scanner \<open>snreadf\<close>\<close>

text \<open>
  The model of \<^verbatim>\<open>src/netfram/common.cpp\<close>. A pair (pointer, length) of the source is the list
  of the bytes it delimits; a NULL pointer or a length below one is the empty list. The digit
  loops compute on 64-bit words, so that a text with too many digits wraps as the C++ does.
  \<open>vsnreadf\<close> interprets its format string character by character; the values it stores through
  its \<open>va_arg\<close> pointers are returned in order, those stored before a mismatch included.
\<close>

subsection \<open>Numbers\<close>

fun digits_loop :: "u64 \<Rightarrow> nat \<Rightarrow> string \<Rightarrow> u64 \<times> nat" where
  "digits_loop n i [] = (n, i)"
| "digits_loop n i (c # cs) =
     (if is_digit c then digits_loop (n * 10 + of_nat (digit_val c)) (Suc i) cs else (n, i))"

definition strntouint64 :: "string \<Rightarrow> u64 \<times> nat" where
  "strntouint64 buf = (if buf = [] then (0, 0) else digits_loop 0 0 buf)"

definition strntoint64 :: "string \<Rightarrow> u64 \<times> nat" where
  "strntoint64 buf =
     (case buf of
        [] \<Rightarrow> (0, 0)
      | c # cs \<Rightarrow>
          (let neg = (c = CHR ''-'');
               (n, i) = (if neg then digits_loop 0 1 cs else digits_loop 0 0 buf)
           in if neg \<and> i = 1 then (0, 0) else (if neg then - n else n, i)))"

subsection \<open>Character search and replacement\<close>

text \<open>
  \<open>strnchr\<close> advances \<open>s\<close> and leaves \<open>i\<close> at 0, so the bound \<open>len\<close> is only compared with 0.
  The argument is the memory from \<open>s\<close> on; reading past it is undefined (\<open>None\<close>). The result is
  the offset found, or NULL (\<open>Some None\<close>).
\<close>

fun strnchr_loop :: "nat \<Rightarrow> string \<Rightarrow> char \<Rightarrow> nat \<Rightarrow> nat option option" where
  "strnchr_loop k [] c len = (if 0 < len then None else Some None)"
| "strnchr_loop k (x # xs) c len =
     (if 0 < len \<and> x \<noteq> CHR 0x00 then
        (if x = c then Some (Some k) else strnchr_loop (Suc k) xs c len)
      else if c = CHR 0x00 \<and> 0 < len \<and> x = CHR 0x00 then Some (Some k)
      else Some None)"

definition strnchr :: "string \<Rightarrow> char \<Rightarrow> nat \<Rightarrow> nat option option" where
  "strnchr s c len = strnchr_loop 0 s c len"

definition c_strlen :: "string \<Rightarrow> nat" where
  "c_strlen s = length (takeWhile (\<lambda>c. c \<noteq> CHR 0x00) s)"

definition strrep :: "string \<Rightarrow> char \<Rightarrow> char \<Rightarrow> string" where
  "strrep s src dst =
     map (\<lambda>c. if c = src then dst else c) (take (c_strlen s) s) @ drop (c_strlen s) s"

subsection \<open>The scanner\<close>

datatype fmt_val =
    FChar char
  | FInt u32
  | FUInt u32
  | FI64 u64
  | FU64 u64
  | FBlock string

text \<open>
  \<open>Scan outs r\<close>: the values stored and the result \<open>r\<close>, the number of bytes read or -1.
  \<open>ScanAbort\<close>: an unknown specifier, where the code asserts.
\<close>

datatype scan = ScanAbort | Scan "fmt_val list" int

text \<open>
  One conversion specifier \<open>k\<close> at the front of the buffer: the values stored so far, and the
  number of bytes it reads. \<open>space i\<close> is \<open>GetDirectSpace()\<close> of the block that the i-th pointer
  argument refers to; only \<open>%M\<close> looks at it. The number conversions store their value before
  they test how many digits there were.
\<close>

datatype conv = ConvAbort | ConvFail "fmt_val list" | ConvOk "fmt_val list" nat

definition number_conv :: "fmt_val list \<Rightarrow> nat \<Rightarrow> conv" where
  "number_conv outs n = (if n < 1 then ConvFail outs else ConvOk outs n)"

definition block_conv :: "bool \<Rightarrow> nat \<Rightarrow> fmt_val list \<Rightarrow> string \<Rightarrow> conv" where
  "block_conv bounded room outs buf =
     (let (v, n) = strntouint64 buf; sz = unat v; rest = drop n buf
      in if n < 1 \<or> (bounded \<and> room < sz) \<or> rest = [] \<or> hd rest \<noteq> CHR '':'' \<or> length (tl rest) < sz
         then ConvFail outs
         else ConvOk (outs @ [FBlock (take sz (tl rest))]) (n + 1 + sz))"

definition scan_conv :: "(nat \<Rightarrow> nat) \<Rightarrow> fmt_val list \<Rightarrow> char \<Rightarrow> string \<Rightarrow> conv" where
  "scan_conv space outs k buf =
     (if k = CHR ''%'' then
        (if buf = [] \<or> hd buf \<noteq> CHR ''%'' then ConvFail outs else ConvOk outs 1)
      else if k = CHR ''c'' then
        (if buf = [] then ConvFail outs else ConvOk (outs @ [FChar (hd buf)]) 1)
      else if k = CHR ''d'' then
        (let (v, n) = strntoint64 buf in number_conv (outs @ [FInt (ucast v)]) n)
      else if k = CHR ''u'' then
        (let (v, n) = strntouint64 buf in number_conv (outs @ [FUInt (ucast v)]) n)
      else if k = CHR ''I'' then
        (let (v, n) = strntoint64 buf in number_conv (outs @ [FI64 v]) n)
      else if k = CHR ''U'' then
        (let (v, n) = strntouint64 buf in number_conv (outs @ [FU64 v]) n)
      else if k = CHR ''M'' then block_conv True (space (length outs)) outs buf
      else if k = CHR ''N'' then block_conv False 0 outs buf
      else ConvAbort)"

fun vsnreadf :: "(nat \<Rightarrow> nat) \<Rightarrow> fmt_val list \<Rightarrow> nat \<Rightarrow> string \<Rightarrow> string \<Rightarrow> scan" where
  "vsnreadf space outs read [] buf = Scan outs (int read)"
| "vsnreadf space outs read (f # fmt) buf =
     (if f = CHR ''%'' then
        (case fmt of
           [] \<Rightarrow> Scan outs (- 1)
         | k # fmt' \<Rightarrow>
             (case scan_conv space outs k buf of
                ConvAbort \<Rightarrow> ScanAbort
              | ConvFail outs' \<Rightarrow> Scan outs' (- 1)
              | ConvOk outs' n \<Rightarrow> vsnreadf space outs' (read + n) fmt' (drop n buf)))
      else if buf = [] \<or> hd buf \<noteq> f then Scan outs (- 1)
      else vsnreadf space outs (read + 1) fmt (tl buf))"

definition snreadf :: "(nat \<Rightarrow> nat) \<Rightarrow> string \<Rightarrow> string \<Rightarrow> scan" where
  "snreadf space buf fmt = vsnreadf space [] 0 fmt buf"

declare vsnreadf.simps(2) [simp del]

subsection \<open>Facts on number parsing\<close>

lemma digits_loop_count:
  "digits_loop n i s = (m, j) \<Longrightarrow> i \<le> j \<and> j \<le> i + length s"
  by (induction n i s rule: digits_loop.induct) (fastforce split: if_splits)+

lemma digits_loop_stop:
  "rest = [] \<or> \<not> is_digit (hd rest) \<Longrightarrow> digits_loop n i rest = (n, i)"
  by (cases rest) auto

lemma digits_loop_append:
  "\<forall>c \<in> set ds. is_digit c \<Longrightarrow>
   digits_loop n i (ds @ rest) = (case digits_loop n i ds of (m, j) \<Rightarrow> digits_loop m j rest)"
  by (induction ds arbitrary: n i) auto

lemma digits_loop_dec:
  "rest = [] \<or> \<not> is_digit (hd rest) \<Longrightarrow>
   digits_loop n i (dec k @ rest) = (n * 10 ^ length (dec k) + of_nat k, i + length (dec k))"
proof (induction k arbitrary: rest n i rule: dec.induct)
  case (1 k)
  show ?case
  proof (cases "k < 10")
    case True
    with "1.prems" show ?thesis by (simp add: dec.simps [of k] digits_loop_stop)
  next
    case False
    have split: "digits_loop n i (dec (k div 10) @ r) =
        (case digits_loop n i (dec (k div 10)) of (m, j) \<Rightarrow> digits_loop m j r)" for r
      by (rule digits_loop_append [OF dec_digits])
    have "digits_loop n i (dec (k div 10)) =
        (n * 10 ^ length (dec (k div 10)) + of_nat (k div 10), i + length (dec (k div 10)))"
      using "1.IH" [OF False, of "[]" n i] by simp
    moreover have "(of_nat k :: u64) = of_nat (k div 10) * 10 + of_nat (k mod 10)"
    proof -
      have "k = (k div 10) * 10 + k mod 10" by simp
      then have "(of_nat k :: u64) = of_nat ((k div 10) * 10 + k mod 10)" by simp
      also have "\<dots> = of_nat (k div 10) * 10 + of_nat (k mod 10)"
        by (simp only: of_nat_add of_nat_mult of_nat_numeral)
      finally show ?thesis .
    qed
    ultimately show ?thesis
      using False "1.prems"
      by (simp add: dec.simps [of k] split digits_loop_stop algebra_simps)
  qed
qed

lemma strntouint64_dec [wire_simps]:
  "rest = [] \<or> \<not> is_digit (hd rest) \<Longrightarrow>
   strntouint64 (dec k @ rest) = (of_nat k, length (dec k))"
  by (simp add: strntouint64_def digits_loop_dec)

lemma ucast_of_nat_u64 [wire_simps]: "(ucast (of_nat k :: u64) :: u32) = of_nat k"
  by transfer simp

subsection \<open>The scanner on printed text\<close>

lemma vsnreadf_literal [wire_simps]:
  "f \<noteq> CHR ''%'' \<Longrightarrow>
   vsnreadf space outs read (f # fmt) (f # buf) = vsnreadf space outs (read + 1) fmt buf"
  by (simp add: vsnreadf.simps(2))

lemma vsnreadf_char [wire_simps]:
  "vsnreadf space outs read (CHR ''%'' # CHR ''c'' # fmt) (c # buf) =
   vsnreadf space (outs @ [FChar c]) (read + 1) fmt buf"
  by (simp add: vsnreadf.simps(2) scan_conv_def)

lemma vsnreadf_u32 [wire_simps]:
  "rest = [] \<or> \<not> is_digit (hd rest) \<Longrightarrow>
   vsnreadf space outs read (CHR ''%'' # CHR ''u'' # fmt) (dec k @ rest) =
   vsnreadf space (outs @ [FUInt (of_nat k)]) (read + length (dec k)) fmt rest"
  by (simp add: vsnreadf.simps(2) scan_conv_def number_conv_def strntouint64_dec ucast_of_nat_u64
      Suc_le_eq)

lemma vsnreadf_u64 [wire_simps]:
  "rest = [] \<or> \<not> is_digit (hd rest) \<Longrightarrow>
   vsnreadf space outs read (CHR ''%'' # CHR ''U'' # fmt) (dec k @ rest) =
   vsnreadf space (outs @ [FU64 (of_nat k)]) (read + length (dec k)) fmt rest"
  by (simp add: vsnreadf.simps(2) scan_conv_def number_conv_def strntouint64_dec Suc_le_eq)

lemmas vsnreadf_u32_end [wire_simps] = vsnreadf_u32 [where rest = "[]", simplified]
  and vsnreadf_u64_end [wire_simps] = vsnreadf_u64 [where rest = "[]", simplified]

lemma vsnreadf_blob [wire_simps]:
  assumes "length body < 2 ^ 64"
  shows "vsnreadf space outs read (CHR ''%'' # CHR ''N'' # fmt)
           (dec (length body) @ CHR '':'' # body @ rest) =
         vsnreadf space (outs @ [FBlock body]) (read + length (dec (length body)) + 1 + length body)
           fmt rest"
proof -
  have "unat (of_nat (length body) :: u64) = length body"
    using assms by (simp add: unat_of_nat)
  then show ?thesis
    by (simp add: vsnreadf.simps(2) scan_conv_def block_conv_def strntouint64_dec Let_def
        is_digit_def char_code_def add.assoc)
qed

lemma not_digit_colon [wire_simps, simp]: "\<not> is_digit (CHR '':'')"
  by (simp add: is_digit_def char_code_def)

text \<open>A scan never reports more bytes than the buffer holds.\<close>

lemma strntouint64_count: "strntouint64 b = (v, n) \<Longrightarrow> n \<le> length b"
  using digits_loop_count [of 0 0 b] by (auto simp: strntouint64_def split: if_splits)

lemma strntoint64_count: "strntoint64 b = (v, n) \<Longrightarrow> n \<le> length b"
  by (auto simp: strntoint64_def Let_def split: list.splits if_splits prod.splits
      dest!: digits_loop_count)

lemma block_conv_count: "block_conv bd room outs buf = ConvOk outs' n \<Longrightarrow> n \<le> length buf"
proof -
  assume ok: "block_conv bd room outs buf = ConvOk outs' n"
  obtain v m where vm: "strntouint64 buf = (v, m)" by force
  from ok vm have rest: "drop m buf \<noteq> []" and body: "unat v \<le> length (tl (drop m buf))"
    and n: "n = m + 1 + unat v"
    by (auto simp: block_conv_def Let_def split: if_splits)
  from rest have "length (tl (drop m buf)) + 1 = length (drop m buf)" by (cases "drop m buf") auto
  with rest body n strntouint64_count [OF vm] show ?thesis by simp
qed

lemma scan_conv_count: "scan_conv space outs k buf = ConvOk outs' n \<Longrightarrow> n \<le> length buf"
  by (auto simp: scan_conv_def number_conv_def Suc_le_eq split: if_splits prod.splits
      dest: strntouint64_count strntoint64_count block_conv_count)

lemma vsnreadf_read_le:
  "vsnreadf space outs read fmt buf = Scan outs' r \<Longrightarrow> r \<le> int (read + length buf)"
proof (induction space outs read fmt buf rule: vsnreadf.induct)
  case (1 space outs read buf)
  then show ?case by simp
next
  case (2 space outs read f fmt buf)
  show ?case
  proof (cases "f = CHR ''%''")
    case True
    with "2.prems" "2.IH"(1) show ?thesis
      by (fastforce simp: vsnreadf.simps(2) split: list.splits conv.splits dest: scan_conv_count)
  next
    case False
    with "2.prems" "2.IH"(2) show ?thesis
      by (cases buf) (auto simp: vsnreadf.simps(2) split: if_splits)
  qed
qed

end
