(* ===== verification/Memblock.thy ===== *)
theory Memblock
  imports Net_Prelude "HOL-Library.Monad_Syntax"
begin

section \<open>Memory blocks\<close>

text \<open>
  The model of \<open>CMemblock\<close> (\<^verbatim>\<open>src/netfram/Memblock.cpp\<close>, \<^verbatim>\<open>Memblock.h\<close>): a byte block with a
  read and a write cursor. \<open>mb_mem\<close> holds the bytes from \<open>mpcBase\<close> to \<open>mpcEnd\<close> (none when the
  block is NULL), \<open>mb_read\<close> and \<open>mb_write\<close> are the cursors as offsets from \<open>mpcBase\<close>. The bytes
  of a fresh \<open>new char[n]\<close> are indeterminate in C++ and zero here; no theorem reads them. An
  access outside the block is \<open>None\<close>. Sizes are naturals; the growth loop of \<open>Expand\<close>, whose
  test relies on the wrap-around of \<open>size_t\<close>, computes on 64-bit words.
\<close>

record memblock =
  mb_mem :: string
  mb_read :: nat
  mb_write :: nat
  mb_capacity :: nat
  mb_size :: nat
  mb_flag :: nat

definition MEM_DONT_DELETE :: nat where "MEM_DONT_DELETE = 1"
definition MEM_DO_DELETE :: nat where "MEM_DO_DELETE = 2"
definition MEM_BLOCK_RELEASED :: nat where "MEM_BLOCK_RELEASED = 4"

subsection \<open>Construction, release and growth\<close>

definition mb_null :: memblock where
  "mb_null = \<lparr>mb_mem = [], mb_read = 0, mb_write = 0, mb_capacity = 0, mb_size = 0, mb_flag = 0\<rparr>"

text \<open>
  The memory an initialisation refers to: \<open>addr\<close> is \<open>apcAddr\<close> (\<open>None\<close> for NULL, otherwise the
  bytes found there), and the initial data is absent, the block's own base, or elsewhere.
\<close>

datatype init_src = SrcNull | SrcBase | SrcCopy string

definition mb_Init ::
  "nat \<Rightarrow> string option \<Rightarrow> init_src \<Rightarrow> nat \<Rightarrow> nat \<Rightarrow> memblock \<Rightarrow> (int \<times> memblock) option" where
  "mb_Init sz addr src len flag m =
     (if sz \<le> 0 \<or> sz < len then Some (- 1, m)
      else let mem = (case addr of None \<Rightarrow> replicate sz (CHR 0x00) | Some a \<Rightarrow> take sz a);
               m' = m\<lparr>mb_mem := mem, mb_read := 0, mb_write := 0, mb_capacity := sz, mb_flag := flag\<rparr>
           in if length mem \<noteq> sz then None
              else (case src of
                      SrcNull \<Rightarrow> Some (0, m'\<lparr>mb_size := 0\<rparr>)
                    | SrcBase \<Rightarrow> Some (0, m'\<lparr>mb_size := len, mb_write := len\<rparr>)
                    | SrcCopy d \<Rightarrow>
                        if length d < len then None
                        else do { mem' \<leftarrow> poke 0 (take len d) mem;
                                  Some (0, m'\<lparr>mb_mem := mem', mb_size := len, mb_write := len\<rparr>) }))"

definition mb_new :: "nat \<Rightarrow> memblock" where
  "mb_new sz = (case mb_Init sz None SrcNull 0 MEM_DO_DELETE mb_null of
                  Some (_, m) \<Rightarrow> m | None \<Rightarrow> mb_null)"

definition mb_Release :: "memblock \<Rightarrow> memblock" where
  "mb_Release m = m\<lparr>mb_mem := [], mb_capacity := 0, mb_read := 0, mb_write := 0, mb_size := 0,
                    mb_flag := MEM_BLOCK_RELEASED\<rparr>"

definition mb_Clone :: "memblock \<Rightarrow> memblock option option" where
  "mb_Clone m =
     do { (ret, c) \<leftarrow> mb_Init (length (mb_mem m)) None
                        (if mb_mem m = [] then SrcNull
                         else SrcCopy (drop (mb_read m) (mb_mem m)))
                        (mb_write m - mb_read m) (mb_flag m) mb_null;
          Some (if ret \<noteq> 0 then None else Some c) }"

definition mb_Resize :: "nat \<Rightarrow> memblock \<Rightarrow> memblock option" where
  "mb_Resize n m =
     (if n \<le> mb_capacity m then Some m
      else if mb_read m + mb_size m \<le> length (mb_mem m) \<and> mb_size m \<le> n
      then Some (m\<lparr>mb_mem := peek (mb_read m) (mb_size m) (mb_mem m)
                              @ replicate (n - mb_size m) (CHR 0x00),
                   mb_read := 0, mb_write := mb_size m, mb_capacity := n\<rparr>)
      else None)"

text \<open>The loop of \<open>Expand\<close>: quadruple until \<open>luSize - muSize - auSize\<close> is not zero.\<close>

partial_function (option) mb_expand_loop :: "u64 \<Rightarrow> u64 \<Rightarrow> u64 \<Rightarrow> u64 option" where
  "mb_expand_loop lu sz n =
     (let lu' = push_bit 2 lu in if lu' - sz - n \<noteq> 0 then Some lu' else mb_expand_loop lu' sz n)"

definition mb_Expand :: "nat \<Rightarrow> memblock \<Rightarrow> memblock option" where
  "mb_Expand n m =
     (if int (mb_capacity m) - int (mb_size m) - int n < 0
      then do { lu \<leftarrow> mb_expand_loop (of_nat (mb_capacity m)) (of_nat (mb_size m)) (of_nat n);
                mb_Resize (unat lu) m }
      else Some m)"

subsection \<open>Cursors\<close>

definition mb_SetWrite :: "nat \<Rightarrow> memblock \<Rightarrow> int \<times> memblock" where
  "mb_SetWrite n m =
     (if length (mb_mem m) - mb_write m < n then (- 1, m)
      else (int n, m\<lparr>mb_write := mb_write m + n, mb_size := mb_size m + n\<rparr>))"

text \<open>The pointer overloads take an offset from \<open>mpcBase\<close>, which may be negative.\<close>

definition mb_SetWritePtr :: "int \<Rightarrow> memblock \<Rightarrow> int \<times> memblock" where
  "mb_SetWritePtr p m =
     (if p < int (mb_read m) \<or> int (length (mb_mem m)) < p then (- 1, m)
      else (p - int (mb_read m), m\<lparr>mb_write := nat p, mb_size := nat p - mb_read m\<rparr>))"

definition mb_SetRead :: "nat \<Rightarrow> memblock \<Rightarrow> int \<times> memblock" where
  "mb_SetRead n m =
     (if mb_size m = 0 \<or> mb_size m < n then (- 1, m)
      else (int n, m\<lparr>mb_read := mb_read m + n, mb_size := mb_size m - n\<rparr>))"

definition mb_SetReadPtr :: "int \<Rightarrow> memblock \<Rightarrow> (int \<times> memblock) option" where
  "mb_SetReadPtr p m =
     (if int (mb_write m) < p \<or> 0 < p then Some (- 1, m)
      else if p < 0 then None
      else Some (p - int (mb_read m), m\<lparr>mb_read := nat p, mb_size := mb_write m - nat p\<rparr>))"

definition mb_Reset :: "memblock \<Rightarrow> memblock" where
  "mb_Reset m = m\<lparr>mb_read := 0, mb_write := 0, mb_size := 0\<rparr>"

definition mb_Shrink :: "memblock \<Rightarrow> memblock option" where
  "mb_Shrink m =
     (if mb_read m + mb_size m \<le> length (mb_mem m)
      then do { mem' \<leftarrow> poke 0 (peek (mb_read m) (mb_size m) (mb_mem m)) (mb_mem m);
                Some (m\<lparr>mb_mem := mem', mb_read := 0, mb_write := mb_size m\<rparr>) }
      else None)"

definition mb_GetDirectSpace :: "memblock \<Rightarrow> nat" where
  "mb_GetDirectSpace m = length (mb_mem m) - mb_write m"

definition mb_GetSpace :: "memblock \<Rightarrow> nat" where
  "mb_GetSpace m = mb_capacity m - mb_size m"

text \<open>The bytes between the cursors, what \<open>ToString\<close> returns.\<close>

definition mb_content :: "memblock \<Rightarrow> string" where
  "mb_content m = peek (mb_read m) (mb_size m) (mb_mem m)"

definition mb_Compare :: "memblock \<Rightarrow> memblock \<Rightarrow> bool" where
  "mb_Compare m other \<longleftrightarrow>
     mb_size other \<le> mb_size m \<and>
     peek (mb_read m) (mb_size other) (mb_mem m) \<noteq> mb_content other"

subsection \<open>Writing\<close>

definition mb_compact :: "nat \<Rightarrow> memblock \<Rightarrow> memblock option" where
  "mb_compact n m =
     (if length (mb_mem m) - mb_write m < n
      then do { mem' \<leftarrow> poke 0 (peek (mb_read m) (mb_write m - mb_read m) (mb_mem m)) (mb_mem m);
                Some (m\<lparr>mb_mem := mem', mb_read := 0, mb_write := mb_write m - mb_read m\<rparr>) }
      else Some m)"

definition mb_Write :: "string \<Rightarrow> memblock \<Rightarrow> (nat \<times> memblock) option" where
  "mb_Write bs m =
     do { m1 \<leftarrow> mb_Expand (length bs) m;
          m2 \<leftarrow> mb_compact (length bs) m1;
          mem' \<leftarrow> poke (mb_write m2) bs (mb_mem m2);
          Some (length bs, m2\<lparr>mb_mem := mem', mb_write := mb_write m2 + length bs,
                              mb_size := mb_size m2 + length bs\<rparr>) }"

definition byte_of :: "'a::len word \<Rightarrow> char" where
  "byte_of w = char_of (unat (ucast w :: u8))"

text \<open>\<open>mpcWritePt[k] = b\<close>\<close>

definition mb_put :: "nat \<Rightarrow> char \<Rightarrow> memblock \<Rightarrow> memblock option" where
  "mb_put k b m = do { mem' \<leftarrow> poke (mb_write m + k) [b] (mb_mem m); Some (m\<lparr>mb_mem := mem'\<rparr>) }"

definition mb_Write8 :: "u8 \<Rightarrow> memblock \<Rightarrow> (nat \<times> memblock) option" where
  "mb_Write8 v m =
     do { m \<leftarrow> mb_Expand 1 m; m \<leftarrow> mb_put 0 (byte_of v) m; Some (1, snd (mb_SetWrite 1 m)) }"

definition mb_Write16 :: "u16 \<Rightarrow> memblock \<Rightarrow> (nat \<times> memblock) option" where
  "mb_Write16 v m =
     do { m \<leftarrow> mb_Expand 2 m;
          m \<leftarrow> mb_put 1 (byte_of v) m;
          m \<leftarrow> mb_put 0 (byte_of (drop_bit 8 v)) m;
          Some (2, snd (mb_SetWrite 2 m)) }"

definition mb_Write32 :: "u32 \<Rightarrow> memblock \<Rightarrow> (nat \<times> memblock) option" where
  "mb_Write32 v m =
     do { m \<leftarrow> mb_Expand 4 m;
          m \<leftarrow> mb_put 3 (byte_of v) m;
          let v1 = drop_bit 8 v;
          m \<leftarrow> mb_put 2 (byte_of v1) m;
          let m = snd (mb_SetWrite 2 m);
          m \<leftarrow> mb_put 1 (byte_of v1) m;
          let v2 = drop_bit 8 v1;
          m \<leftarrow> mb_put 0 (byte_of v2) m;
          Some (4, snd (mb_SetWrite 4 m)) }"

definition mb_Write64 :: "u64 \<Rightarrow> memblock \<Rightarrow> (nat \<times> memblock) option" where
  "mb_Write64 v m =
     do { m \<leftarrow> mb_Expand 8 m;
          m \<leftarrow> mb_put 7 (byte_of v) m;
          let v1 = drop_bit 8 v;
          m \<leftarrow> mb_put 6 (byte_of v1) m;
          let m = snd (mb_SetWrite 2 m);
          m \<leftarrow> mb_put 5 (byte_of v1) m;
          let v2 = drop_bit 8 v1;
          m \<leftarrow> mb_put 4 (byte_of v2) m;
          m \<leftarrow> mb_put 3 (byte_of v2) m;
          let v3 = drop_bit 8 v2;
          m \<leftarrow> mb_put 2 (byte_of v3) m;
          let m = snd (mb_SetWrite 2 m);
          m \<leftarrow> mb_put 1 (byte_of v3) m;
          let v4 = drop_bit 8 v3;
          m \<leftarrow> mb_put 0 (byte_of v4) m;
          Some (8, snd (mb_SetWrite 8 m)) }"

text \<open>The vector overloads: the length as a 32-bit number, then the elements in order.\<close>

fun mb_write_all :: "('a \<Rightarrow> memblock \<Rightarrow> (nat \<times> memblock) option) \<Rightarrow> 'a list \<Rightarrow> memblock \<Rightarrow> memblock option"
where
  "mb_write_all wr [] m = Some m"
| "mb_write_all wr (x # xs) m = do { (_, m') \<leftarrow> wr x m; mb_write_all wr xs m' }"

definition mb_WriteVec8 :: "u8 list \<Rightarrow> memblock \<Rightarrow> (nat \<times> memblock) option" where
  "mb_WriteVec8 xs m =
     do { (_, m) \<leftarrow> mb_Write32 (of_nat (length xs)) m; m \<leftarrow> mb_write_all mb_Write8 xs m;
          Some (4 + length xs, m) }"

definition mb_WriteVec16 :: "u16 list \<Rightarrow> memblock \<Rightarrow> (nat \<times> memblock) option" where
  "mb_WriteVec16 xs m =
     do { (_, m) \<leftarrow> mb_Write32 (of_nat (length xs)) m; m \<leftarrow> mb_write_all mb_Write16 xs m;
          Some (4 + 2 * length xs, m) }"

definition mb_WriteVec32 :: "u32 list \<Rightarrow> memblock \<Rightarrow> (nat \<times> memblock) option" where
  "mb_WriteVec32 xs m =
     do { (_, m) \<leftarrow> mb_Write32 (of_nat (length xs)) m; m \<leftarrow> mb_write_all mb_Write32 xs m;
          Some (4 * (1 + length xs), m) }"

definition mb_WriteVec64 :: "u64 list \<Rightarrow> memblock \<Rightarrow> (nat \<times> memblock) option" where
  "mb_WriteVec64 xs m =
     do { (_, m) \<leftarrow> mb_Write32 (of_nat (length xs)) m; m \<leftarrow> mb_write_all mb_Write64 xs m;
          Some (4 * (1 + 2 * length xs), m) }"

subsection \<open>Reading\<close>

text \<open>The bytes copied out and the new block; \<open>Inl\<close> is the result -1 of an empty block.\<close>

definition mb_Read :: "nat \<Rightarrow> memblock \<Rightarrow> (unit + string) \<times> memblock" where
  "mb_Read n m =
     (if mb_size m = 0 then (Inl (), m)
      else if mb_size m < n then
        (Inr (peek (mb_read m) (mb_size m) (mb_mem m)), m\<lparr>mb_read := mb_write m, mb_size := 0\<rparr>)
      else (Inr (peek (mb_read m) n (mb_mem m)),
            m\<lparr>mb_read := mb_read m + n, mb_size := mb_size m - n\<rparr>))"

text \<open>\<open>mpcReadPt[k]\<close> as a \<open>char\<close>, which is signed: widening it extends the sign.\<close>

definition mb_get :: "nat \<Rightarrow> memblock \<Rightarrow> u8 option" where
  "mb_get k m =
     (if mb_read m + k < length (mb_mem m)
      then Some (of_nat (char_code (mb_mem m ! (mb_read m + k)))) else None)"

text \<open>The number read, or \<open>None\<close> inside the pair for the result -1.\<close>

definition mb_Read8 :: "memblock \<Rightarrow> (u8 option \<times> memblock) option" where
  "mb_Read8 m =
     (if mb_size m < 1 then Some (None, m)
      else do { b \<leftarrow> mb_get 0 m; Some (Some b, snd (mb_SetRead 1 m)) })"

definition mb_Read16 :: "memblock \<Rightarrow> (u16 option \<times> memblock) option" where
  "mb_Read16 m =
     (if mb_size m < 2 then Some (None, m)
      else do { b0 \<leftarrow> mb_get 0 m; b1 \<leftarrow> mb_get 1 m;
                Some (Some (push_bit 8 (scast b0) OR scast b1), snd (mb_SetWrite 2 m)) })"

definition mb_Read32 :: "memblock \<Rightarrow> (u32 option \<times> memblock) option" where
  "mb_Read32 m =
     (if mb_size m < 2 then Some (None, m)
      else do { b0 \<leftarrow> mb_get 0 m; b1 \<leftarrow> mb_get 1 m; b2 \<leftarrow> mb_get 2 m; b3 \<leftarrow> mb_get 3 m;
                let v = scast b0;
                let v = push_bit 8 v OR scast b1;
                let v = push_bit 8 v OR scast b2;
                let v = push_bit 8 v OR scast b3;
                Some (Some (push_bit 8 v), m) })"

definition mb_Read64 :: "memblock \<Rightarrow> (u64 option \<times> memblock) option" where
  "mb_Read64 m =
     (if mb_size m < 2 then Some (None, m)
      else do { b0 \<leftarrow> mb_get 0 m; b1 \<leftarrow> mb_get 1 m; b2 \<leftarrow> mb_get 2 m; b3 \<leftarrow> mb_get 3 m;
                let v = scast b0;
                let v = push_bit 8 v OR scast b1;
                let v = push_bit 8 v OR scast b2;
                let v = push_bit 8 v OR scast b3;
                Some (Some (push_bit 8 v), snd (mb_SetRead 8 m)) })"

text \<open>
  The vector overloads: \<open>Inl ()\<close> is the result -1, with the vector cleared; \<open>Inr\<close> holds the
  elements pushed and the result.
\<close>

fun mb_read_all ::
  "(memblock \<Rightarrow> ('a option \<times> memblock) option) \<Rightarrow> nat \<Rightarrow> memblock \<Rightarrow> ((unit + 'a list) \<times> memblock) option"
where
  "mb_read_all rd 0 m = Some (Inr [], m)"
| "mb_read_all rd (Suc k) m =
     do { (r, m1) \<leftarrow> rd m;
          (case r of
             None \<Rightarrow> Some (Inl (), m1)
           | Some x \<Rightarrow> do { (rs, m2) \<leftarrow> mb_read_all rd k m1; Some (map_sum id ((#) x) rs, m2) }) }"

definition mb_ReadVec ::
  "(memblock \<Rightarrow> ('a option \<times> memblock) option) \<Rightarrow> nat \<Rightarrow> memblock
    \<Rightarrow> ((unit + 'a list \<times> nat) \<times> memblock) option" where
  "mb_ReadVec rd width m =
     do { (r, m1) \<leftarrow> mb_Read32 m;
          (case r of
             None \<Rightarrow> Some (Inl (), m1)
           | Some sz \<Rightarrow>
               do { (rs, m2) \<leftarrow> mb_read_all rd (unat sz) m1;
                    Some (map_sum id (\<lambda>xs. (xs, 4 + unat sz * width)) rs, m2) }) }"

definition mb_ReadVec8 :: "memblock \<Rightarrow> ((unit + u8 list \<times> nat) \<times> memblock) option" where
  "mb_ReadVec8 = mb_ReadVec mb_Read8 1"

definition mb_ReadVec16 :: "memblock \<Rightarrow> ((unit + u16 list \<times> nat) \<times> memblock) option" where
  "mb_ReadVec16 = mb_ReadVec mb_Read16 2"

definition mb_ReadVec32 :: "memblock \<Rightarrow> ((unit + u32 list \<times> nat) \<times> memblock) option" where
  "mb_ReadVec32 = mb_ReadVec mb_Read32 4"

definition mb_ReadVec64 :: "memblock \<Rightarrow> ((unit + u64 list \<times> nat) \<times> memblock) option" where
  "mb_ReadVec64 = mb_ReadVec mb_Read64 4"

subsection \<open>Well-formed blocks\<close>

definition mb_wf :: "memblock \<Rightarrow> bool" where
  "mb_wf m \<longleftrightarrow> length (mb_mem m) = mb_capacity m \<and> mb_write m \<le> mb_capacity m \<and>
     mb_read m + mb_size m = mb_write m"

text \<open>
  The largest write the growth step can make room for: one step of \<open>Expand\<close> quadruples the
  capacity, whatever is asked for.
\<close>

definition mb_room :: "memblock \<Rightarrow> nat" where
  "mb_room m =
     (if mb_capacity m < 2 ^ 58 then 4 * mb_capacity m - mb_size m
      else mb_capacity m - mb_size m)"

lemma mb_wf_new: "mb_wf (mb_new n) \<and> mb_content (mb_new n) = []"
  by (simp add: mb_wf_def mb_new_def mb_Init_def mb_null_def mb_content_def peek_def)

lemma mb_wf_size: "mb_wf m \<Longrightarrow> mb_size m \<le> mb_capacity m"
  by (simp add: mb_wf_def)

lemma length_mb_content [simp]: "mb_wf m \<Longrightarrow> length (mb_content m) = mb_size m"
  by (simp add: mb_wf_def mb_content_def)

lemma mb_expand_loop_step:
  assumes "c < 2 ^ 62" "s + n < 2 ^ 63"
  shows "mb_expand_loop (of_nat c) (of_nat s) (of_nat n) =
           (if 4 * c = s + n then mb_expand_loop (of_nat (4 * c)) (of_nat s) (of_nat n)
            else Some (of_nat (4 * c)))"
proof -
  have pb: "push_bit 2 (of_nat c :: u64) = of_nat (4 * c)"
    by (simp add: push_bit_eq_mult)
  have "(of_nat (4 * c) - of_nat s - of_nat n = (0 :: u64)) \<longleftrightarrow> (of_nat (4 * c) :: u64) = of_nat (s + n)"
    by (simp add: algebra_simps eq_iff_diff_eq_0 [symmetric])
  also have "\<dots> \<longleftrightarrow> 4 * c = s + n"
    using assms by (simp add: of_nat_inverse unat_of_nat word_unat_eq_iff del: of_nat_add of_nat_mult)
  finally show ?thesis
    by (subst mb_expand_loop.simps) (simp only: pb Let_def, simp)
qed

lemma mb_expand_loop_eq:
  assumes "0 < cap" "cap < 2 ^ 58" "s + n < 2 ^ 63"
  shows "mb_expand_loop (of_nat cap) (of_nat s) (of_nat n) =
           Some (of_nat (if 4 * cap = s + n then 16 * cap else 4 * cap))"
proof (cases "4 * cap = s + n")
  case False
  with mb_expand_loop_step [of cap s n] assms show ?thesis by simp
next
  case True
  have ne: "4 * (4 * cap) \<noteq> s + n" and lt: "4 * cap < 2 ^ 62"
    unfolding True [symmetric] using assms(1,2) by simp_all
  have "mb_expand_loop (of_nat cap) (of_nat s) (of_nat n) =
      mb_expand_loop (of_nat (4 * cap)) (of_nat s) (of_nat n)"
    using mb_expand_loop_step [of cap s n] assms by (simp only: True if_True) simp
  also have "\<dots> = Some (of_nat (4 * (4 * cap)))"
    using mb_expand_loop_step [OF lt assms(3)] by (simp only: ne if_False)
  also have "4 * (4 * cap) = 16 * cap" by simp
  finally show ?thesis by (simp only: True simp_thms if_True)
qed

text \<open>Growing, resizing and compacting move the bytes between the cursors unchanged.\<close>

lemma mb_Resize_ok:
  assumes "mb_wf m" "mb_capacity m \<le> n"
  shows "\<exists>m'. mb_Resize n m = Some m' \<and> mb_wf m' \<and> mb_content m' = mb_content m \<and>
           mb_size m' = mb_size m \<and> mb_capacity m' = n"
  using assms mb_wf_size [OF assms(1)]
  by (auto simp: mb_Resize_def mb_wf_def mb_content_def peek_def)

lemma mb_compact_ok:
  assumes "mb_wf m" "mb_size m + n \<le> mb_capacity m"
  shows "\<exists>m'. mb_compact n m = Some m' \<and> mb_wf m' \<and> mb_content m' = mb_content m \<and>
           mb_size m' = mb_size m \<and> mb_capacity m' = mb_capacity m \<and>
           mb_write m' + n \<le> mb_capacity m'"
proof (cases "length (mb_mem m) - mb_write m < n")
  case False
  with assms show ?thesis by (auto simp: mb_compact_def mb_wf_def)
next
  case True
  have "mb_write m - mb_read m = mb_size m" using assms(1) by (auto simp: mb_wf_def)
  with True assms show ?thesis
    by (auto simp: mb_compact_def mb_wf_def poke_def mb_content_def peek_def)
qed

lemma mb_Expand_ok:
  assumes wf: "mb_wf m" and room: "n \<le> mb_room m"
  shows "\<exists>m'. mb_Expand n m = Some m' \<and> mb_wf m' \<and> mb_content m' = mb_content m \<and>
           mb_size m' = mb_size m \<and> mb_size m + n \<le> mb_capacity m' \<and>
           (m' = m \<or> 4 * mb_capacity m \<le> mb_capacity m')"
proof (cases "mb_size m + n \<le> mb_capacity m")
  case True
  with wf show ?thesis by (auto simp: mb_Expand_def)
next
  case False
  let ?cap = "mb_capacity m" let ?lu = "if 4 * ?cap = mb_size m + n then 16 * ?cap else 4 * ?cap"
  have small: "?cap < 2 ^ 58" and le: "mb_size m + n \<le> 4 * ?cap"
    using room False mb_wf_size [OF wf] by (auto simp: mb_room_def split: if_splits)
  then have pos: "0 < ?cap" using False by (cases ?cap) auto
  have big: "mb_size m + n < 2 ^ 63" and fit: "?lu < 2 ^ 64"
    using le small by auto
  have loop: "mb_expand_loop (of_nat ?cap) (of_nat (mb_size m)) (of_nat n) = Some (of_nat ?lu)"
    by (rule mb_expand_loop_eq [OF pos small big])
  have "unat (of_nat ?lu :: u64) = ?lu"
    using fit by (simp add: unat_of_nat del: of_nat_mult)
  moreover have grow: "?cap \<le> ?lu" by simp
  obtain m' where m': "mb_Resize ?lu m = Some m'" "mb_wf m'" "mb_content m' = mb_content m"
      "mb_size m' = mb_size m" "mb_capacity m' = ?lu"
    using mb_Resize_ok [OF wf grow] by blast
  ultimately have "mb_Expand n m = Some m'"
    using False loop by (simp add: mb_Expand_def)
  with m' le show ?thesis by auto
qed

lemma mb_Write_ok:
  assumes wf: "mb_wf m" and room: "length bs \<le> mb_room m"
  shows "\<exists>m'. mb_Write bs m = Some (length bs, m') \<and> mb_wf m' \<and>
           mb_content m' = mb_content m @ bs \<and> mb_room m - length bs \<le> mb_room m'"
proof -
  obtain m1 where m1: "mb_Expand (length bs) m = Some m1" "mb_wf m1" "mb_content m1 = mb_content m"
      "mb_size m1 = mb_size m" "mb_size m + length bs \<le> mb_capacity m1"
      "m1 = m \<or> 4 * mb_capacity m \<le> mb_capacity m1"
    using mb_Expand_ok [OF wf room] by blast
  obtain m2 where m2: "mb_compact (length bs) m1 = Some m2" "mb_wf m2" "mb_content m2 = mb_content m"
      "mb_size m2 = mb_size m" "mb_capacity m2 = mb_capacity m1"
      "mb_write m2 + length bs \<le> mb_capacity m2"
    using mb_compact_ok [OF m1(2), of "length bs"] m1(3-5) by auto
  obtain mem' where mem': "poke (mb_write m2) bs (mb_mem m2) = Some mem'"
    using m2(2,6) by (auto simp: poke_def mb_wf_def)
  let ?m' = "m2\<lparr>mb_mem := mem', mb_write := mb_write m2 + length bs, mb_size := mb_size m2 + length bs\<rparr>"
  have "mb_Write bs m = Some (length bs, ?m')"
    using m1(1) m2(1) mem' by (simp add: mb_Write_def)
  moreover have "mb_wf ?m'"
    using m2(2,6) length_poke [OF mem'] by (auto simp: mb_wf_def)
  moreover have "mb_content ?m' = mb_content m @ bs"
  proof -
    have rs: "mb_read m2 + mb_size m2 = mb_write m2" using m2(2) by (simp add: mb_wf_def)
    have "mb_content ?m' = peek (mb_read m2) (mb_size m2) mem' @ peek (mb_write m2) (length bs) mem'"
      by (simp add: mb_content_def peek_append rs)
    also have "\<dots> = peek (mb_read m2) (mb_size m2) (mb_mem m2) @ bs"
      using peek_poke_same [OF mem'] peek_poke_before [OF mem', of "mb_read m2" "mb_size m2"] rs
      by simp
    finally show ?thesis using m2(3) by (simp add: mb_content_def)
  qed
  moreover have "mb_room m - length bs \<le> mb_room ?m'"
    using m1(6) m2(4,5) by (auto simp: mb_room_def)
  ultimately show ?thesis by blast
qed

text \<open>A write past the room of the block goes beyond the memory the block owns.\<close>

lemma mb_Write_outside:
  assumes wf: "mb_wf m" and small: "mb_capacity m < 2 ^ 58" "mb_size m + length bs < 2 ^ 63"
    and room: "mb_room m < length bs"
  shows "mb_Write bs m = None"
proof (cases "mb_capacity m = 0")
  case True
  then have m: "mb_mem m = []" "mb_size m = 0" "mb_read m = 0" "mb_write m = 0"
    using wf by (auto simp: mb_wf_def)
  have n: "0 < length bs" using room by (cases bs) auto
  have "mb_expand_loop (of_nat 0) (of_nat 0) (of_nat (length bs)) = Some (of_nat 0)"
    using mb_expand_loop_step [of 0 0 "length bs"] n small by simp
  then have "mb_Expand (length bs) m = Some m"
    using True m n by (simp add: mb_Expand_def mb_Resize_def)
  then show ?thesis
    using n m by (simp add: mb_Write_def mb_compact_def poke_def peek_def)
next
  case False
  have gt: "4 * mb_capacity m < mb_size m + length bs"
    using room small mb_wf_size [OF wf] by (simp add: mb_room_def)
  have grow: "mb_capacity m \<le> 4 * mb_capacity m" by simp
  obtain m1 where m1: "mb_Resize (4 * mb_capacity m) m = Some m1" "mb_wf m1"
      "mb_size m1 = mb_size m" "mb_capacity m1 = 4 * mb_capacity m"
    using mb_Resize_ok [OF wf grow] by blast
  have "mb_expand_loop (of_nat (mb_capacity m)) (of_nat (mb_size m)) (of_nat (length bs)) =
      Some (of_nat (4 * mb_capacity m))"
    using mb_expand_loop_step [of "mb_capacity m" "mb_size m" "length bs"] gt small
    by (simp split: if_splits)
  moreover have "unat (of_nat (4 * mb_capacity m) :: u64) = 4 * mb_capacity m"
    using small by (simp add: unat_of_nat del: of_nat_mult)
  ultimately have "mb_Expand (length bs) m = Some m1"
    using gt m1(1) by (simp add: mb_Expand_def)
  then show ?thesis
    using m1 gt
    by (cases "mb_compact (length bs) m1")
      (auto simp: mb_Write_def mb_compact_def poke_def mb_wf_def split: if_splits)
qed

subsection \<open>A block is a byte queue\<close>

text \<open>
  What the users of a block (the message writers and readers) rely on: bytes come out in the
  order they went in, and a write that fits in the room succeeds.
\<close>

locale byte_queue =
  fixes content :: "'b \<Rightarrow> string"
    and room :: "'b \<Rightarrow> nat"
    and ok :: "'b \<Rightarrow> bool"
    and put :: "string \<Rightarrow> 'b \<Rightarrow> 'b option"
    and take_out :: "nat \<Rightarrow> 'b \<Rightarrow> string \<times> 'b"
  assumes put_ok: "ok b \<Longrightarrow> length bs \<le> room b \<Longrightarrow>
      \<exists>b'. put bs b = Some b' \<and> ok b' \<and> content b' = content b @ bs \<and> room b - length bs \<le> room b'"
    and take_ok: "ok b \<Longrightarrow> take_out n b = (out, b') \<Longrightarrow>
      ok b' \<and> out = take n (content b) \<and> content b' = drop n (content b)"
begin

primrec put_all :: "string list \<Rightarrow> 'b \<Rightarrow> 'b option" where
  "put_all [] b = Some b"
| "put_all (x # xs) b = Option.bind (put x b) (put_all xs)"

lemma put_all_ok:
  "ok b \<Longrightarrow> length (concat xs) \<le> room b \<Longrightarrow>
   \<exists>b'. put_all xs b = Some b' \<and> ok b' \<and> content b' = content b @ concat xs"
proof (induction xs arbitrary: b)
  case Nil
  then show ?case by simp
next
  case (Cons x xs)
  then obtain b1 where "put x b = Some b1" "ok b1" "content b1 = content b @ x"
      "room b - length x \<le> room b1"
    using put_ok [of b x] by auto
  with Cons.IH [of b1] Cons.prems show ?case by auto
qed

lemma put_all_take_out:
  assumes "ok b" "content b = []" "length (concat xs) \<le> room b" "length (concat xs) \<le> n"
  shows "\<exists>b' b''. put_all xs b = Some b' \<and> take_out n b' = (concat xs, b'') \<and> content b'' = []"
proof -
  obtain b' where b': "put_all xs b = Some b'" "ok b'" "content b' = concat xs"
    using put_all_ok [OF assms(1,3)] assms(2) by auto
  obtain out b'' where "take_out n b' = (out, b'')" by force
  with take_ok [OF b'(2) this] b' assms(4) show ?thesis by auto
qed

end

definition mb_put_bytes :: "string \<Rightarrow> memblock \<Rightarrow> memblock option" where
  "mb_put_bytes bs m = map_option snd (mb_Write bs m)"

definition mb_take_bytes :: "nat \<Rightarrow> memblock \<Rightarrow> string \<times> memblock" where
  "mb_take_bytes n m = (case mb_Read n m of (r, m') \<Rightarrow> (case r of Inl _ \<Rightarrow> [] | Inr bs \<Rightarrow> bs, m'))"

lemma mb_Read_content:
  assumes "mb_wf m" "mb_take_bytes n m = (out, m')"
  shows "mb_wf m' \<and> out = take n (mb_content m) \<and> mb_content m' = drop n (mb_content m)"
  using assms
  by (auto simp: mb_take_bytes_def mb_Read_def mb_wf_def mb_content_def peek_def drop_take
      take_all_iff add.commute split: if_splits)

interpretation mb: byte_queue mb_content mb_room mb_wf mb_put_bytes mb_take_bytes
proof unfold_locales
  fix b :: memblock and bs :: string
  assume "mb_wf b" "length bs \<le> mb_room b"
  from mb_Write_ok [OF this] show "\<exists>b'. mb_put_bytes bs b = Some b' \<and> mb_wf b' \<and>
      mb_content b' = mb_content b @ bs \<and> mb_room b - length bs \<le> mb_room b'"
    by (auto simp: mb_put_bytes_def)
next
  fix b n out b'
  assume "mb_wf b" "mb_take_bytes n b = (out, b')"
  then show "mb_wf b' \<and> out = take n (mb_content b) \<and> mb_content b' = drop n (mb_content b)"
    by (rule mb_Read_content)
qed

subsection \<open>Numbers in a block\<close>

lemma char_code_byte_of [simp]: "char_code (byte_of w) = unat (ucast w :: u8)"
proof -
  have "unat (ucast w :: u8) < 256"
    using unsigned_less [of "ucast w :: u8", where 'a = nat] by simp
  then show ?thesis by (simp add: char_code_def byte_of_def)
qed

lemma mb_put_append:
  assumes "mb_wf m" "mb_write m + length bs \<le> mb_capacity m"
  shows "mb_content (snd (mb_SetWrite (length bs)
           (m\<lparr>mb_mem := take (mb_write m) (mb_mem m) @ bs @ drop (mb_write m + length bs) (mb_mem m)\<rparr>)))
         = mb_content m @ bs"
  using assms
  by (auto simp: mb_SetWrite_def mb_content_def peek_def mb_wf_def take_drop
      add.commute [of "mb_size m"])

lemma mb_Write8_appends:
  assumes "mb_wf m" "mb_write m + 1 \<le> mb_capacity m"
  shows "\<exists>m'. mb_Write8 v m = Some (1, m') \<and> mb_content m' = mb_content m @ [byte_of v]"
proof -
  have "mb_Expand 1 m = Some m" using assms by (simp add: mb_Expand_def mb_wf_def)
  with assms mb_put_append [OF assms(1), of "[byte_of v]"] show ?thesis
    by (simp add: mb_Write8_def mb_put_def poke_def mb_wf_def)
qed

lemma mb_Write16_appends:
  assumes "mb_wf m" "mb_write m + 2 \<le> mb_capacity m"
  shows "\<exists>m'. mb_Write16 v m = Some (2, m') \<and>
           mb_content m' = mb_content m @ [byte_of (drop_bit 8 v), byte_of v]"
proof -
  let ?w = "mb_write m" let ?mem = "mb_mem m" let ?hi = "byte_of (drop_bit 8 v)" let ?lo = "byte_of v"
  have "mb_Expand 2 m = Some m" using assms by (simp add: mb_Expand_def mb_wf_def)
  moreover have len: "?w + 2 \<le> length ?mem" using assms by (simp add: mb_wf_def)
  moreover have "take ?w (take (Suc ?w) ?mem @ ?lo # drop (?w + 2) ?mem) = take ?w ?mem"
    using len by (simp add: min_def)
  moreover have "drop (Suc ?w) (take (Suc ?w) ?mem @ ?lo # drop (?w + 2) ?mem) = ?lo # drop (?w + 2) ?mem"
    using len by simp
  ultimately have "mb_Write16 v m = Some (2, snd (mb_SetWrite 2
      (m\<lparr>mb_mem := take ?w ?mem @ [?hi, ?lo] @ drop (?w + 2) ?mem\<rparr>)))"
    by (simp add: mb_Write16_def mb_put_def poke_def)
  with mb_put_append [OF assms(1), of "[?hi, ?lo]"] assms show ?thesis
    by (simp add: numeral_2_eq_2)
qed

text \<open>
  C31. What \<open>Write\<close> of a text does to a well-formed block, below the sizes where the arithmetic of
  \<open>Expand\<close> wraps around. A text that fits into four times the capacity, less the bytes held, is
  appended to what the block holds, the block growing and compacting as needed. A longer one
  is copied beyond the memory of the block: \<open>Expand\<close> quadruples the capacity once, whatever was
  asked for.
\<close>

theorem memblock_write_exact:
  assumes "mb_wf m" "mb_capacity m < 2 ^ 58" "mb_size m + length bs < 2 ^ 63"
  shows "if length bs \<le> 4 * mb_capacity m - mb_size m
         then \<exists>m'. mb_Write bs m = Some (length bs, m') \<and> mb_wf m' \<and> mb_content m' = mb_content m @ bs
         else mb_Write bs m = None"
  using mb_Write_ok [OF assms(1), of bs] mb_Write_outside [OF assms] assms(2) by (auto simp: mb_room_def)

theorem memblock_write_exact_witness:
  "(\<exists>m'. mb_Write ''abc'' (mb_new 2) = Some (length ''abc'', m') \<and> mb_content m' = ''abc'') \<and>
   mb_Write ''abcdefghi'' (mb_new 2) = None"
proof -
  have "mb_capacity (mb_new 2) = 2" "mb_size (mb_new 2) = 0" by (simp_all add: mb_new_def mb_Init_def mb_null_def)
  then show ?thesis
    using memblock_write_exact [of "mb_new 2" "''abc''"] memblock_write_exact [of "mb_new 2" "''abcdefghi''"]
      mb_wf_new [of 2] by simp blast
qed

text \<open>Several writes one after the other.\<close>

primrec mb_writes :: "string list \<Rightarrow> memblock \<Rightarrow> memblock option" where
  "mb_writes [] m = Some m"
| "mb_writes (x # xs) m = do { (_, m) \<leftarrow> mb_Write x m; mb_writes xs m }"

lemma put_all_writes: "mb.put_all xs m = mb_writes xs m"
  by (induction xs arbitrary: m) (auto simp: mb_put_bytes_def split: Option.bind_splits)

text \<open>
  C32. A block is a queue of bytes: whatever sequence of texts is written into an empty block within
  its room, one \<open>Read\<close> that asks for at least as many bytes returns them all, in the order they
  were written, and leaves the block empty.
\<close>

theorem memblock_fifo:
  assumes "mb_wf m" "mb_content m = []" "length (concat xs) \<le> mb_room m" "length (concat xs) \<le> n" "concat xs \<noteq> []"
  shows "\<exists>m1 m2. mb_writes xs m = Some m1 \<and> mb_Read n m1 = (Inr (concat xs), m2) \<and> mb_content m2 = []"
proof -
  from mb.put_all_take_out [OF assms(1-4)] obtain m1 m2 where m1: "mb_writes xs m = Some m1"
    "mb_take_bytes n m1 = (concat xs, m2)" "mb_content m2 = []" by (auto simp: put_all_writes)
  obtain r where "mb_Read n m1 = (r, m2)" using m1(2) by (cases "mb_Read n m1") (simp add: mb_take_bytes_def)
  with m1 assms(5) show ?thesis by (cases r) (auto simp: mb_take_bytes_def)
qed

theorem memblock_fifo_witness:
  "\<exists>m1 m2. mb_writes [''ab'', ''cde''] (mb_new 2) = Some m1 \<and> mb_Read 8 m1 = (Inr ''abcde'', m2) \<and> mb_content m2 = []"
  using memblock_fifo [of "mb_new 2" "[''ab'', ''cde'']" 8] mb_wf_new [of 2]
  by (simp add: mb_room_def mb_new_def mb_Init_def mb_null_def)

lemma byte_of_cong: "(\<And>k. k < 8 \<Longrightarrow> bit v k = bit w k) \<Longrightarrow> byte_of v = byte_of w"
  unfolding byte_of_def by (rule arg_cong [where f = "\<lambda>x. char_of (unat x)"], rule bit_word_eqI) (simp add: bit_simps)

lemma bit_24: "bit (0xFFFFFF :: u32) k \<longleftrightarrow> k < 24"
proof -
  have "(0xFFFFFF :: u32) = mask 24" by (simp add: mask_eq_exp_minus_1)
  then show ?thesis by (simp only: bit_mask_iff) auto
qed

lemma low_bytes:
  fixes v :: u32
  assumes "j \<le> 16"
  shows "byte_of (drop_bit j v) = byte_of (drop_bit j (v AND 0xFFFFFF))"
proof (rule byte_of_cong)
  fix k :: nat
  assume "k < 8"
  then have "j + k < 24" using assms by simp
  then show "bit (drop_bit j v) k = bit (drop_bit j (v AND 0xFFFFFF)) k"
    by (simp only: bit_drop_bit_eq bit_and_iff o_def bit_24 simp_thms)
qed

text \<open>
  \<open>Write\<close> of a 32-bit number does not store the number: its highest byte is never looked at,
  so that a number and the number without that byte give the same block.
\<close>

theorem memblock_write32_drops_high_byte: "mb_Write32 v m = mb_Write32 (v AND 0xFFFFFF) m"
proof -
  have "byte_of v = byte_of (v AND 0xFFFFFF)" using low_bytes [of 0 v] by simp
  moreover have "byte_of (drop_bit 8 v) = byte_of (drop_bit 8 (v AND 0xFFFFFF))" by (rule low_bytes) simp
  moreover have "byte_of (drop_bit 8 (drop_bit 8 v)) = byte_of (drop_bit 8 (drop_bit 8 (v AND 0xFFFFFF)))"
    using low_bytes [of 16 v] by (simp add: drop_bit_drop_bit)
  ultimately show ?thesis by (simp only: mb_Write32_def Let_def)
qed

end
