(* ===== verification/PLease_Msg.thy ===== *)
theory PLease_Msg
  imports Text_Codec Memblock
begin

section \<open>Messages of the lease protocol\<close>

text \<open>
  The model of \<open>PLeaseMsg\<close> (\<^verbatim>\<open>src/PL/PLeaseMsg.h\<close>, \<^verbatim>\<open>PLeaseMsg.cpp\<close>). A message object is
  reused by its owner: a constructor method such as \<open>PrepareRequest\<close>, and \<open>Read\<close>, overwrite
  the fields the message type carries and leave the others as they were, so each is a function
  from the old object to the new one.
\<close>

record plmsg =
  m_type :: char
  m_nodeID :: u32
  m_proposalID :: u64
  m_acceptedProposalID :: u64
  m_leaseOwner :: u32
  m_duration :: u32
  m_localExpireTime :: u64
  m_paxosID :: u64

definition PLEASE_PREPARE_REQUEST :: char where "PLEASE_PREPARE_REQUEST = CHR ''1''"
definition PLEASE_PREPARE_REJECTED :: char where "PLEASE_PREPARE_REJECTED = CHR ''2''"
definition PLEASE_PREPARE_PREVIOUSLY_ACCEPTED :: char where
  "PLEASE_PREPARE_PREVIOUSLY_ACCEPTED = CHR ''3''"
definition PLEASE_PREPARE_CURRENTLY_OPEN :: char where "PLEASE_PREPARE_CURRENTLY_OPEN = CHR ''4''"
definition PLEASE_PROPOSE_REQUEST :: char where "PLEASE_PROPOSE_REQUEST = CHR ''5''"
definition PLEASE_PROPOSE_REJECTED :: char where "PLEASE_PROPOSE_REJECTED = CHR ''6''"
definition PLEASE_PROPOSE_ACCEPTED :: char where "PLEASE_PROPOSE_ACCEPTED = CHR ''7''"
definition PLEASE_LEARN_CHOSEN :: char where "PLEASE_LEARN_CHOSEN = CHR ''8''"

lemmas pl_types =
  PLEASE_PREPARE_REQUEST_def PLEASE_PREPARE_REJECTED_def PLEASE_PREPARE_PREVIOUSLY_ACCEPTED_def
  PLEASE_PREPARE_CURRENTLY_OPEN_def PLEASE_PROPOSE_REQUEST_def PLEASE_PROPOSE_REJECTED_def
  PLEASE_PROPOSE_ACCEPTED_def PLEASE_LEARN_CHOSEN_def

subsection \<open>Filling in a message\<close>

definition pm_Init :: "char \<Rightarrow> u32 \<Rightarrow> plmsg \<Rightarrow> plmsg" where
  "pm_Init ty node m = m\<lparr>m_type := ty, m_nodeID := node\<rparr>"

definition PrepareRequest :: "u32 \<Rightarrow> u64 \<Rightarrow> u64 \<Rightarrow> plmsg \<Rightarrow> plmsg" where
  "PrepareRequest node prop paxos m =
     (pm_Init PLEASE_PREPARE_REQUEST node m)\<lparr>m_proposalID := prop, m_paxosID := paxos\<rparr>"

definition PrepareRejected :: "u32 \<Rightarrow> u64 \<Rightarrow> plmsg \<Rightarrow> plmsg" where
  "PrepareRejected node prop m = (pm_Init PLEASE_PREPARE_REJECTED node m)\<lparr>m_proposalID := prop\<rparr>"

definition PreparePreviouslyAccepted :: "u32 \<Rightarrow> u64 \<Rightarrow> u64 \<Rightarrow> u32 \<Rightarrow> u32 \<Rightarrow> plmsg \<Rightarrow> plmsg" where
  "PreparePreviouslyAccepted node prop acc owner dur m =
     (pm_Init PLEASE_PREPARE_PREVIOUSLY_ACCEPTED node m)
       \<lparr>m_proposalID := prop, m_acceptedProposalID := acc, m_leaseOwner := owner, m_duration := dur\<rparr>"

definition PrepareCurrentlyOpen :: "u32 \<Rightarrow> u64 \<Rightarrow> plmsg \<Rightarrow> plmsg" where
  "PrepareCurrentlyOpen node prop m =
     (pm_Init PLEASE_PREPARE_CURRENTLY_OPEN node m)\<lparr>m_proposalID := prop\<rparr>"

definition ProposeRequest :: "u32 \<Rightarrow> u64 \<Rightarrow> u32 \<Rightarrow> u32 \<Rightarrow> plmsg \<Rightarrow> plmsg" where
  "ProposeRequest node prop owner dur m =
     (pm_Init PLEASE_PROPOSE_REQUEST node m)
       \<lparr>m_proposalID := prop, m_leaseOwner := owner, m_duration := dur\<rparr>"

definition ProposeRejected :: "u32 \<Rightarrow> u64 \<Rightarrow> plmsg \<Rightarrow> plmsg" where
  "ProposeRejected node prop m = (pm_Init PLEASE_PROPOSE_REJECTED node m)\<lparr>m_proposalID := prop\<rparr>"

definition ProposeAccepted :: "u32 \<Rightarrow> u64 \<Rightarrow> plmsg \<Rightarrow> plmsg" where
  "ProposeAccepted node prop m = (pm_Init PLEASE_PROPOSE_ACCEPTED node m)\<lparr>m_proposalID := prop\<rparr>"

definition LearnChosen :: "u32 \<Rightarrow> u32 \<Rightarrow> u32 \<Rightarrow> u64 \<Rightarrow> plmsg \<Rightarrow> plmsg" where
  "LearnChosen node owner dur expire m =
     (pm_Init PLEASE_LEARN_CHOSEN node m)
       \<lparr>m_leaseOwner := owner, m_duration := dur, m_localExpireTime := expire\<rparr>"

definition IsRequest :: "plmsg \<Rightarrow> bool" where
  "IsRequest m \<longleftrightarrow> m_type m = PLEASE_PROPOSE_REQUEST \<or> m_type m = PLEASE_PREPARE_REQUEST"

definition IsPrepareResponse :: "plmsg \<Rightarrow> bool" where
  "IsPrepareResponse m \<longleftrightarrow>
     m_type m = PLEASE_PREPARE_REJECTED \<or>
     m_type m = PLEASE_PREPARE_PREVIOUSLY_ACCEPTED \<or>
     m_type m = PLEASE_PREPARE_CURRENTLY_OPEN"

definition IsProposeResponse :: "plmsg \<Rightarrow> bool" where
  "IsProposeResponse m \<longleftrightarrow>
     m_type m = PLEASE_PROPOSE_REJECTED \<or> m_type m = PLEASE_PROPOSE_ACCEPTED"

definition IsResponse :: "plmsg \<Rightarrow> bool" where
  "IsResponse m \<longleftrightarrow> IsPrepareResponse m \<or> IsProposeResponse m"

lemmas pm_constructors =
  pm_Init_def PrepareRequest_def PrepareRejected_def PreparePreviouslyAccepted_def
  PrepareCurrentlyOpen_def ProposeRequest_def ProposeRejected_def ProposeAccepted_def
  LearnChosen_def

lemmas pm_predicates = IsRequest_def IsPrepareResponse_def IsProposeResponse_def IsResponse_def

subsection \<open>Reading\<close>

text \<open>Where the i-th scanned value goes; a value of another shape is not produced by the format.\<close>

fun st_type :: "fmt_val \<Rightarrow> plmsg \<Rightarrow> plmsg" where
  "st_type (FChar c) m = m\<lparr>m_type := c\<rparr>" | "st_type _ m = m"
fun st_nodeID :: "fmt_val \<Rightarrow> plmsg \<Rightarrow> plmsg" where
  "st_nodeID (FUInt v) m = m\<lparr>m_nodeID := v\<rparr>" | "st_nodeID _ m = m"
fun st_proposalID :: "fmt_val \<Rightarrow> plmsg \<Rightarrow> plmsg" where
  "st_proposalID (FU64 v) m = m\<lparr>m_proposalID := v\<rparr>" | "st_proposalID _ m = m"
fun st_acceptedProposalID :: "fmt_val \<Rightarrow> plmsg \<Rightarrow> plmsg" where
  "st_acceptedProposalID (FU64 v) m = m\<lparr>m_acceptedProposalID := v\<rparr>"
| "st_acceptedProposalID _ m = m"
fun st_leaseOwner :: "fmt_val \<Rightarrow> plmsg \<Rightarrow> plmsg" where
  "st_leaseOwner (FUInt v) m = m\<lparr>m_leaseOwner := v\<rparr>" | "st_leaseOwner _ m = m"
fun st_duration :: "fmt_val \<Rightarrow> plmsg \<Rightarrow> plmsg" where
  "st_duration (FUInt v) m = m\<lparr>m_duration := v\<rparr>" | "st_duration _ m = m"
fun st_localExpireTime :: "fmt_val \<Rightarrow> plmsg \<Rightarrow> plmsg" where
  "st_localExpireTime (FU64 v) m = m\<lparr>m_localExpireTime := v\<rparr>" | "st_localExpireTime _ m = m"
fun st_paxosID :: "fmt_val \<Rightarrow> plmsg \<Rightarrow> plmsg" where
  "st_paxosID (FU64 v) m = m\<lparr>m_paxosID := v\<rparr>" | "st_paxosID _ m = m"

fun pm_store :: "(fmt_val \<Rightarrow> plmsg \<Rightarrow> plmsg) list \<Rightarrow> fmt_val list \<Rightarrow> plmsg \<Rightarrow> plmsg" where
  "pm_store (f # fs) (v # vs) m = pm_store fs vs (f v m)"
| "pm_store _ _ m = m"

text \<open>The format and the targets that the switch on the first byte chooses.\<close>

definition pm_read_format :: "char \<Rightarrow> (string \<times> (fmt_val \<Rightarrow> plmsg \<Rightarrow> plmsg) list) option" where
  "pm_read_format c =
     (if c = PLEASE_PREPARE_REQUEST
        then Some (''%c:%u:%U:%U'', [st_type, st_nodeID, st_proposalID, st_paxosID])
      else if c = PLEASE_PREPARE_REJECTED
        then Some (''%c:%u:%U'', [st_type, st_nodeID, st_proposalID])
      else if c = PLEASE_PREPARE_PREVIOUSLY_ACCEPTED
        then Some (''%c:%u:%U:%U:%u:%u'', [st_type, st_nodeID, st_proposalID, st_acceptedProposalID,
                                          st_leaseOwner, st_duration])
      else if c = PLEASE_PREPARE_CURRENTLY_OPEN
        then Some (''%c:%u:%U'', [st_type, st_nodeID, st_proposalID])
      else if c = PLEASE_PROPOSE_REQUEST
        then Some (''%c:%u:%U:%u:%u'', [st_type, st_nodeID, st_proposalID, st_leaseOwner, st_duration])
      else if c = PLEASE_PROPOSE_REJECTED
        then Some (''%c:%u:%U'', [st_type, st_nodeID, st_proposalID])
      else if c = PLEASE_PROPOSE_ACCEPTED
        then Some (''%c:%u:%U'', [st_type, st_nodeID, st_proposalID])
      else if c = PLEASE_LEARN_CHOSEN
        then Some (''%c:%u:%u:%u:%U'', [st_type, st_nodeID, st_leaseOwner, st_duration,
                                       st_localExpireTime])
      else None)"

text \<open>
  \<open>data\<close> is the readable part of the block: \<open>GetSize()\<close> bytes from \<open>GetRead()\<close>. The pair is
  the result and the message object, which a failed read may have changed in part.
\<close>

definition pm_Read :: "string \<Rightarrow> plmsg \<Rightarrow> bool \<times> plmsg" where
  "pm_Read data m =
     (if length data < 1 then (False, m)
      else case pm_read_format (hd data) of
             None \<Rightarrow> (False, m)
           | Some (fmt, cells) \<Rightarrow>
               (case snreadf (\<lambda>_. 0) data fmt of
                  ScanAbort \<Rightarrow> (False, m)
                | Scan outs read \<Rightarrow> (read = int (length data), pm_store cells outs m)))"

subsection \<open>Writing\<close>

abbreviation u32_text :: "u32 \<Rightarrow> string" where "u32_text w \<equiv> dec (unat w)"
abbreviation u64_text :: "u64 \<Rightarrow> string" where "u64_text w \<equiv> dec (unat w)"

text \<open>The text that \<open>snprintf\<close> produces for each message type.\<close>

definition pm_text :: "plmsg \<Rightarrow> string option" where
  "pm_text m =
     (let start = m_type m # CHR '':'' # u32_text (m_nodeID m);
          head = start @ CHR '':'' # u64_text (m_proposalID m)
      in if m_type m = PLEASE_PREPARE_REQUEST
           then Some (head @ CHR '':'' # u64_text (m_paxosID m))
         else if m_type m = PLEASE_PREPARE_REJECTED then Some head
         else if m_type m = PLEASE_PREPARE_PREVIOUSLY_ACCEPTED
           then Some (head @ CHR '':'' # u64_text (m_acceptedProposalID m)
                       @ CHR '':'' # u32_text (m_leaseOwner m) @ CHR '':'' # u32_text (m_duration m))
         else if m_type m = PLEASE_PREPARE_CURRENTLY_OPEN then Some head
         else if m_type m = PLEASE_PROPOSE_REQUEST
           then Some (head @ CHR '':'' # u32_text (m_leaseOwner m)
                       @ CHR '':'' # u32_text (m_duration m))
         else if m_type m = PLEASE_PROPOSE_REJECTED then Some head
         else if m_type m = PLEASE_PROPOSE_ACCEPTED then Some head
         else if m_type m = PLEASE_LEARN_CHOSEN
           then Some (start @ CHR '':'' # u32_text (m_leaseOwner m)
                       @ CHR '':'' # u32_text (m_duration m)
                       @ CHR '':'' # u64_text (m_localExpireTime m))
         else None)"

text \<open>\<open>snprintf(p, size, \<dots>)\<close> stores at most \<open>size - 1\<close> characters and a terminating zero.\<close>

definition snprintf_at :: "nat \<Rightarrow> string \<Rightarrow> nat \<Rightarrow> string \<Rightarrow> string option" where
  "snprintf_at sz text pos mem =
     (if sz = 0 then Some mem else poke pos (take (sz - 1) text @ [CHR 0x00]) mem)"

definition pm_Write :: "plmsg \<Rightarrow> memblock \<Rightarrow> (bool \<times> memblock) option" where
  "pm_Write m blk =
     (case pm_text m of
        None \<Rightarrow> Some (False, blk)
      | Some text \<Rightarrow>
          do { mem' \<leftarrow> snprintf_at (mb_GetDirectSpace blk) text (mb_write blk) (mb_mem blk);
               Some (text \<noteq> [], snd (mb_SetWrite (length text) (blk\<lparr>mb_mem := mem'\<rparr>))) })"

subsection \<open>What a message carries\<close>

text \<open>The receiver's object after a message of the sender's object \<open>m\<close> has been read into it.\<close>

definition pm_carry :: "plmsg \<Rightarrow> plmsg \<Rightarrow> plmsg" where
  "pm_carry m m0 =
     (let base = m0\<lparr>m_type := m_type m, m_nodeID := m_nodeID m\<rparr>
      in if m_type m = PLEASE_LEARN_CHOSEN
         then base\<lparr>m_leaseOwner := m_leaseOwner m, m_duration := m_duration m,
                   m_localExpireTime := m_localExpireTime m\<rparr>
         else let base = base\<lparr>m_proposalID := m_proposalID m\<rparr>
              in if m_type m = PLEASE_PREPARE_REQUEST then base\<lparr>m_paxosID := m_paxosID m\<rparr>
                 else if m_type m = PLEASE_PREPARE_PREVIOUSLY_ACCEPTED
                 then base\<lparr>m_acceptedProposalID := m_acceptedProposalID m,
                           m_leaseOwner := m_leaseOwner m, m_duration := m_duration m\<rparr>
                 else if m_type m = PLEASE_PROPOSE_REQUEST
                 then base\<lparr>m_leaseOwner := m_leaseOwner m, m_duration := m_duration m\<rparr>
                 else base)"

lemma pm_text_types:
  "pm_text m = Some t \<Longrightarrow>
   m_type m \<in> {PLEASE_PREPARE_REQUEST, PLEASE_PREPARE_REJECTED, PLEASE_PREPARE_PREVIOUSLY_ACCEPTED,
     PLEASE_PREPARE_CURRENTLY_OPEN, PLEASE_PROPOSE_REQUEST, PLEASE_PROPOSE_REJECTED,
     PLEASE_PROPOSE_ACCEPTED, PLEASE_LEARN_CHOSEN}"
  by (auto simp: pm_text_def Let_def split: if_splits)

lemma pm_Read_text:
  assumes "pm_text m = Some t"
  shows "pm_Read t m0 = (True, pm_carry m m0)"
proof -
  note defs = pm_text_def pm_Read_def pm_read_format_def snreadf_def pl_types pm_carry_def Let_def
  have "pm_Read (the (pm_text m)) m0 = (True, pm_carry m m0)"
    using pm_text_types [OF assms] unfolding insert_iff empty_iff
    by (elim disjE FalseE) (simp_all add: defs wire_simps)
  with assms show ?thesis by simp
qed

lemma length_u32_text: "length (u32_text w) \<le> 10"
  by (rule length_dec_le) (use unsigned_less [of w, where 'a = nat] in simp_all)

lemma length_u64_text: "length (u64_text w) \<le> 20"
  by (rule length_dec_le) (use unsigned_less [of w, where 'a = nat] in simp_all)

lemma length_pm_text: "pm_text m = Some t \<Longrightarrow> 0 < length t \<and> length t \<le> 76"
  using length_u32_text [of "m_nodeID m"] length_u32_text [of "m_leaseOwner m"]
    length_u32_text [of "m_duration m"] length_u64_text [of "m_proposalID m"]
    length_u64_text [of "m_paxosID m"] length_u64_text [of "m_acceptedProposalID m"]
    length_u64_text [of "m_localExpireTime m"]
  by (auto simp: pm_text_def Let_def split: if_splits)

lemma pm_Write_block:
  assumes wf: "mb_wf blk" and t: "pm_text m = Some t"
    and room: "length t < mb_GetDirectSpace blk"
  shows "\<exists>blk'. pm_Write m blk = Some (True, blk') \<and> mb_wf blk' \<and>
           mb_content blk' = mb_content blk @ t"
proof -
  let ?w = "mb_write blk"
  have space: "?w + length t < length (mb_mem blk)"
    using room by (simp add: mb_GetDirectSpace_def)
  then obtain mem' where mem': "poke ?w (t @ [CHR 0x00]) (mb_mem blk) = Some mem'"
    by (auto simp: poke_def)
  let ?b = "snd (mb_SetWrite (length t) (blk\<lparr>mb_mem := mem'\<rparr>))"
  have b: "?b = blk\<lparr>mb_mem := mem', mb_write := ?w + length t, mb_size := mb_size blk + length t\<rparr>"
    using space length_poke [OF mem'] by (simp add: mb_SetWrite_def)
  have "pm_Write m blk = Some (True, ?b)"
    using t mem' room length_pm_text [OF t] by (simp add: pm_Write_def snprintf_at_def)
  moreover have "mb_wf ?b" using wf space length_poke [OF mem'] by (auto simp: b mb_wf_def)
  moreover have "mb_content ?b = mb_content blk @ t"
  proof -
    have rs: "mb_read blk + mb_size blk = ?w" using wf by (simp add: mb_wf_def)
    have "peek ?w (length t) mem' = t" by (rule peek_poke_prefix [OF mem'])
    then show ?thesis
      using peek_poke_before [OF mem', of "mb_read blk" "mb_size blk"] rs
      by (simp add: b mb_content_def peek_append)
  qed
  ultimately show ?thesis by blast
qed

text \<open>
  C24. Messages survive the wire. Every message of the eight types, written by \<open>PLeaseMsg::Write\<close>
  into an empty block with room for 77 bytes, is read back by \<open>PLeaseMsg::Read\<close> into any message
  object: the read succeeds and sets exactly the fields that the type carries to the sender's values.
\<close>

theorem lease_message_roundtrip:
  assumes "pm_text m \<noteq> None" "mb_wf blk" "mb_content blk = []" "76 < mb_GetDirectSpace blk"
  shows "\<exists>blk'. pm_Write m blk = Some (True, blk') \<and> pm_Read (mb_content blk') m0 = (True, pm_carry m m0)"
proof -
  obtain t where t: "pm_text m = Some t" using assms(1) by blast
  with pm_Write_block [OF assms(2) t] length_pm_text [OF t] pm_Read_text [OF t, of m0] assms(3,4)
  show ?thesis by auto
qed

theorem lease_message_roundtrip_witness:
  "\<exists>blk'. pm_Write (ProposeRequest 1 16777217 1 7000 \<lparr>m_type = CHR 0x00, m_nodeID = 0, m_proposalID = 0,
        m_acceptedProposalID = 0, m_leaseOwner = 0, m_duration = 0, m_localExpireTime = 0, m_paxosID = 0\<rparr>) (mb_new 77)
      = Some (True, blk') \<and>
    m_duration (snd (pm_Read (mb_content blk') \<lparr>m_type = CHR 0x00, m_nodeID = 0, m_proposalID = 0,
        m_acceptedProposalID = 0, m_leaseOwner = 0, m_duration = 0, m_localExpireTime = 0, m_paxosID = 0\<rparr>)) = 7000"
proof -
  let ?z = "\<lparr>m_type = CHR 0x00, m_nodeID = 0, m_proposalID = 0,
        m_acceptedProposalID = 0, m_leaseOwner = 0, m_duration = 0, m_localExpireTime = 0, m_paxosID = 0\<rparr>"
  let ?m = "ProposeRequest 1 16777217 1 7000 ?z"
  have "pm_text ?m \<noteq> None" by (simp add: pm_text_def Let_def pm_constructors pl_types)
  moreover have "76 < mb_GetDirectSpace (mb_new 77)"
    by (simp add: mb_GetDirectSpace_def mb_new_def mb_Init_def mb_null_def)
  ultimately show ?thesis
    using lease_message_roundtrip [of ?m "mb_new 77" ?z] mb_wf_new [of 77]
    by (auto simp: pm_carry_def pm_constructors pl_types Let_def)
qed

end
