(* ===== verification/Config_File.thy ===== *)
theory Config_File
  imports Text_Codec
begin

section \<open>The configuration file\<close>

text \<open>
  The model of \<^verbatim>\<open>src/PL/Config.cpp\<close>: the tokenizer \<open>ParseToken\<close>, the reader \<open>Config::Init\<close> and
  the lookups. A C string is the list of its characters, the terminating zero being the end of the
  list; \<open>std::string\<close> values, which hold zeros, are lists with them. The global queue \<open>vars\<close> is
  the list of its elements (\<^verbatim>\<open>Intrusive_Queue\<close> shows that the queue is such a list). Comparisons
  of a \<open>char\<close> with a constant are signed.
\<close>

definition signed_char :: "char \<Rightarrow> int" where
  "signed_char c = (if char_code c < 128 then int (char_code c) else int (char_code c) - 256)"

subsection \<open>Variables\<close>

record config_var =
  cv_name :: string
  cv_numelem :: int
  cv_value :: string

definition ConfigVar :: "string \<Rightarrow> config_var" where
  "ConfigVar name = \<lparr>cv_name = name, cv_numelem = 0, cv_value = []\<rparr>"

definition cv_append :: "string \<Rightarrow> config_var \<Rightarrow> config_var" where
  "cv_append v var = var\<lparr>cv_numelem := cv_numelem var + 1, cv_value := cv_value var @ v @ [CHR 0x00]\<rparr>"

text \<open>\<open>strncmp(name.c_str(), name_, name.length()) == 0\<close>\<close>

definition NameEquals :: "string \<Rightarrow> config_var \<Rightarrow> bool" where
  "NameEquals name var \<longleftrightarrow> take (length (cv_name var)) name = cv_name var"

definition c_str :: "string \<Rightarrow> string" where
  "c_str s = takeWhile (\<lambda>c. c \<noteq> CHR 0x00) s"

definition cv_GetIntValue :: "config_var \<Rightarrow> u32" where
  "cv_GetIntValue var =
     (let (v, nread) = strntoint64 (cv_value var); ret = (ucast v :: u32);
          len = length (cv_value var)
      in if 2 \<le> len \<and> nread = len - 2 then
           (let last = cv_value var ! (len - 2)
            in if last = CHR ''K'' then ret * 1000
               else if last = CHR ''M'' then ret * 1000 * 1000
               else if last = CHR ''G'' then ret * 1000 * 1000 * 1000
               else ret)
         else ret)"

definition cv_GetValue :: "config_var \<Rightarrow> string" where
  "cv_GetValue var = c_str (cv_value var)"

definition cv_GetBoolValue :: "bool \<Rightarrow> config_var \<Rightarrow> bool" where
  "cv_GetBoolValue defval var =
     (let v = c_str (cv_value var)
      in if v = ''yes'' \<or> v = ''true'' \<or> v = ''on'' then True
         else if v = ''no'' \<or> v = ''false'' \<or> v = ''off'' then False
         else defval)"

fun skip_strings :: "nat \<Rightarrow> string \<Rightarrow> string" where
  "skip_strings 0 p = p"
| "skip_strings (Suc n) p = skip_strings n (drop (length (c_str p) + 1) p)"

definition cv_GetListValue :: "int \<Rightarrow> string option \<Rightarrow> config_var \<Rightarrow> string option" where
  "cv_GetListValue num defval var =
     (if cv_numelem var \<le> num then defval
      else Some (c_str (skip_strings (nat num) (cv_value var))))"

subsection \<open>Tokens\<close>

text \<open>
  \<open>TokEnd\<close> is the NULL result. \<open>TokOverrun\<close> is the pointer behind the terminating zero that an
  unterminated quoted text yields; using it again reads outside the line.
\<close>

datatype token = TokEnd | Tok string string | TokOverrun string

fun skip_white :: "string \<Rightarrow> string option" where
  "skip_white [] = None"
| "skip_white (c # cs) =
     (if signed_char c \<le> 32 then (if c = CHR 0x0D \<or> c = CHR 0x0A then None else skip_white cs)
      else Some (c # cs))"

fun quoted :: "string \<Rightarrow> string \<Rightarrow> token" where
  "quoted acc [] = TokOverrun acc"
| "quoted acc (c # cs) = (if c = CHR 0x22 then Tok acc cs else quoted (acc @ [c]) cs)"

definition word_char :: "char \<Rightarrow> bool" where
  "word_char c \<longleftrightarrow> 32 < signed_char c \<and> c \<noteq> CHR '','' \<and> c \<noteq> CHR ''#'' \<and> c \<noteq> CHR ''=''"

definition ParseToken :: "string \<Rightarrow> token" where
  "ParseToken start =
     (if start = [] then TokEnd
      else case skip_white start of
        None \<Rightarrow> TokEnd
      | Some [] \<Rightarrow> TokEnd
      | Some (c # cs) \<Rightarrow>
          if c = CHR ''#'' then TokEnd
          else if c = CHR 0x22 then quoted [] cs
          else if c = CHR ''='' \<or> c = CHR '','' then Tok [c] cs
          else Tok (takeWhile word_char (c # cs)) (dropWhile word_char (c # cs)))"

text \<open>
  A comment runs to the end of the string (the test \<open>*p != '\r' || *p != '\n'\<close> always holds), and
  the jump back to the white space then meets the terminating zero.
\<close>

lemma skip_white_length: "skip_white s = Some (c # cs) \<Longrightarrow> length cs < length s"
  by (induction s) (auto split: if_splits)

lemma quoted_length: "quoted acc s = Tok t rest \<Longrightarrow> length rest \<le> length s"
  by (induction acc s rule: quoted.induct) (auto split: if_splits)

lemma skip_white_Some: "skip_white s = Some (c # cs) \<Longrightarrow> 32 < signed_char c"
  by (induction s) (auto split: if_splits)

lemma ParseToken_length: "ParseToken s = Tok t rest \<Longrightarrow> length rest < length s"
proof -
  assume tok: "ParseToken s = Tok t rest"
  then obtain c cs where sk: "skip_white s = Some (c # cs)" and ne: "c \<noteq> CHR ''#''"
    by (auto simp: ParseToken_def split: if_splits option.splits list.splits)
  note len = skip_white_length [OF sk] and gt = skip_white_Some [OF sk]
  consider (q) "quoted [] cs = Tok t rest" | (s) "rest = cs"
    | (w) "word_char c" "rest = dropWhile word_char (c # cs)"
    using tok sk ne gt by (auto simp: ParseToken_def word_char_def split: if_splits)
  then show ?thesis
  proof cases
    case q
    with len quoted_length [OF q] show ?thesis by simp
  next
    case s
    with len show ?thesis by simp
  next
    case w
    then have "length rest \<le> length cs" by (simp add: length_dropWhile_le)
    with len show ?thesis by simp
  qed
qed

subsection \<open>Reading the file\<close>

text \<open>
  The values of a variable: the tokens after the equals sign, a token that starts with a comma
  skipped. \<open>None\<close> when an unterminated quoted text makes the next call read outside the line.
\<close>

function parse_values :: "string \<Rightarrow> config_var \<Rightarrow> config_var option" where
  "parse_values p var =
     (case ParseToken p of
        TokEnd \<Rightarrow> Some var
      | TokOverrun t \<Rightarrow> None
      | Tok t rest \<Rightarrow>
          if t \<noteq> [] \<and> hd t = CHR '','' then parse_values rest var
          else parse_values rest (cv_append t var))"
  by pat_completeness auto
termination
  by (relation "measure (\<lambda>(p, var). length p)") (auto dest: ParseToken_length)

declare parse_values.simps [simp del]

datatype line_result = LineSkip | LineError | LineVar config_var

text \<open>One line of the file; an empty or commented line is skipped.\<close>

definition parse_line :: "string \<Rightarrow> line_result option" where
  "parse_line buffer =
     (case ParseToken buffer of
        TokEnd \<Rightarrow> Some LineSkip
      | TokOverrun t \<Rightarrow> None
      | Tok name p \<Rightarrow>
          (case ParseToken p of
             TokEnd \<Rightarrow> Some LineError
           | TokOverrun t \<Rightarrow> if t \<noteq> [] \<and> hd t = CHR ''='' then None else Some LineError
           | Tok t rest \<Rightarrow>
               if t = [] \<or> hd t \<noteq> CHR ''='' then Some LineError
               else map_option LineVar (parse_values rest (ConfigVar name))))"

text \<open>
  \<open>Config::Init\<close>: \<open>None\<close> for the lines is a file that cannot be opened, otherwise the strings that
  \<open>fgets\<close> returns. The pair is the result and the queue of variables.
\<close>

fun Config_lines :: "string list \<Rightarrow> config_var list \<Rightarrow> (bool \<times> config_var list) option" where
  "Config_lines [] vars = Some (True, vars)"
| "Config_lines (l # ls) vars =
     (case parse_line l of
        None \<Rightarrow> None
      | Some LineSkip \<Rightarrow> Config_lines ls vars
      | Some LineError \<Rightarrow> Some (False, vars)
      | Some (LineVar v) \<Rightarrow> Config_lines ls (vars @ [v]))"

definition Config_Init :: "string list option \<Rightarrow> config_var list \<Rightarrow> (bool \<times> config_var list) option" where
  "Config_Init file vars =
     (case file of None \<Rightarrow> Some (False, vars) | Some ls \<Rightarrow> Config_lines ls vars)"

definition Config_Shutdown :: "config_var list \<Rightarrow> config_var list" where
  "Config_Shutdown vars = []"

subsection \<open>Lookups\<close>

definition GetVar :: "config_var list \<Rightarrow> string \<Rightarrow> config_var option" where
  "GetVar vars name = find (NameEquals name) vars"

definition Config_GetIntValue :: "config_var list \<Rightarrow> string \<Rightarrow> u32 \<Rightarrow> u32" where
  "Config_GetIntValue vars name defval =
     (case GetVar vars name of None \<Rightarrow> defval | Some v \<Rightarrow> cv_GetIntValue v)"

definition Config_GetValue :: "config_var list \<Rightarrow> string \<Rightarrow> string \<Rightarrow> string" where
  "Config_GetValue vars name defval =
     (case GetVar vars name of None \<Rightarrow> defval | Some v \<Rightarrow> cv_GetValue v)"

definition Config_GetBoolValue :: "config_var list \<Rightarrow> string \<Rightarrow> bool \<Rightarrow> bool" where
  "Config_GetBoolValue vars name defval =
     (case GetVar vars name of None \<Rightarrow> defval | Some v \<Rightarrow> cv_GetBoolValue defval v)"

definition Config_GetListNum :: "config_var list \<Rightarrow> string \<Rightarrow> int" where
  "Config_GetListNum vars name =
     (case GetVar vars name of None \<Rightarrow> 0 | Some v \<Rightarrow> cv_numelem v)"

definition Config_GetListValue :: "config_var list \<Rightarrow> string \<Rightarrow> int \<Rightarrow> string option \<Rightarrow> string option" where
  "Config_GetListValue vars name num defval =
     (case GetVar vars name of None \<Rightarrow> defval | Some v \<Rightarrow> cv_GetListValue num defval v)"

subsection \<open>Facts\<close>

text \<open>Lists of elements are read back in the order they were appended.\<close>

lemma c_str_append: "CHR 0x00 \<notin> set v \<Longrightarrow> c_str (v @ CHR 0x00 # r) = v"
  unfolding c_str_def by (subst takeWhile_append2) auto

lemma skip_strings_nth:
  "\<forall>v \<in> set vs. CHR 0x00 \<notin> set v \<Longrightarrow> n < length vs \<Longrightarrow>
   c_str (skip_strings n (concat (map (\<lambda>v. v @ [CHR 0x00]) vs))) = vs ! n"
proof (induction n arbitrary: vs)
  case 0
  then show ?case by (cases vs) (auto simp: c_str_append)
next
  case (Suc n)
  then obtain v vs' where "vs = v # vs'" by (cases vs) auto
  with Suc show ?case by (simp add: c_str_append)
qed

lemma fold_cv_append:
  "fold cv_append vs var =
   var\<lparr>cv_numelem := cv_numelem var + int (length vs),
       cv_value := cv_value var @ concat (map (\<lambda>v. v @ [CHR 0x00]) vs)\<rparr>"
  by (induction vs arbitrary: var) (auto simp: cv_append_def)

lemma cv_GetListValue_nth:
  assumes "\<forall>v \<in> set vs. CHR 0x00 \<notin> set v" "n < length vs"
  shows "cv_GetListValue (int n) d (fold cv_append vs (ConfigVar name)) = Some (vs ! n)"
  using assms by (simp add: cv_GetListValue_def fold_cv_append ConfigVar_def skip_strings_nth)

text \<open>Words that the tokenizer takes whole, and the text of a line.\<close>

definition plain_word :: "string \<Rightarrow> bool" where
  "plain_word w \<longleftrightarrow> w \<noteq> [] \<and> hd w \<noteq> CHR 0x22 \<and> list_all word_char w"

lemma signed_char_values [simp]:
  "signed_char (CHR '' '') = 32" "signed_char (CHR 0x0A) = 10" "signed_char (CHR 0x00) = 0"
  "signed_char (CHR '','') = 44" "signed_char (CHR ''='') = 61"
  by (simp_all add: signed_char_def char_code_def)

lemma skip_white_word: "plain_word w \<Longrightarrow> skip_white (w @ rest) = Some (w @ rest)"
  by (cases w) (auto simp: plain_word_def word_char_def)

lemma ParseToken_space: "ParseToken (CHR '' '' # s) = ParseToken s"
  by (cases s) (simp_all add: ParseToken_def)

lemma ParseToken_word:
  assumes "plain_word w" "rest = [] \<or> \<not> word_char (hd rest)"
  shows "ParseToken (w @ rest) = Tok w rest"
proof -
  obtain c cs where w: "w = c # cs" using assms(1) by (cases w) (auto simp: plain_word_def)
  have wc: "\<forall>x \<in> set w. word_char x" using assms(1) by (simp add: plain_word_def list_all_iff)
  have "takeWhile word_char (w @ rest) = w" "dropWhile word_char (w @ rest) = rest"
    using wc assms(2) by (simp_all add: takeWhile_append dropWhile_append) (cases rest; simp)+
  moreover have "c \<noteq> CHR ''#''" "c \<noteq> CHR 0x22" "c \<noteq> CHR ''=''" "c \<noteq> CHR '',''"
    using wc w assms(1) by (auto simp: plain_word_def word_char_def)
  ultimately show ?thesis
    using skip_white_word [OF assms(1), of rest] w by (simp add: ParseToken_def)
qed

lemma not_word_chars [simp]:
  "\<not> word_char (CHR '' '')" "\<not> word_char (CHR '','')" "\<not> word_char (CHR ''='')" "\<not> word_char (CHR 0x0A)"
  "\<not> word_char (CHR 0x00)"
  by (simp_all add: word_char_def)

lemma ParseToken_signs:
  "ParseToken (CHR '','' # s) = Tok '','' s" "ParseToken (CHR ''='' # s) = Tok ''='' s"
  "ParseToken (CHR 0x0A # s) = TokEnd"
  by (simp_all add: ParseToken_def)

fun values_text :: "string list \<Rightarrow> string" where
  "values_text [] = [CHR 0x0A]"
| "values_text [v] = CHR '' '' # v @ [CHR 0x0A]"
| "values_text (v # vs) = CHR '' '' # v @ CHR '','' # values_text vs"

lemma parse_values_text:
  "\<forall>v \<in> set vs. plain_word v \<Longrightarrow> parse_values (values_text vs) var = Some (fold cv_append vs var)"
proof (induction vs arbitrary: var rule: values_text.induct)
  case 1
  show ?case by (subst parse_values.simps) (simp add: ParseToken_signs)
next
  case (2 v)
  then have v: "plain_word v" "hd v \<noteq> CHR '',''" by (auto simp: plain_word_def word_char_def list_all_iff hd_in_set)
  show ?case
    apply (subst parse_values.simps)
    using v by (simp add: ParseToken_space ParseToken_word) (subst parse_values.simps, simp add: ParseToken_signs)
next
  case (3 v u vs)
  then have v: "plain_word v" "hd v \<noteq> CHR '',''" by (auto simp: plain_word_def word_char_def list_all_iff hd_in_set)
  have "parse_values (CHR '','' # values_text (u # vs)) x = parse_values (values_text (u # vs)) x" for x
    by (subst parse_values.simps) (simp add: ParseToken_signs)
  then show ?case
    apply (subst values_text.simps, subst parse_values.simps)
    using v 3 by (simp add: ParseToken_space ParseToken_word)
qed

definition config_text :: "string \<Rightarrow> string list \<Rightarrow> string" where
  "config_text name vs = name @ '' ='' @ values_text vs"

lemma parse_line_text:
  assumes "plain_word name" "\<forall>v \<in> set vs. plain_word v"
  shows "parse_line (config_text name vs) = Some (LineVar (fold cv_append vs (ConfigVar name)))"
proof -
  have "ParseToken (config_text name vs) = Tok name ('' ='' @ values_text vs)"
    unfolding config_text_def by (rule ParseToken_word) (simp_all add: assms(1))
  moreover have "ParseToken ('' ='' @ values_text vs) = Tok ''='' (values_text vs)"
    by (simp add: ParseToken_space ParseToken_signs)
  ultimately show ?thesis by (simp add: parse_line_def parse_values_text [OF assms(2)])
qed

lemma plain_no_nul: "plain_word v \<Longrightarrow> CHR 0x00 \<notin> set v"
  unfolding plain_word_def list_all_iff using not_word_chars(5) by blast



end
