(* ===== verification/PLease_Config.thy ===== *)
theory PLease_Config
  imports Config_File
begin

section \<open>The replicated configuration\<close>

text \<open>
  The model of \<open>ReplicatedConfig\<close> (\<^verbatim>\<open>src/PL/ReplicatedConfig.h\<close>, \<^verbatim>\<open>ReplicatedConfig.cpp\<close>): the
  size of a majority, the generator of proposal numbers, the addresses of the cell and the restart
  counter. A socket address is a pair of a host text and a port; how \<open>CSockAddr::Set\<close> reads one
  from the configuration is the parameter \<open>parse_addr\<close>. The database table is the map from keys
  to values that the transaction reads and writes (\<open>None\<close> when the table does not exist).
\<close>

type_synonym sock_addr = "string \<times> u16"

record rconf =
  rc_nodeID :: u32
  rc_numNodes :: u32
  rc_restartCounter :: u64
  rc_addresses :: "sock_addr list"
  rc_multiMode :: bool

definition MAX_CELL_SIZE :: nat where "MAX_CELL_SIZE = 256"
definition WIDTH_NODEID :: nat where "WIDTH_NODEID = 8"
definition WIDTH_RESTART_COUNTER :: nat where "WIDTH_RESTART_COUNTER = 16"

subsection \<open>Quorums and proposal numbers\<close>

definition MinMajority :: "rconf \<Rightarrow> u32" where
  "MinMajority rc = of_nat (unat (rc_numNodes rc) div 2 + 1)"

definition NextHighest :: "rconf \<Rightarrow> u64 \<Rightarrow> u64" where
  "NextHighest rc proposalID =
     (let left = drop_bit (WIDTH_NODEID + WIDTH_RESTART_COUNTER) proposalID;
          left = left + 1;
          left = push_bit (WIDTH_NODEID + WIDTH_RESTART_COUNTER) left;
          middle = push_bit WIDTH_NODEID (rc_restartCounter rc);
          right = ucast (rc_nodeID rc)
      in left OR middle OR right)"

text \<open>\<open>GetAddr\<close> asserts that the index is one of the cell.\<close>

definition GetAddr :: "rconf \<Rightarrow> u32 \<Rightarrow> sock_addr option" where
  "GetAddr rc i =
     (if rc_numNodes rc \<le> i then None
      else if unat i < length (rc_addresses rc) then Some (rc_addresses rc ! unat i) else None)"

definition GetPort :: "rconf \<Rightarrow> u16 option" where
  "GetPort rc =
     (if unat (rc_nodeID rc) < length (rc_addresses rc)
      then Some (snd (rc_addresses rc ! unat (rc_nodeID rc))) else None)"

subsection \<open>Initialisation\<close>

text \<open>
  \<open>InitRestartCounter\<close> declares a local variable with the name of the member, so the number it
  reads, increments and stores in the table never reaches the object.
\<close>

definition InitRestartCounter ::
  "(string \<rightharpoonup> string) option \<Rightarrow> rconf \<Rightarrow> (string \<rightharpoonup> string) option \<times> rconf" where
  "InitRestartCounter table rc =
     (case table of
        None \<Rightarrow> (None, rc)
      | Some t \<Rightarrow>
          (let restartCounter =
                 (case t ''@@restartCounter'' of
                    Some buf \<Rightarrow> (let (v, nread) = strntouint64 buf
                                 in if nread \<noteq> length buf then 0 else v)
                  | None \<Rightarrow> 0);
               restartCounter = restartCounter + 1
           in (Some (t(''@@restartCounter'' \<mapsto> dec (unat restartCounter))), rc)))"

fun same_ports :: "sock_addr list \<Rightarrow> bool" where
  "same_ports (a # b # as) = (if snd a \<noteq> snd b then False else same_ports (b # as))"
| "same_ports _ = True"

fun read_addresses ::
  "(string option \<Rightarrow> sock_addr) \<Rightarrow> config_var list \<Rightarrow> nat \<Rightarrow> nat \<Rightarrow> sock_addr list" where
  "read_addresses parse_addr vars i 0 = []"
| "read_addresses parse_addr vars i (Suc n) =
     parse_addr (Config_GetListValue vars ''paxos.addresses'' (int i) None)
       # read_addresses parse_addr vars (Suc i) n"

text \<open>
  \<open>STOP_FAIL\<close> expands to nothing, so a node number outside the cell is not refused. The array of
  addresses has \<open>MAX_CELL_SIZE\<close> entries; more addresses are written outside it (\<open>None\<close>).
\<close>

definition rc_Init ::
  "(string option \<Rightarrow> sock_addr) \<Rightarrow> config_var list \<Rightarrow> (string \<rightharpoonup> string) option \<Rightarrow> rconf
    \<Rightarrow> ((string \<rightharpoonup> string) option \<times> rconf) option" where
  "rc_Init parse_addr vars table rc =
     (let nodeID = Config_GetIntValue vars ''paxos.nodeID'' 0;
          numNodes = (of_int (Config_GetListNum vars ''paxos.addresses'') :: u32);
          n = unat numNodes;
          addrs = read_addresses parse_addr vars 0 n;
          rc1 = (if numNodes = 0
                 then rc\<lparr>rc_numNodes := 0, rc_nodeID := 0,
                         rc_addresses := (parse_addr (Some ''0.0.0.0:10000'')) # tl (rc_addresses rc)\<rparr>
                 else rc\<lparr>rc_numNodes := numNodes, rc_nodeID := nodeID,
                         rc_addresses := addrs @ drop n (rc_addresses rc),
                         rc_multiMode := same_ports addrs\<rparr>)
      in if MAX_CELL_SIZE < n then None
         else Some (if Config_GetValue vars ''mode'' [] \<noteq> ''replicated'' then (table, rc1)
                    else InitRestartCounter table rc1))"

subsection \<open>Facts on proposal numbers\<close>

lemma NextHighest_low_bits:
  assumes "rc_nodeID rc < 256"
  shows "NextHighest rc p AND 255 = ucast (rc_nodeID rc)"
proof (rule bit_word_eqI)
  fix n
  assume n: "n < LENGTH(64)"
  have mask: "bit (255 :: u64) n \<longleftrightarrow> n < 8"
  proof -
    have eq: "(255 :: u64) = mask 8" by (simp add: mask_eq_exp_minus_1)
    show ?thesis unfolding eq bit_mask_iff using n by simp
  qed
  have high: "\<not> bit (rc_nodeID rc) n" if "8 \<le> n"
  proof -
    have "unat (rc_nodeID rc) < 256" using assms by (simp add: word_less_nat_alt)
    then have "rc_nodeID rc = take_bit 8 (rc_nodeID rc)"
      by (simp add: word_unat_eq_iff take_bit_eq_mod unat_mod)
    then show ?thesis using that by (metis bit_take_bit_iff not_less)
  qed
  show "bit (NextHighest rc p AND 255) n = bit (ucast (rc_nodeID rc) :: u64) n"
    using n mask high
    by (auto simp: NextHighest_def Let_def bit_simps WIDTH_NODEID_def WIDTH_RESTART_COUNTER_def
        dest: bit_imp_le_length)
qed

lemma NextHighest_distinct:
  assumes "rc_nodeID a < 256" "rc_nodeID b < 256" "rc_nodeID a \<noteq> rc_nodeID b"
  shows "NextHighest a p \<noteq> NextHighest b q"
proof
  assume "NextHighest a p = NextHighest b q"
  then have "(ucast (rc_nodeID a) :: u64) = ucast (rc_nodeID b)"
    using NextHighest_low_bits [OF assms(1), of p] NextHighest_low_bits [OF assms(2), of q] by simp
  then have "(ucast (ucast (rc_nodeID a) :: u64) :: u32) = ucast (ucast (rc_nodeID b) :: u64)"
    by simp
  moreover have "(ucast (ucast w :: u64) :: u32) = w" for w :: u32
    by (rule bit_word_eqI) (auto simp: bit_simps)
  ultimately show False using assms(3) by simp
qed

lemma NextHighest_greater:
  assumes "unat p < 2 ^ 64 - 2 ^ 24"
  shows "p < NextHighest rc p"
proof -
  let ?left = "push_bit 24 (drop_bit 24 p + 1) :: u64"
  have q: "unat p div 2 ^ 24 + 1 < 2 ^ 40"
    using assms by simp
  have "unat (drop_bit 24 p + 1 :: u64) = unat p div 2 ^ 24 + 1"
    using q by (simp add: unat_word_ariths unat_drop_bit_eq drop_bit_eq_div)
  moreover have "unat (push_bit 24 x) = unat x * 2 ^ 24" if "unat x < 2 ^ 40" for x :: u64
    using that by (simp add: push_bit_eq_mult unat_word_ariths)
  ultimately have "unat ?left = (unat p div 2 ^ 24 + 1) * 2 ^ 24"
    using q by simp
  moreover have "unat p < (unat p div 2 ^ 24 + 1) * 2 ^ 24"
    by (metis add.commute dividend_less_div_times mult.commute plus_1_eq_Suc mult_Suc zero_less_numeral zero_less_power)
  ultimately have "p < ?left" by (simp add: word_less_nat_alt)
  also have "?left \<le> NextHighest rc p"
    by (simp add: NextHighest_def Let_def WIDTH_NODEID_def WIDTH_RESTART_COUNTER_def le_word_or2
        or.assoc)
  finally show ?thesis .
qed

subsection \<open>Quorums\<close>

text \<open>The contract of a quorum size: two sets of that many nodes of the cell share a node.\<close>

locale quorum =
  fixes nodes :: "'n set" and threshold :: nat
  assumes finite_nodes: "finite nodes"
    and more_than_half: "card nodes < 2 * threshold"
begin

lemma quorums_meet:
  assumes "A \<subseteq> nodes" "B \<subseteq> nodes" "threshold \<le> card A" "threshold \<le> card B"
  shows "A \<inter> B \<noteq> {}"
proof
  assume "A \<inter> B = {}"
  then have "card A + card B = card (A \<union> B)"
    using assms(1,2) finite_nodes by (metis card_Un_disjoint finite_subset)
  also have "\<dots> \<le> card nodes"
    using assms(1,2) finite_nodes by (simp add: card_mono)
  finally show False using assms(3,4) more_than_half by simp
qed

end

definition cell :: "rconf \<Rightarrow> nat set" where
  "cell rc = {..< unat (rc_numNodes rc)}"

lemma unat_MinMajority: "unat (MinMajority rc) = unat (rc_numNodes rc) div 2 + 1"
proof -
  have "unat (rc_numNodes rc) < 2 ^ 32"
    using unsigned_less [of "rc_numNodes rc", where 'a = nat] by simp
  then have "unat (rc_numNodes rc) div 2 + 1 < 2 ^ 32" by simp
  then show ?thesis by (simp add: MinMajority_def unat_of_nat del: of_nat_Suc of_nat_add)
qed

interpretation maj: quorum "cell rc" "unat (MinMajority rc)"
  by unfold_locales (simp_all add: cell_def unat_MinMajority)

subsection \<open>Properties\<close>

text \<open>
  C33. Proposal numbers are never shared and always go up: for node numbers that fit in the eight
  bits reserved for them, two nodes never generate the same number, whatever they start from, and
  a number generated from \<open>p\<close> is greater than \<open>p\<close> while the upper forty bits are not exhausted.
\<close>

theorem proposal_numbers:
  assumes "rc_nodeID a < 256" "rc_nodeID b < 256" "rc_nodeID a \<noteq> rc_nodeID b" "unat p < 2 ^ 64 - 2 ^ 24"
  shows "NextHighest a p \<noteq> NextHighest b q \<and> p < NextHighest a p"
  using NextHighest_distinct [OF assms(1-3)] NextHighest_greater [OF assms(4)] by blast

theorem proposal_numbers_witness:
  "NextHighest \<lparr>rc_nodeID = 1, rc_numNodes = 3, rc_restartCounter = 0, rc_addresses = [], rc_multiMode = False\<rparr> 5 \<noteq>
   NextHighest \<lparr>rc_nodeID = 2, rc_numNodes = 3, rc_restartCounter = 0, rc_addresses = [], rc_multiMode = False\<rparr> 9"
  using proposal_numbers [of
      "\<lparr>rc_nodeID = 1, rc_numNodes = 3, rc_restartCounter = 0, rc_addresses = [], rc_multiMode = False\<rparr>"
      "\<lparr>rc_nodeID = 2, rc_numNodes = 3, rc_restartCounter = 0, rc_addresses = [], rc_multiMode = False\<rparr>" 5 9]
  by (simp add: word_less_nat_alt)

text \<open>
  C34. The restart counter that is to keep the proposals of two runs of a node apart is never used:
  \<open>ReplicatedConfig::Init\<close> reads the counter from the database and stores it there, incremented,
  but the member that \<open>NextHighest\<close> uses keeps the value it had before.
\<close>

theorem restart_counter_not_loaded:
  assumes "Config_GetValue vars ''mode'' [] = ''replicated''" "t ''@@restartCounter'' = Some (dec k)" "k < 2 ^ 64 - 1"
    and "rc_Init parse_addr vars (Some t) rc = Some (table', rc')"
  shows "table' = Some (t(''@@restartCounter'' \<mapsto> dec (k + 1))) \<and> rc_restartCounter rc' = rc_restartCounter rc"
proof -
  have "strntouint64 (dec k) = (of_nat k, length (dec k))" using strntouint64_dec [of "[]" k] by simp
  moreover have "unat (of_nat k + 1 :: u64) = k + 1"
  proof -
    have "of_nat k + 1 = (of_nat (k + 1) :: u64)" by simp
    then show ?thesis using assms(3) by (simp only: unat_of_nat) (simp add: take_bit_eq_mod)
  qed
  ultimately show ?thesis
    using assms by (auto simp: rc_Init_def InitRestartCounter_def Let_def split: if_splits)
qed

theorem restart_counter_not_loaded_witness:
  "\<exists>rc'. rc_Init (\<lambda>_. ([], 0)) [cv_append ''replicated'' (ConfigVar ''mode'')] (Some [''@@restartCounter'' \<mapsto> ''7''])
       \<lparr>rc_nodeID = 0, rc_numNodes = 0, rc_restartCounter = 0, rc_addresses = [([], 0)], rc_multiMode = False\<rparr> =
     Some (Some [''@@restartCounter'' \<mapsto> dec 8], rc') \<and> rc_restartCounter rc' = 0"
proof -
  let ?vars = "[cv_append ''replicated'' (ConfigVar ''mode'')]" and ?t = "[''@@restartCounter'' \<mapsto> ''7'']"
  let ?rc = "\<lparr>rc_nodeID = 0, rc_numNodes = 0, rc_restartCounter = 0, rc_addresses = [([], 0)], rc_multiMode = False\<rparr>"
  have mode: "Config_GetValue ?vars ''mode'' [] = ''replicated''"
    by (simp add: Config_GetValue_def GetVar_def NameEquals_def cv_append_def ConfigVar_def cv_GetValue_def c_str_def)
  have d: "''7'' = dec 7" using char_of_char [of "CHR ''7''", where 'a = nat] by (simp add: dec.simps digit_char_def)
  have n0: "Config_GetListNum ?vars ''paxos.addresses'' = 0"
    by (simp add: Config_GetListNum_def GetVar_def NameEquals_def cv_append_def ConfigVar_def)
  have "rc_Init (\<lambda>_. ([], 0)) ?vars (Some ?t) ?rc \<noteq> None" by (simp add: rc_Init_def Let_def n0)
  then obtain table' rc' where "rc_Init (\<lambda>_. ([], 0)) ?vars (Some ?t) ?rc = Some (table', rc')"
    by (metis not_None_eq surj_pair)
  with restart_counter_not_loaded [of ?vars ?t 7 "\<lambda>_. ([], 0)" ?rc table' rc'] mode d show ?thesis by simp
qed

end
