(* ===== verification/PLease_Node.thy ===== *)
theory PLease_Node
  imports PLease_Msg PLease_Config
begin

section \<open>A node of the lease protocol\<close>

text \<open>
  The model of the classes \<open>PLeaseProposer\<close>, \<open>PLeaseAcceptor\<close>, \<open>PLeaseLearner\<close>, \<open>PaxosLease\<close>
  and \<open>ReplicatedLog\<close> (\<^verbatim>\<open>src/PL\<close>). They call each other, so one record holds the state of all
  of them and every method is a function from the state to the new state, or \<open>None\<close> where an
  \<open>assert\<close> fails. The environment gives the configuration and the time of \<open>CTimer\<close> in
  milliseconds; the roles read it in whole seconds (\<open>Now\<close>) and arm their timers in milliseconds,
  as the code does.

  Sending appends a destination and the text of the message to \<open>n_out\<close>. The text is
  \<open>pm_text\<close> of the message object: the 1024-byte block \<open>wdata\<close> that the code prints it into always
  has room for it (\<open>pm_Write_block\<close>, \<open>length_pm_text\<close>). The log calls and \<open>ReadActive\<close>, which
  only feeds them, are left out.
\<close>

subsection \<open>State\<close>

record proposer_state =
  p_preparing :: bool
  p_proposing :: bool
  p_proposalID :: u64
  p_highestReceivedProposalID :: u64
  p_leaseOwner :: u32
  p_duration :: u32
  p_expireTime :: u64

record acceptor_state =
  a_promisedProposalID :: u64
  a_accepted :: bool
  a_acceptedProposalID :: u64
  a_acceptedLeaseOwner :: u32
  a_acceptedDuration :: u32
  a_acceptedExpireTime :: u64

record learner_state =
  l_learned :: bool
  l_leaseOwner :: u32
  l_expireTime :: u64
  l_leaseEpoch :: u64

datatype timer = AcqTimer | ExtTimer | AccTimer | LrnTimer

datatype dest = Multicast | ToNode u32

record node =
  n_highestProposalID :: u64
  n_prop :: proposer_state
  n_pmsg :: plmsg
  n_numReceived :: u32
  n_numAccepted :: u32
  n_numRejected :: u32
  n_acc :: acceptor_state
  n_amsg :: plmsg
  n_lrn :: learner_state
  n_lmsg :: plmsg
  n_acquireLease :: bool
  n_msg :: plmsg
  n_timers :: "timer \<Rightarrow> u64 option"
  n_otherTimers :: bool
  n_out :: "(dest \<times> string) list"

record env =
  e_rc :: rconf
  e_msec :: u64

definition ACQUIRELEASE_TIMEOUT :: u64 where "ACQUIRELEASE_TIMEOUT = 20000"
definition MAX_LEASE_TIME :: u32 where "MAX_LEASE_TIME = 70000"

definition Now :: "env \<Rightarrow> u64" where
  "Now e = e_msec e div 1000"

definition ProposerState_Init :: "proposer_state \<Rightarrow> proposer_state" where
  "ProposerState_Init s = s\<lparr>p_preparing := False, p_proposing := False, p_proposalID := 0,
     p_highestReceivedProposalID := 0, p_duration := 0, p_expireTime := 0\<rparr>"

definition AcceptorState_Init :: "acceptor_state \<Rightarrow> acceptor_state" where
  "AcceptorState_Init s = s\<lparr>a_promisedProposalID := 0, a_accepted := False, a_acceptedProposalID := 0,
     a_acceptedLeaseOwner := 0, a_acceptedDuration := 0, a_acceptedExpireTime := 0\<rparr>"

definition AcceptorState_OnLeaseTimeout :: "acceptor_state \<Rightarrow> acceptor_state" where
  "AcceptorState_OnLeaseTimeout s = s\<lparr>a_accepted := False, a_acceptedProposalID := 0,
     a_acceptedLeaseOwner := 0, a_acceptedDuration := 0, a_acceptedExpireTime := 0\<rparr>"

definition LearnerState_Init :: "learner_state \<Rightarrow> learner_state" where
  "LearnerState_Init s = s\<lparr>l_learned := False, l_leaseOwner := 0, l_expireTime := 0, l_leaseEpoch := 0\<rparr>"

definition LearnerState_OnLeaseTimeout :: "learner_state \<Rightarrow> learner_state" where
  "LearnerState_OnLeaseTimeout s =
     s\<lparr>l_learned := False, l_leaseOwner := 0, l_expireTime := 0, l_leaseEpoch := l_leaseEpoch s + 1\<rparr>"

subsection \<open>Timers\<close>

text \<open>
  The part of \<open>CTimer\<close> the roles use: which of a node's events is armed and for when.
  \<open>n_otherTimers\<close> says whether the process has other timers (those of its sessions); \<open>Delete\<close>
  asserts that there is a timer at all.
\<close>

definition Timer_Empty :: "node \<Rightarrow> bool" where
  "Timer_Empty n \<longleftrightarrow> \<not> n_otherTimers n \<and> n_timers n AcqTimer = None \<and> n_timers n ExtTimer = None \<and>
     n_timers n AccTimer = None \<and> n_timers n LrnTimer = None"

definition Timer_Delete :: "timer \<Rightarrow> node \<Rightarrow> node option" where
  "Timer_Delete t n = (if Timer_Empty n then None else Some (n\<lparr>n_timers := (n_timers n)(t := None)\<rparr>))"

definition Timer_Add :: "env \<Rightarrow> timer \<Rightarrow> u64 \<Rightarrow> node \<Rightarrow> node" where
  "Timer_Add e t ms n =
     (if ms = 0 then n
      else let key = e_msec e + ms
           in case n_timers n t of
                Some k \<Rightarrow> if (ucast (key - k) :: u32) = 0 then n
                          else n\<lparr>n_timers := (n_timers n)(t := Some key)\<rparr>
              | None \<Rightarrow> n\<lparr>n_timers := (n_timers n)(t := Some key)\<rparr>)"

subsection \<open>The proposer\<close>

definition send :: "dest \<Rightarrow> plmsg \<Rightarrow> node \<Rightarrow> node" where
  "send d m n = n\<lparr>n_out := n_out n @ [(d, case pm_text m of None \<Rightarrow> [] | Some t \<Rightarrow> t)]\<rparr>"

definition BroadcastMessage :: "env \<Rightarrow> node \<Rightarrow> node" where
  "BroadcastMessage e n =
     (let n = n\<lparr>n_numReceived := 0, n_numAccepted := 0, n_numRejected := 0\<rparr>
      in if rc_multiMode (e_rc e) then send Multicast (n_pmsg n) n
         else fold (\<lambda>i. send (ToNode (of_nat i)) (n_pmsg n)) [0 ..< unat (rc_numNodes (e_rc e))] n)"

definition StartPreparing :: "env \<Rightarrow> node \<Rightarrow> node" where
  "StartPreparing e n =
     (let n = Timer_Add e AcqTimer ACQUIRELEASE_TIMEOUT n;
          prop = NextHighest (e_rc e) (n_highestProposalID n);
          n = n\<lparr>n_prop := (n_prop n)\<lparr>p_proposing := False, p_preparing := True,
                  p_leaseOwner := rc_nodeID (e_rc e), p_highestReceivedProposalID := 0,
                  p_proposalID := prop\<rparr>\<rparr>;
          n = (if n_highestProposalID n < prop then n\<lparr>n_highestProposalID := prop\<rparr> else n);
          n = n\<lparr>n_pmsg := PrepareRequest (rc_nodeID (e_rc e)) prop (ucast (rc_nodeID (e_rc e))) (n_pmsg n)\<rparr>
      in BroadcastMessage e n)"

definition StartProposing :: "env \<Rightarrow> node \<Rightarrow> node" where
  "StartProposing e n =
     (let n = n\<lparr>n_prop := (n_prop n)\<lparr>p_preparing := False\<rparr>\<rparr>
      in if p_leaseOwner (n_prop n) \<noteq> rc_nodeID (e_rc e) then n
         else let n = n\<lparr>n_prop := (n_prop n)\<lparr>p_proposing := True, p_duration := MAX_LEASE_TIME,
                          p_expireTime := Now e + ucast MAX_LEASE_TIME\<rparr>\<rparr>;
                  n = n\<lparr>n_pmsg := ProposeRequest (rc_nodeID (e_rc e)) (p_proposalID (n_prop n))
                          (p_leaseOwner (n_prop n)) (p_duration (n_prop n)) (n_pmsg n)\<rparr>
              in BroadcastMessage e n)"

definition StartAcquireLease :: "env \<Rightarrow> node \<Rightarrow> node option" where
  "StartAcquireLease e n =
     do { n \<leftarrow> Timer_Delete ExtTimer n;
          Some (if \<not> (p_preparing (n_prop n) \<or> p_proposing (n_prop n)) then StartPreparing e n else n) }"

definition StopAcquireLease :: "node \<Rightarrow> node option" where
  "StopAcquireLease n =
     do { let n = n\<lparr>n_prop := (n_prop n)\<lparr>p_preparing := False, p_proposing := False\<rparr>\<rparr>;
          n \<leftarrow> Timer_Delete ExtTimer n;
          Timer_Delete AcqTimer n }"

definition OnPrepareResponse :: "env \<Rightarrow> node \<Rightarrow> node" where
  "OnPrepareResponse e n =
     (let m = n_pmsg n
      in if \<not> p_preparing (n_prop n) \<or> m_proposalID m \<noteq> p_proposalID (n_prop n) then n
         else let n = n\<lparr>n_numReceived := n_numReceived n + 1\<rparr>;
                  n = (if m_type m = PLEASE_PREPARE_REJECTED
                       then n\<lparr>n_numRejected := n_numRejected n + 1\<rparr>
                       else if m_type m = PLEASE_PREPARE_PREVIOUSLY_ACCEPTED \<and>
                               p_highestReceivedProposalID (n_prop n) \<le> m_acceptedProposalID m
                       then n\<lparr>n_prop := (n_prop n)\<lparr>p_highestReceivedProposalID := m_acceptedProposalID m,
                                                    p_leaseOwner := m_leaseOwner m\<rparr>\<rparr>
                       else n)
              in if (unat (rc_numNodes (e_rc e)) + 1) div 2 \<le> unat (n_numRejected n)
                 then StartPreparing e n
                 else if MinMajority (e_rc e) \<le> n_numReceived n - n_numRejected n
                 then StartProposing e n
                 else n)"

definition OnProposeResponse :: "env \<Rightarrow> node \<Rightarrow> node option" where
  "OnProposeResponse e n =
     (let m = n_pmsg n
      in if p_expireTime (n_prop n) < Now e then Some n
         else if \<not> p_proposing (n_prop n) \<or> m_proposalID m \<noteq> p_proposalID (n_prop n) then Some n
         else let n = n\<lparr>n_numReceived := n_numReceived n + 1\<rparr>;
                  n = (if m_type m = PLEASE_PROPOSE_ACCEPTED
                       then n\<lparr>n_numAccepted := n_numAccepted n + 1\<rparr> else n);
                  left = p_expireTime (n_prop n) - Now e
              in if MinMajority (e_rc e) \<le> n_numAccepted n \<and> 500 < left
                 then do { let n = n\<lparr>n_prop := (n_prop n)\<lparr>p_proposing := False\<rparr>\<rparr>;
                           let n = n\<lparr>n_pmsg := LearnChosen (rc_nodeID (e_rc e))
                                      (p_leaseOwner (n_prop n)) (ucast left)
                                      (p_expireTime (n_prop n)) (n_pmsg n)\<rparr>;
                           n \<leftarrow> Timer_Delete AcqTimer n;
                           Some (BroadcastMessage e (Timer_Add e ExtTimer (left div 7) n)) }
                 else if n_numReceived n = rc_numNodes (e_rc e) then Some (StartPreparing e n)
                 else Some n)"

definition Proposer_ProcessMsg :: "env \<Rightarrow> plmsg \<Rightarrow> node \<Rightarrow> node option" where
  "Proposer_ProcessMsg e m n =
     (let n = n\<lparr>n_pmsg := m\<rparr>
      in if IsPrepareResponse m then Some (OnPrepareResponse e n)
         else if IsProposeResponse m then OnProposeResponse e n
         else None)"

definition OnAcquireLeaseTimeout :: "env \<Rightarrow> node \<Rightarrow> node" where
  "OnAcquireLeaseTimeout e n = StartPreparing e n"

definition OnExtendLeaseTimeout :: "env \<Rightarrow> node \<Rightarrow> node option" where
  "OnExtendLeaseTimeout e n =
     (if p_preparing (n_prop n) \<or> p_proposing (n_prop n) then None else Some (StartPreparing e n))"

subsection \<open>The learner and the lease\<close>

definition PaxosLease_OnLeaseTimeout :: "env \<Rightarrow> node \<Rightarrow> node option" where
  "PaxosLease_OnLeaseTimeout e n = (if n_acquireLease n then StartAcquireLease e n else Some n)"

definition Learner_OnLeaseTimeout :: "env \<Rightarrow> node \<Rightarrow> node option" where
  "Learner_OnLeaseTimeout e n =
     do { n \<leftarrow> Timer_Delete LrnTimer n;
          PaxosLease_OnLeaseTimeout e (n\<lparr>n_lrn := LearnerState_OnLeaseTimeout (n_lrn n)\<rparr>) }"

definition CheckLease :: "env \<Rightarrow> node \<Rightarrow> node option" where
  "CheckLease e n =
     (if l_learned (n_lrn n) \<and> l_expireTime (n_lrn n) < Now e then Learner_OnLeaseTimeout e n
      else Some n)"

definition IsLeaseOwner :: "env \<Rightarrow> node \<Rightarrow> (bool \<times> node) option" where
  "IsLeaseOwner e n =
     do { n \<leftarrow> CheckLease e n;
          Some (l_learned (n_lrn n) \<and> l_leaseOwner (n_lrn n) = rc_nodeID (e_rc e), n) }"

definition IsLeaseKnown :: "env \<Rightarrow> node \<Rightarrow> (bool \<times> node) option" where
  "IsLeaseKnown e n = do { n \<leftarrow> CheckLease e n; Some (l_learned (n_lrn n), n) }"

definition GetLeaseOwner :: "env \<Rightarrow> node \<Rightarrow> (u32 \<times> node) option" where
  "GetLeaseOwner e n =
     do { n \<leftarrow> CheckLease e n;
          Some (if l_learned (n_lrn n) then l_leaseOwner (n_lrn n) else - 1, n) }"

definition GetLeaseEpoch :: "env \<Rightarrow> node \<Rightarrow> (u64 \<times> node) option" where
  "GetLeaseEpoch e n = do { n \<leftarrow> CheckLease e n; Some (l_leaseEpoch (n_lrn n), n) }"

text \<open>\<open>ReplicatedLog::OnLearnLease\<close> asks who owns the lease, and only logs the answer.\<close>

definition PaxosLease_OnLearnLease :: "env \<Rightarrow> node \<Rightarrow> node option" where
  "PaxosLease_OnLearnLease e n =
     do { (_, n) \<leftarrow> IsLeaseOwner e n;
          (owner, n) \<leftarrow> IsLeaseOwner e n;
          if \<not> owner then StopAcquireLease n else Some n }"

definition OnLearnChosen :: "env \<Rightarrow> node \<Rightarrow> node option" where
  "OnLearnChosen e n =
     do { n \<leftarrow> CheckLease e n;
          let m = n_lmsg n;
          let expireTime = (if m_leaseOwner m = rc_nodeID (e_rc e) then m_localExpireTime m
                            else Now e + ucast (m_duration m) - 500);
          if expireTime < Now e then Some n
          else PaxosLease_OnLearnLease e
                 (Timer_Add e LrnTimer expireTime
                    (n\<lparr>n_lrn := (n_lrn n)\<lparr>l_learned := True, l_leaseOwner := m_leaseOwner m,
                                          l_expireTime := expireTime\<rparr>\<rparr>)) }"

definition Learner_ProcessMsg :: "env \<Rightarrow> plmsg \<Rightarrow> node \<Rightarrow> node option" where
  "Learner_ProcessMsg e m n =
     (if m_type m = PLEASE_LEARN_CHOSEN then OnLearnChosen e (n\<lparr>n_lmsg := m\<rparr>) else None)"

subsection \<open>The acceptor\<close>

definition Acceptor_OnLeaseTimeout :: "node \<Rightarrow> node" where
  "Acceptor_OnLeaseTimeout n = n\<lparr>n_acc := AcceptorState_OnLeaseTimeout (n_acc n)\<rparr>"

definition Acceptor_expire :: "env \<Rightarrow> node \<Rightarrow> node" where
  "Acceptor_expire e n =
     (if a_accepted (n_acc n) \<and> a_acceptedExpireTime (n_acc n) < Now e
      then Acceptor_OnLeaseTimeout n else n)"

definition SendReply :: "env \<Rightarrow> u32 \<Rightarrow> node \<Rightarrow> node option" where
  "SendReply e i n = do { _ \<leftarrow> GetAddr (e_rc e) i; Some (send (ToNode i) (n_amsg n) n) }"

definition OnPrepareRequest :: "env \<Rightarrow> node \<Rightarrow> node option" where
  "OnPrepareRequest e n =
     do { (stale, n) \<leftarrow>
            (if m_paxosID (n_amsg n) < ucast (rc_nodeID (e_rc e))
             then do { (master, n') \<leftarrow> GetLeaseOwner e n; Some (m_nodeID (n_amsg n) \<noteq> master, n') }
             else Some (False, n));
          if stale then Some n
          else do {
            let senderID = m_nodeID (n_amsg n);
            let n = Acceptor_expire e n;
            let prop = m_proposalID (n_amsg n);
            let me = rc_nodeID (e_rc e);
            let n = (if prop < a_promisedProposalID (n_acc n)
                     then n\<lparr>n_amsg := PrepareRejected me prop (n_amsg n)\<rparr>
                     else let n = n\<lparr>n_acc := (n_acc n)\<lparr>a_promisedProposalID := prop\<rparr>\<rparr>
                          in if \<not> a_accepted (n_acc n)
                             then n\<lparr>n_amsg := PrepareCurrentlyOpen me prop (n_amsg n)\<rparr>
                             else n\<lparr>n_amsg := PreparePreviouslyAccepted me prop
                                     (a_acceptedProposalID (n_acc n)) (a_acceptedLeaseOwner (n_acc n))
                                     (a_acceptedDuration (n_acc n)) (n_amsg n)\<rparr>);
            SendReply e senderID n } }"

definition OnProposeRequest :: "env \<Rightarrow> node \<Rightarrow> node option" where
  "OnProposeRequest e n =
     (let senderID = m_nodeID (n_amsg n);
          n = Acceptor_expire e n;
          m = n_amsg n;
          me = rc_nodeID (e_rc e);
          n = (if m_proposalID m < a_promisedProposalID (n_acc n)
               then n\<lparr>n_amsg := ProposeRejected me (m_proposalID m) m\<rparr>
               else let n = n\<lparr>n_acc := (n_acc n)\<lparr>a_accepted := True,
                              a_acceptedProposalID := m_proposalID m,
                              a_acceptedLeaseOwner := m_leaseOwner m,
                              a_acceptedDuration := m_duration m,
                              a_acceptedExpireTime := ucast (m_duration m) + Now e\<rparr>\<rparr>;
                        n = Timer_Add e AccTimer (ucast (m_duration m)) n
                    in n\<lparr>n_amsg := ProposeAccepted me (m_proposalID m) m\<rparr>)
      in SendReply e senderID n)"

definition Acceptor_ProcessMsg :: "env \<Rightarrow> plmsg \<Rightarrow> node \<Rightarrow> node option" where
  "Acceptor_ProcessMsg e m n =
     (let n = n\<lparr>n_amsg := m\<rparr>
      in if m_type m = PLEASE_PREPARE_REQUEST then OnPrepareRequest e n
         else if m_type m = PLEASE_PROPOSE_REQUEST then OnProposeRequest e n
         else None)"

subsection \<open>The node\<close>

definition AcquireLease :: "env \<Rightarrow> node \<Rightarrow> node option" where
  "AcquireLease e n = StartAcquireLease e (n\<lparr>n_acquireLease := True\<rparr>)"

text \<open>
  \<open>PaxosLease::Init\<close>: the three roles start afresh with new timer events, which are not armed.
  The message objects, the counters and the proposer's lease owner keep what they held.
\<close>

definition PaxosLease_Init :: "node \<Rightarrow> node" where
  "PaxosLease_Init n =
     n\<lparr>n_highestProposalID := 0, n_prop := ProposerState_Init (n_prop n),
       n_acc := AcceptorState_Init (n_acc n), n_lrn := LearnerState_Init (n_lrn n),
       n_timers := (\<lambda>_. None), n_acquireLease := False\<rparr>"

definition ReplicatedLog_Init :: "env \<Rightarrow> node \<Rightarrow> node option" where
  "ReplicatedLog_Init e n = AcquireLease e (PaxosLease_Init n)"

definition OnRead :: "env \<Rightarrow> string \<Rightarrow> node \<Rightarrow> node option" where
  "OnRead e data n =
     (let (ok, m) = pm_Read data (n_msg n);
          n = n\<lparr>n_msg := m\<rparr>
      in if \<not> ok then Some n
         else let n = (if IsRequest m \<and> n_highestProposalID n < m_proposalID m
                       then n\<lparr>n_highestProposalID := m_proposalID m\<rparr> else n)
              in if IsResponse m then Proposer_ProcessMsg e m n
                 else if IsRequest m then Acceptor_ProcessMsg e m n
                 else if m_type m = PLEASE_LEARN_CHOSEN then Learner_ProcessMsg e m n
                 else None)"

text \<open>A timer that is due: \<open>Expire\<close> takes it out of the timer set and its handler runs.\<close>

definition OnTimer :: "env \<Rightarrow> timer \<Rightarrow> node \<Rightarrow> node option" where
  "OnTimer e t n =
     (let n = n\<lparr>n_timers := (n_timers n)(t := None)\<rparr>
      in case t of
           AcqTimer \<Rightarrow> Some (OnAcquireLeaseTimeout e n)
         | ExtTimer \<Rightarrow> OnExtendLeaseTimeout e n
         | AccTimer \<Rightarrow> Some (Acceptor_OnLeaseTimeout n)
         | LrnTimer \<Rightarrow> Learner_OnLeaseTimeout e n)"

end
