(* ===== verification/PLease_Invariants.thy ===== *)
theory PLease_Invariants
  imports PLease_Node
begin

section \<open>Invariants of a node\<close>

text \<open>
  What every method of the lease roles keeps: the phases of the proposer exclude each other, a
  proposal is always for the node itself, an active proposer has its acquire timer armed, the
  extend timer is armed only when the proposer is idle, and a node that wants the lease always has
  something that will wake it up. From this follow that no assertion of the roles fails and that
  acquisition never stalls.
\<close>

subsection \<open>Closed forms of the senders\<close>

definition wire :: "plmsg \<Rightarrow> string" where
  "wire m = (case pm_text m of None \<Rightarrow> [] | Some t \<Rightarrow> t)"

definition broadcast_out :: "env \<Rightarrow> plmsg \<Rightarrow> (dest \<times> string) list" where
  "broadcast_out e m =
     (if rc_multiMode (e_rc e) then [(Multicast, wire m)]
      else map (\<lambda>i. (ToNode (of_nat i), wire m)) [0 ..< unat (rc_numNodes (e_rc e))])"

lemma send_eq [lease_simps]: "send d m n = n\<lparr>n_out := n_out n @ [(d, wire m)]\<rparr>"
  by (simp add: send_def wire_def)

lemma fold_send [lease_simps]:
  "fold (\<lambda>i. send (f i) m) xs n = n\<lparr>n_out := n_out n @ map (\<lambda>i. (f i, wire m)) xs\<rparr>"
  by (induction xs arbitrary: n) (simp_all add: send_eq)

lemma BroadcastMessage_eq [lease_simps]:
  "BroadcastMessage e n = n\<lparr>n_numReceived := 0, n_numAccepted := 0, n_numRejected := 0,
     n_out := n_out n @ broadcast_out e (n_pmsg n)\<rparr>"
  by (simp add: BroadcastMessage_def broadcast_out_def lease_simps Let_def)

lemma Timer_Add_frame:
  "Timer_Add e t ms n = n\<lparr>n_timers := n_timers (Timer_Add e t ms n)\<rparr>"
  by (simp add: Timer_Add_def Let_def split: option.splits)

lemma Timer_Add_other [lease_simps]:
  "t \<noteq> t' \<Longrightarrow> n_timers (Timer_Add e t ms n) t' = n_timers n t'"
  by (auto simp: Timer_Add_def Let_def split: option.splits)

lemma Timer_Add_armed [lease_simps]:
  "ms \<noteq> 0 \<Longrightarrow> n_timers (Timer_Add e t ms n) t \<noteq> None"
  by (auto simp: Timer_Add_def Let_def split: option.splits)

text \<open>The fields that arming a timer leaves alone.\<close>

lemma Timer_Add_sel [simp]:
  "n_highestProposalID (Timer_Add e t ms n) = n_highestProposalID n"
  "n_prop (Timer_Add e t ms n) = n_prop n"
  "n_pmsg (Timer_Add e t ms n) = n_pmsg n"
  "n_numReceived (Timer_Add e t ms n) = n_numReceived n"
  "n_numAccepted (Timer_Add e t ms n) = n_numAccepted n"
  "n_numRejected (Timer_Add e t ms n) = n_numRejected n"
  "n_acc (Timer_Add e t ms n) = n_acc n"
  "n_amsg (Timer_Add e t ms n) = n_amsg n"
  "n_lrn (Timer_Add e t ms n) = n_lrn n"
  "n_lmsg (Timer_Add e t ms n) = n_lmsg n"
  "n_acquireLease (Timer_Add e t ms n) = n_acquireLease n"
  "n_msg (Timer_Add e t ms n) = n_msg n"
  "n_otherTimers (Timer_Add e t ms n) = n_otherTimers n"
  "n_out (Timer_Add e t ms n) = n_out n"
  by (subst Timer_Add_frame, simp)+

lemma Timer_Delete_Some [lease_simps]:
  "Timer_Delete t n = Some n' \<longleftrightarrow>
     \<not> Timer_Empty n \<and> n' = n\<lparr>n_timers := (n_timers n)(t := None)\<rparr>"
  by (auto simp: Timer_Delete_def)

lemma Timer_not_Empty [lease_simps]: "n_timers n t \<noteq> None \<Longrightarrow> \<not> Timer_Empty n"
  by (cases t) (auto simp: Timer_Empty_def)

subsection \<open>The invariant\<close>

abbreviation preparing :: "node \<Rightarrow> bool" where "preparing n \<equiv> p_preparing (n_prop n)"
abbreviation proposing :: "node \<Rightarrow> bool" where "proposing n \<equiv> p_proposing (n_prop n)"
abbreviation armed :: "timer \<Rightarrow> node \<Rightarrow> bool" where "armed t n \<equiv> n_timers n t \<noteq> None"

definition phase_inv :: "rconf \<Rightarrow> node \<Rightarrow> bool" where
  "phase_inv rc n \<longleftrightarrow>
     \<not> (preparing n \<and> proposing n) \<and>
     (proposing n \<longrightarrow> p_leaseOwner (n_prop n) = rc_nodeID rc) \<and>
     (preparing n \<or> proposing n \<longrightarrow> armed AcqTimer n) \<and>
     (armed ExtTimer n \<longrightarrow> \<not> preparing n \<and> \<not> proposing n \<and> \<not> armed AcqTimer n)"

definition awake :: "node \<Rightarrow> bool" where
  "awake n \<longleftrightarrow> armed AcqTimer n \<or> armed ExtTimer n \<or>
     (l_learned (n_lrn n) \<and> (armed LrnTimer n \<or> l_expireTime (n_lrn n) = 0))"

definition node_inv :: "rconf \<Rightarrow> node \<Rightarrow> bool" where
  "node_inv rc n \<longleftrightarrow> phase_inv rc n \<and> (n_acquireLease n \<longrightarrow> awake n)"

lemmas inv_defs = node_inv_def phase_inv_def awake_def

text \<open>Starting to prepare establishes it from any state in which the extend timer is off.\<close>

lemma StartPreparing_inv:
  assumes "\<not> armed ExtTimer n"
  shows "node_inv rc (StartPreparing e n) \<and> armed AcqTimer (StartPreparing e n)
           \<and> \<not> armed ExtTimer (StartPreparing e n)"
proof -
  have "armed AcqTimer (Timer_Add e AcqTimer ACQUIRELEASE_TIMEOUT n)"
    by (rule Timer_Add_armed) (simp add: ACQUIRELEASE_TIMEOUT_def)
  moreover have "\<not> armed ExtTimer (Timer_Add e AcqTimer ACQUIRELEASE_TIMEOUT n)"
    using assms by (simp add: Timer_Add_other)
  ultimately show ?thesis
    by (simp add: StartPreparing_def Let_def BroadcastMessage_eq inv_defs)
qed

lemma StartPreparing_sel [simp]:
  "n_acc (StartPreparing e n) = n_acc n"
  "n_amsg (StartPreparing e n) = n_amsg n"
  "n_lrn (StartPreparing e n) = n_lrn n"
  "n_lmsg (StartPreparing e n) = n_lmsg n"
  "n_acquireLease (StartPreparing e n) = n_acquireLease n"
  "n_msg (StartPreparing e n) = n_msg n"
  "n_otherTimers (StartPreparing e n) = n_otherTimers n"
  by (simp_all add: StartPreparing_def Let_def BroadcastMessage_eq)

lemma StartProposing_sel [simp]:
  "n_acc (StartProposing e n) = n_acc n"
  "n_amsg (StartProposing e n) = n_amsg n"
  "n_lrn (StartProposing e n) = n_lrn n"
  "n_lmsg (StartProposing e n) = n_lmsg n"
  "n_acquireLease (StartProposing e n) = n_acquireLease n"
  "n_msg (StartProposing e n) = n_msg n"
  "n_otherTimers (StartProposing e n) = n_otherTimers n"
  "n_timers (StartProposing e n) = n_timers n"
  by (simp_all add: StartProposing_def Let_def BroadcastMessage_eq)

lemma StartProposing_inv:
  assumes "node_inv (e_rc e) n" "preparing n"
  shows "node_inv (e_rc e) (StartProposing e n)"
  using assms by (auto simp: StartProposing_def Let_def BroadcastMessage_eq inv_defs)

lemma StartAcquireLease_inv:
  assumes "phase_inv (e_rc e) n" "StartAcquireLease e n = Some n'"
  shows "node_inv (e_rc e) n' \<and> armed AcqTimer n'"
proof -
  let ?n = "n\<lparr>n_timers := (n_timers n)(ExtTimer := None)\<rparr>"
  from assms(2) have n': "n' = (if \<not> (preparing n \<or> proposing n) then StartPreparing e ?n else ?n)"
    by (auto simp: StartAcquireLease_def lease_simps bind_eq_Some_conv)
  show ?thesis
  proof (cases "preparing n \<or> proposing n")
    case True
    with assms(1) n' show ?thesis by (auto simp: inv_defs)
  next
    case False
    with n' StartPreparing_inv [of ?n "e_rc e" e] show ?thesis by simp
  qed
qed


subsection \<open>What a method leaves alone\<close>

definition frame :: "node \<Rightarrow> node \<Rightarrow> bool" where
  "frame n n' \<longleftrightarrow> n_acc n' = n_acc n \<and> n_amsg n' = n_amsg n \<and> n_lmsg n' = n_lmsg n \<and>
     n_acquireLease n' = n_acquireLease n \<and> n_otherTimers n' = n_otherTimers n"

lemma frame_refl [simp]: "frame n n"
  by (simp add: frame_def)

lemma frame_trans: "frame a b \<Longrightarrow> frame b c \<Longrightarrow> frame a c"
  by (simp add: frame_def)

lemma StartAcquireLease_frame: "StartAcquireLease e n = Some n' \<Longrightarrow> frame n n' \<and> n_lrn n' = n_lrn n"
  by (auto simp: StartAcquireLease_def lease_simps bind_eq_Some_conv frame_def split: if_splits)

lemma StopAcquireLease_Some:
  "StopAcquireLease n = Some n' \<Longrightarrow>
     n' = n\<lparr>n_prop := (n_prop n)\<lparr>p_preparing := False, p_proposing := False\<rparr>,
            n_timers := (n_timers n)(ExtTimer := None, AcqTimer := None)\<rparr>"
  by (auto simp: StopAcquireLease_def lease_simps bind_eq_Some_conv)

lemma Learner_OnLeaseTimeout_inv:
  assumes "phase_inv (e_rc e) n" "Learner_OnLeaseTimeout e n = Some n'"
  shows "node_inv (e_rc e) n' \<and> frame n n' \<and> n_lrn n' = LearnerState_OnLeaseTimeout (n_lrn n)"
proof -
  let ?n = "n\<lparr>n_timers := (n_timers n)(LrnTimer := None), n_lrn := LearnerState_OnLeaseTimeout (n_lrn n)\<rparr>"
  from assms(2) have run: "PaxosLease_OnLeaseTimeout e ?n = Some n'"
    by (auto simp: Learner_OnLeaseTimeout_def lease_simps bind_eq_Some_conv)
  have phase: "phase_inv (e_rc e) ?n" using assms(1) by (auto simp: phase_inv_def)
  show ?thesis
  proof (cases "n_acquireLease n")
    case True
    with run have "StartAcquireLease e ?n = Some n'" by (simp add: PaxosLease_OnLeaseTimeout_def)
    from StartAcquireLease_inv [OF phase this] StartAcquireLease_frame [OF this]
    show ?thesis by (simp add: frame_def)
  next
    case False
    with run have "n' = ?n" by (simp add: PaxosLease_OnLeaseTimeout_def)
    with phase False show ?thesis by (simp add: node_inv_def frame_def)
  qed
qed

lemma CheckLease_inv:
  assumes "node_inv (e_rc e) n" "CheckLease e n = Some n'"
  shows "node_inv (e_rc e) n' \<and> frame n n'"
  using assms Learner_OnLeaseTimeout_inv [of e n n']
  by (auto simp: CheckLease_def node_inv_def split: if_splits)

text \<open>After the check, what the learner knows has not expired.\<close>

lemma CheckLease_fresh:
  "CheckLease e n = Some n' \<Longrightarrow> l_learned (n_lrn n') \<Longrightarrow> Now e \<le> l_expireTime (n_lrn n')"
  by (auto simp: CheckLease_def Learner_OnLeaseTimeout_def PaxosLease_OnLeaseTimeout_def
        LearnerState_OnLeaseTimeout_def bind_eq_Some_conv lease_simps
        dest: StartAcquireLease_frame split: if_splits)

lemma CheckLease_idle: "Now e \<le> l_expireTime (n_lrn n) \<Longrightarrow> CheckLease e n = Some n"
  by (auto simp: CheckLease_def)

subsection \<open>The handlers keep the invariant\<close>

text \<open>
  The proposer's answer to a prepare response: the tally after the response, and then a new round,
  a proposal, or waiting for more.
\<close>

definition tallied :: "node \<Rightarrow> node" where
  "tallied n =
     (let m = n_pmsg n; n = n\<lparr>n_numReceived := n_numReceived n + 1\<rparr>
      in if m_type m = PLEASE_PREPARE_REJECTED then n\<lparr>n_numRejected := n_numRejected n + 1\<rparr>
         else if m_type m = PLEASE_PREPARE_PREVIOUSLY_ACCEPTED \<and>
                 p_highestReceivedProposalID (n_prop n) \<le> m_acceptedProposalID m
         then n\<lparr>n_prop := (n_prop n)\<lparr>p_highestReceivedProposalID := m_acceptedProposalID m,
                                      p_leaseOwner := m_leaseOwner m\<rparr>\<rparr>
         else n)"

lemma OnPrepareResponse_cases:
  "OnPrepareResponse e n =
     (if \<not> preparing n \<or> m_proposalID (n_pmsg n) \<noteq> p_proposalID (n_prop n) then n
      else if (unat (rc_numNodes (e_rc e)) + 1) div 2 \<le> unat (n_numRejected (tallied n))
      then StartPreparing e (tallied n)
      else if MinMajority (e_rc e) \<le> n_numReceived (tallied n) - n_numRejected (tallied n)
      then StartProposing e (tallied n)
      else tallied n)"
  unfolding OnPrepareResponse_def tallied_def Let_def by (rule refl)

lemma tallied_frame: "frame n (tallied n)" and tallied_out: "n_out (tallied n) = n_out n"
  by (simp_all add: tallied_def Let_def frame_def)

lemma tallied_inv: "node_inv rc n \<Longrightarrow> preparing n \<Longrightarrow> node_inv rc (tallied n) \<and> preparing (tallied n)"
  by (auto simp: tallied_def Let_def inv_defs)

lemma OnPrepareResponse_inv:
  assumes "node_inv (e_rc e) n"
  shows "node_inv (e_rc e) (OnPrepareResponse e n) \<and> frame n (OnPrepareResponse e n)"
proof (cases "preparing n")
  case False
  with assms show ?thesis by (simp add: OnPrepareResponse_cases)
next
  case True
  note t = tallied_inv [OF assms True]
  then have "\<not> armed ExtTimer (tallied n)" by (auto simp: inv_defs)
  with t assms tallied_frame [of n] show ?thesis
    using StartPreparing_inv [of "tallied n" "e_rc e" e] StartProposing_inv [of e "tallied n"]
    by (simp add: OnPrepareResponse_cases frame_def)
qed

text \<open>
  The proposer's answer to an acceptance: either nothing but a counter changes, or it starts over,
  or, with a majority and more than 500 left of the lease, it announces the lease.
\<close>

definition announce :: "env \<Rightarrow> node \<Rightarrow> node" where
  "announce e n =
     (let left = p_expireTime (n_prop n) - Now e;
          n = n\<lparr>n_prop := (n_prop n)\<lparr>p_proposing := False\<rparr>,
                n_pmsg := LearnChosen (rc_nodeID (e_rc e)) (p_leaseOwner (n_prop n)) (ucast left)
                  (p_expireTime (n_prop n)) (n_pmsg n),
                n_timers := (n_timers n)(AcqTimer := None)\<rparr>
      in BroadcastMessage e (Timer_Add e ExtTimer (left div 7) n))"

definition counted :: "node \<Rightarrow> node" where
  "counted n = n\<lparr>n_numReceived := n_numReceived n + 1,
     n_numAccepted := n_numAccepted n + (if m_type (n_pmsg n) = PLEASE_PROPOSE_ACCEPTED then 1 else 0)\<rparr>"

lemma counted_sel [simp]:
  "n_prop (counted n) = n_prop n" "n_timers (counted n) = n_timers n" "n_lrn (counted n) = n_lrn n"
  "n_acquireLease (counted n) = n_acquireLease n" "n_otherTimers (counted n) = n_otherTimers n"
  "n_pmsg (counted n) = n_pmsg n" "n_acc (counted n) = n_acc n" "n_amsg (counted n) = n_amsg n"
  "n_lmsg (counted n) = n_lmsg n" "n_out (counted n) = n_out n"
  "n_numReceived (counted n) = n_numReceived n + 1"
  by (simp_all add: counted_def)

lemma OnProposeResponse_cases:
  assumes "phase_inv (e_rc e) n"
  shows "OnProposeResponse e n =
    Some (if p_expireTime (n_prop n) < Now e \<or> \<not> proposing n \<or>
             m_proposalID (n_pmsg n) \<noteq> p_proposalID (n_prop n) then n
          else if MinMajority (e_rc e) \<le> n_numAccepted (counted n) \<and>
                  500 < p_expireTime (n_prop n) - Now e then announce e (counted n)
          else if n_numReceived (counted n) = rc_numNodes (e_rc e) then StartPreparing e (counted n)
          else counted n)"
proof (cases "proposing n")
  case True
  with assms have armed: "armed AcqTimer n" by (simp add: phase_inv_def)
  have del: "Timer_Delete AcqTimer m = Some (m\<lparr>n_timers := (n_timers m)(AcqTimer := None)\<rparr>)"
    if "n_timers m = n_timers n" for m
    using armed that Timer_not_Empty [of m AcqTimer] by (simp add: Timer_Delete_def)
  show ?thesis
    by (auto simp: OnProposeResponse_def Let_def counted_def announce_def del)
next
  case False
  then show ?thesis by (auto simp: OnProposeResponse_def Let_def)
qed

lemma announce_inv:
  assumes "500 < p_expireTime (n_prop n) - Now e" "phase_inv (e_rc e) n" "proposing n"
  shows "node_inv (e_rc e) (announce e n) \<and> frame n (announce e n)"
proof -
  define left where "left = p_expireTime (n_prop n) - Now e"
  define m where "m = n\<lparr>n_prop := (n_prop n)\<lparr>p_proposing := False\<rparr>,
                n_pmsg := LearnChosen (rc_nodeID (e_rc e)) (p_leaseOwner (n_prop n)) (ucast left)
                  (p_expireTime (n_prop n)) (n_pmsg n),
                n_timers := (n_timers n)(AcqTimer := None)\<rparr>"
  have "left div 7 \<noteq> 0"
    using assms(1) by (auto simp: left_def word_less_nat_alt unat_arith_simps unat_div)
  from Timer_Add_armed [OF this]
  have "armed ExtTimer (Timer_Add e ExtTimer (left div 7) m)" .
  moreover have "\<not> armed AcqTimer (Timer_Add e ExtTimer (left div 7) m)"
    by (simp add: Timer_Add_other m_def)
  moreover have "announce e n = BroadcastMessage e (Timer_Add e ExtTimer (left div 7) m)"
    by (simp add: announce_def Let_def left_def m_def)
  moreover have "\<not> preparing n" using assms by (auto simp: phase_inv_def)
  ultimately show ?thesis
    by (simp add: BroadcastMessage_eq inv_defs frame_def) (simp add: m_def)
qed

lemma OnProposeResponse_inv:
  assumes "node_inv (e_rc e) n" "OnProposeResponse e n = Some n'"
  shows "node_inv (e_rc e) n' \<and> frame n n'"
proof -
  have phase: "phase_inv (e_rc e) n" using assms(1) by (simp add: node_inv_def)
  show ?thesis
  proof (cases "proposing n")
    case True
    then have "\<not> armed ExtTimer n" using phase by (auto simp: phase_inv_def)
    moreover have "phase_inv (e_rc e) (counted n)" "node_inv (e_rc e) (counted n)"
      using phase assms(1) by (simp_all add: inv_defs)
    ultimately show ?thesis
      using assms OnProposeResponse_cases [OF phase] True announce_inv [of "counted n" e]
        StartPreparing_inv [of "counted n" "e_rc e" e]
      by (auto simp: frame_def split: if_splits)
  next
    case False
    then show ?thesis using assms OnProposeResponse_cases [OF phase] by auto
  qed
qed

lemma OnLearnChosen_cases:
  assumes "OnLearnChosen e n = Some n'"
  obtains (stale) "CheckLease e n = Some n'"
  | (learned) n1 n2 x where "CheckLease e n = Some n1"
      "x = (if m_leaseOwner (n_lmsg n) = rc_nodeID (e_rc e) then m_localExpireTime (n_lmsg n)
            else Now e + ucast (m_duration (n_lmsg n)) - 500)"
      "Now e \<le> x"
      "n2 = Timer_Add e LrnTimer x
              (n1\<lparr>n_lrn := (n_lrn n1)\<lparr>l_learned := True, l_leaseOwner := m_leaseOwner (n_lmsg n),
                                     l_expireTime := x\<rparr>\<rparr>)"
      "(if m_leaseOwner (n_lmsg n) = rc_nodeID (e_rc e) then Some n2 else StopAcquireLease n2) = Some n'"
proof -
  from assms obtain n1 where chk: "CheckLease e n = Some n1"
    by (auto simp: OnLearnChosen_def bind_eq_Some_conv)
  then have lmsg: "n_lmsg n1 = n_lmsg n"
    by (auto simp: CheckLease_def Learner_OnLeaseTimeout_def PaxosLease_OnLeaseTimeout_def
          lease_simps bind_eq_Some_conv frame_def dest!: StartAcquireLease_frame split: if_splits)
  define x where "x = (if m_leaseOwner (n_lmsg n) = rc_nodeID (e_rc e) then m_localExpireTime (n_lmsg n)
            else Now e + ucast (m_duration (n_lmsg n)) - 500)"
  define n2 where "n2 = Timer_Add e LrnTimer x
      (n1\<lparr>n_lrn := (n_lrn n1)\<lparr>l_learned := True, l_leaseOwner := m_leaseOwner (n_lmsg n),
                             l_expireTime := x\<rparr>\<rparr>)"
  have run: "(if x < Now e then Some n1 else PaxosLease_OnLearnLease e n2) = Some n'"
    using assms by (simp only: OnLearnChosen_def chk Option.bind_lunit Let_def lmsg x_def n2_def)
  show thesis
  proof (cases "x < Now e")
    case True
    with run chk show thesis by (intro stale) simp
  next
    case False
    then have "CheckLease e n2 = Some n2" by (intro CheckLease_idle) (simp add: n2_def)
    moreover have "l_learned (n_lrn n2)" "l_leaseOwner (n_lrn n2) = m_leaseOwner (n_lmsg n)"
      by (simp_all add: n2_def)
    ultimately have
      "(if m_leaseOwner (n_lmsg n) = rc_nodeID (e_rc e) then Some n2 else StopAcquireLease n2) = Some n'"
      using run False by (simp add: PaxosLease_OnLearnLease_def IsLeaseOwner_def split: if_splits)
    with chk x_def n2_def False show thesis by (intro learned) auto
  qed
qed

lemma OnLearnChosen_inv:
  assumes "node_inv (e_rc e) n" "OnLearnChosen e n = Some n'"
  shows "node_inv (e_rc e) n' \<and> frame n n'"
  using assms(2)
proof (cases rule: OnLearnChosen_cases)
  case stale
  then show ?thesis using CheckLease_inv assms(1) by blast
next
  case (learned n1 n2 x)
  from CheckLease_inv [OF assms(1) learned(1)] have n1: "node_inv (e_rc e) n1" "frame n n1" by auto
  have t: "n_timers n2 t = n_timers n1 t" if "t \<noteq> LrnTimer" for t
    using that unfolding learned(4) by (simp add: Timer_Add_other)
  have keep: "frame n1 n2" "n_prop n2 = n_prop n1" by (simp_all add: learned(4) frame_def)
  have "x \<noteq> 0 \<Longrightarrow> armed LrnTimer n2" unfolding learned(4) by (rule Timer_Add_armed)
  then have lease: "l_learned (n_lrn n2) \<and> (armed LrnTimer n2 \<or> l_expireTime (n_lrn n2) = 0)"
    by (auto simp: learned(4))
  have phase: "phase_inv (e_rc e) n2"
    using n1(1) t [of AcqTimer] t [of ExtTimer] keep(2) by (simp add: inv_defs)
  show ?thesis
  proof (cases "n' = n2")
    case True
    with phase lease show ?thesis
      using frame_trans [OF n1(2) keep(1)] by (simp add: node_inv_def awake_def)
  next
    case False
    with learned(5) have "StopAcquireLease n2 = Some n'" by (auto split: if_splits)
    then have n': "n' = n2\<lparr>n_prop := (n_prop n2)\<lparr>p_preparing := False, p_proposing := False\<rparr>,
            n_timers := (n_timers n2)(ExtTimer := None, AcqTimer := None)\<rparr>"
      by (rule StopAcquireLease_Some)
    have "frame n2 n'" by (simp add: n' frame_def)
    moreover have "node_inv (e_rc e) n'" using lease by (simp add: n' inv_defs)
    ultimately show ?thesis using frame_trans n1(2) keep(1) by blast
  qed
qed

text \<open>
  The acceptor's handlers touch only the acceptor, its timer and what is sent; a prepare request
  may first run the learner's expiry check.
\<close>

definition same_lease :: "node \<Rightarrow> node \<Rightarrow> bool" where
  "same_lease n n' \<longleftrightarrow> n_prop n' = n_prop n \<and> n_lrn n' = n_lrn n \<and>
     n_acquireLease n' = n_acquireLease n \<and> n_otherTimers n' = n_otherTimers n \<and>
     n_timers n' AcqTimer = n_timers n AcqTimer \<and> n_timers n' ExtTimer = n_timers n ExtTimer \<and>
     n_timers n' LrnTimer = n_timers n LrnTimer"

lemma same_lease_inv: "same_lease n n' \<Longrightarrow> node_inv rc n \<Longrightarrow> node_inv rc n'"
  by (simp add: same_lease_def inv_defs)

lemma same_lease_trans: "same_lease a b \<Longrightarrow> same_lease b c \<Longrightarrow> same_lease a c"
  by (simp add: same_lease_def)

lemma SendReply_Some [lease_simps]:
  "SendReply e i n = Some n' \<longleftrightarrow> (\<exists>a. GetAddr (e_rc e) i = Some a) \<and> n' = send (ToNode i) (n_amsg n) n"
  by (auto simp: SendReply_def bind_eq_Some_conv)

lemma send_sel [simp]:
  "n_acc (send d m n) = n_acc n" "n_timers (send d m n) = n_timers n" "n_prop (send d m n) = n_prop n"
  "n_lrn (send d m n) = n_lrn n" "n_acquireLease (send d m n) = n_acquireLease n"
  "n_otherTimers (send d m n) = n_otherTimers n" "n_out (send d m n) = n_out n @ [(d, wire m)]"
  by (simp_all add: send_eq)

lemma Acceptor_expire_sel [simp]:
  "n_timers (Acceptor_expire e n) = n_timers n" "n_prop (Acceptor_expire e n) = n_prop n"
  "n_lrn (Acceptor_expire e n) = n_lrn n" "n_acquireLease (Acceptor_expire e n) = n_acquireLease n"
  "n_otherTimers (Acceptor_expire e n) = n_otherTimers n" "n_amsg (Acceptor_expire e n) = n_amsg n"
  "n_out (Acceptor_expire e n) = n_out n"
  "a_promisedProposalID (n_acc (Acceptor_expire e n)) = a_promisedProposalID (n_acc n)"
  by (simp_all add: Acceptor_expire_def Acceptor_OnLeaseTimeout_def AcceptorState_OnLeaseTimeout_def)

lemma OnProposeRequest_keeps: "OnProposeRequest e n = Some n' \<Longrightarrow> same_lease n n'"
  by (auto simp: OnProposeRequest_def Let_def lease_simps same_lease_def split: if_splits)

text \<open>The guard of \<open>OnPrepareRequest\<close>, and what the handler does once it lets the request through.\<close>

definition prepare_gate :: "env \<Rightarrow> node \<Rightarrow> (bool \<times> node) option" where
  "prepare_gate e n =
     (if m_paxosID (n_amsg n) < ucast (rc_nodeID (e_rc e))
      then do { (master, n') \<leftarrow> GetLeaseOwner e n; Some (m_nodeID (n_amsg n) \<noteq> master, n') }
      else Some (False, n))"

definition prepare_answer :: "env \<Rightarrow> node \<Rightarrow> node" where
  "prepare_answer e n =
     (let n = Acceptor_expire e n;
          prop = m_proposalID (n_amsg n);
          me = rc_nodeID (e_rc e)
      in if prop < a_promisedProposalID (n_acc n)
         then n\<lparr>n_amsg := PrepareRejected me prop (n_amsg n)\<rparr>
         else let n = n\<lparr>n_acc := (n_acc n)\<lparr>a_promisedProposalID := prop\<rparr>\<rparr>
              in if \<not> a_accepted (n_acc n)
                 then n\<lparr>n_amsg := PrepareCurrentlyOpen me prop (n_amsg n)\<rparr>
                 else n\<lparr>n_amsg := PreparePreviouslyAccepted me prop
                         (a_acceptedProposalID (n_acc n)) (a_acceptedLeaseOwner (n_acc n))
                         (a_acceptedDuration (n_acc n)) (n_amsg n)\<rparr>)"

lemma OnPrepareRequest_eq:
  "OnPrepareRequest e n =
     do { (stale, n) \<leftarrow> prepare_gate e n;
          if stale then Some n else SendReply e (m_nodeID (n_amsg n)) (prepare_answer e n) }"
  unfolding OnPrepareRequest_def prepare_gate_def prepare_answer_def Let_def by (rule refl)

lemma prepare_gate_inv:
  assumes "node_inv (e_rc e) n" "prepare_gate e n = Some (b, n')"
  shows "node_inv (e_rc e) n' \<and> frame n n'"
  using assms CheckLease_inv [of e n n']
  by (auto simp: prepare_gate_def GetLeaseOwner_def bind_eq_Some_conv split: if_splits)

lemma prepare_answer_keeps: "same_lease n (prepare_answer e n)"
  by (simp add: prepare_answer_def Let_def same_lease_def)

lemma OnPrepareRequest_inv:
  assumes "node_inv (e_rc e) n" "OnPrepareRequest e n = Some n'"
  shows "node_inv (e_rc e) n' \<and> n_acquireLease n' = n_acquireLease n \<and> n_otherTimers n' = n_otherTimers n"
proof -
  from assms(2) obtain b n1 where g: "prepare_gate e n = Some (b, n1)"
    and run: "(if b then Some n1 else SendReply e (m_nodeID (n_amsg n1)) (prepare_answer e n1)) = Some n'"
    by (auto simp: OnPrepareRequest_eq bind_eq_Some_conv)
  from run have "n' = n1 \<or> n' = send (ToNode (m_nodeID (n_amsg n1))) (n_amsg (prepare_answer e n1))
                             (prepare_answer e n1)"
    by (auto simp: SendReply_Some split: if_splits)
  then have "same_lease n1 n'"
    using prepare_answer_keeps [of n1 e] by (auto simp: same_lease_def)
  with prepare_gate_inv [OF assms(1) g] show ?thesis
    using same_lease_inv by (fastforce simp: frame_def same_lease_def)
qed
end
