(* ===== verification/PLease_Reach.thy ===== *)
theory PLease_Reach
  imports PLease_Invariants
begin

section \<open>Runs of a node\<close>

text \<open>
  A node is started by \<open>ReplicatedLog_Init\<close> and then driven by datagrams, by its timers and by
  the queries of its host program, in any order and at any times. The step relation
  \<open>node_step\<close> has one rule for each; \<open>reachable\<close> collects the states of all runs. The
  datagrams are arbitrary byte strings: nothing is assumed about who sent them.
\<close>

subsection \<open>What a successful read returns\<close>

lemma scan_conv_outs:
  assumes "scan_conv space outs k buf = ConvOk outs' n"
  shows "\<exists>more. outs' = outs @ more"
  using assms
  by (auto simp: scan_conv_def number_conv_def block_conv_def Let_def split: if_splits prod.splits)

lemma scan_conv_fail_outs:
  assumes "scan_conv space outs k buf = ConvFail outs'"
  shows "\<exists>more. outs' = outs @ more"
  using assms
  by (auto simp: scan_conv_def number_conv_def block_conv_def Let_def split: if_splits prod.splits)

lemma vsnreadf_outs:
  "vsnreadf space outs read fmt buf = Scan outs' r \<Longrightarrow> \<exists>more. outs' = outs @ more"
proof (induction space outs read fmt buf rule: vsnreadf.induct)
  case (1 space outs read buf)
  then show ?case by simp
next
  case (2 space outs read f fmt buf)
  show ?case
  proof (cases "f = CHR ''%''")
    case False
    with "2.prems" "2.IH"(2) show ?thesis by (auto simp: vsnreadf.simps(2) split: if_splits)
  next
    case True
    show ?thesis
    proof (cases fmt)
      case Nil
      with True "2.prems" show ?thesis by (simp add: vsnreadf.simps(2))
    next
      case (Cons k fmt')
      show ?thesis
      proof (cases "scan_conv space outs k buf")
        case (ConvOk o2 n)
        with True Cons "2.prems" have "vsnreadf space o2 (read + n) fmt' (drop n buf) = Scan outs' r"
          by (simp add: vsnreadf.simps(2))
        from "2.IH"(1) [OF True Cons ConvOk this] scan_conv_outs [OF ConvOk] show ?thesis by auto
      qed (use True Cons "2.prems" in \<open>auto simp: vsnreadf.simps(2) dest: scan_conv_fail_outs\<close>)
    qed
  qed
qed

lemma st_type_frame [simp]:
  "m_type (st_nodeID v m) = m_type m" "m_type (st_proposalID v m) = m_type m"
  "m_type (st_acceptedProposalID v m) = m_type m" "m_type (st_leaseOwner v m) = m_type m"
  "m_type (st_duration v m) = m_type m" "m_type (st_localExpireTime v m) = m_type m"
  "m_type (st_paxosID v m) = m_type m"
  by (cases v; simp)+

lemma pm_store_type: "\<forall>f \<in> set fs. \<forall>v m. m_type (f v m) = m_type m \<Longrightarrow> m_type (pm_store fs vs m) = m_type m"
  by (induction fs vs m rule: pm_store.induct) auto

lemma pm_read_format_shape:
  assumes "pm_read_format c = Some (fmt, cells)"
  shows "\<exists>fmt' cells'. fmt = CHR ''%'' # CHR ''c'' # fmt' \<and> cells = st_type # cells' \<and>
           (\<forall>f \<in> set cells'. \<forall>v m. m_type (f v m) = m_type m)"
  using assms by (auto simp: pm_read_format_def split: if_splits)

text \<open>A message that \<open>Read\<close> reports as good has a type of the protocol: that of its first byte.\<close>

lemma pm_Read_type:
  assumes "pm_Read data m = (True, m')"
  shows "m_type m' = hd data \<and> pm_read_format (m_type m') \<noteq> None"
proof -
  from assms obtain c rest where data: "data = c # rest"
    by (cases data) (auto simp: pm_Read_def)
  from assms data obtain fmt cells where f: "pm_read_format c = Some (fmt, cells)"
    by (auto simp: pm_Read_def split: option.splits)
  from pm_read_format_shape [OF f] obtain fmt' cells' where shape:
    "fmt = CHR ''%'' # CHR ''c'' # fmt'" "cells = st_type # cells'"
    "\<forall>f \<in> set cells'. \<forall>v m. m_type (f v m) = m_type m" by blast
  from assms data f obtain outs r where scan: "snreadf (\<lambda>_. 0) data fmt = Scan outs r"
    and m': "m' = pm_store cells outs m"
    by (auto simp: pm_Read_def split: scan.splits)
  from scan data shape have "vsnreadf (\<lambda>_. 0) [FChar c] 1 fmt' rest = Scan outs r"
    by (simp add: snreadf_def vsnreadf_char)
  from vsnreadf_outs [OF this] obtain more where "outs = FChar c # more" by auto
  with m' shape have "m_type m' = c" by (simp add: pm_store_type)
  with data f show ?thesis by simp
qed

lemma pm_Read_kind:
  assumes "pm_Read data m = (True, m')"
  shows "IsResponse m' \<or> IsRequest m' \<or> m_type m' = PLEASE_LEARN_CHOSEN"
  using pm_Read_type [OF assms] by (auto simp: pm_read_format_def pm_predicates split: if_splits)

subsection \<open>Every entry point keeps the invariant\<close>

text \<open>\<open>OnRead\<close> after the datagram has been parsed into the message object.\<close>

definition heard :: "bool \<Rightarrow> plmsg \<Rightarrow> node \<Rightarrow> node" where
  "heard ok m n = n\<lparr>n_msg := m, n_highestProposalID :=
     (if ok \<and> IsRequest m \<and> n_highestProposalID n < m_proposalID m then m_proposalID m
      else n_highestProposalID n)\<rparr>"

lemma heard_sel [simp]:
  "n_prop (heard ok m n) = n_prop n" "n_acc (heard ok m n) = n_acc n" "n_lrn (heard ok m n) = n_lrn n"
  "n_timers (heard ok m n) = n_timers n" "n_acquireLease (heard ok m n) = n_acquireLease n"
  "n_otherTimers (heard ok m n) = n_otherTimers n" "n_out (heard ok m n) = n_out n"
  by (simp_all add: heard_def)

lemma OnRead_eq:
  assumes "pm_Read data (n_msg n) = (ok, m)"
  shows "OnRead e data n =
    (if \<not> ok then Some (heard ok m n)
     else if IsResponse m then Proposer_ProcessMsg e m (heard ok m n)
     else if IsRequest m then Acceptor_ProcessMsg e m (heard ok m n)
     else Learner_ProcessMsg e m (heard ok m n))"
proof -
  have "(if ok \<and> IsRequest m \<and> n_highestProposalID n < m_proposalID m
         then n\<lparr>n_msg := m, n_highestProposalID := m_proposalID m\<rparr> else n\<lparr>n_msg := m\<rparr>) = heard ok m n"
    by (simp add: heard_def)
  then show ?thesis
    using pm_Read_kind [of data "n_msg n" m] assms
    by (cases ok; cases "IsResponse m"; cases "IsRequest m")
      (simp_all add: OnRead_def Let_def cong: if_cong)
qed

definition kept :: "rconf \<Rightarrow> node \<Rightarrow> node \<Rightarrow> bool" where
  "kept rc n n' \<longleftrightarrow> (node_inv rc n \<longrightarrow> node_inv rc n' \<and> n_acquireLease n' = n_acquireLease n \<and>
     n_otherTimers n' = n_otherTimers n)"

lemma OnRead_kept:
  assumes "OnRead e data n = Some n'"
  shows "kept (e_rc e) n n'"
  unfolding kept_def
proof
  assume inv: "node_inv (e_rc e) n"
  obtain ok m where rd: "pm_Read data (n_msg n) = (ok, m)" by force
  define n1 where "n1 = heard ok m n"
  have n1: "node_inv (e_rc e) n1" "n_acquireLease n1 = n_acquireLease n"
    "n_otherTimers n1 = n_otherTimers n"
    using inv by (simp_all add: n1_def inv_defs)
  have upd: "node_inv (e_rc e) (n1\<lparr>n_pmsg := m\<rparr>)" "node_inv (e_rc e) (n1\<lparr>n_amsg := m\<rparr>)"
    "node_inv (e_rc e) (n1\<lparr>n_lmsg := m\<rparr>)"
    using n1(1) by (simp_all add: inv_defs)
  consider "n' = n1" | "Proposer_ProcessMsg e m n1 = Some n'" | "Acceptor_ProcessMsg e m n1 = Some n'"
    | "Learner_ProcessMsg e m n1 = Some n'"
    using assms unfolding OnRead_eq [OF rd] n1_def by (auto split: if_splits)
  then show "node_inv (e_rc e) n' \<and> n_acquireLease n' = n_acquireLease n \<and>
      n_otherTimers n' = n_otherTimers n"
  proof cases
    case 1
    with n1 show ?thesis by simp
  next
    case 2
    with OnPrepareResponse_inv [OF upd(1)] OnProposeResponse_inv [OF upd(1), of n'] n1 show ?thesis
      by (auto simp: Proposer_ProcessMsg_def Let_def frame_def split: if_splits)
  next
    case 3
    with OnPrepareRequest_inv [OF upd(2), of n'] OnProposeRequest_keeps [of e "n1\<lparr>n_amsg := m\<rparr>" n']
      same_lease_inv [of "n1\<lparr>n_amsg := m\<rparr>" n' "e_rc e", OF _ upd(2)] n1
    show ?thesis
      by (auto simp: Acceptor_ProcessMsg_def Let_def same_lease_def split: if_splits)
  next
    case 4
    with OnLearnChosen_inv [OF upd(3), of n'] n1 show ?thesis
      by (auto simp: Learner_ProcessMsg_def frame_def split: if_splits)
  qed
qed

lemma OnTimer_kept:
  assumes "OnTimer e t n = Some n'" "armed t n"
  shows "kept (e_rc e) n n'"
  unfolding kept_def
proof
  assume inv: "node_inv (e_rc e) n"
  let ?n = "n\<lparr>n_timers := (n_timers n)(t := None)\<rparr>"
  have phase: "phase_inv (e_rc e) n" using inv by (simp add: node_inv_def)
  show "node_inv (e_rc e) n' \<and> n_acquireLease n' = n_acquireLease n \<and>
      n_otherTimers n' = n_otherTimers n"
  proof (cases t)
    case AcqTimer
    with assms phase have "\<not> armed ExtTimer ?n" by (auto simp: phase_inv_def)
    from StartPreparing_inv [OF this, of "e_rc e" e] AcqTimer assms(1) show ?thesis
      by (auto simp: OnTimer_def OnAcquireLeaseTimeout_def)
  next
    case ExtTimer
    then have "\<not> armed ExtTimer ?n" by simp
    from StartPreparing_inv [OF this, of "e_rc e" e] ExtTimer assms(1) show ?thesis
      by (auto simp: OnTimer_def OnExtendLeaseTimeout_def split: if_splits)
  next
    case AccTimer
    with assms(1) have n': "n' = Acceptor_OnLeaseTimeout ?n" by (simp add: OnTimer_def)
    have "same_lease n n'" by (simp add: n' AccTimer Acceptor_OnLeaseTimeout_def same_lease_def)
    then show ?thesis using same_lease_inv inv by (simp add: same_lease_def)
  next
    case LrnTimer
    with phase have "phase_inv (e_rc e) ?n" by (auto simp: phase_inv_def)
    moreover from LrnTimer assms(1) have "Learner_OnLeaseTimeout e ?n = Some n'"
      by (simp add: OnTimer_def)
    ultimately show ?thesis using Learner_OnLeaseTimeout_inv by (fastforce simp: frame_def)
  qed
qed

lemma ReplicatedLog_Init_inv:
  assumes "ReplicatedLog_Init e n = Some n'"
  shows "node_inv (e_rc e) n' \<and> n_acquireLease n' \<and> n_otherTimers n' = n_otherTimers n"
proof -
  let ?n = "(PaxosLease_Init n)\<lparr>n_acquireLease := True\<rparr>"
  have "phase_inv (e_rc e) ?n" by (simp add: phase_inv_def PaxosLease_Init_def ProposerState_Init_def)
  moreover have run: "StartAcquireLease e ?n = Some n'"
    using assms by (simp add: ReplicatedLog_Init_def AcquireLease_def)
  ultimately have "node_inv (e_rc e) n'" using StartAcquireLease_inv by blast
  with StartAcquireLease_frame [OF run] show ?thesis by (simp add: frame_def PaxosLease_Init_def)
qed

subsection \<open>The step relation\<close>

inductive node_step :: "rconf \<Rightarrow> node \<Rightarrow> node \<Rightarrow> bool" for rc where
  read: "e_rc e = rc \<Longrightarrow> OnRead e data n = Some n' \<Longrightarrow> node_step rc n n'"
| timer: "e_rc e = rc \<Longrightarrow> armed t n \<Longrightarrow> OnTimer e t n = Some n' \<Longrightarrow> node_step rc n n'"
| query: "e_rc e = rc \<Longrightarrow> CheckLease e n = Some n' \<Longrightarrow> node_step rc n n'"

inductive reachable :: "rconf \<Rightarrow> node \<Rightarrow> bool" for rc where
  start: "e_rc e = rc \<Longrightarrow> ReplicatedLog_Init e n = Some n' \<Longrightarrow> reachable rc n'"
| step: "reachable rc n \<Longrightarrow> node_step rc n n' \<Longrightarrow> reachable rc n'"

inductive_cases node_stepE [elim]: "node_step rc n n'"

lemma node_step_kept: "node_step rc n n' \<Longrightarrow> kept rc n n'"
  by (elim node_stepE)
    (auto simp: kept_def frame_def dest: OnRead_kept OnTimer_kept CheckLease_inv)

lemma reachable_inv: "reachable rc n \<Longrightarrow> node_inv rc n \<and> n_acquireLease n"
proof (induction rule: reachable.induct)
  case (start e n n')
  then show ?case using ReplicatedLog_Init_inv by blast
next
  case (step n n')
  then show ?case using node_step_kept by (fastforce simp: kept_def)
qed

subsection \<open>No assertion fails\<close>

lemma Timer_Delete_total: "n_otherTimers n \<Longrightarrow> Timer_Delete t n = Some (n\<lparr>n_timers := (n_timers n)(t := None)\<rparr>)"
  by (simp add: Timer_Delete_def Timer_Empty_def)

lemma Learner_OnLeaseTimeout_total: "n_otherTimers n \<Longrightarrow> \<exists>n'. Learner_OnLeaseTimeout e n = Some n'"
  by (simp add: Learner_OnLeaseTimeout_def PaxosLease_OnLeaseTimeout_def StartAcquireLease_def
      Timer_Delete_total)

lemma CheckLease_total: "n_otherTimers n \<Longrightarrow> \<exists>n'. CheckLease e n = Some n'"
  by (simp add: CheckLease_def Learner_OnLeaseTimeout_total)

lemma CheckLease_otherTimers:
  "CheckLease e n = Some n' \<Longrightarrow> n_otherTimers n' = n_otherTimers n \<and> n_amsg n' = n_amsg n \<and> n_lmsg n' = n_lmsg n"
  by (auto simp: CheckLease_def Learner_OnLeaseTimeout_def PaxosLease_OnLeaseTimeout_def
        lease_simps bind_eq_Some_conv frame_def dest!: StartAcquireLease_frame split: if_splits)

lemma IsLeaseOwner_total:
  assumes "n_otherTimers n"
  obtains b n' where "IsLeaseOwner e n = Some (b, n')" "n_otherTimers n'"
proof -
  from CheckLease_total [OF assms] obtain n' where "CheckLease e n = Some n'" by blast
  moreover from this have "n_otherTimers n'" using CheckLease_otherTimers assms by blast
  ultimately show thesis
    using that [of "l_learned (n_lrn n') \<and> l_leaseOwner (n_lrn n') = rc_nodeID (e_rc e)" n']
    by (simp add: IsLeaseOwner_def)
qed

lemma PaxosLease_OnLearnLease_total:
  assumes "n_otherTimers n"
  shows "\<exists>n'. PaxosLease_OnLearnLease e n = Some n'"
proof -
  obtain b n1 where 1: "IsLeaseOwner e n = Some (b, n1)" "n_otherTimers n1"
    using assms by (rule IsLeaseOwner_total)
  obtain c n2 where 2: "IsLeaseOwner e n1 = Some (c, n2)" "n_otherTimers n2"
    using 1(2) by (rule IsLeaseOwner_total)
  show ?thesis by (simp add: PaxosLease_OnLearnLease_def 1 2 StopAcquireLease_def Timer_Delete_total)
qed

lemma OnLearnChosen_total:
  assumes "n_otherTimers n"
  shows "\<exists>n'. OnLearnChosen e n = Some n'"
proof -
  from CheckLease_total [OF assms] obtain n1 where n1: "CheckLease e n = Some n1" by blast
  then have "n_otherTimers n1" using CheckLease_otherTimers assms by blast
  then show ?thesis by (simp add: OnLearnChosen_def n1 Let_def PaxosLease_OnLearnLease_total)
qed

lemma OnPrepareRequest_total:
  assumes "n_otherTimers n" "GetAddr (e_rc e) (m_nodeID (n_amsg n)) = Some a"
  shows "\<exists>n'. OnPrepareRequest e n = Some n'"
proof -
  from CheckLease_total [OF assms(1)] obtain n1 where n1: "CheckLease e n = Some n1" by blast
  from CheckLease_otherTimers [OF this] assms(2) show ?thesis
    by (auto simp: OnPrepareRequest_eq prepare_gate_def GetLeaseOwner_def n1 SendReply_def)
qed

lemma OnProposeRequest_total:
  "GetAddr (e_rc e) (m_nodeID (n_amsg n)) = Some a \<Longrightarrow> \<exists>n'. OnProposeRequest e n = Some n'"
  by (auto simp: OnProposeRequest_def Let_def SendReply_def)

lemma OnRead_total:
  assumes inv: "node_inv (e_rc e) n" and others: "n_otherTimers n"
    and sender: "\<And>m. pm_Read data (n_msg n) = (True, m) \<Longrightarrow> IsRequest m \<Longrightarrow>
                   GetAddr (e_rc e) (m_nodeID m) \<noteq> None"
  shows "\<exists>n'. OnRead e data n = Some n'"
proof -
  obtain ok m where rd: "pm_Read data (n_msg n) = (ok, m)" by force
  have phase: "phase_inv (e_rc e) ((heard ok m n)\<lparr>n_pmsg := m\<rparr>)"
    using inv by (simp add: inv_defs)
  consider "\<not> ok" | "ok" "IsResponse m" | "ok" "\<not> IsResponse m" "IsRequest m"
    | "ok" "\<not> IsResponse m" "\<not> IsRequest m" by blast
  then show ?thesis
  proof cases
    case 1
    then show ?thesis by (simp add: OnRead_eq [OF rd])
  next
    case 2
    then show ?thesis using OnProposeResponse_cases [OF phase]
      by (auto simp: OnRead_eq [OF rd] Proposer_ProcessMsg_def Let_def IsResponse_def)
  next
    case 3
    with sender rd obtain a where "GetAddr (e_rc e) (m_nodeID m) = Some a" by fastforce
    with 3 others show ?thesis
      using OnPrepareRequest_total [of "(heard ok m n)\<lparr>n_amsg := m\<rparr>" e a]
        OnProposeRequest_total [of e "(heard ok m n)\<lparr>n_amsg := m\<rparr>" a]
      by (auto simp: OnRead_eq [OF rd] Acceptor_ProcessMsg_def Let_def IsRequest_def)
  next
    case 4
    with pm_Read_kind [of data "n_msg n" m] rd have "m_type m = PLEASE_LEARN_CHOSEN" by auto
    with 4 others show ?thesis
      using OnLearnChosen_total [of "(heard ok m n)\<lparr>n_lmsg := m\<rparr>" e]
      by (auto simp: OnRead_eq [OF rd] Learner_ProcessMsg_def)
  qed
qed

lemma OnTimer_total:
  assumes "node_inv (e_rc e) n" "n_otherTimers n" "armed t n"
  shows "\<exists>n'. OnTimer e t n = Some n'"
  using assms Learner_OnLeaseTimeout_total [of "n\<lparr>n_timers := (n_timers n)(t := None)\<rparr>" e]
  by (cases t) (auto simp: OnTimer_def OnExtendLeaseTimeout_def inv_defs)
end
