(* ===== verification/PLease_Cluster.thy ===== *)
theory PLease_Cluster
  imports PLease_Reach
begin

section \<open>A cell of nodes\<close>

text \<open>
  The nodes of a cell and the network between them. The network holds every datagram that was
  ever sent: it may deliver one late, twice or never, but it does not make one up. One event is the
  delivery of a datagram to a node or the expiry of one of its timers; the nodes share a clock.
\<close>

record cellstate =
  c_nodes :: "node list"
  c_net :: "(u32 \<times> string) list"

datatype event = Deliver nat nat | Fire nat timer

definition posted :: "u32 \<Rightarrow> (dest \<times> string) list \<Rightarrow> (u32 \<times> string) list" where
  "posted num out = concat (map (\<lambda>(d, t). case d of ToNode i \<Rightarrow> [(i, t)]
     | Multicast \<Rightarrow> map (\<lambda>i. (of_nat i, t)) [0 ..< unat num]) out)"

definition cell_put :: "(nat \<Rightarrow> rconf) \<Rightarrow> nat \<Rightarrow> node \<Rightarrow> cellstate \<Rightarrow> cellstate" where
  "cell_put rcs i n c =
     c\<lparr>c_nodes := (c_nodes c)[i := n\<lparr>n_out := []\<rparr>],
       c_net := c_net c @ posted (rc_numNodes (rcs i)) (n_out n)\<rparr>"

text \<open>\<open>Deliver i k\<close> gives node \<open>i\<close> the k-th datagram of the network, which must be addressed to it.\<close>

definition cell_event :: "(nat \<Rightarrow> rconf) \<Rightarrow> u64 \<Rightarrow> event \<Rightarrow> cellstate \<Rightarrow> cellstate option" where
  "cell_event rcs ms ev c =
     (case ev of
        Deliver i k \<Rightarrow>
          if i < length (c_nodes c) \<and> k < length (c_net c) \<and> fst (c_net c ! k) = of_nat i
          then do { n \<leftarrow> OnRead \<lparr>e_rc = rcs i, e_msec = ms\<rparr> (snd (c_net c ! k)) (c_nodes c ! i);
                    Some (cell_put rcs i n c) }
          else None
      | Fire i t \<Rightarrow>
          if i < length (c_nodes c) \<and> (case n_timers (c_nodes c ! i) t of None \<Rightarrow> False | Some k \<Rightarrow> k \<le> ms)
          then do { n \<leftarrow> OnTimer \<lparr>e_rc = rcs i, e_msec = ms\<rparr> t (c_nodes c ! i);
                    Some (cell_put rcs i n c) }
          else None)"

fun cell_run :: "(nat \<Rightarrow> rconf) \<Rightarrow> (u64 \<times> event) list \<Rightarrow> cellstate \<Rightarrow> cellstate option" where
  "cell_run rcs [] c = Some c"
| "cell_run rcs ((ms, ev) # evs) c = do { c' \<leftarrow> cell_event rcs ms ev c; cell_run rcs evs c' }"

fun cell_boot :: "(nat \<Rightarrow> rconf) \<Rightarrow> u64 \<Rightarrow> nat \<Rightarrow> node list \<Rightarrow> cellstate \<Rightarrow> cellstate option" where
  "cell_boot rcs ms i [] c = Some c"
| "cell_boot rcs ms i (n # ns) c =
     do { n' \<leftarrow> ReplicatedLog_Init \<lparr>e_rc = rcs i, e_msec = ms\<rparr> n;
          cell_boot rcs ms (Suc i) ns
            (c\<lparr>c_nodes := c_nodes c @ [n'\<lparr>n_out := []\<rparr>],
               c_net := c_net c @ posted (rc_numNodes (rcs i)) (n_out n')\<rparr>) }"

subsection \<open>A cell of three\<close>

definition blank_msg :: plmsg where
  "blank_msg = \<lparr>m_type = CHR 0x00, m_nodeID = 0, m_proposalID = 0, m_acceptedProposalID = 0,
     m_leaseOwner = 0, m_duration = 0, m_localExpireTime = 0, m_paxosID = 0\<rparr>"

definition blank_node :: node where
  "blank_node = \<lparr>n_highestProposalID = 0,
     n_prop = \<lparr>p_preparing = False, p_proposing = False, p_proposalID = 0,
       p_highestReceivedProposalID = 0, p_leaseOwner = 0, p_duration = 0, p_expireTime = 0\<rparr>,
     n_pmsg = blank_msg, n_numReceived = 0, n_numAccepted = 0, n_numRejected = 0,
     n_acc = \<lparr>a_promisedProposalID = 0, a_accepted = False, a_acceptedProposalID = 0,
       a_acceptedLeaseOwner = 0, a_acceptedDuration = 0, a_acceptedExpireTime = 0\<rparr>,
     n_amsg = blank_msg,
     n_lrn = \<lparr>l_learned = False, l_leaseOwner = 0, l_expireTime = 0, l_leaseEpoch = 0\<rparr>,
     n_lmsg = blank_msg, n_acquireLease = False, n_msg = blank_msg,
     n_timers = (\<lambda>_. None), n_otherTimers = True, n_out = []\<rparr>"

definition trio :: "nat \<Rightarrow> rconf" where
  "trio i = \<lparr>rc_nodeID = of_nat i, rc_numNodes = 3, rc_restartCounter = 0,
     rc_addresses = [(''10.0.0.1'', 10000), (''10.0.0.2'', 10000), (''10.0.0.3'', 10000)],
     rc_multiMode = False\<rparr>"

definition trio_env :: "nat \<Rightarrow> u64 \<Rightarrow> env" where
  "trio_env i ms = \<lparr>e_rc = trio i, e_msec = ms\<rparr>"

definition trio_boot :: "cellstate option" where
  "trio_boot = cell_boot trio 1000 0 [blank_node, blank_node, blank_node]
     \<lparr>c_nodes = [], c_net = []\<rparr>"


text \<open>Evaluation reads a datagram through the round trip of its message, not digit by digit.\<close>

lemma pm_Read_wire: "pm_text m \<noteq> None \<Longrightarrow> pm_Read (wire m) m0 = (True, pm_carry m m0)"
  by (auto simp: wire_def pm_Read_text)

lemma pm_text_None: "pm_text m = None \<longleftrightarrow> pm_read_format (m_type m) = None"
  by (auto simp: pm_text_def pm_read_format_def Let_def)

lemmas boot_eval =
  blank_node_def blank_msg_def trio_def ReplicatedLog_Init_def AcquireLease_def PaxosLease_Init_def
  ProposerState_Init_def AcceptorState_Init_def LearnerState_Init_def StartAcquireLease_def
  Timer_Delete_def Timer_Empty_def StartPreparing_def BroadcastMessage_eq broadcast_out_def
  Timer_Add_def ACQUIRELEASE_TIMEOUT_def NextHighest_def WIDTH_NODEID_def WIDTH_RESTART_COUNTER_def
  pm_constructors upt_rec Let_def

lemmas read_eval =
  OnRead_def pm_Read_wire pm_text_None pm_read_format_def pm_carry_def pl_types pm_predicates
  Acceptor_ProcessMsg_def OnPrepareRequest_def OnProposeRequest_def Acceptor_expire_def
  AcceptorState_OnLeaseTimeout_def Acceptor_OnLeaseTimeout_def SendReply_def GetAddr_def send_eq
  Proposer_ProcessMsg_def OnPrepareResponse_def OnProposeResponse_def MinMajority_def
  StartProposing_def MAX_LEASE_TIME_def Now_def Learner_ProcessMsg_def OnLearnChosen_def
  CheckLease_def PaxosLease_OnLearnLease_def IsLeaseOwner_def

lemmas cell_eval =
  boot_eval read_eval posted_def cell_event_def cell_put_def OnTimer_def OnAcquireLeaseTimeout_def

end
