(* ===== verification/PLease_Contest.thy ===== *)
theory PLease_Contest
  imports PLease_Cluster
begin

section \<open>A contest for the lease\<close>

text \<open>
  A contest between nodes 1 and 2. Node 2 wins the promises of nodes 0 and 2, and its proposal is
  delayed; node 1 then wins the promises of nodes 0 and 1 with a higher number, nodes 1 and 2
  accept its proposal, and it learns that it owns the lease. Node 2 has accepted the higher number
  but still only promised its own, so the delayed proposal replaces it there; on its next round
  node 2 sees nothing but its own proposal at nodes 0 and 2 and takes the lease as well.
\<close>

definition contest :: "(u64 \<times> event) list" where
  "contest =
     [(1001, Deliver 0 6), (1001, Deliver 2 8), (1002, Deliver 2 9), (1002, Deliver 2 10),
      (1003, Deliver 1 7), (21001, Fire 1 AcqTimer), (21002, Deliver 0 15), (21002, Deliver 1 16),
      (21002, Deliver 1 18), (21002, Deliver 1 19), (21003, Deliver 1 21), (21003, Deliver 2 22),
      (21003, Deliver 1 23), (21003, Deliver 1 24), (21004, Deliver 1 26), (21004, Deliver 2 13),
      (21005, Fire 2 AcqTimer), (21006, Deliver 0 29), (21006, Deliver 2 31), (21006, Deliver 2 32),
      (21006, Deliver 2 33), (21007, Deliver 0 34), (21007, Deliver 2 36), (21007, Deliver 2 37),
      (21007, Deliver 2 38), (21008, Deliver 2 41)]"

definition owners_at :: "(nat \<Rightarrow> rconf) \<Rightarrow> u64 \<Rightarrow> cellstate \<Rightarrow> bool option list" where
  "owners_at rcs ms c =
     map (\<lambda>i. map_option fst (IsLeaseOwner \<lparr>e_rc = rcs i, e_msec = ms\<rparr> (c_nodes c ! i)))
       [0 ..< length (c_nodes c)]"


end
