(* ===== verification/Intrusive_Queue.thy ===== *)
theory Intrusive_Queue
  imports Net_Prelude
begin

section \<open>The intrusive queue\<close>

text \<open>
  The model of the template \<open>Queue<T, pnext>\<close> (\<^verbatim>\<open>src/PL/Queue.h\<close>): a singly linked list whose
  link is a member of the elements. Elements are their addresses; \<open>q_next\<close> is the link member of
  every element, so that two queues over the same member would share it. The refinement relation
  \<open>q_list\<close> says which list of elements a queue holds; \<open>Append\<close> and \<open>Get\<close> are then a
  first-in-first-out queue, which is the interface \<open>fifo\<close>.
\<close>

record 'a queue =
  q_head :: "'a option"
  q_tail :: "'a option"
  q_size :: int
  q_next :: "'a \<Rightarrow> 'a option"

definition q_Append :: "'a \<Rightarrow> 'a queue \<Rightarrow> 'a queue" where
  "q_Append e q =
     (let nx = (q_next q)(e := None)
      in case q_tail q of
           Some t \<Rightarrow> q\<lparr>q_next := nx(t := Some e), q_tail := Some e, q_size := q_size q + 1\<rparr>
         | None \<Rightarrow> q\<lparr>q_next := nx, q_head := Some e, q_tail := Some e, q_size := q_size q + 1\<rparr>)"

definition q_Get :: "'a queue \<Rightarrow> 'a option \<times> 'a queue" where
  "q_Get q =
     (case q_head q of
        None \<Rightarrow> (None, q)
      | Some e \<Rightarrow>
          (Some e, q\<lparr>q_head := q_next q e,
                     q_tail := (if q_tail q = Some e then None else q_tail q),
                     q_next := (q_next q)(e := None),
                     q_size := q_size q - 1\<rparr>))"

text \<open>\<open>Clear\<close> calls \<open>Get\<close> until it returns no element; \<open>None\<close> when that never happens.\<close>

partial_function (option) q_Clear :: "'a queue \<Rightarrow> 'a queue option" where
  "q_Clear q = (case q_Get q of (r, q') \<Rightarrow> (case r of None \<Rightarrow> Some q' | Some _ \<Rightarrow> q_Clear q'))"

definition q_new :: "('a \<Rightarrow> 'a option) \<Rightarrow> 'a queue" where
  "q_new nx = \<lparr>q_head = None, q_tail = None, q_size = 0, q_next = nx\<rparr>"

subsection \<open>The list a queue holds\<close>

fun linked :: "('a \<Rightarrow> 'a option) \<Rightarrow> 'a option \<Rightarrow> 'a list \<Rightarrow> bool" where
  "linked nx p [] \<longleftrightarrow> p = None"
| "linked nx p (x # xs) \<longleftrightarrow> p = Some x \<and> linked nx (nx x) xs"

definition q_list :: "'a queue \<Rightarrow> 'a list \<Rightarrow> bool" where
  "q_list q xs \<longleftrightarrow> linked (q_next q) (q_head q) xs \<and> distinct xs \<and>
     q_tail q = (if xs = [] then None else Some (last xs)) \<and> q_size q = int (length xs)"

lemma linked_upd_other [simp]: "e \<notin> set xs \<Longrightarrow> linked (nx(e := v)) p xs = linked nx p xs"
  by (induction xs arbitrary: p) auto

lemma linked_unique: "linked nx p xs \<Longrightarrow> linked nx p ys \<Longrightarrow> xs = ys"
  by (induction xs arbitrary: p ys; case_tac ys) auto

lemma linked_snoc:
  "linked nx p xs \<Longrightarrow> distinct xs \<Longrightarrow> xs \<noteq> [] \<Longrightarrow> e \<notin> set xs \<Longrightarrow> nx e = None \<Longrightarrow>
   linked (nx(last xs := Some e)) p (xs @ [e])"
proof (induction xs arbitrary: p)
  case Nil
  then show ?case by simp
next
  case (Cons x xs)
  then show ?case by (cases "xs = []") auto
qed

lemma q_list_new: "q_list (q_new nx) []"
  by (simp add: q_list_def q_new_def)

lemma q_list_Append: "q_list q xs \<Longrightarrow> e \<notin> set xs \<Longrightarrow> q_list (q_Append e q) (xs @ [e])"
  by (cases "xs = []")
    (auto simp: q_list_def q_Append_def Let_def intro!: linked_snoc)

lemma q_list_Get_Nil: "q_list q [] \<Longrightarrow> q_Get q = (None, q)"
  by (simp add: q_list_def q_Get_def)

lemma q_list_Get_Cons:
  assumes "q_list q (x # xs)"
  shows "fst (q_Get q) = Some x \<and> q_list (snd (q_Get q)) xs"
  using assms by (cases "xs = []") (auto simp: q_list_def q_Get_def)

lemma q_list_unique: "q_list q xs \<Longrightarrow> q_list q ys \<Longrightarrow> xs = ys"
  by (auto simp: q_list_def dest: linked_unique)

subsection \<open>Its contract\<close>

locale fifo =
  fixes rep :: "'q \<Rightarrow> 'a list \<Rightarrow> bool"
    and put :: "'a \<Rightarrow> 'q \<Rightarrow> 'q"
    and get :: "'q \<Rightarrow> 'a option \<times> 'q"
  assumes rep_put: "rep q xs \<Longrightarrow> x \<notin> set xs \<Longrightarrow> rep (put x q) (xs @ [x])"
    and rep_get: "rep q (x # xs) \<Longrightarrow> \<exists>q'. get q = (Some x, q') \<and> rep q' xs"
    and rep_empty: "rep q [] \<Longrightarrow> get q = (None, q)"
begin

fun drain :: "nat \<Rightarrow> 'q \<Rightarrow> 'a list" where
  "drain 0 q = []"
| "drain (Suc n) q = (case get q of (None, _) \<Rightarrow> [] | (Some x, q') \<Rightarrow> x # drain n q')"

lemma drain_rep: "rep q xs \<Longrightarrow> length xs \<le> n \<Longrightarrow> drain n q = xs"
proof (induction xs arbitrary: n q)
  case Nil
  then show ?case by (cases n) (auto simp: rep_empty)
next
  case (Cons x xs)
  then obtain q' m where "get q = (Some x, q')" "rep q' xs" "n = Suc m" "length xs \<le> m"
    using rep_get [of q x xs] by (cases n) auto
  with Cons.IH show ?case by simp
qed

lemma rep_fold_put:
  "rep q xs \<Longrightarrow> distinct (xs @ ys) \<Longrightarrow> rep (fold put ys q) (xs @ ys)"
proof (induction ys arbitrary: q xs)
  case Nil
  then show ?case by simp
next
  case (Cons y ys)
  then have "rep (put y q) (xs @ [y])" by (auto intro: rep_put)
  with Cons.IH [of "put y q" "xs @ [y]"] Cons.prems show ?case by simp
qed

lemma fifo_order:
  assumes "rep q []" "distinct ys"
  shows "drain (length ys) (fold put ys q) = ys"
  using rep_fold_put [of q "[]" ys] assms by (auto intro: drain_rep)

end

interpretation iq: fifo q_list q_Append q_Get
proof unfold_locales
  fix q :: "'a queue" and xs x
  assume "q_list q xs" "x \<notin> set xs"
  then show "q_list (q_Append x q) (xs @ [x])" by (rule q_list_Append)
next
  fix q :: "'a queue" and x xs
  assume "q_list q (x # xs)"
  from q_list_Get_Cons [OF this] show "\<exists>q'. q_Get q = (Some x, q') \<and> q_list q' xs"
    by (cases "q_Get q") auto
next
  fix q :: "'a queue"
  assume "q_list q []"
  then show "q_Get q = (None, q)" by (rule q_list_Get_Nil)
qed

lemma q_Clear_empties: "q_list q xs \<Longrightarrow> \<exists>q'. q_Clear q = Some q' \<and> q_list q' []"
proof (induction xs arbitrary: q)
  case Nil
  then show ?case by (subst q_Clear.simps) (simp add: q_list_Get_Nil)
next
  case (Cons x xs)
  obtain r q' where g: "q_Get q = (r, q')" by force
  with q_list_Get_Cons [OF Cons.prems] have "r = Some x" "q_list q' xs" by auto
  with Cons.IH [of q'] g show ?case by (subst q_Clear.simps) simp
qed

text \<open>Taking elements out until the queue is empty.\<close>

fun q_drain :: "nat \<Rightarrow> 'a queue \<Rightarrow> 'a list" where
  "q_drain 0 q = []"
| "q_drain (Suc n) q = (case q_Get q of (None, _) \<Rightarrow> [] | (Some x, q') \<Rightarrow> x # q_drain n q')"

lemma drain_queue: "iq.drain n q = q_drain n q"
  by (induction n arbitrary: q) (auto split: prod.splits option.splits)

text \<open>
  C38. The intrusive queue is first in, first out: elements that are appended to a new queue, each
  once, come out of \<open>Get\<close> in the same order, then the queue is empty; and \<open>Clear\<close> of the queue
  ends.
\<close>

theorem queue_fifo:
  assumes "distinct ys"
  shows "q_drain (length ys) (fold q_Append ys (q_new nx)) = ys \<and>
         (\<exists>q'. q_Clear (fold q_Append ys (q_new nx)) = Some q' \<and> q_list q' [])"
  using iq.fifo_order [OF q_list_new assms] q_Clear_empties iq.rep_fold_put [OF q_list_new, of ys nx] assms
  by (simp add: drain_queue)

theorem queue_fifo_witness:
  "q_drain 3 (fold q_Append [2, 7, 5] (q_new (\<lambda>_ :: nat. None))) = [2, 7, 5]"
  using queue_fifo [of "[2, 7, 5]" "\<lambda>_ :: nat. None"] by (simp add: numeral_3_eq_3)

end
