(* ===== verification/Mdb_Pool.thy ===== *)
theory Mdb_Pool
  imports Net_Prelude "HOL-Library.Monad_Syntax"
begin

section \<open>The page pool of the cache\<close>

text \<open>
  The model of \<open>mem_pool\<close> (\<^verbatim>\<open>src/dkv/mdb/mem_pool.hpp\<close>, \<^verbatim>\<open>mem_pool.cpp\<close>): pages of a shared
  memory segment handed out with a bitmap and a rotating cursor. The bitmap is the array of
  \<open>BITMAP_SIZE\<close> bytes; reading or writing outside it, a failed assertion, and a search that never
  ends are the value \<open>None\<close>. Addresses are 64-bit words.
\<close>

record mem_pool =
  mp_inited :: bool
  mp_page_size :: nat
  mp_total_pages :: nat
  mp_free_pages :: int
  mp_current_page :: nat
  mp_bitmap :: "u8 list"
  mp_pool :: u64

definition MAX_PAGES_NO :: nat where "MAX_PAGES_NO = 65536"
definition BITMAP_SIZE :: nat where "BITMAP_SIZE = (MAX_PAGES_NO + 7) div 8"

subsection \<open>The bitmap\<close>

definition TEST_BIT :: "u8 list \<Rightarrow> nat \<Rightarrow> bool option" where
  "TEST_BIT bm x =
     (if x div 8 < length bm then Some (drop_bit (x mod 8) (bm ! (x div 8)) AND 1 \<noteq> 0) else None)"

definition SET_BIT :: "u8 list \<Rightarrow> nat \<Rightarrow> u8 list option" where
  "SET_BIT bm x =
     (if x div 8 < length bm then Some (bm[x div 8 := (bm ! (x div 8)) OR push_bit (x mod 8) 1])
      else None)"

definition CLEAR_BIT :: "u8 list \<Rightarrow> nat \<Rightarrow> u8 list option" where
  "CLEAR_BIT bm x =
     (if x div 8 < length bm
      then Some (bm[x div 8 := (bm ! (x div 8)) AND NOT (push_bit (x mod 8) 1)]) else None)"

fun set_bits :: "u8 list \<Rightarrow> nat \<Rightarrow> u8 list option" where
  "set_bits bm 0 = Some bm"
| "set_bits bm (Suc n) = do { bm \<leftarrow> set_bits bm n; SET_BIT bm n }"

subsection \<open>Operations\<close>

definition mp_initialize :: "u64 \<Rightarrow> nat \<Rightarrow> nat \<Rightarrow> nat \<Rightarrow> mem_pool \<Rightarrow> mem_pool option" where
  "mp_initialize pool page_size total_pages meta_len p =
     (if pool = 0 \<or> page_size < 2 ^ 20 \<or> total_pages = 0 then None
      else let p = p\<lparr>mp_pool := pool\<rparr>
           in if mp_inited p then Some p
              else let meta_pages = (meta_len + page_size - 1) div page_size
                   in do { bm \<leftarrow> set_bits (replicate BITMAP_SIZE 0) meta_pages;
                           let free = int total_pages - int meta_pages;
                           if free > 0
                           then Some (p\<lparr>mp_page_size := page_size, mp_total_pages := total_pages,
                                  mp_bitmap := bm, mp_free_pages := free,
                                  mp_current_page := meta_pages, mp_inited := True\<rparr>)
                           else None })"

definition index_to_page :: "mem_pool \<Rightarrow> nat \<Rightarrow> u64 option" where
  "index_to_page p i =
     (if 0 < i \<and> i < mp_total_pages p then Some (mp_pool p + of_nat i * of_nat (mp_page_size p))
      else None)"

definition page_to_index :: "mem_pool \<Rightarrow> u64 \<Rightarrow> int option" where
  "page_to_index p page =
     (if page = 0 then None
      else Some (sint (ucast ((page - mp_pool p) div of_nat (mp_page_size p)) :: u32)))"

partial_function (option) find_free :: "u8 list \<Rightarrow> nat \<Rightarrow> nat \<Rightarrow> nat option" where
  "find_free bm tot cur =
     (let cur = (if cur = tot then 0 else cur)
      in do { used \<leftarrow> TEST_BIT bm cur;
              if \<not> used then Some cur else find_free bm tot (cur + 1) })"

declare find_free.simps [code]

text \<open>The page and its index; the inner \<open>None\<close> is the null pointer of an exhausted pool.\<close>

definition alloc_page :: "mem_pool \<Rightarrow> ((u64 \<times> nat) option \<times> mem_pool) option" where
  "alloc_page p =
     (if \<not> mp_inited p then None
      else if mp_free_pages p = 0 then Some (None, p)
      else do { i \<leftarrow> find_free (mp_bitmap p) (mp_total_pages p) (mp_current_page p);
                bm \<leftarrow> SET_BIT (mp_bitmap p) i;
                let p = p\<lparr>mp_current_page := i + 1, mp_free_pages := mp_free_pages p - 1, mp_bitmap := bm\<rparr>;
                page \<leftarrow> index_to_page p i;
                Some (Some (page, i), p) })"

definition mp_free_page :: "int \<Rightarrow> mem_pool \<Rightarrow> mem_pool option" where
  "mp_free_page index p =
     (if 0 < index \<and> index < int (mp_total_pages p)
      then do { used \<leftarrow> TEST_BIT (mp_bitmap p) (nat index);
                if \<not> used then Some p
                else do { bm \<leftarrow> CLEAR_BIT (mp_bitmap p) (nat index);
                          Some (p\<lparr>mp_bitmap := bm, mp_free_pages := mp_free_pages p + 1\<rparr>) } }
      else None)"

definition mp_free_page_addr :: "u64 \<Rightarrow> mem_pool \<Rightarrow> mem_pool option" where
  "mp_free_page_addr page p = do { i \<leftarrow> page_to_index p page; mp_free_page i p }"

subsection \<open>Bits\<close>

definition taken :: "u8 list \<Rightarrow> nat \<Rightarrow> bool" where
  "taken bm x \<longleftrightarrow> bit (bm ! (x div 8)) (x mod 8)"

lemma TEST_BIT_taken: "x < 8 * length bm \<Longrightarrow> TEST_BIT bm x = Some (taken bm x)"
proof -
  assume "x < 8 * length bm"
  then have "x div 8 < length bm" by (simp add: less_mult_imp_div_less)
  moreover have "(drop_bit k b AND 1 \<noteq> 0) = bit b k" for k and b :: u8
    by (simp add: and_one_eq bit_iff_odd drop_bit_eq_div odd_iff_mod_2_eq_one)
  ultimately show ?thesis by (simp add: TEST_BIT_def taken_def)
qed

lemma SET_BIT_taken:
  assumes "x < 8 * length bm"
  obtains bm' where "SET_BIT bm x = Some bm'" "length bm' = length bm"
    "\<And>y. y < 8 * length bm \<Longrightarrow> taken bm' y \<longleftrightarrow> taken bm y \<or> y = x"
proof -
  have x: "x div 8 < length bm" using assms by (simp add: less_mult_imp_div_less)
  have eq: "y div 8 = x div 8 \<and> y mod 8 = x mod 8 \<longleftrightarrow> y = x" for y
    by (metis div_mult_mod_eq)
  show thesis
  proof (rule that)
    show "SET_BIT bm x = Some (bm[x div 8 := (bm ! (x div 8)) OR push_bit (x mod 8) 1])"
      using x by (simp add: SET_BIT_def)
  next
    fix y
    assume "y < 8 * length bm"
    then show "taken (bm[x div 8 := (bm ! (x div 8)) OR push_bit (x mod 8) 1]) y \<longleftrightarrow> taken bm y \<or> y = x"
      using x eq [of y]
      by (auto simp: taken_def nth_list_update bit_simps bit_1_iff le_less split: if_splits)
  qed simp
qed

lemma CLEAR_BIT_taken:
  assumes "x < 8 * length bm"
  obtains bm' where "CLEAR_BIT bm x = Some bm'" "length bm' = length bm"
    "\<And>y. y < 8 * length bm \<Longrightarrow> taken bm' y \<longleftrightarrow> taken bm y \<and> y \<noteq> x"
proof -
  have x: "x div 8 < length bm" using assms by (simp add: less_mult_imp_div_less)
  have eq: "y div 8 = x div 8 \<and> y mod 8 = x mod 8 \<longleftrightarrow> y = x" for y
    by (metis div_mult_mod_eq)
  show thesis
  proof (rule that)
    show "CLEAR_BIT bm x = Some (bm[x div 8 := (bm ! (x div 8)) AND NOT (push_bit (x mod 8) 1)])"
      using x by (simp add: CLEAR_BIT_def)
  next
    fix y
    assume "y < 8 * length bm"
    then show "taken (bm[x div 8 := (bm ! (x div 8)) AND NOT (push_bit (x mod 8) 1)]) y \<longleftrightarrow> taken bm y \<and> y \<noteq> x"
      using x eq [of y]
      by (auto simp: taken_def nth_list_update bit_simps bit_1_iff le_less split: if_splits)
  qed simp
qed

lemma unat_of_nat_self: "of_nat (unat w) = (w :: 'a :: len word)"
  by simp

subsection \<open>The search for a free page\<close>

lemma find_free_from:
  assumes "cur \<le> j" "j < tot" "tot \<le> 8 * length bm" "\<not> taken bm j" "\<forall>k. cur \<le> k \<and> k < j \<longrightarrow> taken bm k"
  shows "find_free bm tot cur = Some j"
  using assms
proof (induction "j - cur" arbitrary: cur)
  case 0
  then show ?case by (subst find_free.simps) (simp add: TEST_BIT_taken)
next
  case (Suc d)
  then have "taken bm cur" "cur < tot" by auto
  moreover have "find_free bm tot (cur + 1) = Some j" using Suc by (intro Suc.hyps(1)) auto
  ultimately show ?case using Suc.prems by (subst find_free.simps) (simp add: TEST_BIT_taken)
qed

lemma find_free_wrap:
  assumes "cur \<le> tot" "0 < tot" "tot \<le> 8 * length bm" "\<forall>k. cur \<le> k \<and> k < tot \<longrightarrow> taken bm k"
  shows "find_free bm tot cur = find_free bm tot 0"
  using assms
proof (induction "tot - cur" arbitrary: cur)
  case 0
  then have "cur = tot" by simp
  with 0 show ?case by (subst (1 2) find_free.simps) simp
next
  case (Suc d)
  then have "taken bm cur" "cur < tot" by auto
  moreover have "find_free bm tot (cur + 1) = find_free bm tot 0" using Suc by (intro Suc.hyps(1)) auto
  ultimately show ?case using Suc.prems by (subst find_free.simps) (simp add: TEST_BIT_taken)
qed

text \<open>The search ends whenever a page is free, and takes the next free page after the cursor.\<close>

lemma find_free_ends:
  assumes "cur \<le> tot" "tot \<le> 8 * length bm" "\<exists>k < tot. \<not> taken bm k"
  shows "\<exists>j < tot. find_free bm tot cur = Some j \<and> \<not> taken bm j \<and>
           ((\<exists>k. cur \<le> k \<and> k < tot \<and> \<not> taken bm k) \<longrightarrow> cur \<le> j \<and> (\<forall>k. cur \<le> k \<and> k < j \<longrightarrow> taken bm k))"
proof (cases "\<exists>k. cur \<le> k \<and> k < tot \<and> \<not> taken bm k")
  case True
  define j where "j = (LEAST k. cur \<le> k \<and> k < tot \<and> \<not> taken bm k)"
  from True have j: "cur \<le> j" "j < tot" "\<not> taken bm j"
    using LeastI_ex [of "\<lambda>k. cur \<le> k \<and> k < tot \<and> \<not> taken bm k"] by (auto simp: j_def)
  have "\<forall>k. cur \<le> k \<and> k < j \<longrightarrow> taken bm k"
  proof (intro allI impI)
    fix k
    assume k: "cur \<le> k \<and> k < j"
    then have "\<not> (cur \<le> k \<and> k < tot \<and> \<not> taken bm k)" unfolding j_def by (intro not_less_Least) simp
    with k j(2) show "taken bm k" by simp
  qed
  with j assms(2) find_free_from [of cur j tot bm] show ?thesis by auto
next
  case False
  define j where "j = (LEAST k. k < tot \<and> \<not> taken bm k)"
  from assms(3) have j: "j < tot" "\<not> taken bm j"
    using LeastI_ex [of "\<lambda>k. k < tot \<and> \<not> taken bm k"] by (auto simp: j_def)
  have "\<forall>k. 0 \<le> k \<and> k < j \<longrightarrow> taken bm k"
  proof (intro allI impI)
    fix k
    assume k: "0 \<le> k \<and> k < j"
    then have "\<not> (k < tot \<and> \<not> taken bm k)" unfolding j_def by (intro not_less_Least) simp
    with k j(1) show "taken bm k" by simp
  qed
  with j assms(2) have "find_free bm tot 0 = Some j" by (intro find_free_from) auto
  moreover have "find_free bm tot cur = find_free bm tot 0"
    using False assms j(1) by (intro find_free_wrap) auto
  ultimately show ?thesis using j False by auto
qed

subsection \<open>The invariant of the pool\<close>

definition free_set :: "mem_pool \<Rightarrow> nat set" where
  "free_set p = {i. i < mp_total_pages p \<and> \<not> taken (mp_bitmap p) i}"

definition pool_wf :: "mem_pool \<Rightarrow> bool" where
  "pool_wf p \<longleftrightarrow> mp_inited p \<and> 2 ^ 20 \<le> mp_page_size p \<and> mp_total_pages p \<le> MAX_PAGES_NO \<and>
     mp_page_size p < 2 ^ 31 \<and> length (mp_bitmap p) = BITMAP_SIZE \<and>
     mp_current_page p \<le> mp_total_pages p \<and> taken (mp_bitmap p) 0 \<and>
     mp_free_pages p = int (card (free_set p))"

lemma pool_wf_bits: "pool_wf p \<Longrightarrow> mp_total_pages p \<le> 8 * length (mp_bitmap p)"
  by (simp add: pool_wf_def BITMAP_SIZE_def MAX_PAGES_NO_def)

lemma finite_free_set [simp]: "finite (free_set p)"
  by (rule finite_subset [of _ "{..< mp_total_pages p}"]) (auto simp: free_set_def)

lemma set_bits_taken:
  assumes "n \<le> 8 * length bm"
  shows "\<exists>bm'. set_bits bm n = Some bm' \<and> length bm' = length bm \<and>
           (\<forall>y < 8 * length bm. taken bm' y \<longleftrightarrow> taken bm y \<or> y < n)"
  using assms
proof (induction n)
  case (Suc n)
  then obtain b where b: "set_bits bm n = Some b" "length b = length bm"
    "\<forall>y < 8 * length bm. taken b y \<longleftrightarrow> taken bm y \<or> y < n" by auto
  have "n < 8 * length b" using Suc.prems b(2) by simp
  then obtain b' where "SET_BIT b n = Some b'" "length b' = length b"
    "\<And>y. y < 8 * length b \<Longrightarrow> taken b' y \<longleftrightarrow> taken b y \<or> y = n" by (rule SET_BIT_taken) blast
  with b show ?case by (auto simp: less_Suc_eq)
qed simp

lemma taken_zeros: "x < 8 * n \<Longrightarrow> \<not> taken (replicate n 0) x"
  by (simp add: taken_def less_mult_imp_div_less)

lemma mp_initialize_wf:
  assumes "pool \<noteq> 0" "2 ^ 20 \<le> page_size" "page_size < 2 ^ 31" "total_pages \<le> MAX_PAGES_NO"
    "0 < meta_len" "meta_len + page_size - 1 < total_pages * page_size" "\<not> mp_inited p"
  shows "\<exists>p'. mp_initialize pool page_size total_pages meta_len p = Some p' \<and> pool_wf p' \<and>
           mp_total_pages p' = total_pages \<and> mp_page_size p' = page_size \<and>
           free_set p' = {(meta_len + page_size - 1) div page_size ..< total_pages}"
proof -
  let ?meta = "(meta_len + page_size - 1) div page_size"
  have m: "?meta < total_pages" using assms(6) by (simp add: less_mult_imp_div_less)
  have size: "8 * length (replicate BITMAP_SIZE (0 :: u8)) = MAX_PAGES_NO"
    by (simp add: BITMAP_SIZE_def MAX_PAGES_NO_def)
  with m assms(4) set_bits_taken [of ?meta "replicate BITMAP_SIZE 0"]
  obtain bm where bm: "set_bits (replicate BITMAP_SIZE 0) ?meta = Some bm" "length bm = BITMAP_SIZE"
    "\<forall>y < MAX_PAGES_NO. taken bm y \<longleftrightarrow> y < ?meta"
    using taken_zeros [of _ BITMAP_SIZE] size by auto
  let ?p = "p\<lparr>mp_pool := pool, mp_page_size := page_size, mp_total_pages := total_pages,
              mp_bitmap := bm, mp_free_pages := int total_pages - int ?meta,
              mp_current_page := ?meta, mp_inited := True\<rparr>"
  have free: "free_set ?p = {?meta ..< total_pages}"
    using bm(3) assms(4) by (auto simp: free_set_def)
  have "0 < ?meta" using assms(2,5) by (simp add: div_greater_zero_iff)
  then have "pool_wf ?p" using assms m bm free by (simp add: pool_wf_def MAX_PAGES_NO_def)
  moreover have "mp_initialize pool page_size total_pages meta_len p = Some ?p"
    using assms m bm(1) by (simp add: mp_initialize_def Let_def)
  ultimately show ?thesis using free by auto
qed

lemma alloc_page_ok:
  assumes wf: "pool_wf p" and free: "free_set p \<noteq> {}"
  shows "\<exists>i page p'. alloc_page p = Some (Some (page, i), p') \<and> i \<in> free_set p \<and> 0 < i \<and>
           index_to_page p i = Some page \<and> pool_wf p' \<and> free_set p' = free_set p - {i} \<and>
           p' = p\<lparr>mp_current_page := i + 1, mp_free_pages := mp_free_pages p - 1, mp_bitmap := mp_bitmap p'\<rparr> \<and>
           (mp_current_page p \<in> free_set p \<longrightarrow> i = mp_current_page p)"
proof -
  note bits = pool_wf_bits [OF wf]
  from free have "\<exists>k < mp_total_pages p. \<not> taken (mp_bitmap p) k" by (auto simp: free_set_def)
  with wf bits obtain i where i: "i < mp_total_pages p" "\<not> taken (mp_bitmap p) i"
    "find_free (mp_bitmap p) (mp_total_pages p) (mp_current_page p) = Some i"
    "(\<exists>k. mp_current_page p \<le> k \<and> k < mp_total_pages p \<and> \<not> taken (mp_bitmap p) k) \<longrightarrow>
       mp_current_page p \<le> i \<and> (\<forall>k. mp_current_page p \<le> k \<and> k < i \<longrightarrow> taken (mp_bitmap p) k)"
    using find_free_ends [of "mp_current_page p" "mp_total_pages p" "mp_bitmap p"]
    by (auto simp: pool_wf_def)
  have "i < 8 * length (mp_bitmap p)" using i(1) bits by simp
  then obtain bm where bm: "SET_BIT (mp_bitmap p) i = Some bm" "length bm = length (mp_bitmap p)"
    "\<And>y. y < 8 * length (mp_bitmap p) \<Longrightarrow> taken bm y \<longleftrightarrow> taken (mp_bitmap p) y \<or> y = i"
    by (rule SET_BIT_taken) blast
  have pos: "0 < i" using i(2) wf by (cases i) (auto simp: pool_wf_def)
  let ?p = "p\<lparr>mp_current_page := i + 1, mp_free_pages := mp_free_pages p - 1, mp_bitmap := bm\<rparr>"
  have fs: "free_set ?p = free_set p - {i}" using bm(3) bits by (auto simp: free_set_def)
  have mem: "i \<in> free_set p" using i by (simp add: free_set_def)
  have "mp_free_pages p \<noteq> 0" using wf free by (simp add: pool_wf_def)
  then have "alloc_page p = Some (Some (mp_pool p + of_nat i * of_nat (mp_page_size p), i), ?p)"
    using wf i bm(1) pos by (simp add: alloc_page_def index_to_page_def pool_wf_def)
  moreover have "pool_wf ?p"
  proof -
    have "0 < 8 * length (mp_bitmap p)" using i(1) bits by linarith
    from bm(3) [OF this] wf have "taken bm 0" by (simp add: pool_wf_def)
    moreover have "int (card (free_set p - {i})) = int (card (free_set p)) - 1"
      using mem by (simp add: card_Diff_singleton of_nat_diff card_gt_0_iff Suc_leI)
        (metis One_nat_def Suc_leI card_gt_0_iff empty_iff finite_free_set of_nat_1 of_nat_diff)
    ultimately show ?thesis using wf bm(2) i(1) fs by (simp add: pool_wf_def)
  qed
  moreover have "mp_current_page p \<in> free_set p \<Longrightarrow> i = mp_current_page p"
    using i(4) by (auto simp: free_set_def)
  ultimately show ?thesis using mem pos i(1) fs by (auto simp: index_to_page_def)
qed

lemma alloc_page_next:
  assumes "pool_wf p" "mp_current_page p \<in> free_set p"
  shows "\<exists>page p'. alloc_page p = Some (Some (page, mp_current_page p), p') \<and> pool_wf p' \<and>
           free_set p' = free_set p - {mp_current_page p} \<and> mp_current_page p' = mp_current_page p + 1"
proof -
  from assms(2) have "free_set p \<noteq> {}" by blast
  from alloc_page_ok [OF assms(1) this] assms(2) obtain page p' where
    *: "alloc_page p = Some (Some (page, mp_current_page p), p')" "pool_wf p'"
      "free_set p' = free_set p - {mp_current_page p}"
    and eq: "p' = p\<lparr>mp_current_page := mp_current_page p + 1, mp_free_pages := mp_free_pages p - 1,
                   mp_bitmap := mp_bitmap p'\<rparr>"
    by auto
  have "mp_current_page p' = mp_current_page p + 1" by (subst eq) simp
  with * show ?thesis by blast
qed

lemma alloc_page_empty: "pool_wf p \<Longrightarrow> free_set p = {} \<Longrightarrow> alloc_page p = Some (None, p)"
  by (simp add: alloc_page_def pool_wf_def)

lemma mp_free_page_ok:
  assumes wf: "pool_wf p" and i: "0 < i" "i < mp_total_pages p"
  shows "\<exists>p'. mp_free_page (int i) p = Some p' \<and> pool_wf p' \<and> free_set p' = insert i (free_set p)"
proof (cases "taken (mp_bitmap p) i")
  case False
  with i have "insert i (free_set p) = free_set p" by (auto simp: free_set_def)
  with False wf i pool_wf_bits [OF wf] show ?thesis by (simp add: mp_free_page_def TEST_BIT_taken)
next
  case True
  have b: "i < 8 * length (mp_bitmap p)" using i pool_wf_bits [OF wf] by simp
  then obtain bm where bm: "CLEAR_BIT (mp_bitmap p) i = Some bm" "length bm = length (mp_bitmap p)"
    "\<And>y. y < 8 * length (mp_bitmap p) \<Longrightarrow> taken bm y \<longleftrightarrow> taken (mp_bitmap p) y \<and> y \<noteq> i"
    by (rule CLEAR_BIT_taken) blast
  let ?p = "p\<lparr>mp_bitmap := bm, mp_free_pages := mp_free_pages p + 1\<rparr>"
  have fs: "free_set ?p = insert i (free_set p)"
    using bm(3) pool_wf_bits [OF wf] i by (auto simp: free_set_def)
  have "i \<notin> free_set p" using True by (simp add: free_set_def)
  moreover from b have "0 < 8 * length (mp_bitmap p)" by linarith
  from bm(3) [OF this] wf i have "taken bm 0" by (simp add: pool_wf_def)
  ultimately have "pool_wf ?p" using wf bm(2) fs by (simp add: pool_wf_def)
  with True i b bm(1) fs show ?thesis by (auto simp: mp_free_page_def TEST_BIT_taken)
qed

lemma page_index_roundtrip:
  assumes wf: "pool_wf p" and page: "index_to_page p i = Some page" "page \<noteq> 0"
  shows "page_to_index p page = Some (int i)"
proof -
  have i: "0 < i" "i < mp_total_pages p" and pg: "page = mp_pool p + of_nat i * of_nat (mp_page_size p)"
    using page(1) by (auto simp: index_to_page_def split: if_splits)
  have bound: "i < 65536" "mp_page_size p < 2 ^ 31" "0 < mp_page_size p"
    using wf i by (auto simp: pool_wf_def MAX_PAGES_NO_def)
  have "i * mp_page_size p < 65536 * 2 ^ 31"
    using bound by (intro mult_strict_mono) auto
  then have "unat (of_nat i * of_nat (mp_page_size p) :: u64) = i * mp_page_size p"
    using bound by (simp add: unat_word_ariths unat_of_nat)
  moreover have "unat (of_nat (mp_page_size p) :: u64) = mp_page_size p"
    using bound by (simp add: unat_of_nat)
  ultimately have "unat ((page - mp_pool p) div of_nat (mp_page_size p)) = i"
    using bound pg by (simp add: unat_div)
  then have "(page - mp_pool p) div of_nat (mp_page_size p) = of_nat i"
    by (metis unat_of_nat_self)
  moreover have "sint (ucast (of_nat i :: u64) :: u32) = int i"
  proof -
    have "(ucast (of_nat i :: u64) :: u32) = of_nat i" by transfer simp
    moreover have "signed_take_bit 31 (int i) = int i"
      using bound(1) by (intro signed_take_bit_int_eq_self) auto
    moreover have "sint (of_nat i :: u32) = signed_take_bit 31 (int i)" by transfer simp
    ultimately show ?thesis by simp
  qed
  ultimately show ?thesis using page(2) by (simp add: page_to_index_def)
qed

subsection \<open>The pool as a source of pages\<close>

text \<open>
  What the hash table and the slabs rely on: as long as pages are left, a call yields one that is
  not in use and will not be yielded again before it is given back.
\<close>

locale page_source =
  fixes grab :: "'s \<Rightarrow> (nat option \<times> 's) option" and wf :: "'s \<Rightarrow> bool" and avail :: "'s \<Rightarrow> nat set"
  assumes finite_avail: "finite (avail s)"
    and grab_some: "wf s \<Longrightarrow> avail s \<noteq> {} \<Longrightarrow>
      \<exists>i s'. grab s = Some (Some i, s') \<and> i \<in> avail s \<and> wf s' \<and> avail s' = avail s - {i}"
    and grab_none: "wf s \<Longrightarrow> avail s = {} \<Longrightarrow> grab s = Some (None, s)"
begin

fun grabs :: "nat \<Rightarrow> 's \<Rightarrow> (nat list \<times> 's) option" where
  "grabs 0 s = Some ([], s)"
| "grabs (Suc n) s =
     (case grab s of
        None \<Rightarrow> None
      | Some (None, s') \<Rightarrow> Some ([], s')
      | Some (Some i, s') \<Rightarrow> map_option (\<lambda>(is, s''). (i # is, s'')) (grabs n s'))"

lemma grabs_distinct:
  "wf s \<Longrightarrow> \<exists>is s'. grabs n s = Some (is, s') \<and> distinct is \<and> set is \<subseteq> avail s \<and> wf s' \<and>
     avail s' = avail s - set is \<and> length is = min n (card (avail s))"
proof (induction n arbitrary: s)
  case (Suc n)
  show ?case
  proof (cases "avail s = {}")
    case True
    with Suc.prems grab_none [of s] show ?thesis by simp
  next
    case False
    with grab_some [OF Suc.prems] obtain i s1 where s1: "grab s = Some (Some i, s1)" "i \<in> avail s"
      "wf s1" "avail s1 = avail s - {i}" by blast
    from Suc.IH [OF s1(3)] obtain "is" s' where *: "grabs n s1 = Some (is, s')" "distinct is"
      "set is \<subseteq> avail s1" "wf s'" "avail s' = avail s1 - set is" "length is = min n (card (avail s1))"
      by blast
    have "card (avail s) = Suc (card (avail s1))"
      using card.remove [OF finite_avail s1(2)] s1(4) by simp
    moreover have "grabs (Suc n) s = Some (i # is, s')" using s1(1) *(1) by simp
    moreover have "distinct (i # is)" "set (i # is) \<subseteq> avail s" "avail s' = avail s - set (i # is)"
      using s1(2,4) *(2,3,5) by auto
    ultimately show ?thesis using *(4,6) by (intro exI conjI) auto
  qed
qed simp

end

definition grab_page :: "mem_pool \<Rightarrow> (nat option \<times> mem_pool) option" where
  "grab_page p = map_option (\<lambda>(r, p'). (map_option snd r, p')) (alloc_page p)"

interpretation pages: page_source grab_page pool_wf free_set
proof unfold_locales
  fix p
  assume "pool_wf p" "free_set p \<noteq> {}"
  from alloc_page_ok [OF this] show
    "\<exists>i s'. grab_page p = Some (Some i, s') \<and> i \<in> free_set p \<and> pool_wf s' \<and> free_set s' = free_set p - {i}"
    by (auto simp: grab_page_def)
qed (simp_all add: grab_page_def alloc_page_empty)

subsection \<open>Properties\<close>

definition blank_pool :: mem_pool where
  "blank_pool = \<lparr>mp_inited = False, mp_page_size = 0, mp_total_pages = 0, mp_free_pages = 0,
     mp_current_page = 0, mp_bitmap = [], mp_pool = 0\<rparr>"



text \<open>Up to \<open>n\<close> calls of \<open>alloc_page\<close>, stopping when the pool has none left: the page numbers.\<close>

fun alloc_indices :: "nat \<Rightarrow> mem_pool \<Rightarrow> (nat list \<times> mem_pool) option" where
  "alloc_indices 0 p = Some ([], p)"
| "alloc_indices (Suc n) p =
     do { (r, p) \<leftarrow> alloc_page p;
          (case r of None \<Rightarrow> Some ([], p) | Some (_, i) \<Rightarrow> do { (is, p) \<leftarrow> alloc_indices n p; Some (i # is, p) }) }"

lemma grabs_alloc: "pages.grabs n p = alloc_indices n p"
proof (induction n arbitrary: p)
  case (Suc n)
  show ?case
    unfolding pages.grabs.simps alloc_indices.simps Suc grab_page_def [of p]
    by (cases "alloc_page p") (auto split: option.splits Option.bind_splits)
qed simp

text \<open>
  C25. Pages are handed out once: in a well-formed pool \<open>n\<close> calls of \<open>alloc_page\<close> all return (the
  search in the bitmap ends), give as many pages as there are, up to \<open>n\<close>, all of them free before
  and all different, take exactly these out of the free ones, and leave the pool well formed.
\<close>

theorem pool_pages_distinct:
  assumes "pool_wf p"
  shows "\<exists>is p'. alloc_indices n p = Some (is, p') \<and> distinct is \<and> set is \<subseteq> free_set p \<and> pool_wf p' \<and>
           free_set p' = free_set p - set is \<and> length is = min n (card (free_set p))"
  using pages.grabs_distinct [OF assms, of n] by (simp add: grabs_alloc)

theorem pool_pages_distinct_witness:
  "\<exists>p is p'. mp_initialize 4096 (2 ^ 20) 16 (2 ^ 20 + 1) blank_pool = Some p \<and>
     alloc_indices 20 p = Some (is, p') \<and> distinct is \<and> length is = 14"
proof -
  obtain p where p: "mp_initialize 4096 (2 ^ 20) 16 (2 ^ 20 + 1) blank_pool = Some p" "pool_wf p"
    "free_set p = {2 ..< 16}"
    using mp_initialize_wf [of 4096 "2 ^ 20" 16 "2 ^ 20 + 1" blank_pool]
    by (auto simp: MAX_PAGES_NO_def blank_pool_def)
  with pool_pages_distinct [OF p(2), of 20] show ?thesis by auto
qed

text \<open>
  C26. A page that is given back, by its number or by its address, is free again, the others are as
  before; and giving back a page that is free changes nothing.
\<close>

theorem pool_free_page:
  assumes "pool_wf p" "index_to_page p i = Some page" "page \<noteq> 0"
  shows "\<exists>p'. mp_free_page (int i) p = Some p' \<and> mp_free_page_addr page p = Some p' \<and> pool_wf p' \<and>
           free_set p' = insert i (free_set p) \<and> (i \<in> free_set p \<longrightarrow> p' = p)"
proof -
  have i: "0 < i" "i < mp_total_pages p" using assms(2) by (auto simp: index_to_page_def split: if_splits)
  from mp_free_page_ok [OF assms(1) i] obtain p' where p': "mp_free_page (int i) p = Some p'" "pool_wf p'"
    "free_set p' = insert i (free_set p)" by blast
  have "mp_free_page_addr page p = Some p'"
    using page_index_roundtrip [OF assms] p'(1) by (simp add: mp_free_page_addr_def)
  moreover have "p' = p" if "i \<in> free_set p"
  proof -
    have "TEST_BIT (mp_bitmap p) i = Some False"
      using that pool_wf_bits [OF assms(1)] i by (subst TEST_BIT_taken) (auto simp: free_set_def)
    with p'(1) i show ?thesis by (simp add: mp_free_page_def)
  qed
  ultimately show ?thesis using p' by blast
qed

theorem pool_free_page_witness:
  "\<exists>p p'. mp_initialize 4096 (2 ^ 20) 16 (2 ^ 20 + 1) blank_pool = Some p \<and>
     mp_free_page 1 p = Some p' \<and> free_set p' = insert 1 {2 ..< 16}"
proof -
  obtain p where p: "mp_initialize 4096 (2 ^ 20) 16 (2 ^ 20 + 1) blank_pool = Some p" "pool_wf p"
    "free_set p = {2 ..< 16}" "mp_total_pages p = 16" "mp_page_size p = 2 ^ 20"
    using mp_initialize_wf [of 4096 "2 ^ 20" 16 "2 ^ 20 + 1" blank_pool]
    by (auto simp: MAX_PAGES_NO_def blank_pool_def)
  have "mp_pool p = 4096"
    using p(1) by (auto simp: mp_initialize_def blank_pool_def Let_def bind_eq_Some_conv split: if_splits)
  then have "index_to_page p 1 = Some (4096 + 2 ^ 20)" using p by (simp add: index_to_page_def)
  from pool_free_page [OF p(2) this] p show ?thesis by auto
qed

end
