(* ===== verification/Mdb_Item.thy ===== *)
theory Mdb_Item
  imports Mdb_Pool
begin

section \<open>Items, item identifiers and hashing\<close>

text \<open>
  The model of the item layout of \<^verbatim>\<open>src/dkv/mdb/mem_cache.hpp\<close> (the struct \<open>mdb_item\<close> and the
  macros on item identifiers), of the status flags of \<^verbatim>\<open>mdb_define.hpp\<close>, and of the two copies of
  the murmur hash (\<open>cache_hash_map::hash\<close> and \<^verbatim>\<open>hash.hpp\<close>). An item identifier is a 64-bit word
  with the slab size, the offset in the page, the page, the slab and four flags. The bit fields
  \<open>key_len\<close> (12 bits) and \<open>data_len\<close> (20 bits) are numbers that assignment truncates.
\<close>

record mdb_item =
  i_h_next :: u64
  i_prev :: u64
  i_next :: u64
  i_exptime :: u32
  i_key_len :: nat
  i_data_len :: nat
  i_version :: u16
  i_update_time :: u32
  i_item_id :: u64
  i_data :: string

definition sizeof_mdb_item :: nat where "sizeof_mdb_item = 46"
definition sizeof_page_info :: nat where "sizeof_page_info = 24"
definition TAIR_MAX_AREA_COUNT :: nat where "TAIR_MAX_AREA_COUNT = 100"

definition set_key_len :: "nat \<Rightarrow> mdb_item \<Rightarrow> mdb_item" where
  "set_key_len n it = it\<lparr>i_key_len := n mod 2 ^ 12\<rparr>"

definition set_data_len :: "nat \<Rightarrow> mdb_item \<Rightarrow> mdb_item" where
  "set_data_len n it = it\<lparr>i_data_len := n mod 2 ^ 20\<rparr>"

subsection \<open>Item identifiers\<close>

definition SLAB_SIZE_MASK :: u64 where "SLAB_SIZE_MASK = mask 20"
definition OFFSET_MASK :: u64 where "OFFSET_MASK = mask 16"
definition PAGE_ID_MASK :: u64 where "PAGE_ID_MASK = mask 16"
definition SLAB_ID_MASK :: u64 where "SLAB_ID_MASK = mask 8"
definition FLAGS_MASK :: u64 where "FLAGS_MASK = push_bit 32 0x0FFFFFFF OR 0xFFFFFFFF"

definition SLAB_SIZE :: "u64 \<Rightarrow> u64" where "SLAB_SIZE x = x AND SLAB_SIZE_MASK"
definition PAGE_OFFSET :: "u64 \<Rightarrow> u64" where "PAGE_OFFSET x = drop_bit 20 x AND OFFSET_MASK"
definition PAGE_ID :: "u64 \<Rightarrow> u64" where "PAGE_ID x = drop_bit 36 x AND PAGE_ID_MASK"
definition SLAB_ID :: "u64 \<Rightarrow> u64" where "SLAB_ID x = drop_bit 52 x AND SLAB_ID_MASK"
definition CLEAR_FLAGS :: "u64 \<Rightarrow> u64" where "CLEAR_FLAGS x = x AND FLAGS_MASK"
definition ITEM_FLAGS :: "u64 \<Rightarrow> u64" where "ITEM_FLAGS x = drop_bit 60 x AND 0xf"
definition SET_ITEM_FLAGS :: "u64 \<Rightarrow> u64 \<Rightarrow> u64" where
  "SET_ITEM_FLAGS x v = x OR push_bit 60 (v AND 0xf)"

definition ITEM_ID :: "nat \<Rightarrow> nat \<Rightarrow> nat \<Rightarrow> nat \<Rightarrow> u64" where
  "ITEM_ID slab_size off page_id slab_id =
     push_bit 52 (of_nat slab_id) OR push_bit 36 (of_nat page_id) OR push_bit 20 (of_nat off)
       OR of_nat slab_size"

definition itemid_equal :: "u64 \<Rightarrow> u64 \<Rightarrow> bool" where
  "itemid_equal l r \<longleftrightarrow> l AND FLAGS_MASK = r AND FLAGS_MASK"

text \<open>\<open>id_to_item\<close>: the item's address, counted from the start of the pool.\<close>

definition id_to_item :: "nat \<Rightarrow> u64 \<Rightarrow> nat option" where
  "id_to_item page_size x =
     (if x = 0 then None
      else Some (unat (PAGE_ID x) * page_size + unat (SLAB_SIZE x) * unat (PAGE_OFFSET x)
                  + sizeof_page_info))"

subsection \<open>Keys and areas\<close>

definition byte_at :: "string \<Rightarrow> nat \<Rightarrow> nat" where
  "byte_at s i = (if i < length s then of_char (s ! i) else 0)"

text \<open>The area is the 16-bit number of the first two bytes of a key, low byte first.\<close>

definition KEY_AREA :: "string \<Rightarrow> nat" where
  "KEY_AREA key = byte_at key 0 + 256 * byte_at key 1"

definition ITEM_AREA :: "mdb_item \<Rightarrow> nat" where "ITEM_AREA it = KEY_AREA (i_data it)"

definition ITEM_KEY :: "mdb_item \<Rightarrow> string" where "ITEM_KEY it = take (i_key_len it) (i_data it)"

definition ITEM_DATA :: "mdb_item \<Rightarrow> string" where
  "ITEM_DATA it = take (i_data_len it) (drop (i_key_len it) (i_data it))"

text \<open>The two \<open>memcpy\<close> calls that fill an item, with the lengths the item records.\<close>

definition copy_in :: "nat \<Rightarrow> string \<Rightarrow> string \<Rightarrow> string" where
  "copy_in pos bytes mem = take pos mem @ bytes @ drop (pos + length bytes) mem"

definition write_entry :: "string \<Rightarrow> string \<Rightarrow> mdb_item \<Rightarrow> mdb_item" where
  "write_entry key val it =
     it\<lparr>i_data := copy_in (i_key_len it) (take (i_data_len it) val)
                    (copy_in 0 (take (i_key_len it) key) (i_data it))\<rparr>"

subsection \<open>Flags\<close>

definition TAIR_ITEM_FLAG_ADDCOUNT :: u64 where "TAIR_ITEM_FLAG_ADDCOUNT = 1"
definition TAIR_ITEM_FLAG_DELETED :: u64 where "TAIR_ITEM_FLAG_DELETED = 2"
definition TAIR_ITEM_FLAG_ITEM :: u64 where "TAIR_ITEM_FLAG_ITEM = 4"
definition TAIR_ITEM_FLAG_LOCKED :: u64 where "TAIR_ITEM_FLAG_LOCKED = 8"

definition IS_ADDCOUNT_TYPE :: "u64 \<Rightarrow> bool" where
  "IS_ADDCOUNT_TYPE f \<longleftrightarrow> f AND TAIR_ITEM_FLAG_ADDCOUNT = TAIR_ITEM_FLAG_ADDCOUNT"
definition IS_ITEM_TYPE :: "u64 \<Rightarrow> bool" where "IS_ITEM_TYPE f \<longleftrightarrow> f AND TAIR_ITEM_FLAG_ITEM \<noteq> 0"
definition IS_DELETED :: "u64 \<Rightarrow> bool" where "IS_DELETED f \<longleftrightarrow> f AND TAIR_ITEM_FLAG_DELETED \<noteq> 0"

subsection \<open>Hashing\<close>

definition mur_m :: u32 where "mur_m = 0x5bd1e995"

definition load32 :: "char \<Rightarrow> char \<Rightarrow> char \<Rightarrow> char \<Rightarrow> u32" where
  "load32 a b c d = of_char a OR push_bit 8 (of_char b) OR push_bit 16 (of_char c) OR push_bit 24 (of_char d)"

definition mur_mix :: "u32 \<Rightarrow> u32" where
  "mur_mix k = (let k = k * mur_m; k = k XOR drop_bit 24 k in k * mur_m)"

fun mur_loop :: "u32 \<Rightarrow> string \<Rightarrow> u32 \<times> string" where
  "mur_loop h (a # b # c # d # rest) = mur_loop ((h * mur_m) XOR mur_mix (load32 a b c d)) rest"
| "mur_loop h rest = (h, rest)"

text \<open>The bytes left over: \<open>byte\<close> is how the copy at hand reads one (unsigned or signed).\<close>

fun mur_tail :: "(char \<Rightarrow> u32) \<Rightarrow> u32 \<Rightarrow> string \<Rightarrow> u32" where
  "mur_tail byte h [a] = (h XOR byte a) * mur_m"
| "mur_tail byte h [a, b] = (h XOR push_bit 8 (byte b) XOR byte a) * mur_m"
| "mur_tail byte h [a, b, c] = (h XOR push_bit 16 (byte c) XOR push_bit 8 (byte b) XOR byte a) * mur_m"
| "mur_tail byte h _ = h"

definition mur_final :: "u32 \<Rightarrow> u32" where
  "mur_final h = (let h = h XOR drop_bit 13 h; h = h * mur_m in h XOR drop_bit 15 h)"

definition signed_byte :: "char \<Rightarrow> u32" where
  "signed_byte c = of_int (sint (of_char c :: u8))"

definition cache_hash :: "string \<Rightarrow> u32" where
  "cache_hash key =
     (let (h, rest) = mur_loop (97 XOR of_nat (length key)) key in mur_final (mur_tail of_char h rest))"

definition mur_mur_hash2 :: "string \<Rightarrow> u32 \<Rightarrow> u32" where
  "mur_mur_hash2 key seed =
     (let (h, rest) = mur_loop (seed XOR of_nat (length key)) key in mur_final (mur_tail signed_byte h rest))"

definition mur_mur_hash :: "string \<Rightarrow> u32" where "mur_mur_hash key = mur_mur_hash2 key 97"

text \<open>\<open>get_bucket_index\<close>: \<open>hv & (bucket_size - 1)\<close>.\<close>

definition get_bucket_index :: "nat \<Rightarrow> string \<Rightarrow> nat" where
  "get_bucket_index bucket_size key = unat (cache_hash key AND (of_nat bucket_size - 1))"

subsection \<open>Fields of an identifier\<close>

lemma small_bits: "n < 2 ^ k \<Longrightarrow> bit (of_nat n :: u64) j \<Longrightarrow> j < k"
proof (rule ccontr)
  assume n: "n < 2 ^ k" and b: "bit (of_nat n :: u64) j" and "\<not> j < k"
  then have "n < 2 ^ j" by (meson less_le_trans not_less one_le_numeral power_increasing)
  moreover have "bit n j" using b by (simp add: bit_of_nat_iff)
  ultimately show False by (simp add: bit_iff_odd)
qed

lemma mask_bits: "(0xf :: u64) = mask 4" "FLAGS_MASK = mask 60"
  by (simp_all add: FLAGS_MASK_def mask_eq_exp_minus_1)

lemmas id_fields =
  SLAB_SIZE_def PAGE_OFFSET_def PAGE_ID_def SLAB_ID_def ITEM_FLAGS_def CLEAR_FLAGS_def
  SET_ITEM_FLAGS_def SLAB_SIZE_MASK_def OFFSET_MASK_def PAGE_ID_MASK_def SLAB_ID_MASK_def mask_bits

lemma ITEM_ID_fields:
  assumes "ss < 2 ^ 20" "off < 2 ^ 16" "page < 2 ^ 16" "slab < 2 ^ 8"
  shows "SLAB_SIZE (ITEM_ID ss off page slab) = of_nat ss"
    and "PAGE_OFFSET (ITEM_ID ss off page slab) = of_nat off"
    and "PAGE_ID (ITEM_ID ss off page slab) = of_nat page"
    and "SLAB_ID (ITEM_ID ss off page slab) = of_nat slab"
    and "ITEM_FLAGS (ITEM_ID ss off page slab) = 0"
  by (rule bit_word_eqI,
      auto simp: id_fields ITEM_ID_def bit_or_iff bit_and_iff bit_push_bit_iff bit_drop_bit_eq bit_mask_iff
        dest: small_bits [OF assms(1)] small_bits [OF assms(2)] small_bits [OF assms(3)]
          small_bits [OF assms(4)])+

lemma flags_fields [simp]:
  "SLAB_SIZE (SET_ITEM_FLAGS x v) = SLAB_SIZE x" "PAGE_OFFSET (SET_ITEM_FLAGS x v) = PAGE_OFFSET x"
  "PAGE_ID (SET_ITEM_FLAGS x v) = PAGE_ID x" "SLAB_ID (SET_ITEM_FLAGS x v) = SLAB_ID x"
  "SLAB_SIZE (CLEAR_FLAGS x) = SLAB_SIZE x" "PAGE_OFFSET (CLEAR_FLAGS x) = PAGE_OFFSET x"
  "PAGE_ID (CLEAR_FLAGS x) = PAGE_ID x" "SLAB_ID (CLEAR_FLAGS x) = SLAB_ID x"
  "CLEAR_FLAGS (SET_ITEM_FLAGS x v) = CLEAR_FLAGS x" "ITEM_FLAGS (CLEAR_FLAGS x) = 0"
  "ITEM_FLAGS (SET_ITEM_FLAGS x v) = ITEM_FLAGS x OR (v AND 0xf)"
  by (auto intro!: bit_word_eqI simp: id_fields bit_simps)

text \<open>An identifier is its fields: \<open>ITEM_ID\<close> inverts the accessors up to the flags.\<close>

lemma ITEM_ID_of_fields:
  "ITEM_ID (unat (SLAB_SIZE x)) (unat (PAGE_OFFSET x)) (unat (PAGE_ID x)) (unat (SLAB_ID x)) = CLEAR_FLAGS x"
proof (rule bit_word_eqI)
  fix n
  show "bit (ITEM_ID (unat (SLAB_SIZE x)) (unat (PAGE_OFFSET x)) (unat (PAGE_ID x)) (unat (SLAB_ID x))) n =
      bit (CLEAR_FLAGS x) n"
    by (cases "n < 20"; cases "n < 36"; cases "n < 52"; cases "n < 60")
      (auto simp: ITEM_ID_def id_fields bit_simps dest: bit_imp_le_length)
qed

subsection \<open>Addresses\<close>

lemma unat_small: "n < 2 ^ 64 \<Longrightarrow> unat (of_nat n :: u64) = n"
  by (simp add: unat_of_nat)

lemma ITEM_ID_nonzero: "0 < ss \<Longrightarrow> ss < 2 ^ 20 \<Longrightarrow> ITEM_ID ss off page slab \<noteq> 0"
proof
  assume "0 < ss" "ss < 2 ^ 20" "ITEM_ID ss off page slab = 0"
  then have "(of_nat ss :: u64) = 0" by (simp add: ITEM_ID_def or_eq_0_iff)
  then have "unat (of_nat ss :: u64) = 0" by simp
  with \<open>0 < ss\<close> \<open>ss < 2 ^ 20\<close> show False by (simp add: unat_small)
qed

lemma id_to_item_ITEM_ID:
  assumes "0 < ss" "ss < 2 ^ 20" "off < 2 ^ 16" "page < 2 ^ 16" "slab < 2 ^ 8"
  shows "id_to_item psz (ITEM_ID ss off page slab) = Some (page * psz + ss * off + sizeof_page_info)"
  using assms by (simp add: id_to_item_def ITEM_ID_nonzero ITEM_ID_fields unat_small)

text \<open>
  Items of a page lie inside it, after its header, so two identifiers with valid fields address
  the same item only if they name the same page, and the same offset when the slabs agree.
\<close>

lemma item_in_page:
  assumes "off < per" "ss * per + sizeof_page_info \<le> psz"
  shows "ss * off + sizeof_page_info + ss \<le> psz"
proof -
  have "ss * off + ss = ss * Suc off" by simp
  also have "\<dots> \<le> ss * per" using assms(1) by (intro mult_le_mono2) simp
  finally show ?thesis using assms(2) by simp
qed

lemma page_addr_inject:
  fixes page page' psz a b :: nat
  assumes "page * psz + a = page' * psz + b" "a < psz" "b < psz"
  shows "page = page' \<and> a = b"
proof -
  have "page = (page * psz + a) div psz" "page' = (page' * psz + b) div psz" using assms(2,3) by simp_all
  with assms(1) show ?thesis by simp
qed

subsection \<open>Entries\<close>

lemma write_entry_key:
  assumes "i_key_len it \<le> length key" "i_key_len it + i_data_len it \<le> length (i_data it)"
    "i_data_len it \<le> length val"
  shows "ITEM_KEY (write_entry key val it) = take (i_key_len it) key"
    and "ITEM_DATA (write_entry key val it) = take (i_data_len it) val"
    and "length (i_data (write_entry key val it)) = length (i_data it)"
  using assms by (simp_all add: write_entry_def ITEM_KEY_def ITEM_DATA_def copy_in_def)

lemma KEY_AREA_take: "2 \<le> n \<Longrightarrow> KEY_AREA (take n key) = KEY_AREA key"
  by (simp add: KEY_AREA_def byte_at_def)

lemma KEY_AREA_append: "2 \<le> length key \<Longrightarrow> KEY_AREA (key @ rest) = KEY_AREA key"
  by (auto simp: KEY_AREA_def byte_at_def nth_append)

lemma write_entry_area:
  assumes "2 \<le> i_key_len it" "i_key_len it \<le> length key"
  shows "ITEM_AREA (write_entry key val it) = KEY_AREA key"
proof -
  let ?k = "take (i_key_len it) key"
  have "i_data (write_entry key val it) = ?k @ take (i_data_len it) val
          @ drop (i_key_len it + min (length val) (i_data_len it)) (copy_in 0 ?k (i_data it))"
    using assms by (simp add: write_entry_def copy_in_def min.absorb1 min.commute)
  moreover have "2 \<le> length ?k" using assms by simp
  ultimately show ?thesis
    using assms by (simp add: ITEM_AREA_def KEY_AREA_append KEY_AREA_take)
qed

subsection \<open>Buckets and the two hashes\<close>

lemma get_bucket_index_less:
  assumes "bucket_size = 2 ^ k" "k < 32"
  shows "get_bucket_index bucket_size key < bucket_size"
proof -
  have eq: "(of_nat bucket_size - 1 :: u32) = mask k" using assms by (simp add: mask_eq_exp_minus_1)
  have "unat (cache_hash key AND mask k) = unat (take_bit k (cache_hash key))"
    by (simp add: take_bit_eq_mask)
  also have "\<dots> = take_bit k (unat (cache_hash key))" by (simp add: unsigned_take_bit_eq)
  also have "\<dots> < 2 ^ k" by simp
  finally show ?thesis unfolding get_bucket_index_def eq using assms(1) by simp
qed

lemma signed_byte_ascii: "of_char c < (128 :: nat) \<Longrightarrow> signed_byte c = of_char c"
proof -
  assume a: "of_char c < (128 :: nat)"
  have i: "(of_char c :: int) = int (of_char c)" by (simp add: of_nat_of_char)
  have "sint (of_char c :: u8) = signed_take_bit 7 (of_char c)"
    unfolding of_char_def by (simp add: horner_sum_eq_sum)
  then have "sint (of_char c :: u8) = int (of_char c)"
    using a i by (simp add: signed_take_bit_int_eq_self)
  then show ?thesis by (simp add: signed_byte_def of_nat_of_char of_int_of_char)
qed

lemma mur_loop_rest: "snd (mur_loop h s) = drop (4 * (length s div 4)) s"
proof (induction h s rule: mur_loop.induct)
  case (1 h a b c d rest)
  have "4 * ((4 + length rest) div 4) = Suc (Suc (Suc (Suc (4 * (length rest div 4)))))" by presburger
  then have "drop (4 * ((4 + length rest) div 4)) (a # b # c # d # rest) = drop (4 * (length rest div 4)) rest"
    by (simp only: drop_Suc_Cons)
  with 1 show ?case by simp
qed simp_all

lemma mur_tail_cong: "(\<And>c. c \<in> set rest \<Longrightarrow> f c = g c) \<Longrightarrow> mur_tail f h rest = mur_tail g h rest"
  by (induction f h rest rule: mur_tail.induct) simp_all

subsection \<open>Properties\<close>

text \<open>
  C28. An item identifier names one slot. For a slab size below one megabyte and numbers within their
  fields, the identifier of slot \<open>off\<close> of a page leads to the address of that slot, the slot lies
  within its page, identifiers of different slots lead to memory that does not overlap, and setting
  flags changes neither the slot nor the fields.
\<close>

theorem item_id_names_slot:
  assumes "0 < ss" "ss < 2 ^ 20" "slab < 2 ^ 8" "per * ss + sizeof_page_info \<le> psz"
    and "off < per" "off < 2 ^ 16" "page < 2 ^ 16" "off' < per" "off' < 2 ^ 16" "page' < 2 ^ 16"
    and "(page, off) \<noteq> (page', off')"
  shows "\<exists>a b. id_to_item psz (SET_ITEM_FLAGS (ITEM_ID ss off page slab) v) = Some a \<and>
           id_to_item psz (ITEM_ID ss off' page' slab) = Some b \<and>
           page * psz + sizeof_page_info \<le> a \<and> a + ss \<le> (page + 1) * psz \<and> (a + ss \<le> b \<or> b + ss \<le> a)"
proof -
  let ?x = "ITEM_ID ss off page slab"
  have nz: "?x \<noteq> 0" using ITEM_ID_nonzero assms(1,2) by simp
  have "SET_ITEM_FLAGS ?x v \<noteq> 0"
  proof
    assume "SET_ITEM_FLAGS ?x v = 0"
    then have "SLAB_SIZE ?x = 0" using flags_fields(1) [of ?x v] by (simp add: SLAB_SIZE_def)
    then show False using ITEM_ID_fields(1) [OF assms(2,6,7,3)] assms(1,2) unat_small [of ss] by simp
  qed
  then have a: "id_to_item psz (SET_ITEM_FLAGS ?x v) = Some (page * psz + ss * off + sizeof_page_info)"
    using id_to_item_ITEM_ID [OF assms(1,2,6,7,3), of psz] nz by (simp add: id_to_item_def)
  have b: "id_to_item psz (ITEM_ID ss off' page' slab) = Some (page' * psz + ss * off' + sizeof_page_info)"
    by (rule id_to_item_ITEM_ID [OF assms(1,2,9,10,3)])
  have in1: "ss * off + sizeof_page_info + ss \<le> psz" and in2: "ss * off' + sizeof_page_info + ss \<le> psz"
    using item_in_page [OF assms(5), of ss psz] item_in_page [OF assms(8), of ss psz] assms(4)
    by (simp_all add: mult.commute)
  have apart: "p * psz + u + ss \<le> q * psz + w" if "p < q" "u + ss \<le> psz" for p q u w :: nat
  proof -
    have "(p + 1) * psz \<le> q * psz" using that(1) by (intro mult_le_mono1) simp
    with that(2) show ?thesis by simp
  qed
  have step: "ss * u + ss \<le> ss * w" if "u < w" for u w :: nat
    using mult_le_mono2 [of "Suc u" w ss] that by simp
  have "page * psz + ss * off + sizeof_page_info + ss \<le> page' * psz + ss * off' + sizeof_page_info \<or>
        page' * psz + ss * off' + sizeof_page_info + ss \<le> page * psz + ss * off + sizeof_page_info"
    using apart [of page page' "ss * off + sizeof_page_info" "ss * off' + sizeof_page_info"]
      apart [of page' page "ss * off' + sizeof_page_info" "ss * off + sizeof_page_info"] in1 in2
      step [of off off'] step [of off' off] assms(11)
    by (cases page page' rule: linorder_cases; cases off off' rule: linorder_cases) (simp_all add: add.assoc)
  with a b in1 show ?thesis by (simp add: algebra_simps)
qed

theorem item_id_names_slot_witness:
  "\<exists>a b. id_to_item 1048576 (SET_ITEM_FLAGS (ITEM_ID 64 3 7 0) 8) = Some a \<and>
     id_to_item 1048576 (ITEM_ID 64 4 7 0) = Some b \<and> (a + 64 \<le> b \<or> b + 64 \<le> a)"
  using item_id_names_slot [of 64 0 5 1048576 3 7 4 7 8] by (auto simp: sizeof_page_info_def)

text \<open>
  The hash of \<^verbatim>\<open>hash.hpp\<close>, which places a key on a server, reads the last one to three bytes as
  signed numbers, that of the hash table as unsigned ones. They give the same number for every key
  whose length is a multiple of four or whose last bytes are below 128.
\<close>

theorem hashes_agree:
  assumes "\<forall>c \<in> set (drop (4 * (length key div 4)) key). of_char c < (128 :: nat)"
  shows "mur_mur_hash key = cache_hash key"
proof -
  obtain h rest where h: "mur_loop (97 XOR of_nat (length key)) key = (h, rest)" by force
  then have "rest = drop (4 * (length key div 4)) key" using mur_loop_rest [of "97 XOR of_nat (length key)" key] by simp
  then have "signed_byte c = of_char c" if "c \<in> set rest" for c using assms signed_byte_ascii that by auto
  from mur_tail_cong [OF this] h show ?thesis by (simp add: mur_mur_hash_def mur_mur_hash2_def cache_hash_def)
qed

theorem hashes_agree_witness: "mur_mur_hash ''network'' = cache_hash ''network''"
  by (rule hashes_agree) simp

end
