(* ===== verification/Mdb_Hashmap.thy ===== *)
theory Mdb_Hashmap
  imports Mdb_Item
begin

section \<open>The hash table of the cache\<close>

text \<open>
  The model of \<open>cache_hash_map\<close> (\<^verbatim>\<open>src/dkv/mdb/cache_hashmap.hpp\<close>, \<^verbatim>\<open>cache_hashmap.cpp\<close>): an
  array of bucket heads and chains of items linked by \<open>h_next\<close>. The links are item identifiers;
  the items themselves live in the pages of the pool, modelled as a store from addresses to items
  that all components of the cache share. A walk over a chain is a \<open>partial_function\<close>: a cyclic
  chain, or a failed assertion, is \<open>None\<close>.

  The table is shown to implement a finite map from keys to item addresses (\<open>hm_rep\<close>).
\<close>

type_synonym store = "nat \<Rightarrow> mdb_item"

record hash_map =
  hm_is_inited :: bool
  hm_bucket_size :: nat
  hm_item_count :: int
  hm_start_page :: nat
  hm_table :: "u64 list"

subsection \<open>Operations\<close>

fun alloc_pages :: "nat \<Rightarrow> mem_pool \<Rightarrow> mem_pool option" where
  "alloc_pages 0 p = Some p"
| "alloc_pages (Suc n) p =
     (case alloc_page p of Some (Some _, p') \<Rightarrow> alloc_pages n p' | _ \<Rightarrow> None)"

definition cache_hash_map :: "nat \<Rightarrow> nat \<Rightarrow> mem_pool \<Rightarrow> hash_map \<Rightarrow> (hash_map \<times> mem_pool) option" where
  "cache_hash_map bucket_shift page_size p hm =
     (if mp_pool p = 0 then None
      else if hm_is_inited hm then Some (hm, p)
      else let bucket_size = 2 ^ bucket_shift;
               pages = (bucket_size * 8 + page_size - 1) div page_size
           in case alloc_page p of
                Some (Some (_, i), p1) \<Rightarrow>
                  do { p2 \<leftarrow> alloc_pages (pages - 1) p1;
                       Some (hm\<lparr>hm_is_inited := True, hm_bucket_size := bucket_size, hm_item_count := 0,
                               hm_start_page := i, hm_table := replicate bucket_size 0\<rparr>, p2) }
              | _ \<Rightarrow> None)"

definition hm_insert :: "nat \<Rightarrow> hash_map \<times> store \<Rightarrow> hash_map \<times> store" where
  "hm_insert a s =
     (let (hm, st) = s;
          idx = get_bucket_index (hm_bucket_size hm) (ITEM_KEY (st a));
          st = st(a := (st a)\<lparr>i_h_next := hm_table hm ! idx\<rparr>);
          hm = hm\<lparr>hm_table := (hm_table hm)[idx := i_item_id (st a)], hm_item_count := hm_item_count hm + 1\<rparr>
      in (hm, st))"

definition same_key :: "string \<Rightarrow> mdb_item \<Rightarrow> bool" where
  "same_key key it \<longleftrightarrow> i_key_len it = length key \<and> take (length key) (i_data it) = key"

text \<open>The item found, if any, and the one before it in the chain (\<open>pprev\<close>).\<close>

partial_function (option) hm_find_from ::
  "nat \<Rightarrow> store \<Rightarrow> string \<Rightarrow> u64 \<Rightarrow> nat option \<Rightarrow> (nat option \<times> nat option) option" where
  "hm_find_from psz st key pos pprev =
     (if pos = 0 then Some (None, pprev)
      else do { a \<leftarrow> id_to_item psz pos;
                if same_key key (st a) then Some (Some a, pprev)
                else hm_find_from psz st key (i_h_next (st a)) (Some a) })"

declare hm_find_from.simps [code]

definition hm_find :: "nat \<Rightarrow> hash_map \<times> store \<Rightarrow> string \<Rightarrow> nat option option" where
  "hm_find psz s key =
     (let (hm, st) = s
      in if key = [] then None
         else map_option fst
                (hm_find_from psz st key (hm_table hm ! get_bucket_index (hm_bucket_size hm) key) None))"

definition hm_remove :: "nat \<Rightarrow> nat \<Rightarrow> hash_map \<times> store \<Rightarrow> (bool \<times> hash_map \<times> store) option" where
  "hm_remove psz a s =
     (let (hm, st) = s;
          key = ITEM_KEY (st a);
          idx = get_bucket_index (hm_bucket_size hm) key
      in do { (found, pprev) \<leftarrow> hm_find_from psz st key (hm_table hm ! idx) None;
              (case found of
                 None \<Rightarrow> Some (False, hm, st)
               | Some b \<Rightarrow>
                   let hm = hm\<lparr>hm_item_count := hm_item_count hm - 1\<rparr>;
                       (hm, st) =
                         (case pprev of
                            Some c \<Rightarrow> (hm, st(c := (st c)\<lparr>i_h_next := i_h_next (st b)\<rparr>))
                          | None \<Rightarrow> (hm\<lparr>hm_table := (hm_table hm)[idx := i_h_next (st b)]\<rparr>, st))
                   in Some (True, hm, st(b := (st b)\<lparr>i_h_next := 0\<rparr>))) })"

subsection \<open>Chains\<close>

fun chain :: "nat \<Rightarrow> store \<Rightarrow> u64 \<Rightarrow> nat list \<Rightarrow> bool" where
  "chain psz st pos [] \<longleftrightarrow> pos = 0"
| "chain psz st pos (a # as) \<longleftrightarrow> pos \<noteq> 0 \<and> id_to_item psz pos = Some a \<and> chain psz st (i_h_next (st a)) as"

lemma chain_frame:
  "(\<And>a. a \<in> set as \<Longrightarrow> i_h_next (st' a) = i_h_next (st a)) \<Longrightarrow> chain psz st' pos as = chain psz st pos as"
  by (induction as arbitrary: pos) auto

lemma chain_upd [simp]: "b \<notin> set as \<Longrightarrow> chain psz (st(b := x)) pos as = chain psz st pos as"
  by (rule chain_frame) auto

lemma hm_find_from_none:
  assumes "chain psz st pos as" "\<forall>a \<in> set as. \<not> same_key key (st a)"
  shows "hm_find_from psz st key pos pp = Some (None, if as = [] then pp else Some (last as))"
  using assms
proof (induction as arbitrary: pos pp)
  case Nil
  then show ?case by (subst hm_find_from.simps) simp
next
  case (Cons a as)
  then have "hm_find_from psz st key pos pp = hm_find_from psz st key (i_h_next (st a)) (Some a)"
    by (subst hm_find_from.simps) simp
  also note Cons.IH [of "i_h_next (st a)" "Some a"]
  finally show ?case using Cons.prems by auto
qed

lemma hm_find_from_some:
  assumes "chain psz st pos (pre @ b # post)" "\<forall>a \<in> set pre. \<not> same_key key (st a)" "same_key key (st b)"
  shows "hm_find_from psz st key pos pp = Some (Some b, if pre = [] then pp else Some (last pre))"
  using assms
proof (induction pre arbitrary: pos pp)
  case Nil
  then show ?case by (subst hm_find_from.simps) simp
next
  case (Cons a pre)
  then have "hm_find_from psz st key pos pp = hm_find_from psz st key (i_h_next (st a)) (Some a)"
    by (subst hm_find_from.simps) simp
  also note Cons.IH [of "i_h_next (st a)" "Some a"]
  finally show ?case using Cons.prems by auto
qed

text \<open>Unlinking an element from a chain.\<close>

lemma chain_unlink_first: "chain psz st pos (b # post) \<Longrightarrow> chain psz st (i_h_next (st b)) post"
  by simp

lemma chain_unlink_later:
  assumes "chain psz st pos (pre @ c # b # post)" "distinct (pre @ c # b # post)"
    "\<And>a. a \<in> set (pre @ post) \<Longrightarrow> i_h_next (st' a) = i_h_next (st a)"
    "i_h_next (st' c) = i_h_next (st b)"
  shows "chain psz st' pos (pre @ c # post)"
  using assms
proof (induction pre arbitrary: pos)
  case Nil
  then have "chain psz st (i_h_next (st b)) post" by simp
  then have "chain psz st' (i_h_next (st b)) post"
    using Nil.prems(3) chain_frame [of post st' st] by auto
  with Nil.prems show ?case by simp
next
  case (Cons a pre)
  then show ?case by auto
qed

subsection \<open>The map it implements\<close>

text \<open>
  \<open>hm_rel\<close>: \<open>cs i\<close> lists the items of bucket \<open>i\<close> in chain order. Every item is in the bucket of
  its key, no item and no key occurs twice, and an item's identifier leads back to it.
\<close>

definition hm_rel :: "nat \<Rightarrow> hash_map \<times> store \<Rightarrow> (nat \<Rightarrow> nat list) \<Rightarrow> bool" where
  "hm_rel psz s cs \<longleftrightarrow>
     (let (hm, st) = s; n = hm_bucket_size hm
      in length (hm_table hm) = n \<and> (\<exists>k < 32. n = 2 ^ k) \<and>
         (\<forall>i < n. chain psz st (hm_table hm ! i) (cs i) \<and> distinct (cs i) \<and>
            (\<forall>a \<in> set (cs i). get_bucket_index n (ITEM_KEY (st a)) = i \<and> ITEM_KEY (st a) \<noteq> [] \<and>
               i_key_len (st a) = length (ITEM_KEY (st a)) \<and>
               id_to_item psz (i_item_id (st a)) = Some a) \<and>
            inj_on (\<lambda>a. ITEM_KEY (st a)) (set (cs i))) \<and>
         hm_item_count hm = int (\<Sum>i < n. length (cs i)))"

definition hm_map :: "hash_map \<times> store \<Rightarrow> (nat \<Rightarrow> nat list) \<Rightarrow> string \<Rightarrow> nat option" where
  "hm_map s cs key =
     find (\<lambda>a. ITEM_KEY (snd s a) = key) (cs (get_bucket_index (hm_bucket_size (fst s)) key))"

definition hm_rep :: "nat \<Rightarrow> hash_map \<times> store \<Rightarrow> (string \<rightharpoonup> nat) \<Rightarrow> bool" where
  "hm_rep psz s m \<longleftrightarrow> (\<exists>cs. hm_rel psz s cs \<and> (\<forall>key. key \<noteq> [] \<longrightarrow> m key = hm_map s cs key) \<and> m [] = None)"

lemma same_key_iff:
  "i_key_len it = length (ITEM_KEY it) \<Longrightarrow> same_key key it \<longleftrightarrow> ITEM_KEY it = key"
  by (auto simp: same_key_def ITEM_KEY_def)

lemma find_split:
  assumes "find P xs = Some b"
  obtains pre post where "xs = pre @ b # post" "\<forall>a \<in> set pre. \<not> P a" "P b"
proof -
  from assms obtain i where i: "i < length xs" "P (xs ! i)" "b = xs ! i" "\<forall>j < i. \<not> P (xs ! j)"
    by (auto simp: find_Some_iff)
  show thesis
  proof (rule that)
    show "xs = take i xs @ b # drop (Suc i) xs" using i by (simp add: id_take_nth_drop)
    show "\<forall>a \<in> set (take i xs). \<not> P a" using i(1,4) by (auto simp: in_set_conv_nth)
    show "P b" using i by simp
  qed
qed

text \<open>The parts of \<open>hm_rel\<close> for the bucket of a key.\<close>

lemma hm_rel_bucket:
  assumes "hm_rel psz (hm, st) cs"
  defines "n \<equiv> hm_bucket_size hm"
  shows "get_bucket_index n key < n" and "length (hm_table hm) = n"
    and "i < n \<Longrightarrow> chain psz st (hm_table hm ! i) (cs i) \<and> distinct (cs i) \<and>
           inj_on (\<lambda>a. ITEM_KEY (st a)) (set (cs i))"
    and "i < n \<Longrightarrow> a \<in> set (cs i) \<Longrightarrow> get_bucket_index n (ITEM_KEY (st a)) = i \<and> ITEM_KEY (st a) \<noteq> [] \<and>
           same_key key (st a) = (ITEM_KEY (st a) = key) \<and> id_to_item psz (i_item_id (st a)) = Some a"
  using assms get_bucket_index_less [of n _ key] same_key_iff
  by (auto simp: hm_rel_def Let_def)

definition in_bucket :: "nat \<Rightarrow> nat \<Rightarrow> store \<Rightarrow> nat \<Rightarrow> nat \<Rightarrow> bool" where
  "in_bucket psz n st i a \<longleftrightarrow> get_bucket_index n (ITEM_KEY (st a)) = i \<and> ITEM_KEY (st a) \<noteq> [] \<and>
     i_key_len (st a) = length (ITEM_KEY (st a)) \<and> id_to_item psz (i_item_id (st a)) = Some a"

lemma hm_rel_in_bucket:
  "hm_rel psz (hm, st) cs \<Longrightarrow> i < hm_bucket_size hm \<Longrightarrow> a \<in> set (cs i) \<Longrightarrow>
     in_bucket psz (hm_bucket_size hm) st i a"
  by (auto simp: hm_rel_def Let_def in_bucket_def)

lemma hm_rel_count: "hm_rel psz (hm, st) cs \<Longrightarrow> hm_item_count hm = int (\<Sum>i < hm_bucket_size hm. length (cs i))"
  and hm_rel_size: "hm_rel psz (hm, st) cs \<Longrightarrow> \<exists>k < 32. hm_bucket_size hm = 2 ^ k"
  by (simp_all add: hm_rel_def Let_def)

lemma hm_relI:
  assumes "\<exists>k < 32. hm_bucket_size hm = 2 ^ k" "length (hm_table hm) = hm_bucket_size hm"
    "\<And>i. i < hm_bucket_size hm \<Longrightarrow> chain psz st (hm_table hm ! i) (cs i)"
    "\<And>i. i < hm_bucket_size hm \<Longrightarrow> distinct (cs i)"
    "\<And>i. i < hm_bucket_size hm \<Longrightarrow> inj_on (\<lambda>a. ITEM_KEY (st a)) (set (cs i))"
    "\<And>i a. i < hm_bucket_size hm \<Longrightarrow> a \<in> set (cs i) \<Longrightarrow> in_bucket psz (hm_bucket_size hm) st i a"
    "hm_item_count hm = int (\<Sum>i < hm_bucket_size hm. length (cs i))"
  shows "hm_rel psz (hm, st) cs"
  using assms by (simp add: hm_rel_def Let_def in_bucket_def)

lemma hm_find_bucket:
  fixes key :: string
  assumes "hm_rel psz (hm, st) cs"
  defines "idx \<equiv> get_bucket_index (hm_bucket_size hm) key"
  shows "case hm_map (hm, st) cs key of
      None \<Rightarrow> \<exists>pp. hm_find_from psz st key (hm_table hm ! idx) None = Some (None, pp)
    | Some b \<Rightarrow> \<exists>pre post. cs idx = pre @ b # post \<and> ITEM_KEY (st b) = key \<and>
        hm_find_from psz st key (hm_table hm ! idx) None = Some (Some b, if pre = [] then None else Some (last pre))"
proof (cases "hm_map (hm, st) cs key")
  case None
  then have "\<forall>a \<in> set (cs idx). \<not> same_key key (st a)"
    using hm_rel_bucket(4) [OF assms(1) hm_rel_bucket(1) [OF assms(1), of key], of _ key]
    by (auto simp: hm_map_def find_None_iff idx_def)
  with hm_find_from_none [of psz st _ "cs idx"] None show ?thesis
    using hm_rel_bucket [OF assms(1)] by (simp add: idx_def)
next
  case (Some b)
  then have "find (\<lambda>a. ITEM_KEY (st a) = key) (cs idx) = Some b" by (simp add: hm_map_def idx_def)
  then obtain pre post where c: "cs idx = pre @ b # post" "\<forall>a \<in> set pre. ITEM_KEY (st a) \<noteq> key" "ITEM_KEY (st b) = key"
    by (rule find_split)
  have idx: "idx < hm_bucket_size hm" unfolding idx_def by (rule hm_rel_bucket(1) [OF assms(1)])
  have "\<forall>a \<in> set pre. \<not> same_key key (st a)" "same_key key (st b)"
    using hm_rel_bucket(4) [OF assms(1) idx] c by auto
  moreover have "chain psz st (hm_table hm ! idx) (pre @ b # post)"
    using hm_rel_bucket(3) [OF assms(1) idx] c(1) by simp
  ultimately show ?thesis using c Some hm_find_from_some by auto
qed

lemma hm_find_rep:
  assumes "hm_rep psz s m" "key \<noteq> []"
  shows "hm_find psz s key = Some (m key)"
proof -
  obtain hm st where s: "s = (hm, st)" by force
  from assms s obtain cs where cs: "hm_rel psz (hm, st) cs" "m key = hm_map (hm, st) cs key"
    by (auto simp: hm_rep_def)
  from hm_find_bucket [OF cs(1), of key] cs(2) assms(2) s show ?thesis
    by (auto simp: hm_find_def split: option.splits)
qed

text \<open>What the hash operations may change in the store: the chain links and nothing else.\<close>

definition relinked :: "store \<Rightarrow> store \<Rightarrow> bool" where
  "relinked st st' \<longleftrightarrow> (\<forall>a. st' a = (st a)\<lparr>i_h_next := i_h_next (st' a)\<rparr>)"

lemma relinked_sel:
  assumes "relinked st st'"
  shows "i_item_id (st' a) = i_item_id (st a)" "i_key_len (st' a) = i_key_len (st a)"
    "i_data (st' a) = i_data (st a)" "ITEM_KEY (st' a) = ITEM_KEY (st a)" "ITEM_DATA (st' a) = ITEM_DATA (st a)"
    "ITEM_AREA (st' a) = ITEM_AREA (st a)" "i_data_len (st' a) = i_data_len (st a)"
    "i_prev (st' a) = i_prev (st a)" "i_next (st' a) = i_next (st a)"
proof -
  have eq: "st' a = (st a)\<lparr>i_h_next := i_h_next (st' a)\<rparr>" using assms by (simp add: relinked_def)
  show "i_item_id (st' a) = i_item_id (st a)" "i_key_len (st' a) = i_key_len (st a)"
    "i_data (st' a) = i_data (st a)" "ITEM_KEY (st' a) = ITEM_KEY (st a)" "ITEM_DATA (st' a) = ITEM_DATA (st a)"
    "ITEM_AREA (st' a) = ITEM_AREA (st a)" "i_data_len (st' a) = i_data_len (st a)"
    "i_prev (st' a) = i_prev (st a)" "i_next (st' a) = i_next (st a)"
    by (subst eq, simp add: ITEM_KEY_def ITEM_DATA_def ITEM_AREA_def)+
qed

lemma hm_rep_member:
  assumes "hm_rel psz (hm, st) cs" "\<And>key. key \<noteq> [] \<Longrightarrow> m key = hm_map (hm, st) cs key"
    "i < hm_bucket_size hm" "a \<in> set (cs i)"
  shows "m (ITEM_KEY (st a)) = Some a"
proof -
  note b = hm_rel_bucket(4) [OF assms(1,3,4)]
  have "find (\<lambda>x. ITEM_KEY (st x) = ITEM_KEY (st a)) (cs i) \<noteq> None"
    using assms(4) by (auto simp: find_None_iff)
  then obtain x where x: "find (\<lambda>x. ITEM_KEY (st x) = ITEM_KEY (st a)) (cs i) = Some x" by blast
  then have "x \<in> set (cs i)" "ITEM_KEY (st x) = ITEM_KEY (st a)" by (auto simp: find_Some_iff)
  then have "x = a" using hm_rel_bucket(3) [OF assms(1,3)] assms(4) by (auto dest: inj_onD)
  with x b assms(2) show ?thesis by (simp add: hm_map_def)
qed

lemma hm_insert_rep:
  assumes rep: "hm_rep psz (hm, st) m" and new: "a \<notin> ran m" "m (ITEM_KEY (st a)) = None"
    and item: "ITEM_KEY (st a) \<noteq> []" "i_key_len (st a) = length (ITEM_KEY (st a))"
      "id_to_item psz (i_item_id (st a)) = Some a"
  shows "hm_rep psz (hm_insert a (hm, st)) (m(ITEM_KEY (st a) \<mapsto> a)) \<and>
         relinked st (snd (hm_insert a (hm, st)))"
proof -
  from rep obtain cs where cs: "hm_rel psz (hm, st) cs" "\<And>key. key \<noteq> [] \<Longrightarrow> m key = hm_map (hm, st) cs key"
    "m [] = None" by (auto simp: hm_rep_def)
  define n idx where "n = hm_bucket_size hm" and "idx = get_bucket_index n (ITEM_KEY (st a))"
  have idx: "idx < n" unfolding idx_def n_def by (rule hm_rel_bucket(1) [OF cs(1)])
  have fresh: "a \<notin> set (cs i)" if "i < n" for i
  proof
    assume "a \<in> set (cs i)"
    from hm_rep_member [OF cs(1,2) _ this] that new(2) show False by (simp add: n_def)
  qed
  define st' where "st' = st(a := (st a)\<lparr>i_h_next := hm_table hm ! idx\<rparr>)"
  define hm' where "hm' = hm\<lparr>hm_table := (hm_table hm)[idx := i_item_id (st a)], hm_item_count := hm_item_count hm + 1\<rparr>"
  define cs' where "cs' = cs(idx := a # cs idx)"
  have run: "hm_insert a (hm, st) = (hm', st')"
    by (simp add: hm_insert_def Let_def st'_def hm'_def idx_def n_def)
  have rl: "relinked st st'" by (simp add: relinked_def st'_def)
  note sel = relinked_sel [OF rl]
  have keys: "ITEM_KEY (st' x) = ITEM_KEY (st x)" for x by (rule sel)
  have nz: "i_item_id (st a) \<noteq> 0" using item(3) by (auto simp: id_to_item_def)
  have len: "length (hm_table hm) = n" unfolding n_def by (rule hm_rel_bucket(2) [OF cs(1)])
  have ch: "chain psz st' (hm_table hm' ! i) (cs' i)" if "i < n" for i
  proof -
    have "chain psz st' (hm_table hm ! i) (cs i)"
      using hm_rel_bucket(3) [OF cs(1)] fresh [OF that] that by (simp add: st'_def n_def)
    then show ?thesis using that idx len item(3) nz by (auto simp: cs'_def hm'_def nth_list_update st'_def)
  qed
  have size: "hm_bucket_size hm' = n" by (simp add: hm'_def n_def)
  have "hm_rel psz (hm', st') cs'"
  proof (rule hm_relI, unfold size)
    show "\<exists>k < 32. n = 2 ^ k" using hm_rel_size [OF cs(1)] by (simp add: n_def)
    show "length (hm_table hm') = n" using len by (simp add: hm'_def)
    show "chain psz st' (hm_table hm' ! i) (cs' i)" if "i < n" for i by (rule ch [OF that])
    show "distinct (cs' i)" "inj_on (\<lambda>a. ITEM_KEY (st' a)) (set (cs' i))" if "i < n" for i
      using hm_rel_bucket(3) [OF cs(1), of i] that fresh [OF that] new(2) hm_rep_member [OF cs(1,2), of i]
      by (auto simp: cs'_def n_def keys)
    show "in_bucket psz n st' i x" if "i < n" "x \<in> set (cs' i)" for i x
      using hm_rel_in_bucket [OF cs(1), of i x] that item sel(1,2)
      by (auto simp: cs'_def in_bucket_def keys idx_def n_def split: if_splits)
    have "(\<Sum>i < n. length (cs' i)) = (\<Sum>i < n. length (cs i) + (if i = idx then 1 else 0))"
      by (rule sum.cong) (auto simp: cs'_def)
    also have "\<dots> = (\<Sum>i < n. length (cs i)) + 1" using idx by (simp add: sum.distrib)
    finally show "hm_item_count hm' = int (\<Sum>i < n. length (cs' i))"
      using hm_rel_count [OF cs(1)] by (simp add: hm'_def n_def)
  qed
  moreover have "(m(ITEM_KEY (st a) \<mapsto> a)) key = hm_map (hm', st') cs' key" if "key \<noteq> []" for key
    using that cs(2) new(2) keys idx by (auto simp: hm_map_def hm'_def cs'_def idx_def n_def)
  ultimately show ?thesis using run rl item(1) cs(3) by (auto simp: hm_rep_def)
qed

lemma hm_remove_none:
  assumes "hm_rep psz (hm, st) m" "m (ITEM_KEY (st a)) = None"
  shows "hm_remove psz a (hm, st) = Some (False, hm, st)"
proof -
  from assms(1) obtain cs where cs: "hm_rel psz (hm, st) cs"
    "\<And>key. key \<noteq> [] \<Longrightarrow> m key = hm_map (hm, st) cs key" by (auto simp: hm_rep_def)
  have "hm_map (hm, st) cs (ITEM_KEY (st a)) = None"
  proof (cases "ITEM_KEY (st a) = []")
    case True
    then show ?thesis
      using hm_rel_bucket(4) [OF cs(1) hm_rel_bucket(1) [OF cs(1), of "[]"]]
      by (auto simp: hm_map_def find_None_iff)
  qed (use assms(2) cs(2) in auto)
  with hm_find_bucket [OF cs(1), of "ITEM_KEY (st a)"] show ?thesis
    by (auto simp: hm_remove_def Let_def)
qed

text \<open>
  Taking item \<open>b\<close>, whose predecessors in bucket \<open>idx\<close> are \<open>pre\<close>, out of the table: the effect of
  \<open>hm_remove\<close> once the item is found, and the chains that are left.
\<close>

definition cut_store :: "nat list \<Rightarrow> nat \<Rightarrow> store \<Rightarrow> store" where
  "cut_store pre b st =
     (let st1 = (if pre = [] then st else st(last pre := (st (last pre))\<lparr>i_h_next := i_h_next (st b)\<rparr>))
      in st1(b := (st1 b)\<lparr>i_h_next := 0\<rparr>))"

definition cut_table :: "nat list \<Rightarrow> nat \<Rightarrow> nat \<Rightarrow> hash_map \<times> store \<Rightarrow> hash_map" where
  "cut_table pre b idx s =
     (fst s)\<lparr>hm_item_count := hm_item_count (fst s) - 1,
        hm_table := (if pre = [] then (hm_table (fst s))[idx := i_h_next (snd s b)] else hm_table (fst s))\<rparr>"

lemma cut_store_relinked: "relinked st (cut_store pre b st)"
  by (auto simp: relinked_def cut_store_def Let_def)

lemma cut_store_other:
  "x \<noteq> b \<Longrightarrow> pre = [] \<or> x \<noteq> last pre \<Longrightarrow> i_h_next (cut_store pre b st x) = i_h_next (st x)"
  by (auto simp: cut_store_def Let_def)

lemma cut_store_item: "i_h_next (cut_store pre b st b) = 0"
  by (simp add: cut_store_def Let_def)

lemma cut_chain:
  assumes ch: "chain psz st pos (pre @ b # post)" and dis: "distinct (pre @ b # post)"
  shows "chain psz (cut_store pre b st) (if pre = [] then i_h_next (st b) else pos) (pre @ post)"
proof (cases pre rule: rev_cases)
  case Nil
  then have "chain psz st (i_h_next (st b)) post" using ch by simp
  then show ?thesis
    using dis Nil by (subst chain_frame [of _ _ st]) (auto intro: cut_store_other)
next
  case (snoc pre' d)
  have "chain psz (cut_store pre b st) pos (pre' @ d # post)"
  proof (rule chain_unlink_later)
    show "chain psz st pos (pre' @ d # b # post)" "distinct (pre' @ d # b # post)"
      using ch dis snoc by auto
    show "i_h_next (cut_store pre b st x) = i_h_next (st x)" if "x \<in> set (pre' @ post)" for x
      using that dis snoc by (intro cut_store_other) auto
    show "i_h_next (cut_store pre b st d) = i_h_next (st b)"
      using dis snoc by (auto simp: cut_store_def Let_def)
  qed
  with snoc show ?thesis by simp
qed

lemma hm_rel_apart:
  assumes "hm_rel psz (hm, st) cs" "i < hm_bucket_size hm" "j < hm_bucket_size hm" "i \<noteq> j"
  shows "set (cs i) \<inter> set (cs j) = {}"
  using hm_rel_in_bucket [OF assms(1,2)] hm_rel_in_bucket [OF assms(1,3)] assms(4)
  by (auto simp: in_bucket_def)

lemma cut_rel:
  assumes rel: "hm_rel psz (hm, st) cs" and idx: "idx < hm_bucket_size hm" and c: "cs idx = pre @ b # post"
  shows "hm_rel psz (cut_table pre b idx (hm, st), cut_store pre b st) (cs(idx := pre @ post))"
proof -
  let ?st = "cut_store pre b st" and ?cs = "cs(idx := pre @ post)" and ?n = "hm_bucket_size hm"
  let ?hm = "cut_table pre b idx (hm, st)"
  note sel = relinked_sel [OF cut_store_relinked [of st pre b]]
  note bk = hm_rel_bucket(3) [OF rel]
  have dis: "distinct (pre @ b # post)" using bk [OF idx] c by simp
  have size: "hm_bucket_size ?hm = ?n" by (simp add: cut_table_def)
  have sub: "set (?cs i) = set (cs i) - {b}" if "i < ?n" for i
    using dis c hm_rel_apart [OF rel that idx] by (cases "i = idx") auto
  show ?thesis
  proof (rule hm_relI, unfold size)
    show "\<exists>k < 32. ?n = 2 ^ k" by (rule hm_rel_size [OF rel])
    show "length (hm_table ?hm) = ?n" using hm_rel_bucket(2) [OF rel] by (simp add: cut_table_def)
    show "chain psz ?st (hm_table ?hm ! i) (?cs i)" if i: "i < ?n" for i
    proof (cases "i = idx")
      case True
      with cut_chain [of psz st "hm_table hm ! idx" pre b post] bk [OF idx] c dis idx hm_rel_bucket(2) [OF rel]
      show ?thesis by (auto simp: cut_table_def)
    next
      case False
      have "i_h_next (?st x) = i_h_next (st x)" if "x \<in> set (cs i)" for x
        using that hm_rel_apart [OF rel i idx False] c by (intro cut_store_other) (auto dest: last_in_set)
      from chain_frame [of "cs i" ?st st, OF this] bk [OF i] False show ?thesis
        by (simp add: cut_table_def)
    qed
    show "distinct (?cs i)" if "i < ?n" for i using bk [OF that] dis by auto
    show "inj_on (\<lambda>a. ITEM_KEY (?st a)) (set (?cs i))" if "i < ?n" for i
      unfolding sub [OF that] sel(4) using bk [OF that] by (blast intro: inj_on_subset)
    show "in_bucket psz ?n ?st i x" if "i < ?n" "x \<in> set (?cs i)" for i x
      using hm_rel_in_bucket [OF rel, of i x] that sub [OF that(1)] sel(1,2,4) by (auto simp: in_bucket_def)
    have "(\<Sum>i < ?n. length (cs i)) = (\<Sum>i < ?n. length (?cs i) + (if i = idx then 1 else 0))"
      using c by (intro sum.cong) auto
    also have "\<dots> = (\<Sum>i < ?n. length (?cs i)) + 1" using idx by (simp add: sum.distrib)
    finally show "hm_item_count ?hm = int (\<Sum>i < ?n. length (?cs i))"
      using hm_rel_count [OF rel] by (simp add: cut_table_def)
  qed
qed

lemma cut_map:
  assumes rel: "hm_rel psz (hm, st) cs" and c: "cs idx = pre @ b # post"
    and idx: "idx = get_bucket_index (hm_bucket_size hm) (ITEM_KEY (st b))"
  shows "hm_map (cut_table pre b idx (hm, st), cut_store pre b st) (cs(idx := pre @ post)) k =
         ((hm_map (hm, st) cs)(ITEM_KEY (st b) := None)) k"
proof -
  note keys = relinked_sel(4) [OF cut_store_relinked [of st pre b]]
  have "distinct (pre @ b # post)" "inj_on (\<lambda>a. ITEM_KEY (st a)) (set (pre @ b # post))"
    using hm_rel_bucket(1,3) [OF rel] unfolding idx [symmetric] c [symmetric] by (auto simp: idx)
  note dis = this
  have "\<forall>x \<in> set (pre @ post). ITEM_KEY (st x) \<noteq> ITEM_KEY (st b)"
  proof (intro ballI notI)
    fix x
    assume x: "x \<in> set (pre @ post)" "ITEM_KEY (st x) = ITEM_KEY (st b)"
    then have "x = b" using dis(2) by (intro inj_onD [OF dis(2)]) auto
    with x(1) dis(1) show False by simp
  qed
  then have "find (\<lambda>x. ITEM_KEY (st x) = k) (pre @ post) =
      (if k = ITEM_KEY (st b) then None else find (\<lambda>x. ITEM_KEY (st x) = k) (pre @ b # post))"
    by (induction pre) (auto simp: find_None_iff)
  then show ?thesis using c idx by (auto simp: hm_map_def cut_table_def keys)
qed

lemma hm_remove_rep:
  assumes rep: "hm_rep psz (hm, st) m" and mem: "m (ITEM_KEY (st a)) = Some b"
  shows "\<exists>hm' st'. hm_remove psz a (hm, st) = Some (True, hm', st') \<and> i_h_next (st' b) = 0 \<and>
           hm_rep psz (hm', st') (m(ITEM_KEY (st a) := None)) \<and> relinked st st' \<and> (\<forall>x. x \<notin> ran m \<longrightarrow> st' x = st x)"
proof -
  from rep obtain cs where cs: "hm_rel psz (hm, st) cs" "\<And>key. key \<noteq> [] \<Longrightarrow> m key = hm_map (hm, st) cs key"
    "m [] = None" by (auto simp: hm_rep_def)
  define key idx where "key = ITEM_KEY (st a)" and "idx = get_bucket_index (hm_bucket_size hm) key"
  have "hm_map (hm, st) cs key = Some b" using mem cs(2,3) by (cases "key = []") (auto simp: key_def)
  with hm_find_bucket [OF cs(1), of key] obtain pre post where
    c: "cs idx = pre @ b # post" "ITEM_KEY (st b) = key"
    and f: "hm_find_from psz st key (hm_table hm ! idx) None = Some (Some b, if pre = [] then None else Some (last pre))"
    by (auto simp: idx_def)
  let ?hm = "cut_table pre b idx (hm, st)" and ?st = "cut_store pre b st"
  have "hm_remove psz a (hm, st) = Some (True, ?hm, ?st)"
    using f by (simp add: hm_remove_def Let_def key_def idx_def cut_table_def cut_store_def)
  moreover have "hm_rel psz (?hm, ?st) (cs(idx := pre @ post))"
    using cut_rel [OF cs(1) _ c(1)] hm_rel_bucket(1) [OF cs(1)] by (simp add: idx_def)
  then have "hm_rep psz (?hm, ?st) (m(key := None))"
    using cut_map [OF cs(1) c(1)] c(2) cs(2,3) by (auto simp: hm_rep_def idx_def)
  moreover have "?st x = st x" if "x \<notin> ran m" for x
  proof -
    have "x \<noteq> b" using that mem by (auto simp: ran_def)
    moreover have "pre \<noteq> [] \<Longrightarrow> x \<noteq> last pre"
      using that hm_rep_member [OF cs(1,2), of idx "last pre"] hm_rel_bucket(1) [OF cs(1)] c(1) by (auto simp: ran_def idx_def)
    ultimately show ?thesis by (auto simp: cut_store_def Let_def)
  qed
  ultimately show ?thesis
    using cut_store_relinked cut_store_item by (auto simp: key_def)
qed

text \<open>What the map says of an item in it, and what a change of the store has to keep.\<close>

lemma hm_rep_item:
  assumes "hm_rep psz (hm, st) m" "m key = Some a"
  shows "ITEM_KEY (st a) = key" "key \<noteq> []" "i_key_len (st a) = length key" "id_to_item psz (i_item_id (st a)) = Some a"
proof -
  from assms(1) obtain cs where cs: "hm_rel psz (hm, st) cs" "\<And>key. key \<noteq> [] \<Longrightarrow> m key = hm_map (hm, st) cs key" "m [] = None"
    by (auto simp: hm_rep_def)
  show ne: "key \<noteq> []" using assms(2) cs(3) by auto
  let ?i = "get_bucket_index (hm_bucket_size hm) key"
  have "find (\<lambda>x. ITEM_KEY (st x) = key) (cs ?i) = Some a" using assms(2) cs(2) [OF ne] by (simp add: hm_map_def)
  then have a: "a \<in> set (cs ?i)" "ITEM_KEY (st a) = key" by (auto simp: find_Some_iff)
  with hm_rel_in_bucket [OF cs(1) hm_rel_bucket(1) [OF cs(1), of key] a(1)]
  show "ITEM_KEY (st a) = key" "i_key_len (st a) = length key" "id_to_item psz (i_item_id (st a)) = Some a"
    by (simp_all add: in_bucket_def)
qed

lemma hm_rep_cong:
  assumes "hm_rep psz (hm, st) m"
    and "\<And>a. a \<in> ran m \<Longrightarrow> i_h_next (st' a) = i_h_next (st a) \<and> i_key_len (st' a) = i_key_len (st a) \<and>
      ITEM_KEY (st' a) = ITEM_KEY (st a) \<and> id_to_item psz (i_item_id (st' a)) = id_to_item psz (i_item_id (st a))"
  shows "hm_rep psz (hm, st') m"
proof -
  from assms(1) obtain cs where cs: "hm_rel psz (hm, st) cs" "\<And>key. key \<noteq> [] \<Longrightarrow> m key = hm_map (hm, st) cs key" "m [] = None"
    by (auto simp: hm_rep_def)
  have in_ran: "a \<in> ran m" if "i < hm_bucket_size hm" "a \<in> set (cs i)" for i a
    using hm_rep_member [OF cs(1,2) that] by (auto simp: ran_def)
  note same = assms(2) [OF in_ran]
  have "hm_rel psz (hm, st') cs"
  proof (rule hm_relI)
    show "chain psz st' (hm_table hm ! i) (cs i)" if "i < hm_bucket_size hm" for i
      using hm_rel_bucket(3) [OF cs(1) that] chain_frame [of "cs i" st' st] same [OF that] by auto
    show "inj_on (\<lambda>a. ITEM_KEY (st' a)) (set (cs i))" if "i < hm_bucket_size hm" for i
      using hm_rel_bucket(3) [OF cs(1) that] same [OF that] by (auto simp: inj_on_def)
    show "in_bucket psz (hm_bucket_size hm) st' i a" if "i < hm_bucket_size hm" "a \<in> set (cs i)" for i a
      using hm_rel_in_bucket [OF cs(1) that] same [OF that] by (simp add: in_bucket_def)
  qed (use hm_rel_bucket(2,3) [OF cs(1)] hm_rel_size [OF cs(1)] hm_rel_count [OF cs(1)] in auto)
  moreover have "hm_map (hm, st') cs key = hm_map (hm, st) cs key" for key
    using same [OF hm_rel_bucket(1) [OF cs(1), of key]] unfolding hm_map_def prod.sel
    by (intro find_cong refl) simp
  ultimately show ?thesis using cs(2,3) by (auto simp: hm_rep_def)
qed

subsection \<open>The contract with the cache manager\<close>

text \<open>
  What the manager relies on: the index represents a finite map from keys to items, and the three
  operations look up, add and take out of that map.
\<close>

locale key_index =
  fixes rep :: "'s \<Rightarrow> ('k \<rightharpoonup> 'a) \<Rightarrow> bool" and key_of :: "'s \<Rightarrow> 'a \<Rightarrow> 'k" and valid :: "'k \<Rightarrow> bool"
    and ok :: "'s \<Rightarrow> 'a \<Rightarrow> bool" and lookup :: "'s \<Rightarrow> 'k \<Rightarrow> 'a option option"
    and add :: "'a \<Rightarrow> 's \<Rightarrow> 's" and del :: "'a \<Rightarrow> 's \<Rightarrow> (bool \<times> 's) option"
  assumes lookup_rep: "rep s m \<Longrightarrow> valid k \<Longrightarrow> lookup s k = Some (m k)"
    and add_rep: "rep s m \<Longrightarrow> ok s a \<Longrightarrow> a \<notin> ran m \<Longrightarrow> m (key_of s a) = None \<Longrightarrow>
          rep (add a s) (m(key_of s a \<mapsto> a))"
    and del_found: "rep s m \<Longrightarrow> m (key_of s a) = Some b \<Longrightarrow>
          \<exists>s'. del a s = Some (True, s') \<and> rep s' (m(key_of s a := None))"
    and del_missing: "rep s m \<Longrightarrow> m (key_of s a) = None \<Longrightarrow> del a s = Some (False, s)"
begin

lemma lookup_after_add:
  assumes "rep s m" "ok s a" "a \<notin> ran m" "m (key_of s a) = None" "valid k"
  shows "lookup (add a s) k = Some (if k = key_of s a then Some a else m k)"
  using lookup_rep [OF add_rep [OF assms(1-4)] assms(5)] by simp

lemma lookup_after_del:
  assumes "rep s m" "valid k"
  shows "\<exists>b s'. del a s = Some (b, s') \<and> (b \<longleftrightarrow> m (key_of s a) \<noteq> None) \<and>
           lookup s' k = Some (if k = key_of s a then None else m k)"
proof (cases "m (key_of s a)")
  case None
  with del_missing [OF assms(1) None] lookup_rep [OF assms] show ?thesis by auto
next
  case (Some b)
  from del_found [OF assms(1) Some] obtain s' where
    "del a s = Some (True, s')" "rep s' (m(key_of s a := None))" by blast
  with lookup_rep [OF this(2) assms(2)] Some show ?thesis by auto
qed

end

definition item_key_of :: "hash_map \<times> store \<Rightarrow> nat \<Rightarrow> string" where
  "item_key_of s a = ITEM_KEY (snd s a)"

definition hashable :: "nat \<Rightarrow> hash_map \<times> store \<Rightarrow> nat \<Rightarrow> bool" where
  "hashable psz s a \<longleftrightarrow> item_key_of s a \<noteq> [] \<and> i_key_len (snd s a) = length (item_key_of s a) \<and>
     id_to_item psz (i_item_id (snd s a)) = Some a"

interpretation hm: key_index "hm_rep psz" item_key_of "\<lambda>k. k \<noteq> []" "hashable psz" "hm_find psz" hm_insert
  "hm_remove psz"
proof unfold_locales
  fix s m a
  assume h: "hm_rep psz s m" "hashable psz s a" "a \<notin> ran m" "m (item_key_of s a) = None"
  obtain hm st where s: "s = (hm, st)" by force
  show "hm_rep psz (hm_insert a s) (m(item_key_of s a \<mapsto> a))"
    using hm_insert_rep [of psz hm st m a] h by (simp add: s hashable_def item_key_of_def)
next
  fix s m a b
  assume h: "hm_rep psz s m" "m (item_key_of s a) = Some b"
  obtain hm st where s: "s = (hm, st)" by force
  from hm_remove_rep [of psz hm st m a b] h show
    "\<exists>s'. hm_remove psz a s = Some (True, s') \<and> hm_rep psz s' (m(item_key_of s a := None))"
    by (auto simp: s item_key_of_def)
next
  fix s m a
  assume h: "hm_rep psz s m" "m (item_key_of s a) = None"
  obtain hm st where s: "s = (hm, st)" by force
  from hm_remove_none [of psz hm st m a] h show "hm_remove psz a s = Some (False, s)"
    by (simp add: s item_key_of_def)
qed (rule hm_find_rep)

subsection \<open>A new table\<close>

text \<open>
  The constructor asks the pool for one page after the other and then uses them as one array: it
  gets consecutive pages, because the pool's cursor stands at the first of a run of free pages.
\<close>

lemma alloc_pages_run:
  assumes "pool_wf p" "{mp_current_page p ..< mp_current_page p + n} \<subseteq> free_set p"
  shows "\<exists>p'. alloc_pages n p = Some p' \<and> pool_wf p' \<and>
           free_set p' = free_set p - {mp_current_page p ..< mp_current_page p + n} \<and>
           mp_current_page p' = mp_current_page p + n"
  using assms
proof (induction n arbitrary: p)
  case (Suc n)
  let ?c = "mp_current_page p"
  have "?c \<in> free_set p" using Suc.prems(2) by auto
  from alloc_page_next [OF Suc.prems(1) this] obtain page p1 where
    p1: "alloc_page p = Some (Some (page, ?c), p1)" "pool_wf p1" "free_set p1 = free_set p - {?c}"
      "mp_current_page p1 = ?c + 1" by blast
  have "{mp_current_page p1 ..< mp_current_page p1 + n} \<subseteq> free_set p1"
    using Suc.prems(2) p1(3,4) by auto
  from Suc.IH [OF p1(2) this] obtain p' where p': "alloc_pages n p1 = Some p'" "pool_wf p'"
    "free_set p' = free_set p1 - {mp_current_page p1 ..< mp_current_page p1 + n}"
    "mp_current_page p' = mp_current_page p1 + n" by blast
  have "{?c ..< ?c + Suc n} = insert ?c {?c + 1 ..< ?c + 1 + n}" by auto
  then have "free_set p' = free_set p - {?c ..< ?c + Suc n}" unfolding p'(3) p1(3,4) by blast
  with p1 p' show ?case by simp
qed auto

lemma empty_table_rep:
  assumes "hm_bucket_size hm = 2 ^ k" "k < 32" "hm_table hm = replicate (2 ^ k) 0" "hm_item_count hm = 0"
  shows "hm_rep psz (hm, st) Map.empty"
  unfolding hm_rep_def hm_rel_def Let_def
  by (rule exI [of _ "\<lambda>_. []"]) (use assms in \<open>auto simp: hm_map_def\<close>)

subsection \<open>Properties\<close>

text \<open>
  C22. The hash table is a map from keys to items. In a table that holds the map \<open>m\<close>, after \<open>insert\<close>
  of an item whose key is not there, \<open>find\<close> returns the item for its key and what \<open>m\<close> says for
  every other key, whatever the keys hash to; no search fails to end.
\<close>

theorem hash_insert_find:
  assumes "hm_rep psz s m" "hashable psz s a" "a \<notin> ran m" "m (item_key_of s a) = None" "key \<noteq> []"
  shows "hm_find psz (hm_insert a s) key = Some (if key = item_key_of s a then Some a else m key)"
  using assms by (rule hm.lookup_after_add)

text \<open>
  C23. In a table that holds the map \<open>m\<close>, \<open>remove\<close> of an item says whether the item's key was there,
  and afterwards \<open>find\<close> returns nothing for this key and what \<open>m\<close> says for every other key.
\<close>

theorem hash_remove_find:
  assumes "hm_rep psz s m" "key \<noteq> []"
  shows "\<exists>found s'. hm_remove psz a s = Some (found, s') \<and> (found \<longleftrightarrow> m (item_key_of s a) \<noteq> None) \<and>
           hm_find psz s' key = Some (if key = item_key_of s a then None else m key)"
  using assms by (rule hm.lookup_after_del)

text \<open>A table with four buckets and one item outside it.\<close>

definition small_table :: hash_map where
  "small_table = \<lparr>hm_is_inited = True, hm_bucket_size = 4, hm_item_count = 0, hm_start_page = 2,
     hm_table = replicate 4 0\<rparr>"

definition lone_key :: string where "lone_key = [CHR 0x01, CHR 0x00, CHR ''k'']"

definition lone_item :: mdb_item where
  "lone_item = \<lparr>i_h_next = 0, i_prev = 0, i_next = 0, i_exptime = 0, i_key_len = 3, i_data_len = 1,
     i_version = 1, i_update_time = 0, i_item_id = ITEM_ID 64 0 1 0, i_data = lone_key @ ''v''\<rparr>"

definition lone_addr :: nat where "lone_addr = 1048600"

lemma small_table_rep: "hm_rep psz (small_table, \<lambda>_. lone_item) Map.empty"
  by (rule empty_table_rep [of _ 2]) (simp_all add: small_table_def eval_nat_numeral)

lemma lone_hashable: "hashable 1048576 (small_table, \<lambda>_. lone_item) lone_addr"
  using id_to_item_ITEM_ID [of 64 0 1 0 1048576]
  by (simp add: hashable_def item_key_of_def lone_item_def lone_key_def ITEM_KEY_def sizeof_page_info_def lone_addr_def)

theorem hash_insert_find_witness:
  "hm_find 1048576 (hm_insert lone_addr (small_table, \<lambda>_. lone_item)) lone_key = Some (Some lone_addr) \<and>
   hm_find 1048576 (hm_insert lone_addr (small_table, \<lambda>_. lone_item)) ''key'' = Some None"
  using hash_insert_find [OF small_table_rep lone_hashable, of "lone_key"]
    hash_insert_find [OF small_table_rep lone_hashable, of "''key''"]
  by (simp add: item_key_of_def lone_item_def ITEM_KEY_def lone_key_def)

theorem hash_remove_find_witness:
  "\<exists>s'. hm_remove 1048576 lone_addr (hm_insert lone_addr (small_table, \<lambda>_. lone_item)) = Some (True, s') \<and>
     hm_find 1048576 s' lone_key = Some None"
proof -
  let ?s = "hm_insert lone_addr (small_table, \<lambda>_. lone_item)"
  have k: "ITEM_KEY lone_item = lone_key" by (simp add: lone_item_def ITEM_KEY_def lone_key_def)
  have "hm_rep 1048576 ?s (Map.empty(lone_key \<mapsto> lone_addr)) \<and> relinked (\<lambda>_. lone_item) (snd ?s)"
    using hm_insert_rep [OF small_table_rep, of lone_addr 1048576] lone_hashable
    by (simp add: hashable_def item_key_of_def k)
  moreover from this have "item_key_of ?s lone_addr = lone_key"
    using relinked_sel(4) [of "\<lambda>_. lone_item" "snd ?s" lone_addr] k by (simp add: item_key_of_def)
  ultimately show ?thesis
    using hash_remove_find [of 1048576 ?s "Map.empty(lone_key \<mapsto> lone_addr)" lone_key lone_addr] by (auto simp: lone_key_def)
qed

end
