(* ===== verification/Mdb_Slab.thy ===== *)
theory Mdb_Slab
  imports Mdb_Hashmap
begin

section \<open>Slabs: pages, items and their lists\<close>

text \<open>
  The model of \<open>mem_cache\<close> and its \<open>slab_manager\<close> (\<^verbatim>\<open>src/dkv/mdb/mem_cache.hpp\<close>,
  \<^verbatim>\<open>mem_cache.cpp\<close>). A slab hands out items of one size from pages of the pool. It keeps its
  pages in three kinds of doubly linked lists (full, free, and partly used ones in buckets by the
  number of free items) and, for each area, the list of its items in order of use.

  The state is one record: the pool, the page headers by page number, the items by address, the
  slabs and the time stamps of the areas. The methods of \<open>slab_manager\<close> take the number \<open>k\<close> of
  the slab; a page is named by its number and an item by its address. A failed assertion, an array
  access out of range and a page number outside the pool are \<open>None\<close>.
\<close>

record page_info =
  pi_id :: nat
  pi_free_nr :: int
  pi_next :: nat
  pi_prev :: nat
  pi_free_head :: u64

record slab_manager =
  sm_slab_id :: nat
  sm_slab_size :: nat
  sm_per_slab :: nat
  sm_page_size :: nat
  sm_item_list :: "(u64 \<times> u64) list"
  sm_item_count :: "u64 list"
  sm_evict_count :: "u64 list"
  sm_item_total_count :: u64
  sm_evict_total_count :: u64
  sm_full_pages_no :: int
  sm_partial_pages_no :: int
  sm_free_pages_no :: int
  sm_evict_index :: nat
  sm_free_pages :: nat
  sm_full_pages :: nat
  sm_partial_pages :: "nat list"
  sm_partial_pages_bucket_num :: nat
  sm_first_partial_page_index :: nat
  sm_partial_bucket_count :: int

record cache =
  mc_pool :: mem_pool
  mc_pages :: "nat \<Rightarrow> page_info"
  mc_items :: store
  mc_slabs :: "slab_manager list"
  mc_area_timestamp :: "u32 list"

datatype alloc_type = ALLOC_NEW | ALLOC_EXPIRED | ALLOC_EVICT_SELF | ALLOC_EVICT_ANY

definition PARTIAL_PAGE_BUCKET :: nat where "PARTIAL_PAGE_BUCKET = 10"
definition TAIR_SLAB_LARGEST :: nat where "TAIR_SLAB_LARGEST = 100"
definition sizeof_slab_manager :: nat where "sizeof_slab_manager = 3296"
definition ALIGN_SIZE :: nat where "ALIGN_SIZE = 8"

subsection \<open>Access to the state\<close>

abbreviation psz :: "cache \<Rightarrow> nat" where "psz c \<equiv> mp_page_size (mc_pool c)"

definition upd_slab :: "nat \<Rightarrow> (slab_manager \<Rightarrow> slab_manager) \<Rightarrow> cache \<Rightarrow> cache" where
  "upd_slab k f c = c\<lparr>mc_slabs := (mc_slabs c)[k := f (mc_slabs c ! k)]\<rparr>"

definition upd_page :: "nat \<Rightarrow> (page_info \<Rightarrow> page_info) \<Rightarrow> cache \<Rightarrow> cache" where
  "upd_page i f c = c\<lparr>mc_pages := (mc_pages c)(i := f (mc_pages c i))\<rparr>"

definition upd_item :: "nat \<Rightarrow> (mdb_item \<Rightarrow> mdb_item) \<Rightarrow> cache \<Rightarrow> cache" where
  "upd_item a f c = c\<lparr>mc_items := (mc_items c)(a := f (mc_items c a))\<rparr>"

abbreviation slab :: "nat \<Rightarrow> cache \<Rightarrow> slab_manager" where "slab k c \<equiv> mc_slabs c ! k"
abbreviation page :: "nat \<Rightarrow> cache \<Rightarrow> page_info" where "page i c \<equiv> mc_pages c i"
abbreviation item :: "nat \<Rightarrow> cache \<Rightarrow> mdb_item" where "item a c \<equiv> mc_items c a"

text \<open>\<open>PAGE_INFO(index_to_page(i))\<close>.\<close>

definition page_at :: "nat \<Rightarrow> cache \<Rightarrow> nat option" where
  "page_at i c = (if index_to_page (mc_pool c) i = None then None else Some i)"

definition item_at :: "u64 \<Rightarrow> cache \<Rightarrow> nat option" where
  "item_at x c = id_to_item (psz c) x"

subsection \<open>Lists of items\<close>

definition link_item :: "nat \<Rightarrow> nat \<Rightarrow> nat \<Rightarrow> cache \<Rightarrow> cache option" where
  "link_item k a area c =
     (if i_item_id (item a c) = 0 \<or> TAIR_MAX_AREA_COUNT \<le> area then None
      else do {
        let (hd, tl) = sm_item_list (slab k c) ! area;
        let iid = i_item_id (item a c);
        let c = upd_item a (\<lambda>it. it\<lparr>i_next := hd, i_prev := 0\<rparr>) c;
        c \<leftarrow> (if hd \<noteq> 0 then do { b \<leftarrow> item_at hd c; Some (upd_item b (\<lambda>it. it\<lparr>i_prev := iid\<rparr>) c) } else Some c);
        Some (upd_slab k (\<lambda>s. s\<lparr>sm_item_list := (sm_item_list s)[area := (iid, if tl = 0 then iid else tl)]\<rparr>) c) })"

definition unlink_item :: "nat \<Rightarrow> nat \<Rightarrow> cache \<Rightarrow> cache option" where
  "unlink_item k a c =
     (let it = item a c; area = ITEM_AREA it
      in if i_item_id it = 0 \<or> TAIR_MAX_AREA_COUNT \<le> area then None
         else do {
           let (hd, tl) = sm_item_list (slab k c) ! area;
           let hd = (if itemid_equal (i_item_id it) hd then i_next it else hd);
           let tl = (if itemid_equal (i_item_id it) tl then i_prev it else tl);
           let c = upd_slab k (\<lambda>s. s\<lparr>sm_item_list := (sm_item_list s)[area := (hd, tl)]\<rparr>) c;
           c \<leftarrow> (if i_prev it \<noteq> 0
                 then do { b \<leftarrow> item_at (i_prev it) c; Some (upd_item b (\<lambda>x. x\<lparr>i_next := i_next it\<rparr>) c) }
                 else Some c);
           (if i_next (item a c) \<noteq> 0
            then do { b \<leftarrow> item_at (i_next (item a c)) c;
                      Some (upd_item b (\<lambda>x. x\<lparr>i_prev := i_prev (item a c)\<rparr>) c) }
            else Some c) })"

definition sm_update_item :: "nat \<Rightarrow> nat \<Rightarrow> nat \<Rightarrow> cache \<Rightarrow> cache option" where
  "sm_update_item k a area c = do { c \<leftarrow> unlink_item k a c; link_item k a area c }"

subsection \<open>Lists of pages\<close>

text \<open>Both return the new head of the list.\<close>

definition link_page :: "nat \<Rightarrow> nat \<Rightarrow> cache \<Rightarrow> (nat \<times> cache) option" where
  "link_page i page_head c =
     do { let c = upd_page i (\<lambda>p. p\<lparr>pi_prev := 0, pi_next := page_head\<rparr>) c;
          c \<leftarrow> (if page_head \<noteq> 0
                then do { j \<leftarrow> page_at page_head c; Some (upd_page j (\<lambda>p. p\<lparr>pi_prev := pi_id (page i c)\<rparr>) c) }
                else Some c);
          Some (pi_id (page i c), c) }"

definition unlink_page :: "nat \<Rightarrow> nat \<Rightarrow> cache \<Rightarrow> (nat \<times> cache) option" where
  "unlink_page i page_head c =
     do { let head = (if pi_id (page i c) = page_head then pi_next (page i c) else page_head);
          c \<leftarrow> (if pi_next (page i c) \<noteq> 0
                then do { j \<leftarrow> page_at (pi_next (page i c)) c;
                          Some (upd_page j (\<lambda>p. p\<lparr>pi_prev := pi_prev (page i c)\<rparr>) c) }
                else Some c);
          c \<leftarrow> (if pi_prev (page i c) \<noteq> 0
                then do { j \<leftarrow> page_at (pi_prev (page i c)) c;
                          Some (upd_page j (\<lambda>p. p\<lparr>pi_next := pi_next (page i c)\<rparr>) c) }
                else Some c);
          Some (head, upd_page i (\<lambda>p. p\<lparr>pi_prev := 0, pi_next := 0\<rparr>) c) }"

subsection \<open>Partly used pages\<close>

definition partial_bucket :: "nat \<Rightarrow> nat \<Rightarrow> cache \<Rightarrow> nat option" where
  "partial_bucket k i c =
     (let b = nat (pi_free_nr (page i c)) div PARTIAL_PAGE_BUCKET
      in if b < length (sm_partial_pages (slab k c)) then Some b else None)"

definition link_partial_page :: "nat \<Rightarrow> nat \<Rightarrow> cache \<Rightarrow> cache option" where
  "link_partial_page k i c =
     do { bucket \<leftarrow> partial_bucket k i c;
          let pp = sm_partial_pages (slab k c);
          let c = (if pp ! bucket = 0
                   then upd_slab k (\<lambda>s. s\<lparr>sm_partial_bucket_count := sm_partial_bucket_count s + 1\<rparr>) c else c);
          (head, c) \<leftarrow> link_page i (pp ! bucket) c;
          let c = upd_slab k (\<lambda>s. s\<lparr>sm_partial_pages := (sm_partial_pages s)[bucket := head]\<rparr>) c;
          let first = sm_first_partial_page_index (slab k c);
          Some (if bucket < first \<or> (first = 0 \<and> sm_partial_pages (slab k c) ! 0 = 0)
                then upd_slab k (\<lambda>s. s\<lparr>sm_first_partial_page_index := bucket\<rparr>) c else c) }"

definition unlink_partial_page :: "nat \<Rightarrow> nat \<Rightarrow> cache \<Rightarrow> cache option" where
  "unlink_partial_page k i c =
     do { bucket \<leftarrow> partial_bucket k i c;
          (head, c) \<leftarrow> unlink_page i (sm_partial_pages (slab k c) ! bucket) c;
          let c = upd_slab k (\<lambda>s. s\<lparr>sm_partial_pages := (sm_partial_pages s)[bucket := head]\<rparr>) c;
          let s = slab k c;
          if sm_first_partial_page_index s = bucket \<and> head = 0
          then let count = sm_partial_bucket_count s - 1;
                   c = upd_slab k (\<lambda>s. s\<lparr>sm_partial_bucket_count := count\<rparr>) c
               in Some (if count = 0 then upd_slab k (\<lambda>s. s\<lparr>sm_first_partial_page_index := 0\<rparr>) c
                        else case find (\<lambda>j. sm_partial_pages s ! j \<noteq> 0)
                                    [bucket + 1 ..< sm_partial_pages_bucket_num s] of
                               None \<Rightarrow> c
                             | Some j \<Rightarrow> upd_slab k (\<lambda>s. s\<lparr>sm_first_partial_page_index := j\<rparr>) c)
          else if head = 0
          then Some (upd_slab k (\<lambda>s. s\<lparr>sm_partial_bucket_count := sm_partial_bucket_count s - 1\<rparr>) c)
          else Some c }"

definition get_partial_page_id :: "nat \<Rightarrow> cache \<Rightarrow> nat option" where
  "get_partial_page_id k c =
     (let s = slab k c
      in if sm_first_partial_page_index s < length (sm_partial_pages s)
         then Some (sm_partial_pages s ! sm_first_partial_page_index s) else None)"

definition get_the_most_free_items_of_partial_page_id :: "nat \<Rightarrow> cache \<Rightarrow> nat" where
  "get_the_most_free_items_of_partial_page_id k c =
     (case find (\<lambda>p. p \<noteq> 0) (rev (sm_partial_pages (slab k c))) of None \<Rightarrow> 0 | Some p \<Rightarrow> p)"

subsection \<open>New pages\<close>

definition blank_item :: mdb_item where
  "blank_item = \<lparr>i_h_next = 0, i_prev = 0, i_next = 0, i_exptime = 0, i_key_len = 0, i_data_len = 0,
     i_version = 0, i_update_time = 0, i_item_id = 0, i_data = []\<rparr>"

definition fresh_item :: "nat \<Rightarrow> nat \<Rightarrow> nat \<Rightarrow> nat \<Rightarrow> nat \<Rightarrow> mdb_item" where
  "fresh_item slab_size per_slab index slab_id j =
     blank_item\<lparr>i_item_id := ITEM_ID slab_size j index slab_id,
       i_h_next := (if j + 1 = per_slab then 0 else ITEM_ID slab_size (j + 1) index slab_id),
       i_data := replicate (slab_size - sizeof_mdb_item) (CHR 0x00)\<rparr>"

text \<open>
  \<open>memset\<close> clears the page, then the header is set and the items are strung into the free list.
\<close>

definition init_page :: "nat \<Rightarrow> nat \<Rightarrow> cache \<Rightarrow> cache" where
  "init_page k index c =
     (let s = slab k c; n = sm_page_size s; start = index * psz c;
          cleared = (\<lambda>a. if start \<le> a \<and> a < start + n then blank_item else item a c);
          filled = fold (\<lambda>j st. st(start + sizeof_page_info + j * sm_slab_size s :=
                           fresh_item (sm_slab_size s) (sm_per_slab s) index (sm_slab_id s) j))
                     [0 ..< sm_per_slab s] cleared
      in c\<lparr>mc_items := filled,
           mc_pages := (mc_pages c)(index := \<lparr>pi_id = index, pi_free_nr = int (sm_per_slab s), pi_next = 0,
              pi_prev = 0, pi_free_head = ITEM_ID (sm_slab_size s) 0 index (sm_slab_id s)\<rparr>)\<rparr>)"

fun pre_alloc :: "nat \<Rightarrow> nat \<Rightarrow> cache \<Rightarrow> (nat \<times> cache) option" where
  "pre_alloc k 0 c = Some (0, c)"
| "pre_alloc k (Suc n) c =
     do { (r, p) \<leftarrow> alloc_page (mc_pool c);
          let c = c\<lparr>mc_pool := p\<rparr>;
          (case r of
             None \<Rightarrow> Some (0, c)
           | Some (_, index) \<Rightarrow>
               do { let c = upd_slab k (\<lambda>s. s\<lparr>sm_free_pages_no := sm_free_pages_no s + 1\<rparr>) c;
                    let c = init_page k index c;
                    (head, c) \<leftarrow> link_page index (sm_free_pages (slab k c)) c;
                    let c = upd_slab k (\<lambda>s. s\<lparr>sm_free_pages := head\<rparr>) c;
                    (m, c) \<leftarrow> pre_alloc k n c;
                    Some (m + 1, c) }) }"

subsection \<open>Allocation\<close>

text \<open>
  Where \<open>alloc_new_item\<close> takes the item from: a partly used page, a free page, or a new one; the
  page is out of its list afterwards. The inner \<open>None\<close>: the pool has no page left.
\<close>

definition take_page :: "nat \<Rightarrow> cache \<Rightarrow> (nat option \<times> cache) option" where
  "take_page k c =
     (let s = slab k c
      in if 0 < sm_partial_pages_no s then
           do { pid \<leftarrow> get_partial_page_id k c;
                i \<leftarrow> page_at pid c;
                if pi_free_nr (page i c) > 0 \<and> pi_free_head (page i c) \<noteq> 0
                   \<and> pi_free_nr (page i c) \<le> int (sm_per_slab s)
                then do { c \<leftarrow> unlink_partial_page k i c; Some (Some i, c) }
                else None }
         else if 0 < sm_free_pages_no s then
           do { i \<leftarrow> page_at (sm_free_pages s) c;
                if pi_free_nr (page i c) = int (sm_per_slab s) \<and> pi_free_head (page i c) \<noteq> 0
                then do { (head, c) \<leftarrow> unlink_page i (sm_free_pages s) c;
                          Some (Some i, upd_slab k (\<lambda>s. s\<lparr>sm_free_pages := head,
                                  sm_free_pages_no := sm_free_pages_no s - 1,
                                  sm_partial_pages_no := sm_partial_pages_no s + 1\<rparr>) c) }
                else None }
         else
           do { (r, p) \<leftarrow> alloc_page (mc_pool c);
                let c = c\<lparr>mc_pool := p\<rparr>;
                Some (case r of
                        None \<Rightarrow> (None, c)
                      | Some (_, index) \<Rightarrow>
                          (Some index, upd_slab k (\<lambda>s. s\<lparr>sm_partial_pages_no := sm_partial_pages_no s + 1\<rparr>)
                                         (init_page k index c))) })"

definition alloc_new_item :: "nat \<Rightarrow> nat \<Rightarrow> cache \<Rightarrow> (nat option \<times> cache) option" where
  "alloc_new_item k area c =
     do { (r, c) \<leftarrow> take_page k c;
          (case r of
             None \<Rightarrow> Some (None, c)
           | Some i \<Rightarrow>
               do { let item_id = pi_free_head (page i c);
                    let c = upd_page i (\<lambda>p. p\<lparr>pi_free_nr := pi_free_nr p - 1\<rparr>) c;
                    c \<leftarrow> (if pi_free_nr (page i c) = 0
                          then do { (head, c) \<leftarrow> link_page i (sm_full_pages (slab k c)) c;
                                    Some (upd_page i (\<lambda>p. p\<lparr>pi_free_head := 0\<rparr>)
                                      (upd_slab k (\<lambda>s. s\<lparr>sm_full_pages := head,
                                         sm_full_pages_no := sm_full_pages_no s + 1,
                                         sm_partial_pages_no := sm_partial_pages_no s - 1\<rparr>) c)) }
                          else link_partial_page k i c);
                    a \<leftarrow> item_at item_id c;
                    let c = upd_slab k (\<lambda>s. s\<lparr>sm_item_total_count := sm_item_total_count s + 1\<rparr>) c;
                    let c = upd_page i (\<lambda>p. p\<lparr>pi_free_head := i_h_next (item a c)\<rparr>) c;
                    c \<leftarrow> link_item k a area c;
                    if i_item_id (item a c) \<noteq> item_id \<or>
                       (pi_free_nr (page i c) \<noteq> 0) = (pi_free_head (page i c) = 0)
                    then None else Some (Some a, c) }) }"

text \<open>Up to \<open>times\<close> items from the tail of a list, looking for one that has expired.\<close>

fun find_expired :: "nat \<Rightarrow> u32 \<Rightarrow> u64 \<Rightarrow> cache \<Rightarrow> nat option option" where
  "find_expired 0 now pos c = Some None"
| "find_expired (Suc n) now pos c =
     (if pos = 0 then Some None
      else do { a \<leftarrow> item_at pos c;
                if 0 < i_exptime (item a c) \<and> i_exptime (item a c) < now then Some (Some a)
                else find_expired n now (i_prev (item a c)) c })"

definition evict_self :: "nat \<Rightarrow> nat \<Rightarrow> u32 \<Rightarrow> cache \<Rightarrow> ((nat \<times> alloc_type) option \<times> cache) option" where
  "evict_self k area now c =
     (if area \<ge> length (sm_item_list (slab k c)) then None
      else let tail = snd (sm_item_list (slab k c) ! area)
           in if tail = 0 then Some (None, c)
              else do {
                found \<leftarrow> find_expired 50 now tail c;
                (a, ty) \<leftarrow> (case found of
                   Some a \<Rightarrow> Some (a, ALLOC_EXPIRED)
                 | None \<Rightarrow> do { a \<leftarrow> item_at tail c;
                               if ITEM_AREA (item a c) = area then Some (a, ALLOC_EVICT_SELF) else None });
                let c = upd_item a (\<lambda>it. it\<lparr>i_item_id := CLEAR_FLAGS (i_item_id it)\<rparr>) c;
                c \<leftarrow> sm_update_item k a (ITEM_AREA (item a c)) c;
                Some (Some (a, ty), c) })"

text \<open>
  The next area with an item, starting at \<open>evict_index\<close>; \<open>times\<close> counts the empty ones, and more
  than \<open>TAIR_MAX_AREA_COUNT\<close> of them is the assertion that fails.
\<close>

fun evict_area :: "nat \<Rightarrow> nat \<Rightarrow> (u64 \<times> u64) list \<Rightarrow> (nat \<times> u64) option" where
  "evict_area 0 idx ls = None"
| "evict_area (Suc n) idx ls =
     (let pos = snd (ls ! idx)
      in if pos \<noteq> 0 then Some (idx, pos)
         else evict_area n (if TAIR_MAX_AREA_COUNT \<le> idx + 1 then 0 else idx + 1) ls)"

definition evict_any :: "nat \<Rightarrow> nat \<Rightarrow> u32 \<Rightarrow> cache \<Rightarrow> ((nat \<times> alloc_type) \<times> cache) option" where
  "evict_any k area now c =
     (if TAIR_MAX_AREA_COUNT \<le> area then None
      else do {
        let s = slab k c;
        let start = (if TAIR_MAX_AREA_COUNT \<le> sm_evict_index s then 0 else sm_evict_index s);
        (idx, pos) \<leftarrow> evict_area (TAIR_MAX_AREA_COUNT + 1) start (sm_item_list s);
        let c = upd_slab k (\<lambda>s. s\<lparr>sm_evict_index := idx\<rparr>) c;
        a \<leftarrow> item_at pos c;
        let ty = (if 0 < i_exptime (item a c) \<and> i_exptime (item a c) < now then ALLOC_EXPIRED
                  else ALLOC_EVICT_ANY);
        let c = upd_item a (\<lambda>it. it\<lparr>i_item_id := CLEAR_FLAGS (i_item_id it)\<rparr>) c;
        c \<leftarrow> sm_update_item k a area c;
        Some ((a, ty), c) })"

definition bump :: "nat \<Rightarrow> (u64 \<Rightarrow> u64) \<Rightarrow> u64 list \<Rightarrow> u64 list" where
  "bump i f xs = xs[i := f (xs ! i)]"

text \<open>
  The labelled blocks of \<open>slab_manager::alloc_item\<close>: allocate (\<open>try_new\<close>), evict from the own
  area (\<open>try_self\<close>) and evict from any area (\<open>last_any\<close>), in the order that the quota gives.
\<close>

definition try_new :: "nat \<Rightarrow> nat \<Rightarrow> cache \<Rightarrow> ((nat \<times> alloc_type) option \<times> cache) option" where
  "try_new k area c =
     do { (r, c) \<leftarrow> alloc_new_item k area c;
          Some (case r of
                  None \<Rightarrow> (None, c)
                | Some a \<Rightarrow> (Some (a, ALLOC_NEW),
                    upd_slab k (\<lambda>s. s\<lparr>sm_item_count := bump area (\<lambda>n. n + 1) (sm_item_count s)\<rparr>) c)) }"

definition try_self :: "bool \<Rightarrow> nat \<Rightarrow> nat \<Rightarrow> u32 \<Rightarrow> cache \<Rightarrow> ((nat \<times> alloc_type) option \<times> cache) option" where
  "try_self exceed k area now c =
     do { (r, c) \<leftarrow> evict_self k area now c;
          Some (case r of
                  Some (a, ALLOC_EVICT_SELF) \<Rightarrow>
                    (r, if exceed then c
                        else upd_slab k (\<lambda>s. s\<lparr>sm_evict_total_count := sm_evict_total_count s + 1,
                               sm_evict_count := bump area (\<lambda>n. n + 1) (sm_evict_count s)\<rparr>) c)
                | _ \<Rightarrow> (r, c)) }"

definition last_any :: "nat \<Rightarrow> nat \<Rightarrow> u32 \<Rightarrow> cache \<Rightarrow> ((nat \<times> alloc_type) \<times> cache) option" where
  "last_any k area now c =
     do { ((a, ty), c) \<leftarrow> evict_any k area now c;
          let old = ITEM_AREA (item a c);
          let c = (if ty = ALLOC_EVICT_ANY
                   then upd_slab k (\<lambda>s. s\<lparr>sm_evict_total_count := sm_evict_total_count s + 1,
                          sm_evict_count := bump old (\<lambda>n. n + 1) (sm_evict_count s)\<rparr>) c else c);
          Some ((a, ty), upd_slab k (\<lambda>s. s\<lparr>sm_item_count :=
             bump area (\<lambda>n. n + 1) (bump old (\<lambda>n. n - 1) (sm_item_count s))\<rparr>) c) }"

definition sm_alloc_item :: "bool \<Rightarrow> nat \<Rightarrow> nat \<Rightarrow> u32 \<Rightarrow> cache \<Rightarrow> ((nat \<times> alloc_type) \<times> cache) option" where
  "sm_alloc_item exceed k area now c =
     (if TAIR_MAX_AREA_COUNT \<le> area then None
      else do {
        (r1, c) \<leftarrow> (if exceed then try_self exceed k area now c else try_new k area c);
        (case r1 of
           Some r \<Rightarrow> Some (r, c)
         | None \<Rightarrow> do {
             (r2, c) \<leftarrow> (if exceed then try_new k area c else try_self exceed k area now c);
             (case r2 of Some r \<Rightarrow> Some (r, c) | None \<Rightarrow> last_any k area now c) }) })"

subsection \<open>Release\<close>

definition sm_free_item :: "nat \<Rightarrow> nat \<Rightarrow> cache \<Rightarrow> cache option" where
  "sm_free_item k a c =
     (if i_item_id (item a c) = 0 then None
      else do {
        let c = upd_slab k (\<lambda>s. s\<lparr>sm_item_total_count := sm_item_total_count s - 1\<rparr>) c;
        c \<leftarrow> unlink_item k a c;
        i \<leftarrow> page_at (unat (PAGE_ID (i_item_id (item a c)))) c;
        c \<leftarrow> (if pi_free_nr (page i c) = 0
              then do { (head, c) \<leftarrow> unlink_page i (sm_full_pages (slab k c)) c;
                        Some (upd_slab k (\<lambda>s. s\<lparr>sm_full_pages := head,
                          sm_full_pages_no := sm_full_pages_no s - 1,
                          sm_partial_pages_no := sm_partial_pages_no s + 1\<rparr>) c) }
              else if pi_free_head (page i c) = 0 then None else unlink_partial_page k i c);
        let c = upd_item a (\<lambda>it. it\<lparr>i_prev := 0, i_next := 0, i_h_next := pi_free_head (page i c)\<rparr>) c;
        let c = upd_page i (\<lambda>p. p\<lparr>pi_free_head := i_item_id (item a c), pi_free_nr := pi_free_nr p + 1\<rparr>) c;
        if pi_free_nr (page i c) = int (sm_per_slab (slab k c))
        then do {
          let c = upd_slab k (\<lambda>s. s\<lparr>sm_partial_pages_no := sm_partial_pages_no s - 1\<rparr>) c;
          let s = slab k c;
          if sm_free_pages_no s + sm_full_pages_no s + sm_partial_pages_no s \<le> 1
          then do { (head, c) \<leftarrow> link_page i (sm_free_pages s) c;
                    Some (upd_slab k (\<lambda>s. s\<lparr>sm_free_pages := head, sm_free_pages_no := sm_free_pages_no s + 1\<rparr>) c) }
          else do { p \<leftarrow> mp_free_page (int (pi_id (page i c))) (mc_pool c); Some (c\<lparr>mc_pool := p\<rparr>) } }
        else link_partial_page k i c })"

subsection \<open>The cache\<close>

definition get_slabmng :: "nat \<Rightarrow> cache \<Rightarrow> nat option" where
  "get_slabmng sz c =
     find (\<lambda>k. sz \<le> sm_slab_size (slab k c)) [0 ..< length (mc_slabs c)]"

text \<open>The inner \<open>None\<close>: no slab is large enough.\<close>

definition mc_alloc_item :: "bool \<Rightarrow> nat \<Rightarrow> nat \<Rightarrow> u32 \<Rightarrow> cache \<Rightarrow> ((nat \<times> alloc_type) option \<times> cache) option" where
  "mc_alloc_item exceed sz area now c =
     (case get_slabmng sz c of
        None \<Rightarrow> Some (None, c)
      | Some k \<Rightarrow> do { (r, c) \<leftarrow> sm_alloc_item exceed k area now c; Some (Some r, c) })"

definition mc_update_item :: "nat \<Rightarrow> cache \<Rightarrow> cache option" where
  "mc_update_item a c =
     (let k = unat (SLAB_ID (i_item_id (item a c)))
      in if k < length (mc_slabs c) then sm_update_item k a (ITEM_AREA (item a c)) c else None)"

definition mc_free_item :: "nat \<Rightarrow> cache \<Rightarrow> cache option" where
  "mc_free_item a c =
     (let k = unat (SLAB_ID (i_item_id (item a c)))
      in if k < length (mc_slabs c) then sm_free_item k a c else None)"

definition get_slabs_count :: "cache \<Rightarrow> nat" where "get_slabs_count c = length (mc_slabs c)"

definition get_area_timestamp :: "nat \<Rightarrow> cache \<Rightarrow> u32" where
  "get_area_timestamp area c = mc_area_timestamp c ! area"

definition set_area_timestamp :: "nat \<Rightarrow> u32 \<Rightarrow> cache \<Rightarrow> cache" where
  "set_area_timestamp area now c = c\<lparr>mc_area_timestamp := (mc_area_timestamp c)[area := now]\<rparr>"

definition balance_slab_done :: "cache \<Rightarrow> cache" where
  "balance_slab_done c = c\<lparr>mc_slabs := map (\<lambda>s. s\<lparr>sm_evict_total_count := 0\<rparr>) (mc_slabs c)\<rparr>"

subsection \<open>Setting the slabs up\<close>

definition ALIGN :: "nat \<Rightarrow> nat" where
  "ALIGN x = (x + (ALIGN_SIZE - 1)) div ALIGN_SIZE * ALIGN_SIZE"

definition blank_slab :: slab_manager where
  "blank_slab = \<lparr>sm_slab_id = 0, sm_slab_size = 0, sm_per_slab = 0, sm_page_size = 0,
     sm_item_list = replicate TAIR_MAX_AREA_COUNT (0, 0), sm_item_count = replicate TAIR_MAX_AREA_COUNT 0,
     sm_evict_count = replicate TAIR_MAX_AREA_COUNT 0, sm_item_total_count = 0, sm_evict_total_count = 0,
     sm_full_pages_no = 0, sm_partial_pages_no = 0, sm_free_pages_no = 0, sm_evict_index = 0,
     sm_free_pages = 0, sm_full_pages = 0, sm_partial_pages = [], sm_partial_pages_bucket_num = 0,
     sm_first_partial_page_index = 0, sm_partial_bucket_count = 0\<rparr>"

definition new_slab :: "nat \<Rightarrow> nat \<Rightarrow> nat \<Rightarrow> slab_manager" where
  "new_slab i start page_size =
     (let per = (page_size - sizeof_page_info) div start;
          buckets = (per + PARTIAL_PAGE_BUCKET - 1) div PARTIAL_PAGE_BUCKET
      in blank_slab\<lparr>sm_slab_id := i, sm_slab_size := start, sm_per_slab := per,
           sm_partial_pages_bucket_num := buckets, sm_page_size := page_size,
           sm_partial_pages := replicate buckets 0\<rparr>)"

text \<open>
  The loop of \<open>slab_initialize\<close>. \<open>grow\<close> is the conversion \<open>(int) (start * factor)\<close> of a
  floating-point product; the shared memory the slabs lie in starts out as zeros.
\<close>

fun make_slabs :: "(nat \<Rightarrow> nat) \<Rightarrow> nat \<Rightarrow> nat \<Rightarrow> nat \<Rightarrow> cache \<Rightarrow> cache option" where
  "make_slabs grow 0 i start c = Some c"
| "make_slabs grow (Suc n) i start c =
     (let last = psz c - sizeof_page_info
      in if last < start then Some c
         else do {
           let start = (if last div 2 < start then last else start);
           let c = c\<lparr>mc_slabs := mc_slabs c @ [new_slab i start (psz c)]\<rparr>;
           (_, c) \<leftarrow> pre_alloc i 1 c;
           make_slabs grow n (i + 1) (ALIGN (grow start)) c })"

definition slab_initialize :: "(nat \<Rightarrow> nat) \<Rightarrow> nat \<Rightarrow> nat \<Rightarrow> cache \<Rightarrow> cache option" where
  "slab_initialize grow max_slab_id base_size c =
     (let base = (if base_size < sizeof_mdb_item + 16 then ALIGN (sizeof_mdb_item + 16) else base_size)
      in if psz c \<le> base then None
         else do {
           c \<leftarrow> make_slabs grow max_slab_id 0 base (c\<lparr>mc_slabs := []\<rparr>);
           if sum_list (map (\<lambda>s. sizeof_slab_manager + 4 * sm_partial_pages_bucket_num s) (mc_slabs c))
              < sizeof_slab_manager * TAIR_SLAB_LARGEST
           then Some c else None })"

definition mc_initialize :: "(nat \<Rightarrow> nat) \<Rightarrow> nat \<Rightarrow> nat \<Rightarrow> cache \<Rightarrow> cache option" where
  "mc_initialize grow max_slab_id base_size c =
     (if max_slab_id = 0 \<or> base_size = 0 then None
      else slab_initialize grow max_slab_id base_size
             (c\<lparr>mc_area_timestamp := replicate TAIR_MAX_AREA_COUNT 0\<rparr>))"
end
