(* ===== verification/Mdb_Entry.thy ===== *)
theory Mdb_Entry
  imports Mdb_Item
begin

section \<open>Keys and values as the cache's callers hold them\<close>

text \<open>
  The model of \<open>data_entry\<close> (\<^verbatim>\<open>src/dkv/mdb/data_entry.hpp\<close>, \<^verbatim>\<open>data_entry.cpp\<close>), of the item
  meta data (\<^verbatim>\<open>item_data_info.hpp\<close>) and of the per-area statistics (\<^verbatim>\<open>mdb_stat.hpp\<close>). An entry
  holds the buffer \<open>m_true_data\<close> and how many bytes of it lie before \<open>data\<close>: a buffer the entry
  allocated itself has two bytes in front for the area.
\<close>

record item_meta =
  me_magic :: u16
  me_checksum :: u16
  me_keysize :: u16
  me_version :: u16
  me_padsize :: u32
  me_valsize :: u32
  me_flag :: u8
  me_cdate :: u32
  me_mdate :: u32
  me_edate :: u32

definition blank_meta :: item_meta where
  "blank_meta = \<lparr>me_magic = 0, me_checksum = 0, me_keysize = 0, me_version = 0, me_padsize = 0,
     me_valsize = 0, me_flag = 0, me_cdate = 0, me_mdate = 0, me_edate = 0\<rparr>"

text \<open>\<open>valsize\<close> is a bit field of 24 bits.\<close>

definition set_valsize :: "nat \<Rightarrow> item_meta \<Rightarrow> item_meta" where
  "set_valsize n m = m\<lparr>me_valsize := of_nat (n mod 2 ^ 24)\<rparr>"

record data_entry =
  de_true :: string
  de_skip :: nat
  de_alloc :: bool
  de_prefix_size :: nat
  de_has_merged :: bool
  de_has_meta_merged :: bool
  de_area :: u32
  de_server_flag :: u16
  de_meta :: item_meta

definition de_data :: "data_entry \<Rightarrow> string" where "de_data e = drop (de_skip e) (de_true e)"
definition de_size :: "data_entry \<Rightarrow> nat" where "de_size e = length (de_data e)"

definition de_init :: data_entry where
  "de_init = \<lparr>de_true = [], de_skip = 0, de_alloc = False, de_prefix_size = 0, de_has_merged = False,
     de_has_meta_merged = False, de_area = 0, de_server_flag = 0, de_meta = blank_meta\<rparr>"

definition free_data :: "data_entry \<Rightarrow> data_entry" where
  "free_data e = e\<lparr>de_true := [], de_skip := 0, de_alloc := False, de_has_merged := False, de_area := 0\<rparr>"

definition set_data :: "string \<Rightarrow> bool \<Rightarrow> data_entry \<Rightarrow> data_entry" where
  "set_data bytes need_alloc e =
     (let e = free_data e
      in if need_alloc
         then if bytes \<noteq> [] then e\<lparr>de_alloc := True, de_true := CHR 0xFF # CHR 0xFF # bytes, de_skip := 2\<rparr> else e
         else e\<lparr>de_true := bytes, de_skip := 0\<rparr>)"

definition set_alloced_data :: "string \<Rightarrow> data_entry \<Rightarrow> data_entry" where
  "set_alloced_data bytes e = (free_data e)\<lparr>de_true := bytes, de_skip := 0, de_alloc := True\<rparr>"

definition new_entry :: "string \<Rightarrow> bool \<Rightarrow> data_entry" where
  "new_entry bytes alloc = set_data bytes alloc de_init"

definition area_bytes :: "nat \<Rightarrow> string" where
  "area_bytes area = [char_of (area mod 256), char_of (area div 256 mod 256)]"

text \<open>
  \<open>merge_area\<close> puts the area in front of the key: in place when the two bytes are there, in a new
  buffer otherwise.
\<close>

definition merge_area :: "nat \<Rightarrow> data_entry \<Rightarrow> data_entry" where
  "merge_area area e =
     (if de_has_merged e then e
      else (if length (de_true e) = de_size e + 2
            then e\<lparr>de_true := area_bytes area @ drop 2 (de_true e), de_skip := 0\<rparr>
            else e\<lparr>de_true := area_bytes area @ de_data e, de_skip := 0\<rparr>)
           \<lparr>de_area := of_nat area, de_has_merged := True\<rparr>)"

text \<open>
  The new buffer of \<open>merge_area\<close>: the number of bytes asked from \<open>malloc\<close> and the position of the
  terminating zero it writes.
\<close>

definition merge_area_buffer :: "data_entry \<Rightarrow> (nat \<times> nat) option" where
  "merge_area_buffer e =
     (if de_has_merged e \<or> length (de_true e) = de_size e + 2 then None
      else let m_true_size = de_size e + 2 in Some (m_true_size + 1, m_true_size + 1))"

definition decode_area :: "data_entry \<Rightarrow> (nat \<times> data_entry) option" where
  "decode_area e =
     (if \<not> de_has_merged e then Some (unat (de_area e), e)
      else if de_size e \<le> 2 then None
      else let area = KEY_AREA (de_data e)
           in Some (area, e\<lparr>de_area := of_nat area, de_has_merged := False, de_skip := 2\<rparr>))"

definition merge_key :: "data_entry \<Rightarrow> data_entry \<Rightarrow> data_entry \<Rightarrow> data_entry" where
  "merge_key pkey skey mkey =
     (set_alloced_data (de_data pkey @ de_data skey) mkey)\<lparr>de_prefix_size := de_size pkey\<rparr>"

definition split_key :: "data_entry \<Rightarrow> data_entry \<Rightarrow> data_entry \<Rightarrow> data_entry \<times> data_entry" where
  "split_key mkey pkey skey =
     (let n = de_prefix_size mkey
      in (set_data (take n (de_data mkey)) True pkey, set_data (drop n (de_data mkey)) True skey))"

definition de_assign :: "data_entry \<Rightarrow> data_entry \<Rightarrow> data_entry" where
  "de_assign src dst =
     (set_data (de_data src) (de_alloc src) dst)
       \<lparr>de_prefix_size := de_prefix_size src, de_has_merged := de_has_merged src,
        de_has_meta_merged := de_has_meta_merged src, de_area := de_area src,
        de_server_flag := de_server_flag src, de_meta := de_meta src\<rparr>"

definition de_clone :: "data_entry \<Rightarrow> data_entry \<Rightarrow> data_entry" where
  "de_clone src dst =
     (set_data (de_data src) True dst)
       \<lparr>de_prefix_size := de_prefix_size src, de_has_merged := de_has_merged src,
        de_has_meta_merged := de_has_meta_merged src, de_area := de_area src,
        de_server_flag := de_server_flag src, de_meta := de_meta src\<rparr>"

text \<open>
  Two entries are compared by their bytes. The pointers differ unless the entries share a buffer,
  and then the bytes are equal; an entry without data has the null pointer.
\<close>

definition de_equal :: "data_entry \<Rightarrow> data_entry \<Rightarrow> bool" where
  "de_equal a b \<longleftrightarrow> de_size a = de_size b \<and> de_has_merged a = de_has_merged b \<and>
     (de_has_merged a \<or> de_area a = de_area b) \<and> de_data a = de_data b"

text \<open>\<open>memcmp\<close>: the sign of the first difference, as unsigned bytes.\<close>

fun memcmp :: "string \<Rightarrow> string \<Rightarrow> int" where
  "memcmp (a # as) (b # bs) =
     (if (of_char a :: nat) < of_char b then - 1 else if (of_char b :: nat) < of_char a then 1 else memcmp as bs)"
| "memcmp _ _ = 0"

definition de_less :: "data_entry \<Rightarrow> data_entry \<Rightarrow> bool" where
  "de_less a b =
     (if de_size a = 0 \<or> de_size b = 0 then False
      else let r = memcmp (de_data a) (de_data b)
           in if r < 0 then True else if r > 0 then False else de_size a < de_size b)"

subsection \<open>Statistics of an area\<close>

record area_stat =
  as_quota :: u64
  as_data_size :: u64
  as_space_usage :: u64
  as_item_count :: u64
  as_hit_count :: u64
  as_get_count :: u64
  as_put_count :: u64
  as_remove_count :: u64
  as_evict_count :: u64

definition as_reset :: area_stat where
  "as_reset = \<lparr>as_quota = 0, as_data_size = 0, as_space_usage = 0, as_item_count = 0, as_hit_count = 0,
     as_get_count = 0, as_put_count = 0, as_remove_count = 0, as_evict_count = 0\<rparr>"

definition as_add :: "area_stat \<Rightarrow> bool \<Rightarrow> area_stat \<Rightarrow> area_stat" where
  "as_add s size_care t =
     (let t = (if size_care
               then t\<lparr>as_quota := as_quota t + as_quota s, as_data_size := as_data_size t + as_data_size s,
                      as_space_usage := as_space_usage t + as_space_usage s,
                      as_item_count := as_item_count t + as_item_count s\<rparr> else t)
      in t\<lparr>as_hit_count := as_hit_count t + as_hit_count s, as_get_count := as_get_count t + as_get_count s,
           as_put_count := as_put_count t + as_put_count s,
           as_remove_count := as_remove_count t + as_remove_count s,
           as_evict_count := as_evict_count t + as_evict_count s\<rparr>)"

definition as_sub :: "area_stat \<Rightarrow> bool \<Rightarrow> area_stat \<Rightarrow> area_stat" where
  "as_sub s size_care t =
     (let t = (if size_care
               then t\<lparr>as_quota := as_quota t - as_quota s, as_data_size := as_data_size t - as_data_size s,
                      as_space_usage := as_space_usage t - as_space_usage s,
                      as_item_count := as_item_count t - as_item_count s\<rparr> else t)
      in t\<lparr>as_hit_count := as_hit_count t - as_hit_count s, as_get_count := as_get_count t - as_get_count s,
           as_put_count := as_put_count t - as_put_count s,
           as_remove_count := as_remove_count t - as_remove_count s,
           as_evict_count := as_evict_count t - as_evict_count s\<rparr>)"

subsection \<open>Facts\<close>

lemma as_sub_add: "as_sub s b (as_add s b t) = t"
  by (cases b) (simp_all add: as_sub_def as_add_def Let_def)

lemma KEY_AREA_area_bytes: "area < 2 ^ 16 \<Longrightarrow> KEY_AREA (area_bytes area @ rest) = area"
  by (simp add: KEY_AREA_def byte_at_def area_bytes_def)

lemma merge_area_data:
  assumes "\<not> de_has_merged e" "de_skip e = 0 \<or> de_skip e = 2 \<and> 2 \<le> length (de_true e)"
  shows "de_data (merge_area area e) = area_bytes area @ de_data e"
  using assms by (auto simp: merge_area_def de_data_def de_size_def)

lemma new_entry_data: "de_data (new_entry bytes alloc) = bytes"
  by (simp add: new_entry_def set_data_def Let_def free_data_def de_init_def de_data_def)

lemma new_entry_shape:
  "de_has_merged (new_entry bytes alloc) = False"
  "de_skip (new_entry bytes alloc) = 0 \<or> de_skip (new_entry bytes alloc) = 2 \<and> 2 \<le> length (de_true (new_entry bytes alloc))"
  by (simp_all add: new_entry_def set_data_def Let_def free_data_def de_init_def)

text \<open>Order on entries: \<open>memcmp\<close> of the common prefix, then the length.\<close>

lemma memcmp_cases: "memcmp a b = - 1 \<or> memcmp a b = 0 \<or> memcmp a b = 1"
  by (induction a b rule: memcmp.induct) auto

lemma memcmp_lexord:
  "memcmp a b < 0 \<or> memcmp a b = 0 \<and> length a < length b \<longleftrightarrow>
     (a, b) \<in> lexord {(x, y). (of_char x :: nat) < of_char y}"
proof (induction a b rule: memcmp.induct)
  case (1 a as b bs)
  have "(of_char a :: nat) = of_char b \<longleftrightarrow> a = b" by simp
  with 1 show ?case by (auto simp: not_less)
qed (auto simp: neq_Nil_conv)

subsection \<open>Properties\<close>



text \<open>
  The buffer that \<open>merge_area\<close> allocates for the merged key is one byte too short: the
  terminating zero is written at the position that follows the last byte of the allocation,
  whenever a new buffer is made.
\<close>

theorem merge_area_writes_past_buffer:
  assumes "merge_area_buffer e = Some (allocated, terminator)"
  shows "allocated = terminator \<and> terminator = length (de_data (merge_area area e)) + 1"
  using assms
  by (auto simp: merge_area_buffer_def merge_area_def de_size_def de_data_def area_bytes_def Let_def split: if_splits)

theorem merge_area_writes_past_buffer_witness:
  "merge_area_buffer (new_entry ''ab'' False) = Some (5, 5) \<and>
   5 = length (de_data (merge_area 1 (new_entry ''ab'' False))) + 1"
  using merge_area_writes_past_buffer [of "new_entry ''ab'' False" 5 5 1]
  by (simp add: merge_area_buffer_def new_entry_def set_data_def free_data_def de_init_def de_size_def de_data_def Let_def)

text \<open>
  A key that \<open>merge_key\<close> joins from a prefix and a suffix is split into the same two parts by
  \<open>split_key\<close>.
\<close>

theorem split_merged_key:
  "map de_data [fst (split_key (merge_key pkey skey mkey) p s), snd (split_key (merge_key pkey skey mkey) p s)] =
   [de_data pkey, de_data skey]"
  by (simp add: split_key_def merge_key_def set_alloced_data_def set_data_def free_data_def de_data_def de_size_def Let_def)

text \<open>
  C40. The order on entries, \<open>memcmp\<close> of the shorter length and then the length, is the
  lexicographic order of their bytes as unsigned numbers, for entries that are not empty.
\<close>

theorem entry_order_lexicographic:
  assumes "de_data a \<noteq> []" "de_data b \<noteq> []"
  shows "de_less a b \<longleftrightarrow> (de_data a, de_data b) \<in> lexord {(x, y). (of_char x :: nat) < of_char y}"
  using assms memcmp_lexord [of "de_data a" "de_data b"] memcmp_cases [of "de_data a" "de_data b"]
  by (auto simp: de_less_def de_size_def Let_def)

theorem entry_order_lexicographic_witness:
  "de_less (new_entry ''ab'' False) (new_entry ''abc'' True)"
  using entry_order_lexicographic [of "new_entry ''ab'' False" "new_entry ''abc'' True"]
  by (simp add: new_entry_data)

end
