(* ===== verification/Mdb_Manager.thy ===== *)
theory Mdb_Manager
  imports Mdb_Slab Mdb_Entry
begin

section \<open>The cache manager\<close>

text \<open>
  The model of \<open>mdb_manager\<close> (\<^verbatim>\<open>src/dkv/mdb/mdb_manager.hpp\<close>, \<^verbatim>\<open>mdb_manager.cpp\<close>) and of the C
  interface \<^verbatim>\<open>libmdb_c.cpp\<close>. The state joins the slabs, the hash table and the statistics of the
  areas; every public method runs under the manager's mutex, so it is one step of this state.
  \<open>now\<close> is the value of \<open>time(NULL)\<close>. The two background loops (\<open>run_chkslab\<close>,
  \<open>run_chkexprd_deleted\<close>) only decide when to call the methods below.
\<close>

record mdb =
  md_cache :: cache
  md_hash :: hash_map
  md_stat :: "area_stat list"
  md_bucket_count :: u32
  md_last_balance_time :: u32
  md_last_expd_time :: u32

definition TAIR_RETURN_SUCCESS :: int where "TAIR_RETURN_SUCCESS = 0"
definition TAIR_RETURN_DATA_NOT_EXIST :: int where "TAIR_RETURN_DATA_NOT_EXIST = - 3998"
definition TAIR_RETURN_VERSION_ERROR :: int where "TAIR_RETURN_VERSION_ERROR = - 3997"
definition TAIR_RETURN_DATA_EXPIRED :: int where "TAIR_RETURN_DATA_EXPIRED = - 3988"
definition TAIR_RETURN_CANNOT_OVERRIDE :: int where "TAIR_RETURN_CANNOT_OVERRIDE = - 3981"
definition TAIR_RETURN_DEC_BOUNDS :: int where "TAIR_RETURN_DEC_BOUNDS = - 3980"
definition TAIR_RETURN_DEC_ZERO :: int where "TAIR_RETURN_DEC_ZERO = - 3979"
definition TAIR_RETURN_DEC_NOTFOUND :: int where "TAIR_RETURN_DEC_NOTFOUND = - 3978"
definition TAIR_RETURN_LOCK_EXIST :: int where "TAIR_RETURN_LOCK_EXIST = - 3975"
definition TAIR_OPERATION_UNLOCK :: u16 where "TAIR_OPERATION_UNLOCK = 8"
definition ITEM_HEAD_LENGTH :: nat where "ITEM_HEAD_LENGTH = 2"

subsection \<open>Access to the state\<close>

abbreviation it_of :: "nat \<Rightarrow> mdb \<Rightarrow> mdb_item" where "it_of a d \<equiv> mc_items (md_cache d) a"
abbreviation dpsz :: "mdb \<Rightarrow> nat" where "dpsz d \<equiv> psz (md_cache d)"

definition index_of :: "mdb \<Rightarrow> hash_map \<times> store" where
  "index_of d = (md_hash d, mc_items (md_cache d))"

definition with_index :: "hash_map \<times> store \<Rightarrow> mdb \<Rightarrow> mdb" where
  "with_index s d = d\<lparr>md_hash := fst s, md_cache := (md_cache d)\<lparr>mc_items := snd s\<rparr>\<rparr>"

definition upd_it :: "nat \<Rightarrow> (mdb_item \<Rightarrow> mdb_item) \<Rightarrow> mdb \<Rightarrow> mdb" where
  "upd_it a f d = d\<lparr>md_cache := upd_item a f (md_cache d)\<rparr>"

text \<open>\<open>area_stat[area]\<close>; an area number outside the array is \<open>None\<close>.\<close>

definition upd_stat :: "nat \<Rightarrow> (area_stat \<Rightarrow> area_stat) \<Rightarrow> mdb \<Rightarrow> mdb option" where
  "upd_stat area f d =
     (if area < length (md_stat d) then Some (d\<lparr>md_stat := (md_stat d)[area := f (md_stat d ! area)]\<rparr>) else None)"

definition md_find :: "string \<Rightarrow> mdb \<Rightarrow> nat option option" where
  "md_find key d = hm_find (dpsz d) (index_of d) key"

definition md_hash_remove :: "nat \<Rightarrow> mdb \<Rightarrow> mdb option" where
  "md_hash_remove a d = do { (_, s) \<leftarrow> hm_remove (dpsz d) a (index_of d); Some (with_index s d) }"

definition md_hash_insert :: "nat \<Rightarrow> mdb \<Rightarrow> mdb" where
  "md_hash_insert a d = with_index (hm_insert a (index_of d)) d"

subsection \<open>Expiry, quotas and removal\<close>

definition is_item_expired :: "mdb_item \<Rightarrow> u32 \<Rightarrow> mdb \<Rightarrow> bool" where
  "is_item_expired it now d \<longleftrightarrow>
     (i_exptime it \<noteq> 0 \<and> i_exptime it < now) \<or>
     i_update_time it < get_area_timestamp (ITEM_AREA it) (md_cache d)"

definition is_quota_exceed :: "nat \<Rightarrow> mdb \<Rightarrow> bool option" where
  "is_quota_exceed area d =
     (if area < TAIR_MAX_AREA_COUNT \<and> area < length (md_stat d)
      then Some (as_quota (md_stat d ! area) \<le> as_data_size (md_stat d ! area)) else None)"

definition set_area_quota :: "nat \<Rightarrow> u64 \<Rightarrow> mdb \<Rightarrow> mdb option" where
  "set_area_quota area quota d =
     (if area < TAIR_MAX_AREA_COUNT then upd_stat area (\<lambda>s. s\<lparr>as_quota := quota\<rparr>) d else None)"

fun set_area_quotas :: "(nat \<times> u64) list \<Rightarrow> mdb \<Rightarrow> mdb option" where
  "set_area_quotas [] d = Some d"
| "set_area_quotas ((area, quota) # qs) d = do { d \<leftarrow> set_area_quota area quota d; set_area_quotas qs d }"

definition get_area_quota :: "nat \<Rightarrow> mdb \<Rightarrow> u64 option" where
  "get_area_quota area d =
     (if area < TAIR_MAX_AREA_COUNT \<and> area < length (md_stat d) then Some (as_quota (md_stat d ! area)) else None)"

text \<open>
  \<open>__remove\<close>. The test \<open>data_size < 0\<close> of the code is on an unsigned number and never holds.
\<close>

definition item_bytes :: "mdb_item \<Rightarrow> u64" where
  "item_bytes it = of_nat (i_key_len it + i_data_len it)"

definition md_remove :: "nat \<Rightarrow> mdb \<Rightarrow> mdb option" where
  "md_remove a d =
     do { let it = it_of a d;
          d \<leftarrow> upd_stat (ITEM_AREA it) (\<lambda>s. s\<lparr>as_data_size := as_data_size s - item_bytes it,
                 as_space_usage := as_space_usage s - SLAB_SIZE (i_item_id it),
                 as_item_count := as_item_count s - 1\<rparr>) d;
          d \<leftarrow> md_hash_remove a d;
          let d = upd_it a (\<lambda>it. it\<lparr>i_item_id := CLEAR_FLAGS (i_item_id it)\<rparr>) d;
          c \<leftarrow> mc_free_item a (md_cache d);
          Some (upd_it a (\<lambda>it. it\<lparr>i_exptime := 0, i_data_len := 0, i_key_len := 0, i_version := 0,
                  i_update_time := 0\<rparr>) (d\<lparr>md_cache := c\<rparr>)) }"

text \<open>\<open>(raw_)remove_if_exists\<close> and \<open>(raw_)remove_if_expired\<close>: the key as bytes.\<close>

definition remove_if_exists :: "string \<Rightarrow> mdb \<Rightarrow> (bool \<times> mdb) option" where
  "remove_if_exists key d =
     do { r \<leftarrow> md_find key d;
          (case r of None \<Rightarrow> Some (False, d) | Some a \<Rightarrow> do { d \<leftarrow> md_remove a d; Some (True, d) }) }"

definition remove_if_expired :: "string \<Rightarrow> u32 \<Rightarrow> mdb \<Rightarrow> (bool \<times> nat option \<times> mdb) option" where
  "remove_if_expired key now d =
     do { r \<leftarrow> md_find key d;
          (case r of
             None \<Rightarrow> Some (False, None, d)
           | Some a \<Rightarrow> if is_item_expired (it_of a d) now d
                       then do { d \<leftarrow> md_remove a d; Some (True, None, d) }
                       else Some (False, Some a, d)) }"

subsection \<open>Storing an item\<close>

text \<open>
  What \<open>do_put\<close> and \<open>raw_put\<close> share: an item of the right size for the key's area. An item that
  was taken from another entry is taken out of the statistics and the hash table first.
\<close>

definition obtain_item :: "nat \<Rightarrow> nat \<Rightarrow> u32 \<Rightarrow> mdb \<Rightarrow> (nat \<times> mdb) option" where
  "obtain_item total_size area now d =
     do { exceed \<leftarrow> (case get_slabmng total_size (md_cache d) of None \<Rightarrow> Some False | Some _ \<Rightarrow> is_quota_exceed area d);
          (r, c) \<leftarrow> mc_alloc_item exceed total_size area now (md_cache d);
          let d = d\<lparr>md_cache := c\<rparr>;
          (case r of
             None \<Rightarrow> None
           | Some (a, ALLOC_NEW) \<Rightarrow> Some (a, d)
           | Some (a, ty) \<Rightarrow>
               do { let it = it_of a d;
                    d \<leftarrow> upd_stat (ITEM_AREA it) (\<lambda>s. s\<lparr>as_data_size := as_data_size s - item_bytes it,
                           as_space_usage := as_space_usage s - SLAB_SIZE (i_item_id it),
                           as_item_count := as_item_count s - 1,
                           as_evict_count := (if ty = ALLOC_EXPIRED then as_evict_count s else as_evict_count s + 1)\<rparr>) d;
                    d \<leftarrow> md_hash_remove a d;
                    Some (a, d) }) }"

definition publish_item :: "nat \<Rightarrow> mdb \<Rightarrow> mdb option" where
  "publish_item a d =
     do { let d = md_hash_insert a d;
          let it = it_of a d;
          upd_stat (ITEM_AREA it) (\<lambda>s. s\<lparr>as_data_size := as_data_size s + item_bytes it,
            as_space_usage := as_space_usage s + SLAB_SIZE (i_item_id it),
            as_item_count := as_item_count s + 1, as_put_count := as_put_count s + 1\<rparr>) d }"

definition raw_put :: "string \<Rightarrow> string \<Rightarrow> u64 \<Rightarrow> u32 \<Rightarrow> u32 \<Rightarrow> mdb \<Rightarrow> (int \<times> mdb) option" where
  "raw_put key val flag expired now d =
     do { r \<leftarrow> md_find key d;
          (old_flag, d) \<leftarrow> (case r of
             None \<Rightarrow> Some (0, d)
           | Some a \<Rightarrow> do { let f = (if IS_DELETED (i_item_id (it_of a d)) then TAIR_ITEM_FLAG_DELETED else 0);
                           d \<leftarrow> md_remove a d; Some (f, d) });
          (a, d) \<leftarrow> obtain_item (length key + length val + sizeof_mdb_item) (KEY_AREA key) now d;
          let d = upd_it a (\<lambda>it.
                let it = set_data_len (length val) (set_key_len (length key) it);
                    it = it\<lparr>i_update_time := now, i_version := 0,
                            i_exptime := (if 0 < expired then if now < expired then expired else now + expired else 0),
                            i_item_id := SET_ITEM_FLAGS (i_item_id it) (flag OR old_flag)\<rparr>
                in write_entry key val it) d;
          d \<leftarrow> publish_item a d;
          Some (0, d) }"

definition test_flag :: "u64 \<Rightarrow> u64 \<Rightarrow> bool" where "test_flag meta flag \<longleftrightarrow> meta AND flag \<noteq> 0"
definition set_flag :: "u8 \<Rightarrow> u8 \<Rightarrow> u8" where "set_flag meta flag = meta OR flag"
definition clear_flag :: "u8 \<Rightarrow> u8 \<Rightarrow> u8" where "clear_flag meta flag = meta AND NOT flag"

text \<open>
  What \<open>do_put\<close> does with an entry that is there: an error code, or the version to go on from,
  with the old entry removed.
\<close>

definition put_over :: "data_entry \<Rightarrow> data_entry \<Rightarrow> bool \<Rightarrow> u32 \<Rightarrow> nat \<Rightarrow> mdb \<Rightarrow> (int + u16 \<times> mdb) option" where
  "put_over key data version_care now a d =
     (let it = it_of a d; version = me_version (de_meta key)
      in if de_server_flag data AND TAIR_OPERATION_UNLOCK = 0 \<and>
            test_flag (ITEM_FLAGS (i_item_id it)) TAIR_ITEM_FLAG_LOCKED
         then Some (Inl TAIR_RETURN_LOCK_EXIST)
         else if is_item_expired it now d then do { d \<leftarrow> md_remove a d; Some (Inr (0, d)) }
         else if version_care \<and> version \<noteq> 0 \<and> i_version it \<noteq> version
         then Some (Inl TAIR_RETURN_VERSION_ERROR)
         else do { let version = (if version_care then i_version it else version);
                   let version = (if test_flag (ITEM_FLAGS (i_item_id it)) TAIR_ITEM_FLAG_DELETED then 0 else version);
                   d \<leftarrow> md_remove a d; Some (Inr (version, d)) })"

definition do_put :: "data_entry \<Rightarrow> data_entry \<Rightarrow> bool \<Rightarrow> int \<Rightarrow> u32 \<Rightarrow> mdb \<Rightarrow> (int \<times> data_entry \<times> mdb) option" where
  "do_put key data version_care expired now d =
     do { let expired = (if expired < 0 then 0 else expired);
          let bytes = de_data key;
          let key = (if unat (de_area key) \<noteq> KEY_AREA bytes then key\<lparr>de_area := of_nat (KEY_AREA bytes)\<rparr> else key);
          r \<leftarrow> md_find bytes d;
          over \<leftarrow> (case r of None \<Rightarrow> Some (Inr (0, d)) | Some a \<Rightarrow> put_over key data version_care now a d);
          (case over of
             Inl rc \<Rightarrow> Some (rc, key, d)
           | Inr (version, d) \<Rightarrow>
               do { (a, d) \<leftarrow> obtain_item (de_size key + de_size data + sizeof_mdb_item) (unat (de_area key)) now d;
                    let d = upd_it a (\<lambda>it.
                          let it = set_data_len (de_size data) (set_key_len (de_size key) it);
                              it = it\<lparr>i_update_time := now,
                                      i_version := (if version_care then version + 1 else me_version (de_meta key))\<rparr>;
                              it = (if 0 < expired
                                    then it\<lparr>i_exptime := (if now < of_int expired then of_int expired else now + of_int expired)\<rparr>
                                    else it);
                              it = it\<lparr>i_item_id := SET_ITEM_FLAGS (i_item_id it) (ucast (me_flag (de_meta data)))\<rparr>
                          in write_entry bytes (de_data data) it) d;
                    let it = it_of a d;
                    let key = key\<lparr>de_meta := set_valsize (i_data_len it) ((de_meta key)\<lparr>me_version := i_version it,
                          me_edate := i_exptime it, me_keysize := of_nat (i_key_len it),
                          me_flag := ucast (ITEM_FLAGS (i_item_id it))\<rparr>)\<rparr>;
                    d \<leftarrow> publish_item a d;
                    Some (0, key, d) }) }"

subsection \<open>Reading and removing\<close>

definition raw_get :: "string \<Rightarrow> bool \<Rightarrow> u32 \<Rightarrow> mdb \<Rightarrow> (int \<times> string option \<times> mdb) option" where
  "raw_get key update now d =
     do { let area = KEY_AREA key;
          (expired, r, d) \<leftarrow> remove_if_expired key now d;
          (rc, val, d) \<leftarrow> (case r of
             Some a \<Rightarrow> do { let val = ITEM_DATA (it_of a d);
                           c \<leftarrow> mc_update_item a (md_cache d);
                           let d = d\<lparr>md_cache := c\<rparr>;
                           d \<leftarrow> (if update then upd_stat area (\<lambda>s. s\<lparr>as_hit_count := as_hit_count s + 1\<rparr>) d else Some d);
                           Some (TAIR_RETURN_SUCCESS, Some val, d) }
           | None \<Rightarrow> Some (if expired then TAIR_RETURN_DATA_EXPIRED else TAIR_RETURN_DATA_NOT_EXIST, None, d));
          d \<leftarrow> (if update then upd_stat area (\<lambda>s. s\<lparr>as_get_count := as_get_count s + 1\<rparr>) d else Some d);
          Some (rc, val, d) }"

definition raw_remove :: "string \<Rightarrow> mdb \<Rightarrow> (int \<times> mdb) option" where
  "raw_remove key d =
     do { (ret, d) \<leftarrow> remove_if_exists key d;
          d \<leftarrow> upd_stat (KEY_AREA key) (\<lambda>s. s\<lparr>as_remove_count := as_remove_count s + 1\<rparr>) d;
          Some (if ret then TAIR_RETURN_SUCCESS else TAIR_RETURN_DATA_NOT_EXIST, d) }"

text \<open>The fields that \<open>do_get\<close> sets in the key and in the value it returns.\<close>

definition got_data :: "mdb_item \<Rightarrow> data_entry \<Rightarrow> data_entry" where
  "got_data it data =
     (let e = set_data (ITEM_DATA it) True data
      in e\<lparr>de_meta := set_valsize (i_data_len it) ((de_meta e)\<lparr>me_version := i_version it, me_edate := i_exptime it,
            me_keysize := of_nat (i_key_len it), me_flag := ucast (ITEM_FLAGS (i_item_id it))\<rparr>)\<rparr>)"

definition got_key :: "mdb_item \<Rightarrow> data_entry \<Rightarrow> data_entry" where
  "got_key it key =
     key\<lparr>de_meta := set_valsize (i_data_len it) ((de_meta key)\<lparr>me_version := i_version it, me_edate := i_exptime it,
       me_mdate := i_update_time it, me_keysize := of_nat (i_key_len it), me_flag := ucast (ITEM_FLAGS (i_item_id it))\<rparr>)\<rparr>"

definition do_get :: "data_entry \<Rightarrow> data_entry \<Rightarrow> bool \<Rightarrow> u32 \<Rightarrow> mdb \<Rightarrow> (int \<times> data_entry \<times> data_entry \<times> mdb) option" where
  "do_get key data with_stat now d =
     do { let area = unat (de_area key);
          (expired, r, d) \<leftarrow> remove_if_expired (de_data key) now d;
          (rc, key, data, d) \<leftarrow> (case r of
             Some a \<Rightarrow>
               if area \<noteq> ITEM_AREA (it_of a d) then None
               else do { let it = it_of a d;
                         c \<leftarrow> mc_update_item a (md_cache d);
                         let d = d\<lparr>md_cache := c\<rparr>;
                         d \<leftarrow> (if with_stat then upd_stat area (\<lambda>s. s\<lparr>as_hit_count := as_hit_count s + 1\<rparr>) d else Some d);
                         Some (0, got_key it key, got_data it data, d) }
           | None \<Rightarrow> Some (if expired then TAIR_RETURN_DATA_EXPIRED else TAIR_RETURN_DATA_NOT_EXIST, key, data, d));
          d \<leftarrow> (if with_stat then upd_stat area (\<lambda>s. s\<lparr>as_get_count := as_get_count s + 1\<rparr>) d else Some d);
          Some (rc, key, data, d) }"

definition do_remove :: "data_entry \<Rightarrow> mdb \<Rightarrow> (int \<times> data_entry \<times> mdb) option" where
  "do_remove key d =
     do { let key = key\<lparr>de_meta := (de_meta key)\<lparr>me_keysize := of_nat (de_size key)\<rparr>\<rparr>;
          (ret, d) \<leftarrow> remove_if_exists (de_data key) d;
          d \<leftarrow> upd_stat (unat (de_area key)) (\<lambda>s. s\<lparr>as_remove_count := as_remove_count s + 1\<rparr>) d;
          Some (if ret then 0 else TAIR_RETURN_DATA_NOT_EXIST, key, d) }"

definition do_lookup :: "data_entry \<Rightarrow> u32 \<Rightarrow> mdb \<Rightarrow> (bool \<times> mdb) option" where
  "do_lookup key now d =
     (if unat (de_area key) \<noteq> KEY_AREA (de_data key) then Some (False, d)
      else do { r \<leftarrow> md_find (de_data key) d;
                (case r of
                   None \<Rightarrow> Some (False, d)
                 | Some a \<Rightarrow> if is_item_expired (it_of a d) now d
                             then do { d \<leftarrow> md_remove a d; Some (False, d) } else Some (True, d)) })"

definition get_meta :: "data_entry \<Rightarrow> item_meta \<Rightarrow> u32 \<Rightarrow> mdb \<Rightarrow> (int \<times> item_meta \<times> mdb) option" where
  "get_meta key meta now d =
     do { (expired, r, d) \<leftarrow> remove_if_expired (de_data key) now d;
          Some (case r of
             Some a \<Rightarrow> (let it = it_of a d
                       in (TAIR_RETURN_SUCCESS,
                           set_valsize (i_data_len it) (meta\<lparr>me_keysize := of_nat (i_key_len it), me_version := i_version it,
                             me_edate := i_exptime it, me_mdate := i_update_time it,
                             me_flag := ucast (ITEM_FLAGS (i_item_id it))\<rparr>), d))
           | None \<Rightarrow> (if expired then TAIR_RETURN_DATA_EXPIRED else TAIR_RETURN_DATA_NOT_EXIST, meta, d)) }"

subsection \<open>Counters\<close>

text \<open>
  The counter in a stored value: four bytes, low byte first, after the two bytes of the item head.
  Sums are those of 32-bit \<open>int\<close>.
\<close>

definition read_count :: "string \<Rightarrow> u32 option" where
  "read_count val =
     (if ITEM_HEAD_LENGTH + 4 \<le> length val
      then Some (load32 (val ! 2) (val ! 3) (val ! 4) (val ! 5)) else None)"

definition count_bytes :: "u32 \<Rightarrow> string" where
  "count_bytes v = [CHR 0x00, CHR 0x16] @
     map (\<lambda>k. char_of (unat (drop_bit k v AND 0xFF))) [0, 8, 16, 24]"

definition new_count :: "u32 \<Rightarrow> u32 \<Rightarrow> bool \<Rightarrow> int + u32" where
  "new_count count init_value not_negative =
     (if not_negative \<and> sint count < 0 \<and> sint init_value \<le> 0 then Inl TAIR_RETURN_DEC_NOTFOUND
      else if not_negative \<and> sint (init_value + count) < 0 then Inl TAIR_RETURN_DEC_BOUNDS
      else Inr (init_value + count))"

text \<open>The result code or the new value, and what \<open>result_value\<close> holds on return.\<close>

definition next_count ::
  "(data_entry \<times> data_entry) option \<Rightarrow> u32 \<Rightarrow> u32 \<Rightarrow> bool \<Rightarrow> u32 \<Rightarrow> ((int + u32) \<times> u32) option" where
  "next_count found count init_value not_negative result =
     (case found of
        None \<Rightarrow> Some (case new_count count init_value not_negative of Inl rc \<Rightarrow> (Inl rc, result) | Inr v \<Rightarrow> (Inr v, v))
      | Some (key, old) \<Rightarrow>
          (let flag = ucast (me_flag (de_meta key))
           in if \<not> test_flag flag TAIR_ITEM_FLAG_ADDCOUNT then Some (Inl TAIR_RETURN_CANNOT_OVERRIDE, result)
              else if test_flag flag TAIR_ITEM_FLAG_DELETED
              then Some (case new_count count init_value not_negative of Inl rc \<Rightarrow> (Inl rc, result) | Inr v \<Rightarrow> (Inr v, v))
              else do { v \<leftarrow> read_count (de_data old);
                        Some (if not_negative \<and> sint v \<le> 0 \<and> sint count < 0 then (Inl TAIR_RETURN_DEC_ZERO, result)
                              else if not_negative \<and> sint (v + count) < 0 then (Inl TAIR_RETURN_DEC_BOUNDS, v)
                              else (Inr (v + count), v + count)) }))"

definition do_add_count ::
  "data_entry \<Rightarrow> u32 \<Rightarrow> u32 \<Rightarrow> bool \<Rightarrow> int \<Rightarrow> u32 \<Rightarrow> u32 \<Rightarrow> mdb \<Rightarrow> (int \<times> u32 \<times> data_entry \<times> mdb) option" where
  "do_add_count key count init_value not_negative expired result now d =
     do { (rc, key, old, d) \<leftarrow> do_get key de_init True now d;
          (r, result) \<leftarrow> next_count (if rc = TAIR_RETURN_SUCCESS then Some (key, old) else None)
                            count init_value not_negative result;
          (case r of
             Inl rc \<Rightarrow> Some (rc, result, key, d)
           | Inr _ \<Rightarrow>
               do { let flag = (if rc = TAIR_RETURN_SUCCESS \<and> test_flag (ucast (me_flag (de_meta key))) TAIR_ITEM_FLAG_DELETED
                                then clear_flag (me_flag (de_meta old)) 2 else me_flag (de_meta old));
                    let old = set_data (count_bytes count) True old;
                    let old = old\<lparr>de_meta := (de_meta old)\<lparr>me_flag := set_flag flag 1\<rparr>\<rparr>;
                    (rc, key, d) \<leftarrow> do_put key old True expired now d;
                    Some (rc, result, key, d) }) }"

subsection \<open>Walks over the whole cache\<close>

text \<open>
  The loop shared by \<open>remove_deleted_item\<close>, \<open>remove_exprd_item\<close> and \<open>close_buckets\<close>: follow a
  chain, reading the link before the item is removed.
\<close>

partial_function (option) remove_chain :: "(mdb_item \<Rightarrow> mdb \<Rightarrow> bool) \<Rightarrow> u64 \<Rightarrow> mdb \<Rightarrow> mdb option" where
  "remove_chain P pos d =
     (if pos = 0 then Some d
      else do { a \<leftarrow> id_to_item (dpsz d) pos;
                let next = i_h_next (it_of a d);
                d \<leftarrow> (if P (it_of a d) d then md_remove a d else Some d);
                remove_chain P next d })"

declare remove_chain.simps [code]

fun remove_buckets :: "(mdb_item \<Rightarrow> mdb \<Rightarrow> bool) \<Rightarrow> nat list \<Rightarrow> mdb \<Rightarrow> mdb option" where
  "remove_buckets P [] d = Some d"
| "remove_buckets P (i # is) d =
     do { d \<leftarrow> remove_chain P (hm_table (md_hash d) ! i) d; remove_buckets P is d }"

definition remove_deleted_item :: "mdb \<Rightarrow> mdb option" where
  "remove_deleted_item d =
     remove_buckets (\<lambda>it _. test_flag (ITEM_FLAGS (i_item_id it)) TAIR_ITEM_FLAG_DELETED)
       [0 ..< hm_bucket_size (md_hash d)] d"

definition remove_exprd_item :: "u32 \<Rightarrow> mdb \<Rightarrow> mdb option" where
  "remove_exprd_item now d =
     do { d \<leftarrow> remove_buckets (\<lambda>it d. is_item_expired it now d) [0 ..< hm_bucket_size (md_hash d)] d;
          Some (d\<lparr>md_last_expd_time := now\<rparr>) }"

text \<open>The bucket of the distributed store an item belongs to: the hash of its key without the area.\<close>

definition server_bucket :: "mdb \<Rightarrow> mdb_item \<Rightarrow> u32" where
  "server_bucket d it = mur_mur_hash (drop 2 (ITEM_KEY it)) mod md_bucket_count d"

definition close_buckets :: "u32 list \<Rightarrow> u32 \<Rightarrow> mdb \<Rightarrow> mdb option" where
  "close_buckets buckets now d =
     remove_buckets (\<lambda>it d. is_item_expired it now d \<or> server_bucket d it \<in> set buckets)
       [0 ..< hm_bucket_size (md_hash d)] d"

text \<open>
  \<open>get_next_items\<close>: the next bucket with a chain, expired items removed on the way, the items of
  the wanted store bucket copied out with their meta data.
\<close>

definition item_header :: "mdb_item \<Rightarrow> item_meta" where
  "item_header it =
     set_valsize (i_data_len it) (blank_meta\<lparr>me_keysize := of_nat (i_key_len it), me_version := i_version it,
       me_flag := ucast (ITEM_FLAGS (i_item_id it)), me_mdate := i_update_time it, me_edate := i_exptime it\<rparr>)"

partial_function (option) collect_chain ::
  "u32 \<Rightarrow> u32 \<Rightarrow> u64 \<Rightarrow> (item_meta \<times> string) list \<Rightarrow> mdb \<Rightarrow> ((item_meta \<times> string) list \<times> mdb) option" where
  "collect_chain db_id now pos out d =
     (if pos = 0 then Some (out, d)
      else do { a \<leftarrow> id_to_item (dpsz d) pos;
                let it = it_of a d;
                if is_item_expired it now d
                then do { d \<leftarrow> md_remove a d; collect_chain db_id now (i_h_next it) out d }
                else collect_chain db_id now (i_h_next it)
                       (if server_bucket d it = db_id
                        then out @ [(item_header it, take (i_key_len it + i_data_len it) (i_data it))] else out) d })"

declare collect_chain.simps [code]

definition get_next_items ::
  "nat \<Rightarrow> u32 \<Rightarrow> u32 \<Rightarrow> mdb \<Rightarrow> (bool \<times> nat \<times> (item_meta \<times> string) list \<times> mdb) option" where
  "get_next_items hash_index db_id now d =
     (let n = hm_bucket_size (md_hash d)
      in case find (\<lambda>i. hm_table (md_hash d) ! i \<noteq> 0) [hash_index ..< n] of
           None \<Rightarrow> Some (False, max hash_index n, [], d)
         | Some i \<Rightarrow> do { (out, d) \<leftarrow> collect_chain db_id now (hm_table (md_hash d) ! i) [] d;
                         Some (i + 1 < n, i + 1, out, d) })"

subsection \<open>Giving pages back\<close>

text \<open>
  \<open>mem_cache::clear_page\<close> and \<open>mem_cache::free_page\<close> call back into the manager. An item of the
  page with neither neighbour in its list counts as free.
\<close>

fun clear_slots :: "nat list \<Rightarrow> mdb \<Rightarrow> mdb option" where
  "clear_slots [] d = Some d"
| "clear_slots (a # as) d =
     do { d \<leftarrow> (if i_prev (it_of a d) = 0 \<and> i_next (it_of a d) = 0 then Some d else md_remove a d);
          clear_slots as d }"

definition clear_page :: "nat \<Rightarrow> nat \<Rightarrow> mdb \<Rightarrow> mdb option" where
  "clear_page k i d =
     (let s = slab k (md_cache d)
      in clear_slots (map (\<lambda>j. i * dpsz d + sizeof_page_info + j * sm_slab_size s) [0 ..< sm_per_slab s]) d)"

definition free_page :: "nat \<Rightarrow> mdb \<Rightarrow> (int \<times> mdb) option" where
  "free_page k d =
     (let c = md_cache d; s = slab k c
      in if length (mc_slabs c) \<le> k then None
         else if sm_free_pages_no s + sm_full_pages_no s + sm_partial_pages_no s \<le> 1 then Some (- 1, d)
         else if 0 < sm_free_pages_no s then
           do { i \<leftarrow> page_at (sm_free_pages s) c;
                if pi_free_nr (page i c) = int (sm_per_slab s) \<and> pi_free_head (page i c) \<noteq> 0
                then do { (head, c) \<leftarrow> unlink_page i (sm_free_pages s) c;
                          let c = upd_slab k (\<lambda>s. s\<lparr>sm_free_pages := head, sm_free_pages_no := sm_free_pages_no s - 1\<rparr>) c;
                          p \<leftarrow> mp_free_page (int (pi_id (page i c))) (mc_pool c);
                          Some (0, d\<lparr>md_cache := c\<lparr>mc_pool := p\<rparr>\<rparr>) }
                else None }
         else if 0 < sm_partial_pages_no s then
           do { i \<leftarrow> page_at (get_the_most_free_items_of_partial_page_id k c) c; d \<leftarrow> clear_page k i d; Some (0, d) }
         else if 0 < sm_full_pages_no s then
           do { i \<leftarrow> page_at (sm_full_pages s) c; d \<leftarrow> clear_page k i d; Some (0, d) }
         else None)"

fun free_pages :: "nat \<Rightarrow> nat \<Rightarrow> mdb \<Rightarrow> mdb option" where
  "free_pages k 0 d = Some d"
| "free_pages k (Suc n) d = do { (rc, d) \<leftarrow> free_page k d; if rc \<noteq> 0 then Some d else free_pages k n d }"

text \<open>
  \<open>balance_slab\<close>, given the adjustment that \<open>calc_slab_balance_info\<close> computes in floating point:
  the number of pages to add to each slab, negative where pages are to be given back.
\<close>

fun balance_slab :: "(nat \<times> int) list \<Rightarrow> u32 \<Rightarrow> mdb \<Rightarrow> mdb option" where
  "balance_slab [] now d = Some (d\<lparr>md_last_balance_time := now\<rparr>)"
| "balance_slab ((k, n) # adj) now d =
     do { d \<leftarrow> (if n < 0 then free_pages k (nat (- n)) d else Some d); balance_slab adj now d }"

definition md_clear :: "int \<Rightarrow> (nat \<times> int) list \<Rightarrow> u32 \<Rightarrow> mdb \<Rightarrow> (int \<times> mdb) option" where
  "md_clear area adjust now d =
     (if area = - 1 then do { d \<leftarrow> remove_exprd_item now d; Some (0, d) }
      else if area = - 2
      then do { d \<leftarrow> balance_slab adjust now d; Some (0, d\<lparr>md_cache := balance_slab_done (md_cache d)\<rparr>) }
      else if area = - 3
      then Some (0, d\<lparr>md_cache := fold (\<lambda>i. set_area_timestamp i now) [0 ..< TAIR_MAX_AREA_COUNT] (md_cache d)\<rparr>)
      else if 0 \<le> area \<and> area < int TAIR_MAX_AREA_COUNT
      then Some (0, d\<lparr>md_cache := set_area_timestamp (nat area) now (md_cache d)\<rparr>)
      else None)"

subsection \<open>Quotas\<close>

text \<open>One round over the slabs: the number of bytes still to free, and the state.\<close>

fun quota_round :: "nat \<Rightarrow> bool \<Rightarrow> nat list \<Rightarrow> u64 \<Rightarrow> mdb \<Rightarrow> (u64 \<times> mdb) option" where
  "quota_round area first [] exceed d = Some (exceed, d)"
| "quota_round area first (k # ks) exceed d =
     (let s = slab k (md_cache d); (hd, tl) = sm_item_list s ! area
      in if hd = 0 \<or> tl = 0 then quota_round area first ks exceed d
         else if sm_item_count s ! area < of_nat (sm_per_slab s) \<and> first then quota_round area first ks exceed d
         else do { a \<leftarrow> item_at tl (md_cache d);
                   let n = item_bytes (it_of a d);
                   let exceed = (if n \<le> exceed then exceed - n else 0);
                   d \<leftarrow> md_remove a d;
                   if exceed = 0 then Some (exceed, d) else quota_round area first ks exceed d })"

partial_function (option) quota_loop :: "nat \<Rightarrow> bool \<Rightarrow> u64 \<Rightarrow> mdb \<Rightarrow> mdb option" where
  "quota_loop area first exceed d =
     (if exceed = 0 then Some d
      else do { (exceed, d) \<leftarrow> quota_round area first [0 ..< length (mc_slabs (md_cache d))] exceed d;
                quota_loop area False exceed d })"

declare quota_loop.simps [code]

definition keep_area_quota :: "nat \<Rightarrow> u64 \<Rightarrow> mdb \<Rightarrow> mdb option" where
  "keep_area_quota area exceed d = (if area < TAIR_MAX_AREA_COUNT then quota_loop area True exceed d else None)"

fun check_areas :: "nat list \<Rightarrow> mdb \<Rightarrow> mdb option" where
  "check_areas [] d = Some d"
| "check_areas (i # is) d =
     (let s = md_stat d ! i
      in do { d \<leftarrow> (if as_data_size s \<noteq> 0 \<and> as_quota s < as_data_size s
                    then keep_area_quota i (as_data_size s - as_quota s) d else Some d);
              check_areas is d })"

definition check_quota :: "mdb \<Rightarrow> mdb option" where
  "check_quota d = check_areas [0 ..< TAIR_MAX_AREA_COUNT] d"

subsection \<open>Start\<close>

text \<open>
  \<open>initialize\<close> on a fresh segment: \<open>pool\<close> is the address of the memory, \<open>mem_size\<close> its size; the
  meta data take the first pages. \<open>quotas\<close> are the default capacities of the areas.
\<close>

definition md_initialize ::
  "(nat \<Rightarrow> nat) \<Rightarrow> u64 \<Rightarrow> nat \<Rightarrow> nat \<Rightarrow> nat \<Rightarrow> nat \<Rightarrow> (nat \<times> u64) list \<Rightarrow> mdb \<Rightarrow> (bool \<times> mdb) option" where
  "md_initialize grow pool mem_size page_size hash_shift slab_base_size quotas d =
     (if pool = 0 then Some (False, d)
      else do {
        let meta_len = 2 ^ 20 + sizeof_slab_manager * TAIR_SLAB_LARGEST;
        p \<leftarrow> mp_initialize pool page_size (mem_size div page_size) meta_len (mc_pool (md_cache d));
        (hm, p) \<leftarrow> cache_hash_map hash_shift page_size p (md_hash d);
        let base = (if slab_base_size = 0 then sizeof_mdb_item + 16 else slab_base_size);
        c \<leftarrow> mc_initialize grow TAIR_SLAB_LARGEST base ((md_cache d)\<lparr>mc_pool := p\<rparr>);
        d \<leftarrow> set_area_quotas quotas (d\<lparr>md_cache := c, md_hash := hm, md_stat := replicate TAIR_MAX_AREA_COUNT as_reset\<rparr>);
        Some (True, d) })"

definition get_stat :: "nat \<Rightarrow> mdb \<Rightarrow> area_stat option" where
  "get_stat area d = (if area < length (md_stat d) then Some (md_stat d ! area) else None)"

subsection \<open>The C interface\<close>

definition area_key :: "int \<Rightarrow> string \<Rightarrow> data_entry" where
  "area_key area key = merge_area (nat (area mod 2 ^ 32)) (new_entry key False)"

definition mdb_put :: "int \<Rightarrow> string \<Rightarrow> string \<Rightarrow> int \<Rightarrow> bool \<Rightarrow> int \<Rightarrow> u32 \<Rightarrow> mdb \<Rightarrow> (int \<times> mdb) option" where
  "mdb_put area key val version version_care expire now d =
     do { let mkey = area_key area key;
          let mkey = mkey\<lparr>de_meta := (de_meta mkey)\<lparr>me_version := of_int version\<rparr>\<rparr>;
          (rc, _, d) \<leftarrow> do_put mkey (new_entry val False) version_care expire now d;
          Some (rc, d) }"

text \<open>The value with its version and expiry time, when the code is 0.\<close>

definition mdb_get :: "int \<Rightarrow> string \<Rightarrow> u32 \<Rightarrow> mdb \<Rightarrow> (int \<times> (string \<times> u16 \<times> u32) option \<times> mdb) option" where
  "mdb_get area key now d =
     do { (rc, mkey, mvalue, d) \<leftarrow> do_get (area_key area key) de_init True now d;
          Some (rc, if rc = 0 then Some (de_data mvalue, me_version (de_meta mkey), me_edate (de_meta mkey)) else None, d) }"

definition mdb_del :: "int \<Rightarrow> string \<Rightarrow> mdb \<Rightarrow> (int \<times> mdb) option" where
  "mdb_del area key d = do { (rc, _, d) \<leftarrow> do_remove (area_key area key) d; Some (rc, d) }"

definition mdb_add_count :: "int \<Rightarrow> string \<Rightarrow> u32 \<Rightarrow> u32 \<Rightarrow> int \<Rightarrow> u32 \<Rightarrow> u32 \<Rightarrow> mdb \<Rightarrow> (int \<times> u32 \<times> mdb) option" where
  "mdb_add_count area key count init_value expire result now d =
     do { (rc, result, _, d) \<leftarrow> do_add_count (area_key area key) count init_value True expire result now d;
          Some (rc, result, d) }"

definition mdb_lookup :: "int \<Rightarrow> string \<Rightarrow> u32 \<Rightarrow> mdb \<Rightarrow> (bool \<times> mdb) option" where
  "mdb_lookup area key now d = do_lookup (area_key area key) now d"
end
