(* ===== verification/Mdb_Lists.thy ===== *)
theory Mdb_Lists
  imports Mdb_Slab
begin

section \<open>The linked lists of a slab\<close>

text \<open>
  The lists of pages and the lists of items have the same shape: nodes with a link to the next and
  to the previous one, a new node put in front, a node cut out. The locale states what one step of
  either does to the links and derives what it does to the list as a sequence; it is interpreted
  for the pages (\<open>link_page\<close>, \<open>unlink_page\<close>) and for the items of one area (\<open>link_item\<close>,
  \<open>unlink_item\<close>).
\<close>

subsection \<open>Doubly linked segments\<close>

fun dseg :: "('n \<Rightarrow> 'n option) \<Rightarrow> ('n \<Rightarrow> 'n option) \<Rightarrow> 'n option \<Rightarrow> 'n option \<Rightarrow> 'n list \<Rightarrow> bool" where
  "dseg nx pv p h [] \<longleftrightarrow> h = None"
| "dseg nx pv p h (a # as) \<longleftrightarrow> h = Some a \<and> pv a = p \<and> dseg nx pv (Some a) (nx a) as"

lemma dseg_cong:
  "(\<And>a. a \<in> set as \<Longrightarrow> nx' a = nx a \<and> pv' a = pv a) \<Longrightarrow> dseg nx' pv' p h as = dseg nx pv p h as"
  by (induction as arbitrary: p h) auto

text \<open>The node before and the node after a given one.\<close>

lemma dseg_neighbours:
  assumes "dseg nx pv None h (xs @ a # ys)" "distinct (xs @ a # ys)"
  shows "pv a = (if xs = [] then None else Some (last xs))" "nx a = (if ys = [] then None else Some (hd ys))"
proof -
  have "dseg nx pv p h (xs @ a # ys) \<Longrightarrow>
      pv a = (if xs = [] then p else Some (last xs)) \<and> nx a = (if ys = [] then None else Some (hd ys))" for p h
    by (induction xs arbitrary: p h) (cases ys; auto)+
  from this [OF assms(1)] show "pv a = (if xs = [] then None else Some (last xs))"
    "nx a = (if ys = [] then None else Some (hd ys))" by simp_all
qed

lemma dseg_cut:
  assumes "dseg nx pv p h (xs @ a # ys)" "distinct (xs @ a # ys)"
    and "\<And>b. b \<in> set (xs @ ys) \<Longrightarrow> nx' b = (if xs \<noteq> [] \<and> b = last xs then nx a else nx b)"
    and "\<And>b. b \<in> set (xs @ ys) \<Longrightarrow> pv' b = (if ys \<noteq> [] \<and> b = hd ys then pv a else pv b)"
  shows "dseg nx' pv' p (if xs = [] then nx a else h) (xs @ ys)"
  using assms
proof (induction xs arbitrary: p h)
  case Nil
  show ?case
  proof (cases ys)
    case (Cons y zs)
    have "dseg nx' pv' (Some y) (nx y) zs = dseg nx pv (Some y) (nx y) zs"
      by (rule dseg_cong) (use Nil.prems(2,3,4) Cons in auto)
    with Nil.prems Cons show ?thesis by auto
  qed (use Nil.prems in auto)
next
  case (Cons x xs)
  have hd_ne: "ys \<noteq> [] \<Longrightarrow> x \<noteq> hd ys" using Cons.prems(2) by (cases ys) auto
  have IH: "dseg nx' pv' (Some x) (if xs = [] then nx a else nx x) (xs @ ys)"
  proof (rule Cons.IH)
    show "dseg nx pv (Some x) (nx x) (xs @ a # ys)" "distinct (xs @ a # ys)" using Cons.prems by auto
    show "nx' b = (if xs \<noteq> [] \<and> b = last xs then nx a else nx b)" if "b \<in> set (xs @ ys)" for b
      using Cons.prems(2) Cons.prems(3) [of b] that by (auto split: if_splits)
    show "pv' b = (if ys \<noteq> [] \<and> b = hd ys then pv a else pv b)" if "b \<in> set (xs @ ys)" for b
      using Cons.prems(4) [of b] that by auto
  qed
  have "nx' x = (if xs = [] then nx a else nx x)"
    using Cons.prems(2) Cons.prems(3) [of x] by (auto split: if_splits)
  moreover have "pv' x = p" using Cons.prems(1) Cons.prems(4) [of x] hd_ne by auto
  ultimately show ?case using IH Cons.prems(1) by auto
qed

subsection \<open>The contract of a list\<close>

text \<open>
  A link (of type \<open>'l\<close>) leads to a node; \<open>good\<close> links may be followed, \<open>ok\<close> nodes may be linked.
\<close>

locale dlist =
  fixes nx pv :: "'s \<Rightarrow> 'n \<Rightarrow> 'n option" and ok :: "'s \<Rightarrow> 'n \<Rightarrow> bool"
    and leads :: "'s \<Rightarrow> 'l \<Rightarrow> 'n option" and good :: "'s \<Rightarrow> 'l \<Rightarrow> bool"
    and push :: "'n \<Rightarrow> 'l \<Rightarrow> 's \<Rightarrow> 's option" and cut :: "'n \<Rightarrow> 's \<Rightarrow> 's option"
  assumes push_links: "ok s a \<Longrightarrow> good s l \<Longrightarrow> leads s l \<noteq> Some a \<Longrightarrow>
      \<exists>s'. push a l s = Some s' \<and> (\<forall>b. ok s' b = ok s b) \<and> nx s' = (nx s)(a := leads s l) \<and>
        pv s' = (case leads s l of None \<Rightarrow> (pv s)(a := None) | Some b \<Rightarrow> (pv s)(a := None, b := Some a))"
    and cut_links: "ok s a \<Longrightarrow> pv s a \<noteq> Some a \<Longrightarrow> nx s a \<noteq> Some a \<Longrightarrow>
      (case pv s a of None \<Rightarrow> True | Some b \<Rightarrow> ok s b) \<Longrightarrow> (case nx s a of None \<Rightarrow> True | Some b \<Rightarrow> ok s b) \<Longrightarrow>
      \<exists>s'. cut a s = Some s' \<and> (\<forall>b. ok s' b = ok s b) \<and>
        (\<forall>b. b \<noteq> a \<longrightarrow> nx s' b = (if pv s a = Some b then nx s a else nx s b)) \<and>
        (\<forall>b. b \<noteq> a \<longrightarrow> pv s' b = (if nx s a = Some b then pv s a else pv s b))"
begin

definition is_list :: "'s \<Rightarrow> 'n option \<Rightarrow> 'n list \<Rightarrow> bool" where
  "is_list s h xs \<longleftrightarrow> dseg (nx s) (pv s) None h xs \<and> distinct xs \<and> (\<forall>a \<in> set xs. ok s a)"

lemma push_front:
  assumes "is_list s (leads s l) xs" "good s l" "a \<notin> set xs" "ok s a"
  shows "\<exists>s'. push a l s = Some s' \<and> is_list s' (Some a) (a # xs)"
proof -
  have h: "leads s l \<noteq> Some a" using assms by (cases xs; auto simp: is_list_def)
  from push_links [OF assms(4,2) this] obtain s' where s': "push a l s = Some s'" "\<forall>b. ok s' b = ok s b"
    "nx s' = (nx s)(a := leads s l)"
    "pv s' = (case leads s l of None \<Rightarrow> (pv s)(a := None) | Some b \<Rightarrow> (pv s)(a := None, b := Some a))" by blast
  have "dseg (nx s') (pv s') (Some a) (leads s l) xs"
  proof (cases xs)
    case (Cons b ys)
    then have "dseg (nx s') (pv s') (Some b) (nx s b) ys = dseg (nx s) (pv s) (Some b) (nx s b) ys"
      using assms s' by (intro dseg_cong) (auto simp: is_list_def)
    with Cons assms s' show ?thesis by (auto simp: is_list_def)
  qed (use assms in \<open>simp add: is_list_def\<close>)
  moreover have "pv s' a = None" using s'(4) h by (cases "leads s l") auto
  ultimately show ?thesis using assms s' by (auto simp: is_list_def)
qed

lemma cut_out:
  assumes "is_list s h (xs @ a # ys)"
  shows "\<exists>s'. cut a s = Some s' \<and> is_list s' (if h = Some a then nx s a else h) (xs @ ys)"
proof -
  have d: "dseg (nx s) (pv s) None h (xs @ a # ys)" "distinct (xs @ a # ys)" "\<forall>b \<in> set (xs @ a # ys). ok s b"
    using assms by (auto simp: is_list_def)
  note n = dseg_neighbours [OF d(1,2)]
  have "pv s a \<noteq> Some a" "nx s a \<noteq> Some a" "ok s a"
    "case pv s a of None \<Rightarrow> True | Some b \<Rightarrow> ok s b" "case nx s a of None \<Rightarrow> True | Some b \<Rightarrow> ok s b"
    using n d(2,3) last_in_set [of xs] hd_in_set [of ys] by (auto split: if_splits)
  with cut_links obtain s' where s': "cut a s = Some s'" "\<forall>b. ok s' b = ok s b"
    "\<forall>b. b \<noteq> a \<longrightarrow> nx s' b = (if pv s a = Some b then nx s a else nx s b)"
    "\<forall>b. b \<noteq> a \<longrightarrow> pv s' b = (if nx s a = Some b then pv s a else pv s b)" by blast
  have "dseg (nx s') (pv s') None (if xs = [] then nx s a else h) (xs @ ys)"
    by (rule dseg_cut [OF d(1,2)]) (use s'(3,4) n d(2) in \<open>auto split: if_splits\<close>)
  moreover have "(h = Some a) = (xs = [])" using d(1,2) by (cases xs) auto
  ultimately show ?thesis using s' d by (auto simp: is_list_def)
qed

text \<open>
  Several lists that share no node, each named by a \<open>'q\<close>: a step on one of them leaves the others
  as they are.
\<close>

definition family :: "'s \<Rightarrow> ('q \<Rightarrow> 'n option) \<Rightarrow> ('q \<Rightarrow> 'n list) \<Rightarrow> bool" where
  "family s h ls \<longleftrightarrow> (\<forall>q. is_list s (h q) (ls q)) \<and> (\<forall>q r. q \<noteq> r \<longrightarrow> set (ls q) \<inter> set (ls r) = {})"

lemma is_list_cong:
  "(\<And>b. b \<in> set xs \<Longrightarrow> nx s' b = nx s b \<and> pv s' b = pv s b \<and> ok s' b = ok s b) \<Longrightarrow> is_list s' h xs = is_list s h xs"
  using dseg_cong [of xs "nx s'" "nx s" "pv s'" "pv s" None h] by (auto simp: is_list_def)

lemma push_family:
  assumes fam: "family s h ls" and l: "leads s l = h q" "good s l" and a: "ok s a" "\<And>r. a \<notin> set (ls r)"
  shows "\<exists>s'. push a l s = Some s' \<and> family s' (h(q := Some a)) (ls(q := a # ls q))"
proof -
  have q: "is_list s (leads s l) (ls q)" using fam l(1) by (simp add: family_def)
  from push_front [OF q l(2) a(2,1)] obtain s' where s': "push a l s = Some s'" "is_list s' (Some a) (a # ls q)"
    by blast
  have h: "leads s l \<noteq> Some a" using q a(2) [of q] by (cases "ls q") (auto simp: is_list_def)
  from push_links [OF a(1) l(2) h] s'(1) have links: "\<forall>b. ok s' b = ok s b" "nx s' = (nx s)(a := leads s l)"
    "pv s' = (case leads s l of None \<Rightarrow> (pv s)(a := None) | Some b \<Rightarrow> (pv s)(a := None, b := Some a))" by auto
  have front: "b \<in> set (ls q)" if "leads s l = Some b" for b
    using q that by (cases "ls q") (auto simp: is_list_def)
  have other: "is_list s' (h r) (ls r)" if "r \<noteq> q" for r
  proof -
    have "nx s' b = nx s b \<and> pv s' b = pv s b \<and> ok s' b = ok s b" if "b \<in> set (ls r)" for b
    proof -
      have "b \<noteq> a" using that a(2) by auto
      moreover have "leads s l \<noteq> Some b"
        using front [of b] that fam \<open>r \<noteq> q\<close> unfolding family_def by blast
      ultimately show ?thesis using links by (auto split: option.splits)
    qed
    from is_list_cong [of "ls r" s' s "h r", OF this] fam show ?thesis by (simp add: family_def)
  qed
  have "family s' (h(q := Some a)) (ls(q := a # ls q))"
    unfolding family_def using s'(2) other fam a(2) by (auto simp: family_def)
  with s'(1) show ?thesis by blast
qed

lemma cut_family:
  assumes fam: "family s h ls" and q: "ls q = xs @ a # ys"
  shows "\<exists>s'. cut a s = Some s' \<and> family s' (h(q := if h q = Some a then nx s a else h q)) (ls(q := xs @ ys))"
proof -
  have list: "is_list s (h q) (xs @ a # ys)" using fam q by (metis family_def)
  from cut_out [OF list] obtain s' where s': "cut a s = Some s'"
    "is_list s' (if h q = Some a then nx s a else h q) (xs @ ys)" by blast
  have d: "dseg (nx s) (pv s) None (h q) (xs @ a # ys)" "distinct (xs @ a # ys)" "\<forall>b \<in> set (xs @ a # ys). ok s b"
    using list by (auto simp: is_list_def)
  note n = dseg_neighbours [OF d(1,2)]
  have "pv s a \<noteq> Some a" "nx s a \<noteq> Some a" "ok s a"
    "case pv s a of None \<Rightarrow> True | Some b \<Rightarrow> ok s b" "case nx s a of None \<Rightarrow> True | Some b \<Rightarrow> ok s b"
    using n d(2,3) last_in_set [of xs] hd_in_set [of ys] by (auto split: if_splits)
  with cut_links s'(1) have links: "\<forall>b. ok s' b = ok s b"
    "\<forall>b. b \<noteq> a \<longrightarrow> nx s' b = (if pv s a = Some b then nx s a else nx s b)"
    "\<forall>b. b \<noteq> a \<longrightarrow> pv s' b = (if nx s a = Some b then pv s a else pv s b)" by fastforce+
  have near: "b \<in> set (ls q)" if "pv s a = Some b \<or> nx s a = Some b" for b
    using that n last_in_set [of xs] hd_in_set [of ys] q by (auto split: if_splits)
  have other: "is_list s' (h r) (ls r)" if "r \<noteq> q" for r
  proof -
    have "nx s' b = nx s b \<and> pv s' b = pv s b \<and> ok s' b = ok s b" if "b \<in> set (ls r)" for b
    proof -
      have "b \<notin> set (ls q)" using that fam \<open>r \<noteq> q\<close> unfolding family_def by blast
      then have "b \<noteq> a" "pv s a \<noteq> Some b" "nx s a \<noteq> Some b" using near [of b] q by auto
      then show ?thesis using links by auto
    qed
    from is_list_cong [of "ls r" s' s "h r", OF this] fam show ?thesis by (simp add: family_def)
  qed
  have dis: "set (xs @ ys) \<inter> set (ls r) = {}" if "r \<noteq> q" for r
    using fam that q unfolding family_def by (metis Int_Un_distrib2 Un_empty list.simps(15) set_append insert_is_Un)
  have "family s' (h(q := if h q = Some a then nx s a else h q)) (ls(q := xs @ ys))"
    unfolding family_def using s'(2) other fam dis by (auto simp: family_def)
  with s'(1) show ?thesis by blast
qed

end

subsection \<open>Lists of pages\<close>

lemma upd_sel [simp]:
  "mc_pool (upd_item a f c) = mc_pool c" "mc_pages (upd_item a f c) = mc_pages c"
  "mc_slabs (upd_item a f c) = mc_slabs c" "mc_area_timestamp (upd_item a f c) = mc_area_timestamp c"
  "mc_items (upd_item a f c) = (mc_items c)(a := f (mc_items c a))"
  "mc_pool (upd_page i g c) = mc_pool c" "mc_items (upd_page i g c) = mc_items c"
  "mc_slabs (upd_page i g c) = mc_slabs c" "mc_area_timestamp (upd_page i g c) = mc_area_timestamp c"
  "mc_pages (upd_page i g c) = (mc_pages c)(i := g (mc_pages c i))"
  "mc_pool (upd_slab k r c) = mc_pool c" "mc_items (upd_slab k r c) = mc_items c"
  "mc_pages (upd_slab k r c) = mc_pages c" "mc_area_timestamp (upd_slab k r c) = mc_area_timestamp c"
  "mc_slabs (upd_slab k r c) = (mc_slabs c)[k := r (mc_slabs c ! k)]"
  by (simp_all add: upd_item_def upd_page_def upd_slab_def)

lemma page_at_upd [simp]: "page_at i (upd_page j f c) = page_at i c"
  by (simp add: page_at_def)

lemma item_at_upd [simp]:
  "item_at x (upd_item a f c) = item_at x c" "item_at x (upd_slab k g c) = item_at x c"
  "item_at x (upd_page i h c) = item_at x c"
  by (simp_all add: item_at_def)

lemma page_at_same: "page_at i c = Some j \<Longrightarrow> j = i"
  by (simp add: page_at_def split: if_splits)

definition page_ref :: "cache \<Rightarrow> nat \<Rightarrow> nat option" where
  "page_ref c i = (if i = 0 then None else Some i)"

definition page_ok :: "cache \<Rightarrow> nat \<Rightarrow> bool" where
  "page_ok c i \<longleftrightarrow> i \<noteq> 0 \<and> page_at i c = Some i \<and> pi_id (page i c) = i"

definition page_good :: "cache \<Rightarrow> nat \<Rightarrow> bool" where
  "page_good c i \<longleftrightarrow> i = 0 \<or> page_ok c i"

definition push_page :: "nat \<Rightarrow> nat \<Rightarrow> cache \<Rightarrow> cache option" where
  "push_page i head c = map_option snd (link_page i head c)"

definition cut_page :: "nat \<Rightarrow> cache \<Rightarrow> cache option" where
  "cut_page i c = map_option snd (unlink_page i 0 c)"

interpretation pl: dlist "\<lambda>c i. page_ref c (pi_next (page i c))" "\<lambda>c i. page_ref c (pi_prev (page i c))"
  page_ok page_ref page_good push_page cut_page
proof unfold_locales
  fix c :: cache and i l :: nat
  assume h: "page_ok c i" "page_good c l" "page_ref c l \<noteq> Some i"
  let ?c1 = "upd_page i (\<lambda>p. p\<lparr>pi_prev := 0, pi_next := l\<rparr>) c"
  let ?c2 = "if l = 0 then ?c1 else upd_page l (\<lambda>p. p\<lparr>pi_prev := i\<rparr>) ?c1"
  have "push_page i l c = Some ?c2"
    using h by (auto simp: push_page_def link_page_def page_good_def page_ok_def page_ref_def)
  moreover have "\<forall>b. page_ok ?c2 b = page_ok c b" by (simp add: page_ok_def)
  ultimately show "\<exists>s'. push_page i l c = Some s' \<and> (\<forall>b. page_ok s' b = page_ok c b) \<and>
      (\<lambda>i. page_ref s' (pi_next (page i s'))) = (\<lambda>i. page_ref c (pi_next (page i c)))(i := page_ref c l) \<and>
      (\<lambda>i. page_ref s' (pi_prev (page i s'))) = (case page_ref c l of
         None \<Rightarrow> (\<lambda>i. page_ref c (pi_prev (page i c)))(i := None)
       | Some b \<Rightarrow> (\<lambda>i. page_ref c (pi_prev (page i c)))(i := None, b := Some i))"
    using h by (auto simp: page_ref_def page_ok_def fun_eq_iff)
next
  fix c :: cache and i :: nat
  assume h: "page_ok c i" "page_ref c (pi_prev (page i c)) \<noteq> Some i" "page_ref c (pi_next (page i c)) \<noteq> Some i"
    "case page_ref c (pi_prev (page i c)) of None \<Rightarrow> True | Some b \<Rightarrow> page_ok c b"
    "case page_ref c (pi_next (page i c)) of None \<Rightarrow> True | Some b \<Rightarrow> page_ok c b"
  let ?p = "pi_prev (page i c)" and ?n = "pi_next (page i c)"
  let ?c1 = "if ?n = 0 then c else upd_page ?n (\<lambda>p. p\<lparr>pi_prev := ?p\<rparr>) c"
  let ?c2 = "if ?p = 0 then ?c1 else upd_page ?p (\<lambda>p. p\<lparr>pi_next := ?n\<rparr>) ?c1"
  let ?c3 = "upd_page i (\<lambda>p. p\<lparr>pi_prev := 0, pi_next := 0\<rparr>) ?c2"
  have "cut_page i c = Some ?c3"
    using h by (auto simp: cut_page_def unlink_page_def page_ok_def page_ref_def Let_def split: if_splits)
  moreover have "\<forall>b. page_ok ?c3 b = page_ok c b" by (simp add: page_ok_def)
  ultimately show "\<exists>s'. cut_page i c = Some s' \<and> (\<forall>b. page_ok s' b = page_ok c b) \<and>
      (\<forall>b. b \<noteq> i \<longrightarrow> page_ref s' (pi_next (page b s')) =
         (if page_ref c ?p = Some b then page_ref c ?n else page_ref c (pi_next (page b c)))) \<and>
      (\<forall>b. b \<noteq> i \<longrightarrow> page_ref s' (pi_prev (page b s')) =
         (if page_ref c ?n = Some b then page_ref c ?p else page_ref c (pi_prev (page b c))))"
    by (auto simp: page_ref_def)
qed

lemma link_page_list:
  assumes "pl.is_list c (page_ref c head) xs" "page_good c head" "i \<notin> set xs" "page_ok c i"
  shows "\<exists>c'. link_page i head c = Some (i, c') \<and> pl.is_list c' (page_ref c' i) (i # xs)"
proof -
  from pl.push_front [OF assms] obtain c' where c': "push_page i head c = Some c'"
    "pl.is_list c' (Some i) (i # xs)" by blast
  then have "page_ok c' i" "i \<noteq> 0" by (auto simp: pl.is_list_def page_ok_def)
  moreover from c'(1) obtain j where j: "link_page i head c = Some (j, c')"
    by (auto simp: push_page_def)
  moreover have "j = pi_id (page i c')" using j by (auto simp: link_page_def Let_def bind_eq_Some_conv)
  ultimately show ?thesis using c' by (auto simp: page_ok_def page_ref_def)
qed

lemma unlink_page_head:
  "unlink_page i head c =
     map_option (\<lambda>x. (if pi_id (page i c) = head then pi_next (page i c) else head, snd x)) (unlink_page i 0 c)"
  by (simp add: unlink_page_def Let_def map_option_bind comp_def)

lemma unlink_page_list:
  assumes "pl.is_list c (page_ref c head) (xs @ i # ys)"
  shows "\<exists>head' c'. unlink_page i head c = Some (head', c') \<and> pl.is_list c' (page_ref c' head') (xs @ ys)"
proof -
  from pl.cut_out [OF assms] obtain c' where c': "cut_page i c = Some c'"
    "pl.is_list c' (if page_ref c head = Some i then page_ref c (pi_next (page i c)) else page_ref c head) (xs @ ys)"
    by blast
  then obtain z where "unlink_page i 0 c = Some (z, c')" by (auto simp: cut_page_def)
  then have "unlink_page i head c = Some (if pi_id (page i c) = head then pi_next (page i c) else head, c')"
    by (subst unlink_page_head) simp
  moreover have "page_ok c i" using assms by (simp add: pl.is_list_def)
  ultimately show ?thesis using c'(2) by (auto simp: page_ok_def page_ref_def)
qed

subsection \<open>Lists of items\<close>

definition item_ok :: "cache \<Rightarrow> nat \<Rightarrow> bool" where
  "item_ok c a \<longleftrightarrow> item_at (i_item_id (item a c)) c = Some a"

lemma item_at_None [simp]: "item_at x c = None \<longleftrightarrow> x = 0"
  by (simp add: item_at_def id_to_item_def)

lemma item_at_zero [simp]: "item_at 0 c = None"
  by simp

definition push_item :: "nat \<Rightarrow> u64 \<Rightarrow> cache \<Rightarrow> cache option" where
  "push_item a x c =
     (let iid = i_item_id (item a c); c = upd_item a (\<lambda>it. it\<lparr>i_next := x, i_prev := 0\<rparr>) c
      in if x \<noteq> 0 then do { b \<leftarrow> item_at x c; Some (upd_item b (\<lambda>it. it\<lparr>i_prev := iid\<rparr>) c) } else Some c)"

definition cut_item :: "nat \<Rightarrow> cache \<Rightarrow> cache option" where
  "cut_item a c =
     (let it = item a c
      in do { c \<leftarrow> (if i_prev it \<noteq> 0
                    then do { b \<leftarrow> item_at (i_prev it) c; Some (upd_item b (\<lambda>x. x\<lparr>i_next := i_next it\<rparr>) c) }
                    else Some c);
              (if i_next (item a c) \<noteq> 0
               then do { b \<leftarrow> item_at (i_next (item a c)) c;
                         Some (upd_item b (\<lambda>x. x\<lparr>i_prev := i_prev (item a c)\<rparr>) c) }
               else Some c) })"

interpretation il: dlist "\<lambda>c a. item_at (i_next (item a c)) c" "\<lambda>c a. item_at (i_prev (item a c)) c"
  item_ok "\<lambda>c x. item_at x c" "\<lambda>c x. True" push_item cut_item
proof unfold_locales
  fix c :: cache and a :: nat and x :: u64
  assume h: "item_ok c a" "item_at x c \<noteq> Some a"
  let ?c1 = "upd_item a (\<lambda>it. it\<lparr>i_next := x, i_prev := 0\<rparr>) c"
  let ?c2 = "case item_at x c of None \<Rightarrow> ?c1 | Some b \<Rightarrow> upd_item b (\<lambda>it. it\<lparr>i_prev := i_item_id (item a c)\<rparr>) ?c1"
  have "push_item a x c = Some ?c2"
    by (cases "item_at x c") (auto simp: push_item_def Let_def)
  moreover have "\<forall>b. item_ok ?c2 b = item_ok c b"
    by (auto simp: item_ok_def split: option.splits)
  ultimately show "\<exists>s'. push_item a x c = Some s' \<and> (\<forall>b. item_ok s' b = item_ok c b) \<and>
      (\<lambda>a. item_at (i_next (item a s')) s') = (\<lambda>a. item_at (i_next (item a c)) c)(a := item_at x c) \<and>
      (\<lambda>a. item_at (i_prev (item a s')) s') = (case item_at x c of
         None \<Rightarrow> (\<lambda>a. item_at (i_prev (item a c)) c)(a := None)
       | Some b \<Rightarrow> (\<lambda>a. item_at (i_prev (item a c)) c)(a := None, b := Some a))"
    using h by (cases "item_at x c") (auto simp: item_ok_def fun_eq_iff)
next
  fix c :: cache and a :: nat
  let ?p = "item_at (i_prev (item a c)) c" and ?n = "item_at (i_next (item a c)) c"
  assume h: "item_ok c a" "?p \<noteq> Some a" "?n \<noteq> Some a"
  let ?c1 = "case ?p of None \<Rightarrow> c | Some b \<Rightarrow> upd_item b (\<lambda>x. x\<lparr>i_next := i_next (item a c)\<rparr>) c"
  let ?c2 = "case ?n of None \<Rightarrow> ?c1 | Some b \<Rightarrow> upd_item b (\<lambda>x. x\<lparr>i_prev := i_prev (item a c)\<rparr>) ?c1"
  have a1: "item a ?c1 = item a c" using h(2) by (cases ?p) auto
  have "(if i_prev (item a c) \<noteq> 0
         then do { b \<leftarrow> item_at (i_prev (item a c)) c; Some (upd_item b (\<lambda>x. x\<lparr>i_next := i_next (item a c)\<rparr>) c) }
         else Some c) = Some ?c1"
    by (cases ?p) auto
  moreover have "item_at x ?c1 = item_at x c" for x by (cases ?p) auto
  ultimately have "cut_item a c = Some ?c2"
    unfolding cut_item_def Let_def using a1 by (cases ?n) auto
  moreover have "\<forall>b. item_ok ?c2 b = item_ok c b"
    by (auto simp: item_ok_def split: option.splits)
  ultimately show "\<exists>s'. cut_item a c = Some s' \<and> (\<forall>b. item_ok s' b = item_ok c b) \<and>
      (\<forall>b. b \<noteq> a \<longrightarrow> item_at (i_next (item b s')) s' = (if ?p = Some b then ?n else item_at (i_next (item b c)) c)) \<and>
      (\<forall>b. b \<noteq> a \<longrightarrow> item_at (i_prev (item b s')) s' = (if ?n = Some b then ?p else item_at (i_prev (item b c)) c))"
    by (auto split: option.splits)
qed

subsection \<open>The list of an area\<close>

lemma CLEAR_FLAGS_idem [simp]: "CLEAR_FLAGS (CLEAR_FLAGS x) = CLEAR_FLAGS x"
  by (simp add: CLEAR_FLAGS_def and.assoc)

lemma itemid_equal_iff: "itemid_equal x y \<longleftrightarrow> CLEAR_FLAGS x = CLEAR_FLAGS y"
  by (simp add: itemid_equal_def CLEAR_FLAGS_def)

lemma item_at_flags:
  assumes "CLEAR_FLAGS x = CLEAR_FLAGS y" "x \<noteq> 0" "y \<noteq> 0"
  shows "item_at x c = item_at y c"
proof -
  have "SLAB_SIZE x = SLAB_SIZE y" "PAGE_OFFSET x = PAGE_OFFSET y" "PAGE_ID x = PAGE_ID y"
    using assms(1) flags_fields(5-7) [of x] flags_fields(5-7) [of y] by metis+
  with assms show ?thesis by (simp add: item_at_def id_to_item_def)
qed

text \<open>A link in a list: zero, or an identifier that agrees with that of the item it leads to.\<close>

definition link_ok :: "cache \<Rightarrow> u64 \<Rightarrow> bool" where
  "link_ok c x \<longleftrightarrow> x = 0 \<or> (\<exists>b. item_at x c = Some b \<and> itemid_equal x (i_item_id (item b c)))"

lemma link_ok_zero [simp]: "link_ok c 0"
  by (simp add: link_ok_def)

lemma link_ok_own: "item_ok c a \<Longrightarrow> link_ok c (i_item_id (item a c))"
  by (auto simp: link_ok_def item_ok_def itemid_equal_def)

lemma link_is:
  assumes "item_ok c a" "CLEAR_FLAGS (i_item_id (item a c)) \<noteq> 0" "link_ok c x"
  shows "itemid_equal (i_item_id (item a c)) x \<longleftrightarrow> item_at x c = Some a"
proof
  assume eq: "itemid_equal (i_item_id (item a c)) x"
  have "x \<noteq> 0" "i_item_id (item a c) \<noteq> 0"
    using eq assms(2) by (auto simp: itemid_equal_iff) (auto simp: CLEAR_FLAGS_def)
  with eq item_at_flags [of "i_item_id (item a c)" x c] assms(1) show "item_at x c = Some a"
    by (simp add: itemid_equal_iff item_ok_def)
next
  assume "item_at x c = Some a"
  with assms(3) show "itemid_equal (i_item_id (item a c)) x"
    by (auto simp: link_ok_def itemid_equal_iff)
qed

definition item_list :: "cache \<Rightarrow> nat \<Rightarrow> nat \<Rightarrow> nat list \<Rightarrow> bool" where
  "item_list c k area xs \<longleftrightarrow>
     k < length (mc_slabs c) \<and> area < length (sm_item_list (slab k c)) \<and>
     (let (hd, tl) = sm_item_list (slab k c) ! area
      in il.is_list c (item_at hd c) xs \<and> item_at tl c = (if xs = [] then None else Some (last xs)) \<and>
         link_ok c hd \<and> link_ok c tl) \<and>
     (\<forall>a \<in> set xs. link_ok c (i_next (item a c)) \<and> link_ok c (i_prev (item a c)) \<and>
        CLEAR_FLAGS (i_item_id (item a c)) \<noteq> 0)"

text \<open>Relinking changes nothing of the cache but the two links of items.\<close>

definition relinks :: "cache \<Rightarrow> cache \<Rightarrow> bool" where
  "relinks c c' \<longleftrightarrow> (\<forall>b. item b c' = (item b c)\<lparr>i_next := i_next (item b c'), i_prev := i_prev (item b c')\<rparr>) \<and>
     c' = c\<lparr>mc_items := mc_items c'\<rparr>"

text \<open>A step on the list of \<open>area\<close> in slab \<open>k\<close>: the links of items and the ends of this list.\<close>

definition relisted :: "nat \<Rightarrow> nat \<Rightarrow> cache \<Rightarrow> cache \<Rightarrow> bool" where
  "relisted k area c c' \<longleftrightarrow>
     (\<exists>p c1. c' = upd_slab k (\<lambda>s. s\<lparr>sm_item_list := (sm_item_list s)[area := p]\<rparr>) c1 \<and> relinks c c1)"

lemma relinks_sel:
  assumes "relinks c c'"
  shows "mc_pool c' = mc_pool c" "mc_pages c' = mc_pages c" "mc_slabs c' = mc_slabs c"
    "item_at x c' = item_at x c" "i_item_id (item b c') = i_item_id (item b c)"
    "i_data (item b c') = i_data (item b c)" "i_exptime (item b c') = i_exptime (item b c)"
    "ITEM_AREA (item b c') = ITEM_AREA (item b c)" "link_ok c' x = link_ok c x" "item_ok c' b = item_ok c b"
proof -
  have it: "item b c' = (item b c)\<lparr>i_next := i_next (item b c'), i_prev := i_prev (item b c')\<rparr>" for b
    using assms by (simp add: relinks_def)
  have c': "c' = c\<lparr>mc_items := mc_items c'\<rparr>" using assms by (simp add: relinks_def)
  show p: "mc_pool c' = mc_pool c" "mc_pages c' = mc_pages c" "mc_slabs c' = mc_slabs c"
    by (subst c', simp)+
  then show at: "item_at x c' = item_at x c" for x by (simp add: item_at_def)
  show i: "i_item_id (item b c') = i_item_id (item b c)" for b by (subst it, simp)
  show "i_data (item b c') = i_data (item b c)" "i_exptime (item b c') = i_exptime (item b c)"
    "ITEM_AREA (item b c') = ITEM_AREA (item b c)" by (subst it, simp add: ITEM_AREA_def)+
  show "link_ok c' x = link_ok c x" "item_ok c' b = item_ok c b" using at i by (simp_all add: link_ok_def item_ok_def)
qed

lemma push_item_links:
  assumes "push_item a x c = Some c'"
  shows "relinks c c' \<and>
    (\<forall>b. i_next (item b c') \<in> {i_next (item b c), x} \<and> i_prev (item b c') \<in> {i_prev (item b c), 0, i_item_id (item a c)})"
  using assms
  by (auto simp: push_item_def Let_def bind_eq_Some_conv relinks_def upd_item_def split: if_splits)

lemma cut_item_links:
  assumes "cut_item a c = Some c'"
  shows "relinks c c' \<and>
    (\<forall>b. i_next (item b c') \<in> {i_next (item b c), i_next (item a c)} \<and> i_prev (item b c') \<in> {i_prev (item b c), i_prev (item a c)})"
  using assms
  by (auto simp: cut_item_def Let_def bind_eq_Some_conv relinks_def upd_item_def split: if_splits)

lemma push_item_frame:
  "push_item a x c = Some c' \<Longrightarrow> b \<noteq> a \<Longrightarrow> item_at x c \<noteq> Some b \<Longrightarrow> item b c' = item b c"
  by (auto simp: push_item_def Let_def bind_eq_Some_conv split: if_splits)

lemma cut_item_frame:
  "cut_item a c = Some c' \<Longrightarrow> item_at (i_prev (item a c)) c \<noteq> Some b \<Longrightarrow>
   item_at (i_next (item a c)) c \<noteq> Some b \<Longrightarrow> item_at (i_prev (item a c)) c \<noteq> Some a \<Longrightarrow> item b c' = item b c"
  by (auto simp: cut_item_def Let_def bind_eq_Some_conv split: if_splits)

lemma push_item_own:
  assumes "push_item a x c = Some c'" "item_at x c \<noteq> Some a"
  shows "i_next (item a c') = x \<and> i_prev (item a c') = 0"
  using assms by (auto simp: push_item_def Let_def bind_eq_Some_conv split: if_splits)

lemma link_item_eq:
  assumes "sm_item_list (slab k c) ! area = (h0, t0)" "i_item_id (item a c) \<noteq> 0" "area < TAIR_MAX_AREA_COUNT"
  shows "link_item k a area c = map_option
    (upd_slab k (\<lambda>s. s\<lparr>sm_item_list := (sm_item_list s)[area := (i_item_id (item a c), if t0 = 0 then i_item_id (item a c) else t0)]\<rparr>))
    (push_item a h0 c)"
  using assms by (simp add: link_item_def push_item_def Let_def map_option_bind comp_def)

lemma upd_item_slab: "upd_item a f (upd_slab k g c) = upd_slab k g (upd_item a f c)"
  by (simp add: upd_item_def upd_slab_def)

lemma cut_item_slab: "cut_item a (upd_slab k g c) = map_option (upd_slab k g) (cut_item a c)"
  by (auto simp: cut_item_def Let_def upd_item_slab map_option_bind comp_def split: Option.bind_splits)

lemma unlink_item_eq:
  assumes "sm_item_list (slab k c) ! area = (h0, t0)" "i_item_id (item a c) \<noteq> 0"
    "area = ITEM_AREA (item a c)" "area < TAIR_MAX_AREA_COUNT"
  shows "unlink_item k a c = map_option
    (upd_slab k (\<lambda>s. s\<lparr>sm_item_list := (sm_item_list s)[area :=
       (if itemid_equal (i_item_id (item a c)) h0 then i_next (item a c) else h0,
        if itemid_equal (i_item_id (item a c)) t0 then i_prev (item a c) else t0)]\<rparr>))
    (cut_item a c)"
  using assms unfolding cut_item_slab [symmetric]
  by (simp add: unlink_item_def cut_item_def Let_def)

lemma is_list_slab [simp]: "il.is_list (upd_slab k g c) h xs = il.is_list c h xs"
  by (simp add: il.is_list_def item_ok_def)

lemma link_ok_slab [simp]: "link_ok (upd_slab k g c) x = link_ok c x"
  by (simp add: link_ok_def)

text \<open>Linking puts the item in front of its area's list.\<close>

lemma link_item_list:
  assumes list: "item_list c k area xs" and a: "a \<notin> set xs" "item_ok c a" "CLEAR_FLAGS (i_item_id (item a c)) \<noteq> 0"
    and area: "area < TAIR_MAX_AREA_COUNT"
  shows "\<exists>c'. link_item k a area c = Some c' \<and> item_list c' k area (a # xs) \<and> relisted k area c c' \<and>
           (\<forall>b. b \<notin> set (a # xs) \<longrightarrow> item b c' = item b c)"
proof -
  obtain h0 t0 where ht: "sm_item_list (slab k c) ! area = (h0, t0)" by force
  have l: "k < length (mc_slabs c)" "area < length (sm_item_list (slab k c))"
    "il.is_list c (item_at h0 c) xs" "item_at t0 c = (if xs = [] then None else Some (last xs))"
    "link_ok c h0" "link_ok c t0"
    "\<forall>b \<in> set xs. link_ok c (i_next (item b c)) \<and> link_ok c (i_prev (item b c)) \<and> CLEAR_FLAGS (i_item_id (item b c)) \<noteq> 0"
    using list ht by (auto simp: item_list_def)
  let ?iid = "i_item_id (item a c)"
  have nz: "?iid \<noteq> 0" using a(2) by (auto simp: item_ok_def)
  from il.push_front [OF l(3) TrueI a(1,2)] obtain c1 where c1: "push_item a h0 c = Some c1"
    "il.is_list c1 (Some a) (a # xs)" by blast
  note links = push_item_links [OF c1(1)]
  note sel = relinks_sel [OF conjunct1 [OF links]]
  let ?c = "upd_slab k (\<lambda>s. s\<lparr>sm_item_list := (sm_item_list s)[area := (?iid, if t0 = 0 then ?iid else t0)]\<rparr>) c1"
  have run: "link_item k a area c = Some ?c" using link_item_eq [OF ht nz area] c1(1) by simp
  have own: "item_at ?iid c = Some a" using a(2) by (simp add: item_ok_def)
  have front: "item_at h0 c \<noteq> Some a" using l(3) a(1) by (cases xs) (auto simp: il.is_list_def)
  have lk: "link_ok c (i_next (item b c1)) \<and> link_ok c (i_prev (item b c1)) \<and> CLEAR_FLAGS (i_item_id (item b c1)) \<noteq> 0"
    if "b \<in> set (a # xs)" for b
  proof (cases "b = a")
    case True
    with push_item_own [OF c1(1) front] l(5) a(3) sel(5) show ?thesis by simp
  next
    case False
    with that have b: "b \<in> set xs" by simp
    have "i_next (item b c1) \<in> {i_next (item b c), h0}" "i_prev (item b c1) \<in> {i_prev (item b c), 0, ?iid}"
      using links by blast+
    with l(5) bspec [OF l(7) b] link_ok_own [OF a(2)] sel(5) [of b] show ?thesis by auto
  qed
  have "item_list ?c k area (a # xs)"
    using l c1(2) sel own lk link_ok_own [OF a(2)] by (auto simp: item_list_def)
  moreover have "relisted k area c ?c" using links by (auto simp: relisted_def)
  moreover have "item b ?c = item b c" if "b \<notin> set (a # xs)" for b
  proof -
    have "item_at h0 c \<noteq> Some b" using l(3) that by (cases xs) (auto simp: il.is_list_def)
    with push_item_frame [OF c1(1)] that show ?thesis by simp
  qed
  ultimately show ?thesis using run by blast
qed

text \<open>Unlinking takes the item out and leaves the order of the others.\<close>

lemma unlink_item_list:
  assumes list: "item_list c k area (xs @ a # ys)"
    and area: "area = ITEM_AREA (item a c)" "area < TAIR_MAX_AREA_COUNT"
  shows "\<exists>c'. unlink_item k a c = Some c' \<and> item_list c' k area (xs @ ys) \<and>
           relisted k area c c' \<and> (\<forall>b. b \<notin> set (xs @ ys) \<longrightarrow> item b c' = item b c)"
proof -
  obtain h0 t0 where ht: "sm_item_list (slab k c) ! area = (h0, t0)" by force
  let ?zs = "xs @ a # ys"
  have l: "k < length (mc_slabs c)" "area < length (sm_item_list (slab k c))"
    "il.is_list c (item_at h0 c) ?zs" "item_at t0 c = Some (last ?zs)" "link_ok c h0" "link_ok c t0"
    "\<forall>b \<in> set ?zs. link_ok c (i_next (item b c)) \<and> link_ok c (i_prev (item b c)) \<and> CLEAR_FLAGS (i_item_id (item b c)) \<noteq> 0"
    using list ht by (auto simp: item_list_def)
  have a: "item_ok c a" "CLEAR_FLAGS (i_item_id (item a c)) \<noteq> 0" "link_ok c (i_next (item a c))" "link_ok c (i_prev (item a c))"
    using l(3,7) by (auto simp: il.is_list_def)
  have nz: "i_item_id (item a c) \<noteq> 0" using a(1) by (auto simp: item_ok_def)
  from il.cut_out [OF l(3)] obtain c1 where c1: "cut_item a c = Some c1"
    "il.is_list c1 (if item_at h0 c = Some a then item_at (i_next (item a c)) c else item_at h0 c) (xs @ ys)" by blast
  note links = cut_item_links [OF c1(1)]
  note sel = relinks_sel [OF conjunct1 [OF links]]
  define h1 t1 where "h1 = (if itemid_equal (i_item_id (item a c)) h0 then i_next (item a c) else h0)"
    and "t1 = (if itemid_equal (i_item_id (item a c)) t0 then i_prev (item a c) else t0)"
  let ?g = "\<lambda>s. s\<lparr>sm_item_list := (sm_item_list s)[area := (h1, t1)]\<rparr>"
  have run: "unlink_item k a c = Some (upd_slab k ?g c1)"
    using unlink_item_eq [OF ht nz area] c1(1) by (simp add: h1_def t1_def)
  have dis: "dseg (\<lambda>a. item_at (i_next (item a c)) c) (\<lambda>a. item_at (i_prev (item a c)) c) None (item_at h0 c) ?zs"
    "distinct ?zs" using l(3) by (auto simp: il.is_list_def)
  have h1: "il.is_list c1 (item_at h1 c1) (xs @ ys)" "link_ok c h1"
    using c1(2) link_is [OF a(1,2) l(5)] sel(4) l(5) a(3) by (auto simp: h1_def)
  have t1: "item_at t1 c1 = (if xs @ ys = [] then None else Some (last (xs @ ys)))" "link_ok c t1"
    using link_is [OF a(1,2) l(6)] l(4,6) a(4) sel(4) dseg_neighbours(1) [OF dis] dis(2)
    by (auto simp: t1_def split: if_splits)
  have lk: "link_ok c (i_next (item b c1)) \<and> link_ok c (i_prev (item b c1)) \<and> CLEAR_FLAGS (i_item_id (item b c1)) \<noteq> 0"
    if "b \<in> set (xs @ ys)" for b
  proof -
    have "i_next (item b c1) \<in> {i_next (item b c), i_next (item a c)}" "i_prev (item b c1) \<in> {i_prev (item b c), i_prev (item a c)}"
      using links by blast+
    moreover have "b \<in> set ?zs" using that by auto
    ultimately show ?thesis using bspec [OF l(7)] a(3,4) sel(5) by auto
  qed
  have "item_list (upd_slab k ?g c1) k area (xs @ ys)"
    using l(1,2) h1 t1 lk sel by (auto simp: item_list_def)
  moreover have "relisted k area c (upd_slab k ?g c1)" using links by (auto simp: relisted_def)
  moreover have "item b (upd_slab k ?g c1) = item b c" if "b \<notin> set (xs @ ys)" for b
  proof -
    note n = dseg_neighbours [OF dis]
    have "item_at (i_prev (item a c)) c \<noteq> Some b" "item_at (i_next (item a c)) c \<noteq> Some b"
      "item_at (i_prev (item a c)) c \<noteq> Some a" "item_at (i_next (item a c)) c \<noteq> Some a"
      using n that dis(2) last_in_set [of xs] hd_in_set [of ys] by (auto split: if_splits)
    with cut_item_frame [OF c1(1)] show ?thesis by simp
  qed
  ultimately show ?thesis using run by blast
qed

text \<open>What a step on one list leaves alone.\<close>

lemma relisted_sel:
  assumes "relisted k area c c'"
  shows "mc_pool c' = mc_pool c" "mc_pages c' = mc_pages c" "length (mc_slabs c') = length (mc_slabs c)"
    "item_at x c' = item_at x c" "i_item_id (item b c') = i_item_id (item b c)" "i_data (item b c') = i_data (item b c)"
    "ITEM_AREA (item b c') = ITEM_AREA (item b c)" "link_ok c' x = link_ok c x" "item_ok c' b = item_ok c b"
    "mc_area_timestamp c' = mc_area_timestamp c" "i_h_next (item b c') = i_h_next (item b c)"
    "item b c' = (item b c)\<lparr>i_next := i_next (item b c'), i_prev := i_prev (item b c')\<rparr>"
proof -
  from assms obtain p c1 where c': "c' = upd_slab k (\<lambda>s. s\<lparr>sm_item_list := (sm_item_list s)[area := p]\<rparr>) c1"
    and r: "relinks c c1" by (auto simp: relisted_def)
  have it: "item b c1 = (item b c)\<lparr>i_next := i_next (item b c1), i_prev := i_prev (item b c1)\<rparr>" for b
    using r by (simp add: relinks_def)
  have c1: "c1 = c\<lparr>mc_items := mc_items c1\<rparr>" using r by (simp add: relinks_def)
  show "mc_pool c' = mc_pool c" "mc_pages c' = mc_pages c" "length (mc_slabs c') = length (mc_slabs c)"
    "item_at x c' = item_at x c" "i_item_id (item b c') = i_item_id (item b c)" "i_data (item b c') = i_data (item b c)"
    "ITEM_AREA (item b c') = ITEM_AREA (item b c)" "link_ok c' x = link_ok c x" "item_ok c' b = item_ok c b"
    using relinks_sel [OF r] by (simp_all add: c' item_ok_def)
  show "mc_area_timestamp c' = mc_area_timestamp c" by (simp add: c', subst c1, simp)
  show "i_h_next (item b c') = i_h_next (item b c)" by (simp add: c', subst it, simp)
  show "item b c' = (item b c)\<lparr>i_next := i_next (item b c'), i_prev := i_prev (item b c')\<rparr>"
    using it [of b] by (simp add: c')
qed

lemma relisted_slab:
  assumes "relisted k area c c'"
  shows "\<exists>p. slab j c' = (if j = k \<and> k < length (mc_slabs c)
      then (slab j c)\<lparr>sm_item_list := (sm_item_list (slab j c))[area := p]\<rparr> else slab j c)"
proof -
  from assms obtain p c1 where c': "c' = upd_slab k (\<lambda>s. s\<lparr>sm_item_list := (sm_item_list s)[area := p]\<rparr>) c1"
    and r: "relinks c c1" by (auto simp: relisted_def)
  show ?thesis
    by (rule exI [of _ p], cases "k < length (mc_slabs c)") (simp_all add: c' relinks_sel(3) [OF r] nth_list_update list_update_beyond)
qed

lemma item_list_cong:
  assumes list: "item_list c k area xs" and c': "psz c' = psz c" "k < length (mc_slabs c')"
      "area < length (sm_item_list (slab k c'))" "sm_item_list (slab k c') ! area = sm_item_list (slab k c) ! area"
    and it: "\<And>b. b \<in> set xs \<Longrightarrow> i_next (item b c') = i_next (item b c) \<and> i_prev (item b c') = i_prev (item b c) \<and>
      itemid_equal (i_item_id (item b c')) (i_item_id (item b c)) \<and> i_item_id (item b c') \<noteq> 0"
  shows "item_list c' k area xs"
proof -
  obtain h0 t0 where ht: "sm_item_list (slab k c) ! area = (h0, t0)" by force
  have l: "il.is_list c (item_at h0 c) xs" "item_at t0 c = (if xs = [] then None else Some (last xs))"
    "link_ok c h0" "link_ok c t0"
    "\<forall>b \<in> set xs. link_ok c (i_next (item b c)) \<and> link_ok c (i_prev (item b c)) \<and> CLEAR_FLAGS (i_item_id (item b c)) \<noteq> 0"
    using list ht by (auto simp: item_list_def)
  have at: "item_at x c' = item_at x c" for x using c'(1) by (simp add: item_at_def)
  have okb: "item_ok c' b" if "b \<in> set xs" for b
  proof -
    have "item_ok c b" "i_item_id (item b c) \<noteq> 0" using that l(1,5) by (auto simp: il.is_list_def CLEAR_FLAGS_def)
    then show ?thesis using it [OF that] item_at_flags [of "i_item_id (item b c')" "i_item_id (item b c)" c]
      by (simp add: item_ok_def at itemid_equal_iff)
  qed
  have "il.is_list c' (item_at h0 c') xs = il.is_list c (item_at h0 c) xs"
    unfolding at by (rule il.is_list_cong) (use it okb l(1) in \<open>auto simp: at il.is_list_def\<close>)
  moreover have lk: "link_ok c' x" if "link_ok c x" "\<And>b. item_at x c = Some b \<Longrightarrow> b \<in> set xs" for x
    using that it by (force simp: link_ok_def at itemid_equal_iff)
  have dis: "dseg (\<lambda>a. item_at (i_next (item a c)) c) (\<lambda>a. item_at (i_prev (item a c)) c) None (item_at h0 c) xs" "distinct xs"
    using l(1) by (auto simp: il.is_list_def)
  have near: "(item_at (i_next (item b c)) c = Some y \<longrightarrow> y \<in> set xs) \<and> (item_at (i_prev (item b c)) c = Some y \<longrightarrow> y \<in> set xs)"
    if "b \<in> set xs" for b y
  proof -
    from that obtain us vs where x: "xs = us @ b # vs" by (meson split_list)
    from dseg_neighbours [OF dis [unfolded x]] show ?thesis
      using last_in_set [of us] hd_in_set [of vs] by (auto simp: x split: if_splits)
  qed
  have "link_ok c' h0" "link_ok c' t0"
    using lk [OF l(3)] lk [OF l(4)] l(1,2) by (cases xs; auto simp: il.is_list_def split: if_splits)+
  moreover have "link_ok c' (i_next (item b c')) \<and> link_ok c' (i_prev (item b c')) \<and> CLEAR_FLAGS (i_item_id (item b c')) \<noteq> 0"
    if "b \<in> set xs" for b
    using that lk l(5) near [OF that] it [OF that] by (auto simp: itemid_equal_iff)
  ultimately show ?thesis using c' l(1,2) ht by (auto simp: item_list_def at)
qed

text \<open>A list is not touched by a step on another one.\<close>

lemma item_list_other:
  assumes "relisted k area c c'" "item_list c j ar zs" "(j, ar) \<noteq> (k, area)"
    and "\<And>b. b \<in> set zs \<Longrightarrow> item b c' = item b c"
  shows "item_list c' j ar zs"
proof -
  obtain p where p: "slab j c' = (if j = k \<and> k < length (mc_slabs c)
      then (slab j c)\<lparr>sm_item_list := (sm_item_list (slab j c))[area := p]\<rparr> else slab j c)"
    using relisted_slab [OF assms(1)] by blast
  show ?thesis
  proof (rule item_list_cong [OF assms(2)])
    show "psz c' = psz c" using relisted_sel(1) [OF assms(1)] by simp
    show "j < length (mc_slabs c')" using assms(2) relisted_sel(3) [OF assms(1)] by (simp add: item_list_def)
    show "ar < length (sm_item_list (slab j c'))" using assms(2) p by (auto simp: item_list_def)
    show "sm_item_list (slab j c') ! ar = sm_item_list (slab j c) ! ar" using assms(3) p by (auto simp: nth_list_update)
    show "i_next (item b c') = i_next (item b c) \<and> i_prev (item b c') = i_prev (item b c) \<and>
        itemid_equal (i_item_id (item b c')) (i_item_id (item b c)) \<and> i_item_id (item b c') \<noteq> 0" if "b \<in> set zs" for b
      using assms(4) [OF that] that assms(2) by (auto simp: item_list_def itemid_equal_def CLEAR_FLAGS_def)
  qed
qed

subsection \<open>All the lists of items\<close>

text \<open>
  \<open>IL (k, area)\<close> is the list of \<open>area\<close> in slab \<open>k\<close>, the most recently used item first. The steps
  on a list change its ends and the two links of items, and nothing else of the cache.
\<close>

definition item_lists :: "cache \<Rightarrow> (nat \<times> nat \<Rightarrow> nat list) \<Rightarrow> bool" where
  "item_lists c IL \<longleftrightarrow>
     (\<forall>k ar. if k < length (mc_slabs c) \<and> ar < TAIR_MAX_AREA_COUNT then item_list c k ar (IL (k, ar)) else IL (k, ar) = []) \<and>
     (\<forall>p q. p \<noteq> q \<longrightarrow> set (IL p) \<inter> set (IL q) = {})"

definition lists_only :: "cache \<Rightarrow> cache \<Rightarrow> bool" where
  "lists_only c c' \<longleftrightarrow> mc_pool c' = mc_pool c \<and> mc_pages c' = mc_pages c \<and> mc_area_timestamp c' = mc_area_timestamp c \<and>
     length (mc_slabs c') = length (mc_slabs c) \<and>
     (\<forall>j. slab j c' = (slab j c)\<lparr>sm_item_list := sm_item_list (slab j c')\<rparr>) \<and>
     (\<forall>b. item b c' = (item b c)\<lparr>i_next := i_next (item b c'), i_prev := i_prev (item b c')\<rparr>)"

lemma relisted_only:
  assumes "relisted k area c c'"
  shows "lists_only c c'"
proof -
  have "slab j c' = (slab j c)\<lparr>sm_item_list := sm_item_list (slab j c')\<rparr>" for j
    using relisted_slab [OF assms, of j] by auto
  then show ?thesis using relisted_sel [OF assms] by (simp add: lists_only_def)
qed

lemma lists_only_trans:
  assumes "lists_only c c1" "lists_only c1 c2"
  shows "lists_only c c2"
proof -
  have "slab j c2 = (slab j c)\<lparr>sm_item_list := sm_item_list (slab j c2)\<rparr>" for j
  proof -
    have "\<exists>L. slab j c1 = (slab j c)\<lparr>sm_item_list := L\<rparr>" "\<exists>L. slab j c2 = (slab j c1)\<lparr>sm_item_list := L\<rparr>"
      using assms unfolding lists_only_def by blast+
    then show ?thesis by auto
  qed
  moreover have "item b c2 = (item b c)\<lparr>i_next := i_next (item b c2), i_prev := i_prev (item b c2)\<rparr>" for b
  proof -
    have "\<exists>x y. item b c1 = (item b c)\<lparr>i_next := x, i_prev := y\<rparr>" "\<exists>x y. item b c2 = (item b c1)\<lparr>i_next := x, i_prev := y\<rparr>"
      using assms unfolding lists_only_def by blast+
    then show ?thesis by auto
  qed
  ultimately show ?thesis using assms by (simp add: lists_only_def)
qed

lemma item_lists_step:
  assumes IL: "item_lists c IL" and rel: "relisted k area c c'" and q: "k < length (mc_slabs c)" "area < TAIR_MAX_AREA_COUNT"
    and list: "item_list c' k area zs" and frame: "\<And>b. b \<notin> insert a (set (IL (k, area))) \<Longrightarrow> item b c' = item b c"
    and zs: "set zs \<subseteq> insert a (set (IL (k, area)))" and a: "\<And>p. p \<noteq> (k, area) \<Longrightarrow> a \<notin> set (IL p)"
  shows "item_lists c' (IL((k, area) := zs))"
proof -
  have len: "length (mc_slabs c') = length (mc_slabs c)" using relisted_sel(3) [OF rel] .
  have dis: "set (IL p) \<inter> set (IL r) = {}" if "p \<noteq> r" for p r using IL that unfolding item_lists_def by blast
  have "item_list c' j ar (IL (j, ar))" if "j < length (mc_slabs c)" "ar < TAIR_MAX_AREA_COUNT" "(j, ar) \<noteq> (k, area)" for j ar
  proof (rule item_list_other [OF rel _ that(3)])
    show "item_list c j ar (IL (j, ar))" using IL that(1,2) unfolding item_lists_def by metis
    show "item b c' = item b c" if "b \<in> set (IL (j, ar))" for b
      using that dis [OF \<open>(j, ar) \<noteq> (k, area)\<close>] a [OF \<open>(j, ar) \<noteq> (k, area)\<close>] by (intro frame) auto
  qed
  moreover have "set zs \<inter> set (IL p) = {}" if "p \<noteq> (k, area)" for p using zs dis [OF that] a [OF that] by blast
  moreover have "IL (j, ar) = []" if "\<not> (j < length (mc_slabs c) \<and> ar < TAIR_MAX_AREA_COUNT)" for j ar
    using IL that unfolding item_lists_def by meson
  ultimately show ?thesis using list dis q unfolding item_lists_def len by (auto simp: Int_commute)
qed

lemma item_lists_at:
  "item_lists c IL \<Longrightarrow> k < length (mc_slabs c) \<Longrightarrow> area < TAIR_MAX_AREA_COUNT \<Longrightarrow> item_list c k area (IL (k, area))"
  unfolding item_lists_def by meson

lemma item_lists_mem:
  assumes "item_lists c IL" "a \<in> set (IL (k, area))"
  shows "k < length (mc_slabs c)" "area < TAIR_MAX_AREA_COUNT" "item_ok c a" "CLEAR_FLAGS (i_item_id (item a c)) \<noteq> 0"
    "distinct (IL (k, area))" "\<And>p. p \<noteq> (k, area) \<Longrightarrow> a \<notin> set (IL p)"
proof -
  have "IL (k, area) \<noteq> []" using assms(2) by auto
  then show r: "k < length (mc_slabs c)" "area < TAIR_MAX_AREA_COUNT" using assms(1) unfolding item_lists_def by metis+
  from item_lists_at [OF assms(1) r] assms(2)
  show "item_ok c a" "CLEAR_FLAGS (i_item_id (item a c)) \<noteq> 0" "distinct (IL (k, area))"
    by (auto simp: item_list_def il.is_list_def)
  show "a \<notin> set (IL p)" if "p \<noteq> (k, area)" for p using assms that unfolding item_lists_def by blast
qed

lemma link_item_lists:
  assumes IL: "item_lists c IL" and q: "k < length (mc_slabs c)" "area < TAIR_MAX_AREA_COUNT"
    and a: "\<And>p. a \<notin> set (IL p)" "item_ok c a" "CLEAR_FLAGS (i_item_id (item a c)) \<noteq> 0"
  shows "\<exists>c'. link_item k a area c = Some c' \<and> item_lists c' (IL((k, area) := a # IL (k, area))) \<and> lists_only c c'"
proof -
  from link_item_list [OF item_lists_at [OF IL q] a q(2)] obtain c' where c': "link_item k a area c = Some c'"
    "item_list c' k area (a # IL (k, area))" "relisted k area c c'"
    "\<forall>b. b \<notin> set (a # IL (k, area)) \<longrightarrow> item b c' = item b c" by blast
  have "item_lists c' (IL((k, area) := a # IL (k, area)))"
    by (rule item_lists_step [OF IL c'(3) q c'(2), where a = a]) (use c'(4) a(1) in auto)
  with c' relisted_only show ?thesis by blast
qed

lemma unlink_item_lists:
  assumes IL: "item_lists c IL" and a: "a \<in> set (IL (k, ITEM_AREA (item a c)))"
  defines "area \<equiv> ITEM_AREA (item a c)"
  shows "\<exists>c'. unlink_item k a c = Some c' \<and> item_lists c' (IL((k, area) := remove1 a (IL (k, area)))) \<and> lists_only c c'"
proof -
  note m = item_lists_mem [OF IL a]
  have q: "k < length (mc_slabs c)" "area < TAIR_MAX_AREA_COUNT" using m(1,2) by (simp_all add: area_def)
  from a obtain xs ys where l: "IL (k, area) = xs @ a # ys" unfolding area_def by (meson split_list)
  have r: "remove1 a (IL (k, area)) = xs @ ys" using m(5) l by (auto simp: area_def [symmetric] remove1_append)
  have "item_list c k area (xs @ a # ys)" using item_lists_at [OF IL q] l by simp
  from unlink_item_list [OF this area_def [THEN meta_eq_to_obj_eq] q(2)] obtain c' where c': "unlink_item k a c = Some c'"
    "item_list c' k area (xs @ ys)" "relisted k area c c'" "\<forall>b. b \<notin> set (xs @ ys) \<longrightarrow> item b c' = item b c" by blast
  have "item_lists c' (IL((k, area) := remove1 a (IL (k, area))))"
    unfolding r by (rule item_lists_step [OF IL c'(3) q c'(2), where a = a]) (use c'(4) m(6) l in \<open>auto simp: area_def\<close>)
  with c' relisted_only show ?thesis by blast
qed

lemma lists_only_sel:
  assumes "lists_only c c'"
  shows "mc_pool c' = mc_pool c" "mc_pages c' = mc_pages c" "mc_area_timestamp c' = mc_area_timestamp c"
    "length (mc_slabs c') = length (mc_slabs c)" "item_at x c' = item_at x c" "item_ok c' b = item_ok c b"
    "i_item_id (item b c') = i_item_id (item b c)" "i_data (item b c') = i_data (item b c)"
    "i_h_next (item b c') = i_h_next (item b c)" "ITEM_AREA (item b c') = ITEM_AREA (item b c)"
proof -
  show p: "mc_pool c' = mc_pool c" "mc_pages c' = mc_pages c" "mc_area_timestamp c' = mc_area_timestamp c"
    "length (mc_slabs c') = length (mc_slabs c)" using assms by (simp_all add: lists_only_def)
  have it: "item b c' = (item b c)\<lparr>i_next := i_next (item b c'), i_prev := i_prev (item b c')\<rparr>" for b
    using assms by (simp add: lists_only_def)
  show at: "item_at x c' = item_at x c" for x using p by (simp add: item_at_def)
  show i: "i_item_id (item b c') = i_item_id (item b c)" "i_data (item b c') = i_data (item b c)"
    "i_h_next (item b c') = i_h_next (item b c)" by (subst it, simp)+
  show "ITEM_AREA (item b c') = ITEM_AREA (item b c)" by (simp add: ITEM_AREA_def i)
  show "item_ok c' b = item_ok c b" by (simp add: item_ok_def at i)
qed

text \<open>
  \<open>sm_update_item\<close> moves an item to the front of the list of \<open>area\<close>: of its own area when it is used,
  of another one when it is evicted for that area.
\<close>

lemma sm_update_item_lists:
  assumes IL: "item_lists c IL" and a: "a \<in> set (IL (k, ITEM_AREA (item a c)))" and area: "area < TAIR_MAX_AREA_COUNT"
  defines "IL1 \<equiv> IL((k, ITEM_AREA (item a c)) := remove1 a (IL (k, ITEM_AREA (item a c))))"
  shows "\<exists>c'. sm_update_item k a area c = Some c' \<and> item_lists c' (IL1((k, area) := a # IL1 (k, area))) \<and> lists_only c c'"
proof -
  note m = item_lists_mem [OF IL a]
  from unlink_item_lists [OF IL a] obtain c1 where c1: "unlink_item k a c = Some c1" "item_lists c1 IL1" "lists_only c c1"
    by (auto simp: IL1_def)
  note sel = lists_only_sel [OF c1(3)]
  have "k < length (mc_slabs c1)" "\<And>p. a \<notin> set (IL1 p)" "item_ok c1 a" "CLEAR_FLAGS (i_item_id (item a c1)) \<noteq> 0"
    using m sel by (auto simp: IL1_def)
  from link_item_lists [OF c1(2) this(1) area this(2-4)] obtain c2 where c2: "link_item k a area c1 = Some c2"
    "item_lists c2 (IL1((k, area) := a # IL1 (k, area)))" "lists_only c1 c2" by blast
  with c1 lists_only_trans [OF c1(3) c2(3)] show ?thesis by (auto simp: sm_update_item_def)
qed

subsection \<open>Eviction\<close>

definition expired_at :: "u32 \<Rightarrow> cache \<Rightarrow> nat \<Rightarrow> bool" where
  "expired_at now c a \<longleftrightarrow> 0 < i_exptime (item a c) \<and> i_exptime (item a c) < now"

lemma find_expired_spec:
  assumes "il.is_list c h (xs @ ys)" "item_at pos c = (if xs = [] then None else Some (last xs))"
  shows "find_expired n now pos c = Some (find (expired_at now c) (take n (rev xs)))"
  using assms
proof (induction n arbitrary: xs ys pos)
  case (Suc n)
  show ?case
  proof (cases xs rule: rev_cases)
    case Nil
    with Suc.prems show ?thesis by auto
  next
    case (snoc zs a)
    have "item_at (i_prev (item a c)) c = (if zs = [] then None else Some (last zs))"
      using Suc.prems(1) snoc dseg_neighbours(1) [of _ _ h zs a ys] by (auto simp: il.is_list_def)
    with Suc.IH [of zs "a # ys"] Suc.prems snoc show ?thesis
      by (auto simp: expired_at_def)
  qed
qed simp
end
