(* ===== verification/Mdb_Theorems.thy ===== *)
theory Mdb_Theorems
  imports Mdb_Manager Mdb_Lists
begin

section \<open>Properties of the cache\<close>

text \<open>
  The properties of the manager's operations over the components below it.
\<close>

text \<open>A cache that holds one item.\<close>

lemma lone_table_rep:
  "hm_rep 1048576 (hm_insert lone_addr (small_table, \<lambda>_. lone_item)) (Map.empty(lone_key \<mapsto> lone_addr))"
  and lone_table_items: "ITEM_KEY (snd (hm_insert lone_addr (small_table, \<lambda>_. lone_item)) a) = lone_key"
proof -
  have k: "ITEM_KEY lone_item = lone_key" by (simp add: lone_item_def ITEM_KEY_def lone_key_def)
  have *: "hm_rep 1048576 (hm_insert lone_addr (small_table, \<lambda>_. lone_item)) (Map.empty(lone_key \<mapsto> lone_addr)) \<and>
      relinked (\<lambda>_. lone_item) (snd (hm_insert lone_addr (small_table, \<lambda>_. lone_item)))"
    using hm_insert_rep [OF small_table_rep, of lone_addr 1048576] lone_hashable
    by (simp add: hashable_def item_key_of_def k)
  then show "hm_rep 1048576 (hm_insert lone_addr (small_table, \<lambda>_. lone_item)) (Map.empty(lone_key \<mapsto> lone_addr))"
    by blast
  from * show "ITEM_KEY (snd (hm_insert lone_addr (small_table, \<lambda>_. lone_item)) a) = lone_key"
    using relinked_sel(4) k by metis
qed

definition lone_cache :: mdb where
  "lone_cache = \<lparr>md_cache = \<lparr>mc_pool = blank_pool\<lparr>mp_page_size := 1048576\<rparr>,
       mc_pages = \<lambda>_. \<lparr>pi_id = 0, pi_free_nr = 0, pi_next = 0, pi_prev = 0, pi_free_head = 0\<rparr>,
       mc_items = snd (hm_insert lone_addr (small_table, \<lambda>_. lone_item)), mc_slabs = [],
       mc_area_timestamp = replicate TAIR_MAX_AREA_COUNT 0\<rparr>,
     md_hash = fst (hm_insert lone_addr (small_table, \<lambda>_. lone_item)),
     md_stat = replicate TAIR_MAX_AREA_COUNT as_reset, md_bucket_count = 1023,
     md_last_balance_time = 0, md_last_expd_time = 0\<rparr>"

lemma lone_cache_rep: "hm_rep (dpsz lone_cache) (index_of lone_cache) (Map.empty(lone_key \<mapsto> lone_addr))"
  using lone_table_rep by (simp add: lone_cache_def index_of_def blank_pool_def)

text \<open>
  C29. A put that is refused changes nothing. When the entry for the key is locked and the caller does
  not unlock it, the result is \<open>TAIR_RETURN_LOCK_EXIST\<close>; when it is not expired, versions are to
  be respected and the caller names a version that is not the entry's, the result is
  \<open>TAIR_RETURN_VERSION_ERROR\<close>; either way the cache is as before.
\<close>

theorem refused_put_changes_nothing:
  fixes d :: mdb and key data :: data_entry
  assumes "hm_rep (dpsz d) (index_of d) m" "m (de_data key) = Some a"
  defines "locked \<equiv> de_server_flag data AND TAIR_OPERATION_UNLOCK = 0 \<and>
      test_flag (ITEM_FLAGS (i_item_id (it_of a d))) TAIR_ITEM_FLAG_LOCKED"
  assumes "locked \<or> \<not> is_item_expired (it_of a d) now d \<and> version_care \<and>
      me_version (de_meta key) \<noteq> 0 \<and> me_version (de_meta key) \<noteq> i_version (it_of a d)"
  shows "\<exists>key'. do_put key data version_care expired now d =
           Some (if locked then TAIR_RETURN_LOCK_EXIST else TAIR_RETURN_VERSION_ERROR, key', d)"
proof -
  have "de_data key \<noteq> []" using assms(1,2) by (auto simp: hm_rep_def)
  then have "md_find (de_data key) d = Some (Some a)"
    using hm_find_rep [OF assms(1)] assms(2) by (simp add: md_find_def)
  moreover have "put_over key' data version_care now a d =
      Some (Inl (if locked then TAIR_RETURN_LOCK_EXIST else TAIR_RETURN_VERSION_ERROR))"
    if "de_meta key' = de_meta key" for key'
    using assms(4) that by (auto simp: put_over_def Let_def locked_def)
  ultimately show ?thesis by (auto simp: do_put_def Let_def de_data_def)
qed

theorem refused_put_changes_nothing_witness:
  "\<exists>key'. do_put ((merge_area 1 (new_entry ''k'' True))\<lparr>de_meta := blank_meta\<lparr>me_version := 7\<rparr>\<rparr>) (new_entry ''x'' True) True 0 5 lone_cache =
     Some (TAIR_RETURN_VERSION_ERROR, key', lone_cache)"
proof -
  let ?key = "(merge_area 1 (new_entry ''k'' True))\<lparr>de_meta := blank_meta\<lparr>me_version := 7\<rparr>\<rparr>"
  have dk: "de_data ?key = lone_key"
    using char_of_char [of "CHR 0x01", where 'a = nat] char_of_char [of "CHR 0x00", where 'a = nat]
    by (simp add: merge_area_def new_entry_def set_data_def free_data_def de_init_def de_data_def de_size_def
        area_bytes_def Let_def lone_key_def)
  have it: "it_of lone_addr lone_cache = lone_item\<lparr>i_h_next := 0\<rparr>"
    using get_bucket_index_less [of 4 2 "ITEM_KEY lone_item"]
    by (simp add: lone_cache_def hm_insert_def Let_def small_table_def)
  have flags: "\<not> test_flag (ITEM_FLAGS (i_item_id (it_of lone_addr lone_cache))) TAIR_ITEM_FLAG_LOCKED"
    using ITEM_ID_fields(5) [of 64 0 1 0] by (simp add: it test_flag_def lone_item_def)
  have ts: "mc_area_timestamp (md_cache lone_cache) = replicate 100 0"
    by (simp add: lone_cache_def TAIR_MAX_AREA_COUNT_def)
  have ex1: "\<not> is_item_expired (it_of lone_addr lone_cache) 5 lone_cache"
    unfolding is_item_expired_def it get_area_timestamp_def ts
    by (simp add: lone_item_def ITEM_AREA_def KEY_AREA_def byte_at_def lone_key_def)
  show ?thesis
    using refused_put_changes_nothing [OF lone_cache_rep, of ?key lone_addr "new_entry ''x'' True" 5 True 0] dk ex1 flags
    by (simp add: it lone_item_def)
qed

text \<open>
  C30. A get of a key that is not in the cache says so and changes nothing but the area's count of
  gets.
\<close>

theorem get_of_missing_key:
  assumes "hm_rep (dpsz d) (index_of d) m" "m (de_data key) = None" "de_data key \<noteq> []"
    and "unat (de_area key) < length (md_stat d)"
  shows "do_get key data True now d =
    Some (TAIR_RETURN_DATA_NOT_EXIST, key, data,
      d\<lparr>md_stat := (md_stat d)[unat (de_area key) := (md_stat d ! unat (de_area key))
          \<lparr>as_get_count := as_get_count (md_stat d ! unat (de_area key)) + 1\<rparr>]\<rparr>)"
  using hm_find_rep [OF assms(1,3)] assms(2,4)
  by (simp add: do_get_def remove_if_expired_def md_find_def upd_stat_def Let_def)

theorem get_of_missing_key_witness:
  "\<exists>d'. do_get (merge_area 2 (new_entry ''k'' True)) de_init True 5 lone_cache =
     Some (TAIR_RETURN_DATA_NOT_EXIST, merge_area 2 (new_entry ''k'' True), de_init, d') \<and>
     md_cache d' = md_cache lone_cache"
proof -
  let ?key = "merge_area 2 (new_entry ''k'' True)"
  have "de_data ?key = [char_of (2 :: nat), CHR 0x00, CHR ''k'']" "de_area ?key = 2"
    using char_of_char [of "CHR 0x00", where 'a = nat]
    by (simp_all add: merge_area_def new_entry_def set_data_def free_data_def de_init_def de_data_def de_size_def
        area_bytes_def Let_def)
  moreover have "char_of (2 :: nat) \<noteq> CHR 0x01"
  proof
    assume "char_of (2 :: nat) = CHR 0x01"
    then have "of_char (char_of (2 :: nat)) = (1 :: nat)" by simp
    then show False by simp
  qed
  ultimately show ?thesis
    using get_of_missing_key [OF lone_cache_rep, of ?key de_init 5]
    by (simp add: lone_key_def lone_cache_def TAIR_MAX_AREA_COUNT_def)
qed
end
