(* ===== verification/Mdb_Pages.thy ===== *)
theory Mdb_Pages
  imports Mdb_Lists
begin

section \<open>The page lists of the slabs\<close>

text \<open>
  Every slab keeps its pages in the list of full pages, the list of free pages, and one list of partly
  used pages for each bucket. All these lists are disjoint; this theory follows them, with the counts
  and the index of the first bucket in use, through \<open>link_page\<close>, \<open>unlink_page\<close>,
  \<open>link_partial_page\<close> and \<open>unlink_partial_page\<close>.
\<close>

datatype plist = Full nat | Free nat | Part nat nat

definition phead :: "cache \<Rightarrow> plist \<Rightarrow> nat" where
  "phead c q = (case q of
       Full k \<Rightarrow> if k < length (mc_slabs c) then sm_full_pages (slab k c) else 0
     | Free k \<Rightarrow> if k < length (mc_slabs c) then sm_free_pages (slab k c) else 0
     | Part k b \<Rightarrow> if k < length (mc_slabs c) \<and> b < length (sm_partial_pages (slab k c))
                   then sm_partial_pages (slab k c) ! b else 0)"

definition page_lists :: "cache \<Rightarrow> (plist \<Rightarrow> nat list) \<Rightarrow> bool" where
  "page_lists c PL \<longleftrightarrow> pl.family c (\<lambda>q. page_ref c (phead c q)) PL"

definition repage :: "cache \<Rightarrow> cache \<Rightarrow> bool" where
  "repage c c' \<longleftrightarrow> c' = c\<lparr>mc_pages := mc_pages c'\<rparr> \<and>
     (\<forall>j. page j c' = (page j c)\<lparr>pi_next := pi_next (page j c'), pi_prev := pi_prev (page j c')\<rparr>)"

lemma repage_sel:
  assumes "repage c c'"
  shows "mc_pool c' = mc_pool c" "mc_items c' = mc_items c" "mc_slabs c' = mc_slabs c"
    "mc_area_timestamp c' = mc_area_timestamp c" "pi_id (page j c') = pi_id (page j c)"
    "pi_free_nr (page j c') = pi_free_nr (page j c)" "pi_free_head (page j c') = pi_free_head (page j c)"
proof -
  have c': "c' = c\<lparr>mc_pages := mc_pages c'\<rparr>"
    and p: "page j c' = (page j c)\<lparr>pi_next := pi_next (page j c'), pi_prev := pi_prev (page j c')\<rparr>" for j
    using assms by (simp_all add: repage_def)
  show "mc_pool c' = mc_pool c" "mc_items c' = mc_items c" "mc_slabs c' = mc_slabs c"
    "mc_area_timestamp c' = mc_area_timestamp c" by (subst c', simp)+
  show "pi_id (page j c') = pi_id (page j c)" "pi_free_nr (page j c') = pi_free_nr (page j c)"
    "pi_free_head (page j c') = pi_free_head (page j c)" by (subst p, simp)+
qed

lemma link_page_repage: "link_page i h c = Some (r, c') \<Longrightarrow> r = pi_id (page i c) \<and> repage c c'"
  by (auto simp: link_page_def Let_def bind_eq_Some_conv repage_def upd_page_def split: if_splits)

lemma unlink_page_repage: "unlink_page i h c = Some (r, c') \<Longrightarrow> repage c c'"
  by (auto simp: unlink_page_def Let_def bind_eq_Some_conv repage_def upd_page_def split: if_splits)

lemma family_cong:
  assumes "mc_pages c' = mc_pages c" "mc_pool c' = mc_pool c"
  shows "pl.family c' h PL = pl.family c h PL"
proof -
  have "pl.is_list c' (h q) (PL q) = pl.is_list c (h q) (PL q)" for q
    by (rule pl.is_list_cong) (simp add: assms page_ref_def page_ok_def page_at_def)
  then show ?thesis by (simp add: pl.family_def)
qed

lemma page_ref_iff: "page_ref c i = None \<longleftrightarrow> i = 0" "page_ref c i = Some j \<longleftrightarrow> i = j \<and> j \<noteq> 0"
  by (auto simp: page_ref_def)

lemma page_ref_indep: "page_ref c' = page_ref c"
  by (simp add: page_ref_def fun_eq_iff)

lemma page_lists_cong:
  assumes "mc_pages c' = mc_pages c" "mc_pool c' = mc_pool c" "phead c' = phead c"
  shows "page_lists c' PL = page_lists c PL"
  unfolding page_lists_def assms(3) page_ref_indep [of c' c] by (rule family_cong [OF assms(1,2)])

lemma page_lists_head:
  assumes "page_lists c PL"
  shows "phead c q = 0 \<longleftrightarrow> PL q = []" "PL q = i # is \<Longrightarrow> phead c q = i" "page_good c (phead c q)"
    "i \<in> set (PL q) \<Longrightarrow> page_ok c i" "distinct (PL q)"
proof -
  have l: "pl.is_list c (page_ref c (phead c q)) (PL q)" using assms by (simp add: page_lists_def pl.family_def)
  then have h: "page_ref c (phead c q) = (case PL q of [] \<Rightarrow> None | i # is \<Rightarrow> Some i)" and ok: "\<forall>i \<in> set (PL q). page_ok c i"
    by (auto simp: pl.is_list_def split: list.split)
  show "distinct (PL q)" using l by (simp add: pl.is_list_def)
  show "i \<in> set (PL q) \<Longrightarrow> page_ok c i" using ok by blast
  show "phead c q = 0 \<longleftrightarrow> PL q = []" using h by (cases "PL q") (auto simp: page_ref_iff)
  show "PL q = i # is \<Longrightarrow> phead c q = i" using h by (simp add: page_ref_iff)
  show "page_good c (phead c q)" using h ok by (cases "PL q") (auto simp: page_ref_iff page_good_def)
qed

lemma page_lists_dis: "page_lists c PL \<Longrightarrow> i \<in> set (PL q) \<Longrightarrow> i \<in> set (PL r) \<Longrightarrow> q = r"
  unfolding page_lists_def pl.family_def by blast

text \<open>One step on one of the lists; the caller stores the new head in the slab.\<close>

lemma link_page_lists:
  assumes PL: "page_lists c PL" and i: "page_ok c i" "\<And>r. i \<notin> set (PL r)"
  shows "\<exists>c1. link_page i (phead c q) c = Some (i, c1) \<and> repage c c1 \<and>
    (\<forall>c2. mc_pages c2 = mc_pages c1 \<longrightarrow> mc_pool c2 = mc_pool c \<longrightarrow> phead c2 = (phead c)(q := i) \<longrightarrow>
       page_lists c2 (PL(q := i # PL q)))"
proof -
  from pl.push_family [OF PL [unfolded page_lists_def] _ page_lists_head(3) [OF PL] i, of q q] obtain c1 where
    c1: "push_page i (phead c q) c = Some c1"
      "pl.family c1 ((\<lambda>q. page_ref c (phead c q))(q := Some i)) (PL(q := i # PL q))" by blast
  then obtain r where r: "link_page i (phead c q) c = Some (r, c1)" by (auto simp: push_page_def)
  from link_page_repage [OF r] i(1) have r': "r = i" "repage c c1" by (auto simp: page_ok_def)
  have "page_lists c2 (PL(q := i # PL q))"
    if "mc_pages c2 = mc_pages c1" "mc_pool c2 = mc_pool c" "phead c2 = (phead c)(q := i)" for c2
  proof -
    have "(\<lambda>q. page_ref c (phead c q))(q := Some i) = (\<lambda>q. page_ref c2 (phead c2 q))"
      using that(3) i(1) by (auto simp: page_ref_def page_ok_def fun_eq_iff)
    with c1(2) show ?thesis
      unfolding page_lists_def by (subst family_cong [of c2 c1]) (use that repage_sel(1) [OF r'(2)] in simp_all)
  qed
  with r r' show ?thesis by blast
qed

lemma unlink_page_lists:
  assumes PL: "page_lists c PL" and i: "i \<in> set (PL q)"
  shows "\<exists>h c1. unlink_page i (phead c q) c = Some (h, c1) \<and> repage c c1 \<and> (h = 0 \<longleftrightarrow> remove1 i (PL q) = []) \<and>
    (\<forall>c2. mc_pages c2 = mc_pages c1 \<longrightarrow> mc_pool c2 = mc_pool c \<longrightarrow> phead c2 = (phead c)(q := h) \<longrightarrow>
       page_lists c2 (PL(q := remove1 i (PL q))))"
proof -
  from i obtain xs ys where l: "PL q = xs @ i # ys" by (meson split_list)
  have "distinct (PL q)" by (rule page_lists_head(5) [OF PL])
  then have r: "remove1 i (PL q) = xs @ ys" using l by (auto simp: remove1_append)
  have ok: "page_ok c i" by (rule page_lists_head(4) [OF PL i])
  from pl.cut_family [OF PL [unfolded page_lists_def] l] obtain c1 where c1: "cut_page i c = Some c1"
    "pl.family c1 ((\<lambda>q. page_ref c (phead c q))(q := if page_ref c (phead c q) = Some i
       then page_ref c (pi_next (page i c)) else page_ref c (phead c q))) (PL(q := xs @ ys))" by blast
  define h where "h = (if phead c q = i then pi_next (page i c) else phead c q)"
  from c1(1) obtain z where "unlink_page i 0 c = Some (z, c1)" by (auto simp: cut_page_def)
  then have run: "unlink_page i (phead c q) c = Some (h, c1)"
    using ok unlink_page_head [of i "phead c q" c] by (simp add: page_ok_def h_def)
  note rp = unlink_page_repage [OF run]
  have heads: "(\<lambda>q. page_ref c (phead c q))(q := if page_ref c (phead c q) = Some i
       then page_ref c (pi_next (page i c)) else page_ref c (phead c q)) = (\<lambda>r. page_ref c (((phead c)(q := h)) r))"
    using ok by (simp add: page_ref_def h_def page_ok_def fun_eq_iff)
  have "\<forall>r. pl.is_list c1 (page_ref c (((phead c)(q := h)) r)) ((PL(q := xs @ ys)) r)"
    using c1(2) unfolding heads pl.family_def by (rule conjunct1)
  from spec [OF this, of q] have "pl.is_list c1 (page_ref c h) (xs @ ys)" by simp
  then have "h = 0 \<longleftrightarrow> xs @ ys = []" by (cases "xs @ ys") (auto simp: pl.is_list_def page_ref_iff)
  moreover have "page_lists c2 (PL(q := xs @ ys))"
    if "mc_pages c2 = mc_pages c1" "mc_pool c2 = mc_pool c" "phead c2 = (phead c)(q := h)" for c2
    using c1(2) unfolding heads page_lists_def that(3) page_ref_indep [of c2 c]
    by (subst family_cong [of c2 c1]) (use that repage_sel(1) [OF rp] in simp_all)
  ultimately show ?thesis using run rp r by auto
qed

subsection \<open>Counts\<close>

text \<open>The buckets in use, and the counts a slab keeps; \<open>e k\<close> pages of slab \<open>k\<close> are out of their list.\<close>

definition buckets :: "cache \<Rightarrow> (plist \<Rightarrow> nat list) \<Rightarrow> nat \<Rightarrow> nat set" where
  "buckets c PL k = {b. b < length (sm_partial_pages (slab k c)) \<and> PL (Part k b) \<noteq> []}"

definition first_of :: "nat set \<Rightarrow> nat" where
  "first_of B = (if B = {} then 0 else Min B)"

definition slab_counts :: "cache \<Rightarrow> (nat \<Rightarrow> int) \<Rightarrow> (plist \<Rightarrow> nat list) \<Rightarrow> nat \<Rightarrow> bool" where
  "slab_counts c e PL k \<longleftrightarrow>
     (let s = slab k c; n = length (sm_partial_pages s)
      in sm_partial_pages_bucket_num s = n \<and>
         sm_full_pages_no s = int (length (PL (Full k))) \<and> sm_free_pages_no s = int (length (PL (Free k))) \<and>
         sm_partial_pages_no s = int (\<Sum>b < n. length (PL (Part k b))) + e k \<and>
         sm_partial_bucket_count s = int (card (buckets c PL k)) \<and>
         sm_first_partial_page_index s = first_of (buckets c PL k))"

definition pages_rep :: "cache \<Rightarrow> (nat \<Rightarrow> int) \<Rightarrow> (plist \<Rightarrow> nat list) \<Rightarrow> bool" where
  "pages_rep c e PL \<longleftrightarrow> page_lists c PL \<and> (\<forall>k < length (mc_slabs c). slab_counts c e PL k)"

lemma finite_buckets [simp]: "finite (buckets c PL k)"
  by (rule finite_subset [of _ "{..< length (sm_partial_pages (slab k c))}"]) (auto simp: buckets_def)

text \<open>What the rest of the invariant reads of a slab.\<close>

definition skel :: "slab_manager \<Rightarrow> nat \<times> nat \<times> nat \<times> nat \<times> (u64 \<times> u64) list \<times> nat" where
  "skel s = (sm_slab_id s, sm_slab_size s, sm_per_slab s, sm_page_size s, sm_item_list s, length (sm_partial_pages s))"

definition pages_only :: "cache \<Rightarrow> cache \<Rightarrow> bool" where
  "pages_only c c' \<longleftrightarrow> mc_pool c' = mc_pool c \<and> mc_items c' = mc_items c \<and> mc_area_timestamp c' = mc_area_timestamp c \<and>
     length (mc_slabs c') = length (mc_slabs c) \<and> (\<forall>j. skel (slab j c') = skel (slab j c)) \<and>
     (\<forall>i. pi_id (page i c') = pi_id (page i c) \<and> pi_free_nr (page i c') = pi_free_nr (page i c) \<and>
          pi_free_head (page i c') = pi_free_head (page i c))"

lemma pages_only_trans: "pages_only c c1 \<Longrightarrow> pages_only c1 c2 \<Longrightarrow> pages_only c c2"
  by (simp add: pages_only_def)

lemma repage_pages_only: "repage c c' \<Longrightarrow> pages_only c c'"
  using repage_sel by (simp add: pages_only_def)

text \<open>A step on the lists of slab \<open>k\<close> leaves the counts of the other slabs right.\<close>

lemma slab_counts_other:
  assumes "slab_counts c e PL j" "j \<noteq> k" "slab j c' = slab j c" "e' j = e j"
    "\<And>q. q \<notin> {Full k, Free k} \<union> range (Part k) \<Longrightarrow> PL' q = PL q"
  shows "slab_counts c' e' PL' j"
proof -
  have q: "PL' (Full j) = PL (Full j)" "PL' (Free j) = PL (Free j)" "PL' (Part j b) = PL (Part j b)" for b
    using assms(2,5) by auto
  then have "buckets c' PL' j = buckets c PL j" using assms(3) by (simp add: buckets_def)
  with assms(1,3,4) q show ?thesis by (simp add: slab_counts_def)
qed

lemma pages_repI:
  assumes "pages_rep c e PL" "k < length (mc_slabs c)" "length (mc_slabs c') = length (mc_slabs c)"
    "page_lists c' PL'" "slab_counts c' e' PL' k" "\<And>j. j \<noteq> k \<Longrightarrow> slab j c' = slab j c \<and> e' j = e j"
    "\<And>q. q \<notin> {Full k, Free k} \<union> range (Part k) \<Longrightarrow> PL' q = PL q"
  shows "pages_rep c' e' PL'"
proof -
  have "slab_counts c' e' PL' j" if "j < length (mc_slabs c)" for j
  proof (cases "j = k")
    case False
    have "slab_counts c e PL j" using assms(1) that by (simp add: pages_rep_def)
    from slab_counts_other [OF this False] assms(6) [OF False] assms(7) show ?thesis by blast
  qed (use assms(5) in simp)
  with assms(3,4) show ?thesis by (simp add: pages_rep_def)
qed

subsection \<open>Full and free pages\<close>

text \<open>
  How the slab's record changes with its list of full or of free pages: the head, the count of the
  list, and \<open>d\<close> more partly used pages.
\<close>

definition slab_step :: "plist \<Rightarrow> nat \<Rightarrow> nat \<Rightarrow> int \<Rightarrow> int \<Rightarrow> slab_manager \<Rightarrow> slab_manager \<Rightarrow> bool" where
  "slab_step q k h n d s s' \<longleftrightarrow> skel s' = skel s \<and> sm_partial_pages s' = sm_partial_pages s \<and>
     sm_first_partial_page_index s' = sm_first_partial_page_index s \<and> sm_partial_bucket_count s' = sm_partial_bucket_count s \<and>
     sm_partial_pages_bucket_num s' = sm_partial_pages_bucket_num s \<and>
     sm_full_pages s' = (if q = Full k then h else sm_full_pages s) \<and> sm_free_pages s' = (if q = Free k then h else sm_free_pages s) \<and>
     sm_full_pages_no s' = sm_full_pages_no s + (if q = Full k then n else 0) \<and>
     sm_free_pages_no s' = sm_free_pages_no s + (if q = Free k then n else 0) \<and> sm_partial_pages_no s' = sm_partial_pages_no s + d"

lemma slab_step_rep:
  assumes rep: "pages_rep c e PL" and k: "k < length (mc_slabs c)" and q: "q \<in> {Full k, Free k}"
    and c1: "repage c c1" and g: "slab_step q k h (int (length l) - int (length (PL q))) d (slab k c) (g (slab k c))"
    and lists: "\<forall>c2. mc_pages c2 = mc_pages c1 \<longrightarrow> mc_pool c2 = mc_pool c \<longrightarrow> phead c2 = (phead c)(q := h) \<longrightarrow>
      page_lists c2 (PL(q := l))"
  shows "pages_rep (upd_slab k g c1) (e(k := e k + d)) (PL(q := l)) \<and> pages_only c (upd_slab k g c1)"
proof -
  note sel = repage_sel [OF c1]
  define c2 where "c2 = upd_slab k g c1"
  have sl: "slab j c2 = (if j = k then g (slab k c) else slab j c)" for j
    using k sel(3) by (simp add: c2_def nth_list_update)
  have sel2: "mc_pool c2 = mc_pool c" "mc_pages c2 = mc_pages c1" "mc_items c2 = mc_items c"
    "length (mc_slabs c2) = length (mc_slabs c)" "mc_area_timestamp c2 = mc_area_timestamp c"
    using sel by (simp_all add: c2_def)
  have "phead c2 = (phead c)(q := h)"
  proof
    show "phead c2 r = ((phead c)(q := h)) r" for r
      using q g k by (cases r) (auto simp: phead_def slab_step_def sl sel2)
  qed
  then have "page_lists c2 (PL(q := l))" using lists sel2 by simp
  moreover have "slab_counts c e PL k" using rep k by (simp add: pages_rep_def)
  moreover have "buckets c2 (PL(q := l)) k = buckets c PL k" using q g by (auto simp: buckets_def sl slab_step_def)
  ultimately have "pages_rep c2 (e(k := e k + d)) (PL(q := l))"
    by (intro pages_repI [OF rep k]) (use q g sel2 sl in \<open>auto simp: slab_counts_def slab_step_def Let_def\<close>)
  moreover have "pages_only c c2"
    using g sel sel2 sl by (auto simp: pages_only_def slab_step_def)
  ultimately show ?thesis by (simp add: c2_def)
qed

lemma link_page_rep:
  assumes rep: "pages_rep c e PL" and k: "k < length (mc_slabs c)" and q: "q \<in> {Full k, Free k}"
    and i: "page_ok c i" "\<And>r. i \<notin> set (PL r)"
  shows "\<exists>c1. link_page i (phead c q) c = Some (i, c1) \<and> repage c c1 \<and>
    (\<forall>g d. slab_step q k i 1 d (slab k c) (g (slab k c)) \<longrightarrow>
       pages_rep (upd_slab k g c1) (e(k := e k + d)) (PL(q := i # PL q)) \<and> pages_only c (upd_slab k g c1))"
proof -
  have "page_lists c PL" using rep by (simp add: pages_rep_def)
  from link_page_lists [OF this i, of q] obtain c1 where c1: "link_page i (phead c q) c = Some (i, c1)" "repage c c1"
    "\<forall>c2. mc_pages c2 = mc_pages c1 \<longrightarrow> mc_pool c2 = mc_pool c \<longrightarrow> phead c2 = (phead c)(q := i) \<longrightarrow>
       page_lists c2 (PL(q := i # PL q))" by blast
  show ?thesis
    by (rule exI [of _ c1]) (use c1 slab_step_rep [OF rep k q c1(2) _ c1(3)] in auto)
qed

lemma unlink_page_rep:
  assumes rep: "pages_rep c e PL" and k: "k < length (mc_slabs c)" and q: "q \<in> {Full k, Free k}"
    and i: "i \<in> set (PL q)"
  shows "\<exists>h c1. unlink_page i (phead c q) c = Some (h, c1) \<and> repage c c1 \<and>
    (\<forall>g d. slab_step q k h (- 1) d (slab k c) (g (slab k c)) \<longrightarrow>
       pages_rep (upd_slab k g c1) (e(k := e k + d)) (PL(q := remove1 i (PL q))) \<and> pages_only c (upd_slab k g c1))"
proof -
  have "page_lists c PL" using rep by (simp add: pages_rep_def)
  from unlink_page_lists [OF this i] obtain h c1 where c1: "unlink_page i (phead c q) c = Some (h, c1)" "repage c c1"
    "\<forall>c2. mc_pages c2 = mc_pages c1 \<longrightarrow> mc_pool c2 = mc_pool c \<longrightarrow> phead c2 = (phead c)(q := h) \<longrightarrow>
       page_lists c2 (PL(q := remove1 i (PL q)))" by blast
  have "int (length (remove1 i (PL q))) - int (length (PL q)) = - 1"
    using length_pos_if_in_set [OF i] length_remove1 [of i "PL q"] by (simp only: i if_True)
  with slab_step_rep [OF rep k q c1(2) _ c1(3)] c1(1,2) show ?thesis by auto
qed

subsection \<open>Partly used pages\<close>

lemma find_upt:
  "find P [m ..< n] = (let S = {j. m \<le> j \<and> j < n \<and> P j} in if S = {} then None else Some (Min S))"
proof (cases "\<exists>j. m \<le> j \<and> j < n \<and> P j")
  case True
  let ?S = "{j. m \<le> j \<and> j < n \<and> P j}"
  have fin: "finite ?S" by (rule finite_subset [of _ "{..< n}"]) auto
  have "Min ?S \<in> ?S" using True by (intro Min_in [OF fin]) auto
  moreover have "\<not> P (m + j)" if "m + j < Min ?S" for j
  proof
    assume "P (m + j)"
    with that \<open>Min ?S \<in> ?S\<close> have "m + j \<in> ?S" by auto
    with Min_le [OF fin] that show False by fastforce
  qed
  ultimately have "find P [m ..< n] = Some (Min ?S)"
    by (auto simp: find_Some_iff intro!: exI [of _ "Min ?S - m"])
  with True show ?thesis by (auto simp: Let_def)
next
  case False
  then have "find P [m ..< n] = None" by (auto simp: find_None_iff)
  with False show ?thesis by (auto simp: Let_def)
qed

lemma first_of_insert:
  assumes "finite B"
  shows "first_of (insert b B) = (if b < first_of B \<or> (first_of B = 0 \<and> 0 \<notin> insert b B) then b else first_of B)"
proof (cases "B = {}")
  case False
  then have "first_of (insert b B) = min b (Min B)" "first_of B = Min B" using assms by (simp_all add: first_of_def)
  moreover have "Min B = 0 \<Longrightarrow> 0 \<in> B" using Min_in [OF assms False] by simp
  ultimately show ?thesis by auto
qed (simp add: first_of_def)

lemma first_of_remove:
  assumes "finite B" "b \<in> B" "b \<noteq> first_of B"
  shows "first_of (B - {b}) = first_of B"
proof -
  have "B \<noteq> {}" using assms(2) by blast
  then have m: "Min B \<in> B - {b}" using assms(3) Min_in [OF assms(1)] by (auto simp: first_of_def)
  then have "Min (B - {b}) = Min B" using assms(1) by (intro Min_eqI) auto
  with m assms(2) show ?thesis by (auto simp: first_of_def)
qed

lemma sum_bucket:
  assumes "b < (n :: nat)"
  shows "(\<Sum>x < n. length ((PL(Part k b := l)) (Part k x))) + length (PL (Part k b)) =
    (\<Sum>x < n. length (PL (Part k x))) + length l"
proof -
  have "(\<Sum>x < n. f x) = f b + (\<Sum>x \<in> {..< n} - {b}. f x)" for f :: "nat \<Rightarrow> nat"
    using assms by (subst sum.remove [of _ b]) auto
  moreover have "(\<Sum>x \<in> {..< n} - {b}. length ((PL(Part k b := l)) (Part k x))) = (\<Sum>x \<in> {..< n} - {b}. length (PL (Part k x)))"
    by (intro sum.cong) auto
  ultimately show ?thesis by simp
qed

text \<open>The record after a step on bucket \<open>b\<close>: its new head, and the count and index that go with it.\<close>

lemma bucket_step_rep:
  assumes rep: "pages_rep c e PL" and k: "k < length (mc_slabs c)" and b: "b < length (sm_partial_pages (slab k c))"
    and c1: "mc_pool c1 = mc_pool c" "mc_items c1 = mc_items c" "mc_area_timestamp c1 = mc_area_timestamp c"
      "\<And>i. pi_id (page i c1) = pi_id (page i c) \<and> pi_free_nr (page i c1) = pi_free_nr (page i c) \<and>
          pi_free_head (page i c1) = pi_free_head (page i c)"
      "length (mc_slabs c1) = length (mc_slabs c)" "\<And>j. j \<noteq> k \<Longrightarrow> slab j c1 = slab j c"
    and s: "slab k c1 = (slab k c)\<lparr>sm_partial_pages := (sm_partial_pages (slab k c))[b := h],
      sm_partial_bucket_count := int (card B), sm_first_partial_page_index := first_of B\<rparr>"
    and B: "B = (if l = [] then buckets c PL k - {b} else insert b (buckets c PL k))"
    and lists: "\<forall>c2. mc_pages c2 = mc_pages c1 \<longrightarrow> mc_pool c2 = mc_pool c \<longrightarrow> phead c2 = (phead c)(Part k b := h) \<longrightarrow>
      page_lists c2 (PL(Part k b := l))"
  shows "pages_rep c1 (e(k := e k + int (length (PL (Part k b))) - int (length l))) (PL(Part k b := l)) \<and> pages_only c c1"
proof -
  have sl: "slab j c1 = (if j = k then (slab k c)\<lparr>sm_partial_pages := (sm_partial_pages (slab k c))[b := h],
      sm_partial_bucket_count := int (card B), sm_first_partial_page_index := first_of B\<rparr> else slab j c)" for j
    using s c1(6) by simp
  have "phead c1 = (phead c)(Part k b := h)"
  proof
    show "phead c1 r = ((phead c)(Part k b := h)) r" for r
      using k b by (cases r) (auto simp: phead_def c1(5) sl nth_list_update)
  qed
  then have pl: "page_lists c1 (PL(Part k b := l))" using lists c1(1) by simp
  have sc: "slab_counts c e PL k" using rep k by (simp add: pages_rep_def)
  have bk: "buckets c1 (PL(Part k b := l)) k = B" using s b by (auto simp: buckets_def B)
  have "slab_counts c1 (e(k := e k + int (length (PL (Part k b))) - int (length l))) (PL(Part k b := l)) k"
    (is "slab_counts _ ?e ?PL k")
  proof -
    have "int (\<Sum>x < length (sm_partial_pages (slab k c)). length (PL (Part k x))) + e k =
        int (\<Sum>x < length (sm_partial_pages (slab k c)). length (?PL (Part k x))) + ?e k"
      using sum_bucket [OF b, of PL k l] by (simp only: fun_upd_same)
    with sc show ?thesis unfolding slab_counts_def bk s Let_def by (auto simp del: of_nat_sum)
  qed
  then have "pages_rep c1 (e(k := e k + int (length (PL (Part k b))) - int (length l))) (PL(Part k b := l))"
    by (intro pages_repI [OF rep k c1(5) pl]) (use c1(6) in auto)
  moreover have "skel (slab j c1) = skel (slab j c)" for j using s c1(6) [of j] by (cases "j = k") (auto simp: skel_def)
  ultimately show ?thesis using c1 by (simp add: pages_only_def)
qed

lemma partial_bucket_eq:
  "b < length (sm_partial_pages (slab k c)) \<Longrightarrow> b = nat (pi_free_nr (page i c)) div 10 \<Longrightarrow> partial_bucket k i c = Some b"
  by (simp add: partial_bucket_def PARTIAL_PAGE_BUCKET_def Let_def)

text \<open>The heads and the set of buckets in use tell the same.\<close>

lemma bucket_heads:
  assumes "page_lists c PL" "k < length (mc_slabs c)" "b < length (sm_partial_pages (slab k c))"
  shows "sm_partial_pages (slab k c) ! b = phead c (Part k b)" "sm_partial_pages (slab k c) ! b \<noteq> 0 \<longleftrightarrow> b \<in> buckets c PL k"
  using assms(2,3) page_lists_head(1) [OF assms(1), of "Part k b"] by (simp_all add: phead_def buckets_def)

lemma slab_counts_sel:
  assumes "pages_rep c e PL" "k < length (mc_slabs c)"
  shows "sm_partial_pages_bucket_num (slab k c) = length (sm_partial_pages (slab k c))"
    "sm_full_pages_no (slab k c) = int (length (PL (Full k)))" "sm_free_pages_no (slab k c) = int (length (PL (Free k)))"
    "sm_partial_pages_no (slab k c) = int (\<Sum>b < length (sm_partial_pages (slab k c)). length (PL (Part k b))) + e k"
    "sm_partial_bucket_count (slab k c) = int (card (buckets c PL k))"
    "sm_first_partial_page_index (slab k c) = first_of (buckets c PL k)"
  using assms by (simp_all add: pages_rep_def slab_counts_def Let_def del: of_nat_sum)

lemma link_partial_page_rep:
  assumes rep: "pages_rep c e PL" and k: "k < length (mc_slabs c)"
    and i: "page_ok c i" "\<And>r. i \<notin> set (PL r)"
    and b: "b = nat (pi_free_nr (page i c)) div 10" "b < length (sm_partial_pages (slab k c))"
  shows "\<exists>c'. link_partial_page k i c = Some c' \<and> pages_only c c' \<and>
    pages_rep c' (e(k := e k - 1)) (PL(Part k b := i # PL (Part k b)))"
proof -
  let ?s = "slab k c" and ?q = "Part k b"
  have lists: "page_lists c PL" using rep by (simp add: pages_rep_def)
  note sc = slab_counts_sel [OF rep k]
  note bh = bucket_heads [OF lists k b(2)]
  define c0 where "c0 = (if sm_partial_pages ?s ! b = 0
     then upd_slab k (\<lambda>s. s\<lparr>sm_partial_bucket_count := sm_partial_bucket_count s + 1\<rparr>) c else c)"
  have s0: "slab j c0 = (if j = k then ?s\<lparr>sm_partial_bucket_count := int (card (insert b (buckets c PL k)))\<rparr> else slab j c)" for j
    using k bh(2) sc(5) by (auto simp: c0_def nth_list_update card_insert_if)
  have c0: "mc_pool c0 = mc_pool c" "mc_items c0 = mc_items c" "mc_pages c0 = mc_pages c"
    "mc_area_timestamp c0 = mc_area_timestamp c" "length (mc_slabs c0) = length (mc_slabs c)"
    by (simp_all add: c0_def)
  have ph: "phead c0 = phead c"
  proof
    show "phead c0 r = phead c r" for r by (cases r) (auto simp: phead_def c0(5) s0)
  qed
  have "page_lists c0 PL" using page_lists_cong [OF c0(3,1) ph] lists by simp
  moreover have "page_ok c0 i" using i(1) c0 by (simp add: page_ok_def page_at_def)
  ultimately obtain c1 where c1: "link_page i (phead c ?q) c0 = Some (i, c1)" "repage c0 c1"
    "\<forall>c2. mc_pages c2 = mc_pages c1 \<longrightarrow> mc_pool c2 = mc_pool c \<longrightarrow> phead c2 = (phead c)(?q := i) \<longrightarrow>
       page_lists c2 (PL(?q := i # PL ?q))"
    using link_page_lists [of c0 PL i ?q] i(2) by (auto simp: ph c0)
  note sel = repage_sel [OF c1(2)]
  define c2 where "c2 = upd_slab k (\<lambda>s. s\<lparr>sm_partial_pages := (sm_partial_pages s)[b := i]\<rparr>) c1"
  have s2: "slab j c2 = (if j = k then ?s\<lparr>sm_partial_bucket_count := int (card (insert b (buckets c PL k))),
      sm_partial_pages := (sm_partial_pages ?s)[b := i]\<rparr> else slab j c)" for j
    using k by (auto simp: c2_def sel(3) c0(5) s0 nth_list_update)
  let ?first = "first_of (buckets c PL k)"
  define c3 where "c3 = (if b < ?first \<or> ?first = 0 \<and> (sm_partial_pages ?s)[b := i] ! 0 = 0
      then upd_slab k (\<lambda>s. s\<lparr>sm_first_partial_page_index := b\<rparr>) c2 else c2)"
  have len2: "length (mc_slabs c2) = length (mc_slabs c)" by (simp add: c2_def sel(3) c0(5))
  have run: "link_partial_page k i c = Some c3"
    unfolding link_partial_page_def partial_bucket_eq [OF b(2,1)] Option.bind.bind_lunit Let_def c0_def [symmetric]
    unfolding bh(1) c1(1) Option.bind.bind_lunit prod.case c2_def [symmetric]
    using s2 [of k] sc(6) by (simp add: c3_def)
  have "0 < length (sm_partial_pages ?s)" using b(2) by linarith
  from bucket_heads(2) [OF lists k this]
  have "(sm_partial_pages ?s)[b := i] ! 0 = 0 \<longleftrightarrow> 0 \<notin> insert b (buckets c PL k)"
    using b(2) i(1) by (cases "b = 0") (auto simp: page_ok_def)
  then have f: "first_of (insert b (buckets c PL k)) = (if b < ?first \<or> ?first = 0 \<and> (sm_partial_pages ?s)[b := i] ! 0 = 0 then b else ?first)"
    by (simp add: first_of_insert)
  have "pages_rep c3 (e(k := e k + int (length (PL ?q)) - int (length (i # PL ?q)))) (PL(?q := i # PL ?q)) \<and> pages_only c c3"
  proof (rule bucket_step_rep [OF rep k b(2)])
    show "slab k c3 = ?s\<lparr>sm_partial_pages := (sm_partial_pages ?s)[b := i],
      sm_partial_bucket_count := int (card (insert b (buckets c PL k))), sm_first_partial_page_index := first_of (insert b (buckets c PL k))\<rparr>"
      using k s2 [of k] len2 sc(6) by (simp add: c3_def f)
    show "slab j c3 = slab j c" if "j \<noteq> k" for j using s2 [of j] that by (simp add: c3_def)
  qed (use c1(3) in \<open>auto simp: c3_def c2_def sel c0 k\<close>)
  with run show ?thesis by auto
qed

text \<open>Taking a page out: when the first bucket becomes empty, the next one in use is the first.\<close>

lemma next_bucket:
  assumes "page_lists c PL" "k < length (mc_slabs c)" "b = first_of (buckets c PL k)" "b \<in> buckets c PL k"
    and "\<And>j. j \<noteq> b \<Longrightarrow> pp ! j = sm_partial_pages (slab k c) ! j" "buckets c PL k - {b} \<noteq> {}"
  shows "find (\<lambda>j. pp ! j \<noteq> 0) [b + 1 ..< length (sm_partial_pages (slab k c))] = Some (first_of (buckets c PL k - {b}))"
proof -
  let ?B = "buckets c PL k" and ?n = "length (sm_partial_pages (slab k c))"
  have low: "b \<le> j" if "j \<in> ?B" for j using that assms(3) by (auto simp: first_of_def)
  have "{j. b + 1 \<le> j \<and> j < ?n \<and> pp ! j \<noteq> 0} = ?B - {b}"
  proof (intro set_eqI iffI)
    fix j
    assume j: "j \<in> {j. b + 1 \<le> j \<and> j < ?n \<and> pp ! j \<noteq> 0}"
    with bucket_heads(2) [OF assms(1,2), of j] assms(5) [of j] show "j \<in> ?B - {b}" by auto
  next
    fix j
    assume j: "j \<in> ?B - {b}"
    then have "j < ?n" by (simp add: buckets_def)
    with j bucket_heads(2) [OF assms(1,2), of j] assms(5) [of j] low [of j]
    show "j \<in> {j. b + 1 \<le> j \<and> j < ?n \<and> pp ! j \<noteq> 0}" by auto
  qed
  with assms(6) show ?thesis by (simp add: find_upt Let_def first_of_def)
qed

lemma upd_slab_upd: "k < length (mc_slabs c) \<Longrightarrow> upd_slab k f (upd_slab k g c) = upd_slab k (\<lambda>s. f (g s)) c"
  by (simp add: upd_slab_def)

lemma unlink_partial_page_rep:
  assumes rep: "pages_rep c e PL" and k: "k < length (mc_slabs c)"
    and b: "b = nat (pi_free_nr (page i c)) div 10" "b < length (sm_partial_pages (slab k c))"
    and i: "i \<in> set (PL (Part k b))"
  shows "\<exists>c'. unlink_partial_page k i c = Some c' \<and> pages_only c c' \<and>
    pages_rep c' (e(k := e k + 1)) (PL(Part k b := remove1 i (PL (Part k b))))"
proof -
  let ?s = "slab k c" and ?q = "Part k b" and ?B = "buckets c PL k"
  let ?l = "remove1 i (PL ?q)"
  have lists: "page_lists c PL" using rep by (simp add: pages_rep_def)
  note sc = slab_counts_sel [OF rep k]
  note bh = bucket_heads [OF lists k b(2)]
  have bB: "b \<in> ?B" using b(2) i by (auto simp: buckets_def)
  from unlink_page_lists [OF lists i] obtain h c1 where c1: "unlink_page i (phead c ?q) c = Some (h, c1)" "repage c c1"
    "h = 0 \<longleftrightarrow> ?l = []"
    "\<forall>c2. mc_pages c2 = mc_pages c1 \<longrightarrow> mc_pool c2 = mc_pool c \<longrightarrow> phead c2 = (phead c)(?q := h) \<longrightarrow>
       page_lists c2 (PL(?q := ?l))" by blast
  note sel = repage_sel [OF c1(2)]
  define c2 where "c2 = upd_slab k (\<lambda>s. s\<lparr>sm_partial_pages := (sm_partial_pages s)[b := h]\<rparr>) c1"
  have s2: "slab j c2 = (if j = k then ?s\<lparr>sm_partial_pages := (sm_partial_pages ?s)[b := h]\<rparr> else slab j c)" for j
    using k by (auto simp: c2_def sel(3) nth_list_update)
  have len2: "length (mc_slabs c2) = length (mc_slabs c)" by (simp add: c2_def sel(3))
  define B where "B = (if ?l = [] then ?B - {b} else insert b ?B)"
  have cB: "int (card B) = (if h = 0 then int (card ?B) - 1 else int (card ?B))"
    using bB c1(3) card_gt_0_iff [of ?B] by (auto simp: B_def card_Diff_singleton insert_absorb)
  let ?r = "upd_slab k (\<lambda>s. s\<lparr>sm_partial_bucket_count := int (card B), sm_first_partial_page_index := first_of B\<rparr>) c2"
  have fB: "first_of ?B = b \<and> h = 0 \<or> first_of B = first_of ?B"
    using first_of_remove [OF finite_buckets bB] c1(3) bB by (auto simp: B_def insert_absorb)
  have nb: "find (\<lambda>j. (sm_partial_pages ?s)[b := h] ! j \<noteq> 0) [b + 1 ..< length (sm_partial_pages ?s)] = Some (first_of B)"
    if "first_of ?B = b" "h = 0" "B \<noteq> {}"
    using next_bucket [OF lists k that(1) [symmetric] bB, of "(sm_partial_pages ?s)[b := h]"] that c1(3)
    by (simp add: B_def)
  have emp: "B = {} \<longleftrightarrow> int (card B) = 0" by (simp add: B_def)
  have kl: "k < length (mc_slabs c2)" using k len2 by simp
  have upd: "upd_slab k f c2 = upd_slab k g c2" if "f (slab k c2) = g (slab k c2)" for f g
    using that by (simp add: upd_slab_def)
  have same: "c2 = upd_slab k f c2" if "f (slab k c2) = slab k c2" for f
    using that by (simp add: upd_slab_def)
  let ?cut = "\<lambda>n. upd_slab k (\<lambda>s. s\<lparr>sm_partial_bucket_count := n\<rparr>) c2"
  have eq: "unlink_partial_page k i c = Some
     (if first_of ?B = b \<and> h = 0
      then if int (card ?B) - 1 = 0 then upd_slab k (\<lambda>s. s\<lparr>sm_first_partial_page_index := 0\<rparr>) (?cut (int (card ?B) - 1))
           else case find (\<lambda>j. (sm_partial_pages ?s)[b := h] ! j \<noteq> 0) [b + 1 ..< length (sm_partial_pages ?s)] of
               None \<Rightarrow> ?cut (int (card ?B) - 1)
             | Some j \<Rightarrow> upd_slab k (\<lambda>s. s\<lparr>sm_first_partial_page_index := j\<rparr>) (?cut (int (card ?B) - 1))
      else if h = 0 then upd_slab k (\<lambda>s. s\<lparr>sm_partial_bucket_count := sm_partial_bucket_count s - 1\<rparr>) c2 else c2)"
    unfolding unlink_partial_page_def partial_bucket_eq [OF b(2,1)] Option.bind.bind_lunit
    unfolding bh(1) c1(1) Option.bind.bind_lunit prod.case Let_def c2_def [symmetric]
    unfolding s2 [of k] by (simp add: sc split: option.split)
  consider "h = 0" "first_of ?B = b" "B = {}" | "h = 0" "first_of ?B = b" "B \<noteq> {}" | "first_of ?B \<noteq> b \<or> h \<noteq> 0" by blast
  then have run: "unlink_partial_page k i c = Some ?r"
  proof cases
    case 1
    then have "int (card ?B) - 1 = 0" using cB emp by simp
    with 1 kl show ?thesis unfolding eq by (simp add: upd_slab_upd first_of_def)
  next
    case 2
    then have "int (card ?B) - 1 \<noteq> 0" using cB emp by simp
    with 2 kl nb [OF 2(2,1,3)] cB show ?thesis unfolding eq by (simp add: upd_slab_upd)
  next
    case 3
    then have "first_of B = first_of ?B" using fB by blast
    with 3 cB s2 [of k] sc(5,6) show ?thesis unfolding eq by (auto intro!: upd same)
  qed
  have "pages_rep ?r (e(k := e k + int (length (PL ?q)) - int (length ?l))) (PL(?q := ?l)) \<and> pages_only c ?r"
  proof (rule bucket_step_rep [OF rep k b(2)])
    show "slab k ?r = ?s\<lparr>sm_partial_pages := (sm_partial_pages ?s)[b := h],
      sm_partial_bucket_count := int (card B), sm_first_partial_page_index := first_of B\<rparr>"
      using k s2 [of k] len2 by simp
    show "slab j ?r = slab j c" if "j \<noteq> k" for j using s2 [of j] that by simp
  qed (use c1(4) in \<open>auto simp: c2_def sel k B_def\<close>)
  moreover have "int (length (PL ?q)) - int (length ?l) = 1"
    using length_pos_if_in_set [OF i] length_remove1 [of i "PL ?q"] by (simp only: i if_True)
  ultimately show ?thesis using run by (simp add: algebra_simps)
qed

end
