(* ===== verification/Mdb_Invariant.thy ===== *)
theory Mdb_Invariant
  imports Mdb_Pages
begin

section \<open>The invariant of the cache\<close>

text \<open>
  Every page a slab owns is in the page list that fits its number of free slots; its free slots are
  strung from the page header; every other slot is in the item list of exactly one area of the slab.
  The ghost state: \<open>PL\<close> the page lists, \<open>OW\<close> the owner of a page, \<open>FS\<close> the free slots of a page
  in chain order, \<open>IL\<close> the item lists. The items in \<open>X\<close> are being changed: their area and their
  expiry time are not yet those of their list or of a free slot.
\<close>

subsection \<open>Pages and slots\<close>

definition slot_addr :: "cache \<Rightarrow> nat \<Rightarrow> nat \<Rightarrow> nat \<Rightarrow> nat" where
  "slot_addr c k i j = i * psz c + sizeof_page_info + j * sm_slab_size (slab k c)"

definition slots :: "cache \<Rightarrow> nat \<Rightarrow> nat \<Rightarrow> nat set" where
  "slots c k i = slot_addr c k i ` {..< sm_per_slab (slab k c)}"

definition slab_geo :: "cache \<Rightarrow> nat \<Rightarrow> bool" where
  "slab_geo c k \<longleftrightarrow>
     (let s = slab k c; n = sm_slab_size s; per = sm_per_slab s
      in sm_slab_id s = k \<and> sizeof_mdb_item \<le> n \<and> n < 2 ^ 20 \<and> per = (psz c - sizeof_page_info) div n \<and>
         0 < per \<and> per < 2 ^ 16 \<and> sm_page_size s = psz c \<and> length (sm_partial_pages s) = (per + 9) div 10)"

definition geo :: "cache \<Rightarrow> bool" where
  "geo c \<longleftrightarrow> pool_wf (mc_pool c) \<and> length (mc_slabs c) \<le> 256 \<and> (\<forall>k < length (mc_slabs c). slab_geo c k)"

text \<open>The free slots of a page: a chain of exact identifiers from the page header.\<close>

fun fchain :: "cache \<Rightarrow> u64 \<Rightarrow> nat list \<Rightarrow> bool" where
  "fchain c x [] \<longleftrightarrow> x = 0"
| "fchain c x (a # as) \<longleftrightarrow> x = i_item_id (item a c) \<and> fchain c (i_h_next (item a c)) as"

definition page_inv :: "cache \<Rightarrow> nat \<Rightarrow> nat \<Rightarrow> nat list \<Rightarrow> bool" where
  "page_inv c k i fs \<longleftrightarrow> k < length (mc_slabs c) \<and> page_ok c i \<and> i \<notin> free_set (mc_pool c) \<and>
     pi_free_nr (page i c) = int (length fs) \<and> fchain c (pi_free_head (page i c)) fs \<and> distinct fs \<and>
     set fs \<subseteq> slots c k i \<and>
     (\<forall>j < sm_per_slab (slab k c). let it = item (slot_addr c k i j) c
        in CLEAR_FLAGS (i_item_id it) = ITEM_ID (sm_slab_size (slab k c)) j i k \<and>
           length (i_data it) = sm_slab_size (slab k c) - sizeof_mdb_item) \<and>
     (\<forall>a \<in> set fs. CLEAR_FLAGS (i_item_id (item a c)) = i_item_id (item a c))"

definition pclass :: "nat \<Rightarrow> nat \<Rightarrow> nat \<Rightarrow> plist" where
  "pclass k per n = (if n = 0 then Full k else if n = per then Free k else Part k (n div 10))"

definition listed :: "cache \<Rightarrow> nat set \<Rightarrow> (plist \<Rightarrow> nat list) \<Rightarrow> (nat \<Rightarrow> nat option) \<Rightarrow> (nat \<Rightarrow> nat list) \<Rightarrow> bool" where
  "listed c H PL OW FS \<longleftrightarrow>
     (\<forall>q i. i \<in> set (PL q) \<longleftrightarrow> i \<notin> H \<and> (\<exists>k. OW i = Some k \<and> q = pclass k (sm_per_slab (slab k c)) (length (FS i))))"

definition used :: "cache \<Rightarrow> (nat \<Rightarrow> nat option) \<Rightarrow> (nat \<Rightarrow> nat list) \<Rightarrow> nat \<Rightarrow> nat set" where
  "used c OW FS k = {a. \<exists>i. OW i = Some k \<and> a \<in> slots c k i - set (FS i)}"

definition cache_rep :: "cache \<Rightarrow> nat set \<Rightarrow> (plist \<Rightarrow> nat list) \<Rightarrow> (nat \<Rightarrow> nat option) \<Rightarrow> (nat \<Rightarrow> nat list) \<Rightarrow>
    (nat \<times> nat \<Rightarrow> nat list) \<Rightarrow> bool" where
  "cache_rep c X PL OW FS IL \<longleftrightarrow> geo c \<and> pages_rep c (\<lambda>_. 0) PL \<and> item_lists c IL \<and>
     (\<forall>i k. OW i = Some k \<longrightarrow> page_inv c k i (FS i)) \<and> listed c {} PL OW FS \<and>
     (\<forall>k < length (mc_slabs c). (\<exists>i. OW i = Some k) \<and> (\<Union>ar. set (IL (k, ar))) = used c OW FS k) \<and>
     (\<forall>k ar. \<forall>a \<in> set (IL (k, ar)) - X. ITEM_AREA (item a c) = ar) \<and>
     (\<forall>i k. OW i = Some k \<longrightarrow> (\<forall>a \<in> set (FS i) - X. i_exptime (item a c) = 0))"

subsection \<open>What the parts of the invariant read\<close>

definition pskel :: "slab_manager \<Rightarrow> int \<times> int \<times> int \<times> nat \<times> nat \<times> nat list \<times> nat \<times> nat \<times> int" where
  "pskel s = (sm_full_pages_no s, sm_partial_pages_no s, sm_free_pages_no s, sm_free_pages s, sm_full_pages s,
     sm_partial_pages s, sm_partial_pages_bucket_num s, sm_first_partial_page_index s, sm_partial_bucket_count s)"

lemma pages_rep_cong:
  assumes "mp_total_pages (mc_pool c') = mp_total_pages (mc_pool c)" "length (mc_slabs c') = length (mc_slabs c)"
    "\<And>q i. i \<in> set (PL q) \<Longrightarrow> pi_id (page i c') = pi_id (page i c)"
    "\<And>q i. i \<in> set (PL q) \<Longrightarrow> pi_next (page i c') = pi_next (page i c)"
    "\<And>q i. i \<in> set (PL q) \<Longrightarrow> pi_prev (page i c') = pi_prev (page i c)" "\<And>j. pskel (slab j c') = pskel (slab j c)"
  shows "pages_rep c' e PL = pages_rep c e PL"
proof -
  have sl: "sm_full_pages_no (slab j c') = sm_full_pages_no (slab j c)" "sm_partial_pages_no (slab j c') = sm_partial_pages_no (slab j c)"
    "sm_free_pages_no (slab j c') = sm_free_pages_no (slab j c)" "sm_free_pages (slab j c') = sm_free_pages (slab j c)"
    "sm_full_pages (slab j c') = sm_full_pages (slab j c)" "sm_partial_pages (slab j c') = sm_partial_pages (slab j c)"
    "sm_partial_pages_bucket_num (slab j c') = sm_partial_pages_bucket_num (slab j c)"
    "sm_first_partial_page_index (slab j c') = sm_first_partial_page_index (slab j c)"
    "sm_partial_bucket_count (slab j c') = sm_partial_bucket_count (slab j c)" for j
    using assms(6) [of j] by (simp_all add: pskel_def)
  have "phead c' = phead c" using assms(2) by (auto simp: phead_def sl fun_eq_iff split: plist.split)
  moreover have "pl.is_list c' h (PL q) = pl.is_list c h (PL q)" for h q
    by (rule pl.is_list_cong) (simp add: assms(1) assms(3-5) [of _ q] page_ref_def page_ok_def page_at_def index_to_page_def)
  ultimately have "page_lists c' PL = page_lists c PL"
    by (simp add: page_lists_def pl.family_def page_ref_indep [of c' c])
  moreover have "slab_counts c' e PL k = slab_counts c e PL k" for k
    by (simp add: slab_counts_def Let_def sl buckets_def)
  ultimately show ?thesis by (simp add: pages_rep_def assms(2))
qed

lemma item_lists_cong:
  assumes IL: "item_lists c IL" and c': "psz c' = psz c" "length (mc_slabs c') = length (mc_slabs c)"
      "\<And>j. sm_item_list (slab j c') = sm_item_list (slab j c)"
    and it: "\<And>p b. b \<in> set (IL p) \<Longrightarrow> i_next (item b c') = i_next (item b c) \<and> i_prev (item b c') = i_prev (item b c) \<and>
      CLEAR_FLAGS (i_item_id (item b c')) = CLEAR_FLAGS (i_item_id (item b c))"
  shows "item_lists c' IL"
proof -
  have "item_list c' k ar (IL (k, ar))" if "k < length (mc_slabs c)" "ar < TAIR_MAX_AREA_COUNT" for k ar
  proof -
    note l = item_lists_at [OF IL that]
    have "i_item_id (item b c') \<noteq> 0" if "b \<in> set (IL (k, ar))" for b
      using it [OF that] item_lists_mem(4) [OF IL that] by (auto simp: CLEAR_FLAGS_def)
    with it l c' that show ?thesis
      by (intro item_list_cong [OF l]) (auto simp: itemid_equal_iff item_list_def)
  qed
  with IL c'(2) show ?thesis by (auto simp: item_lists_def)
qed

lemma fchain_cong:
  "(\<And>a. a \<in> set as \<Longrightarrow> i_item_id (item a c') = i_item_id (item a c) \<and> i_h_next (item a c') = i_h_next (item a c)) \<Longrightarrow>
   fchain c' x as = fchain c x as"
  by (induction as arbitrary: x) auto

definition gskel :: "slab_manager \<Rightarrow> nat \<times> nat \<times> nat \<times> nat \<times> nat" where
  "gskel s = (sm_slab_id s, sm_slab_size s, sm_per_slab s, sm_page_size s, length (sm_partial_pages s))"

lemma gskel_sel:
  assumes "gskel s' = gskel s"
  shows "sm_slab_id s' = sm_slab_id s" "sm_slab_size s' = sm_slab_size s" "sm_per_slab s' = sm_per_slab s"
    "sm_page_size s' = sm_page_size s" "length (sm_partial_pages s') = length (sm_partial_pages s)"
  using assms by (simp_all add: gskel_def)

lemma geo_cong:
  assumes "geo c" "pool_wf (mc_pool c')" "psz c' = psz c" "length (mc_slabs c') = length (mc_slabs c)"
    "\<And>j. gskel (slab j c') = gskel (slab j c)"
  shows "geo c'"
proof -
  have "slab_geo c' k = slab_geo c k" for k
    using assms(3) gskel_sel [OF assms(5) [of k]] by (simp add: slab_geo_def Let_def)
  with assms show ?thesis by (simp add: geo_def)
qed

lemma slots_cong:
  "psz c' = psz c \<Longrightarrow> gskel (slab k c') = gskel (slab k c) \<Longrightarrow> slots c' k i = slots c k i"
  "psz c' = psz c \<Longrightarrow> gskel (slab k c') = gskel (slab k c) \<Longrightarrow> slot_addr c' k i j = slot_addr c k i j"
  using gskel_sel [of "slab k c'" "slab k c"] by (auto simp: slots_def slot_addr_def)

lemma page_ok_iff: "page_ok c i \<longleftrightarrow> 0 < i \<and> i < mp_total_pages (mc_pool c) \<and> pi_id (page i c) = i"
  by (simp add: page_ok_def page_at_def index_to_page_def)

lemma page_inv_cong:
  assumes inv: "page_inv c k i fs" and c': "psz c' = psz c" "mp_total_pages (mc_pool c') = mp_total_pages (mc_pool c)"
      "i \<notin> free_set (mc_pool c')" "length (mc_slabs c') = length (mc_slabs c)" "gskel (slab k c') = gskel (slab k c)"
    and pg: "pi_id (page i c') = pi_id (page i c)" "pi_free_nr (page i c') = int (length fs')"
      "fchain c' (pi_free_head (page i c')) fs'" "distinct fs'" "set fs' \<subseteq> slots c k i"
      "\<And>a. a \<in> set fs' \<Longrightarrow> CLEAR_FLAGS (i_item_id (item a c')) = i_item_id (item a c')"
    and it: "\<And>a. a \<in> slots c k i \<Longrightarrow> CLEAR_FLAGS (i_item_id (item a c')) = CLEAR_FLAGS (i_item_id (item a c)) \<and>
      length (i_data (item a c')) = length (i_data (item a c))"
  shows "page_inv c' k i fs'"
proof -
  note g = gskel_sel [OF c'(5)]
  have "page_ok c' i" using inv c'(2) pg(1) by (simp add: page_inv_def page_ok_iff)
  moreover have "slot_addr c k i j \<in> slots c k i" if "j < sm_per_slab (slab k c)" for j
    using that by (simp add: slots_def)
  ultimately show ?thesis
    using inv pg it c' unfolding page_inv_def Let_def slots_cong [OF c'(1,5)] g by auto
qed

lemma page_inv_same:
  assumes inv: "page_inv c k i fs" and c': "psz c' = psz c" "mp_total_pages (mc_pool c') = mp_total_pages (mc_pool c)"
      "i \<notin> free_set (mc_pool c')" "length (mc_slabs c') = length (mc_slabs c)" "gskel (slab k c') = gskel (slab k c)"
    and pg: "pi_id (page i c') = pi_id (page i c)" "pi_free_nr (page i c') = pi_free_nr (page i c)"
      "pi_free_head (page i c') = pi_free_head (page i c)"
    and fs: "\<And>a. a \<in> set fs \<Longrightarrow> i_item_id (item a c') = i_item_id (item a c) \<and> i_h_next (item a c') = i_h_next (item a c)"
    and it: "\<And>a. a \<in> slots c k i \<Longrightarrow> CLEAR_FLAGS (i_item_id (item a c')) = CLEAR_FLAGS (i_item_id (item a c)) \<and>
      length (i_data (item a c')) = length (i_data (item a c))"
  shows "page_inv c' k i fs"
proof (rule page_inv_cong [OF inv c' pg(1)])
  show "pi_free_nr (page i c') = int (length fs)" using pg(2) inv by (simp add: page_inv_def)
  show "fchain c' (pi_free_head (page i c')) fs" using inv fchain_cong [of fs c' c] fs pg(3) by (simp add: page_inv_def)
qed (use inv fs it in \<open>auto simp: page_inv_def\<close>)

subsection \<open>Addresses\<close>

lemma geo_slab:
  assumes "geo c" "k < length (mc_slabs c)"
  shows "sm_slab_id (slab k c) = k" "sizeof_mdb_item \<le> sm_slab_size (slab k c)" "sm_slab_size (slab k c) < 2 ^ 20"
    "sm_per_slab (slab k c) = (psz c - sizeof_page_info) div sm_slab_size (slab k c)" "0 < sm_per_slab (slab k c)"
    "sm_per_slab (slab k c) < 2 ^ 16" "sm_page_size (slab k c) = psz c"
    "length (sm_partial_pages (slab k c)) = (sm_per_slab (slab k c) + 9) div 10" "k < 256" "0 < sm_slab_size (slab k c)"
    "2 ^ 20 \<le> psz c" "mp_total_pages (mc_pool c) \<le> 65536"
  using assms by (auto simp: geo_def slab_geo_def Let_def pool_wf_def MAX_PAGES_NO_def sizeof_mdb_item_def)

lemma slot_in_page:
  assumes "geo c" "k < length (mc_slabs c)" "j < sm_per_slab (slab k c)"
  shows "sizeof_page_info + j * sm_slab_size (slab k c) + sm_slab_size (slab k c) \<le> psz c"
proof -
  note g = geo_slab [OF assms(1,2)]
  let ?n = "sm_slab_size (slab k c)"
  have "(j + 1) * ?n \<le> sm_per_slab (slab k c) * ?n" using assms(3) by (intro mult_le_mono1) simp
  also have "\<dots> \<le> psz c - sizeof_page_info" unfolding g(4) by (rule div_times_less_eq_dividend)
  finally show ?thesis using g(11) by (simp add: sizeof_page_info_def)
qed

lemma slots_bounds:
  assumes "geo c" "k < length (mc_slabs c)" "a \<in> slots c k i"
  shows "i * psz c + sizeof_page_info \<le> a" "a + sm_slab_size (slab k c) \<le> (i + 1) * psz c" "a div psz c = i"
proof -
  from assms(3) obtain j where j: "j < sm_per_slab (slab k c)" "a = slot_addr c k i j" by (auto simp: slots_def)
  note b = slot_in_page [OF assms(1,2) j(1)] and g = geo_slab [OF assms(1,2)]
  show "i * psz c + sizeof_page_info \<le> a" "a + sm_slab_size (slab k c) \<le> (i + 1) * psz c"
    using b by (simp_all add: j(2) slot_addr_def)
  have "a = (sizeof_page_info + j * sm_slab_size (slab k c)) + i * psz c" by (simp add: j(2) slot_addr_def)
  moreover have "sizeof_page_info + j * sm_slab_size (slab k c) < psz c" using b g(10) by linarith
  ultimately show "a div psz c = i" by simp
qed

lemma slots_apart:
  "geo c \<Longrightarrow> k < length (mc_slabs c) \<Longrightarrow> k' < length (mc_slabs c) \<Longrightarrow> a \<in> slots c k i \<Longrightarrow> a \<in> slots c k' i' \<Longrightarrow> i = i'"
  using slots_bounds(3) by metis

lemma slot_addr_inj:
  assumes "geo c" "k < length (mc_slabs c)"
  shows "inj (slot_addr c k i)"
  using geo_slab(10) [OF assms] by (auto simp: inj_def slot_addr_def)

lemma card_slots: "geo c \<Longrightarrow> k < length (mc_slabs c) \<Longrightarrow> card (slots c k i) = sm_per_slab (slab k c)"
  unfolding slots_def by (subst card_image) (auto intro: inj_on_subset [OF slot_addr_inj])

lemma finite_slots [simp]: "finite (slots c k i)"
  by (simp add: slots_def)

text \<open>What the identifier of a slot of an owned page says.\<close>

lemma slot_item:
  assumes geo: "geo c" and inv: "page_inv c k i fs" and a: "a \<in> slots c k i"
  shows "item_ok c a" "CLEAR_FLAGS (i_item_id (item a c)) \<noteq> 0" "unat (PAGE_ID (i_item_id (item a c))) = i"
    "unat (SLAB_ID (i_item_id (item a c))) = k" "SLAB_SIZE (i_item_id (item a c)) = of_nat (sm_slab_size (slab k c))"
    "length (i_data (item a c)) = sm_slab_size (slab k c) - sizeof_mdb_item"
proof -
  have k: "k < length (mc_slabs c)" using inv by (simp add: page_inv_def)
  note g = geo_slab [OF geo k]
  from a obtain j where j: "j < sm_per_slab (slab k c)" "a = slot_addr c k i j" by (auto simp: slots_def)
  let ?x = "i_item_id (item a c)" and ?y = "ITEM_ID (sm_slab_size (slab k c)) j i k"
  have x: "CLEAR_FLAGS ?x = ?y" and len: "length (i_data (item a c)) = sm_slab_size (slab k c) - sizeof_mdb_item"
    using inv j by (auto simp: page_inv_def Let_def)
  have i: "i < 65536" using inv g(12) by (simp add: page_inv_def page_ok_iff)
  have bounds: "0 < sm_slab_size (slab k c)" "sm_slab_size (slab k c) < 2 ^ 20" "j < 2 ^ 16" "i < 2 ^ 16" "k < 2 ^ 8"
    using g j(1) i by auto
  note f = ITEM_ID_fields [OF bounds(2-5)]
  have nz: "?y \<noteq> 0" using ITEM_ID_nonzero [OF bounds(1,2)] by simp
  then show "CLEAR_FLAGS ?x \<noteq> 0" by (simp add: x)
  have nz': "?x \<noteq> 0" using nz x by (auto simp: CLEAR_FLAGS_def)
  have "item_at ?x c = item_at ?y c" using nz nz' by (intro item_at_flags) (simp_all flip: x)
  also have "\<dots> = Some a" using id_to_item_ITEM_ID [OF bounds] by (simp add: item_at_def j(2) slot_addr_def mult.commute)
  finally show "item_ok c a" by (simp add: item_ok_def)
  have fl: "PAGE_ID ?x = of_nat i" "SLAB_ID ?x = of_nat k" "SLAB_SIZE ?x = of_nat (sm_slab_size (slab k c))"
    using f flags_fields(5,7,8) [of ?x, unfolded x] by metis+
  then show "SLAB_SIZE ?x = of_nat (sm_slab_size (slab k c))" by blast
  show "unat (PAGE_ID ?x) = i" "unat (SLAB_ID ?x) = k" unfolding fl using i bounds(5) by (simp_all add: unat_small)
qed (use inv a in \<open>auto simp: page_inv_def slots_def Let_def\<close>)

subsection \<open>Pages that change their list\<close>

lemma listed_cong:
  assumes "\<And>j. gskel (slab j c') = gskel (slab j c)"
  shows "listed c' H PL OW FS = listed c H PL OW FS"
proof -
  have "sm_per_slab (slab j c') = sm_per_slab (slab j c)" for j by (rule gskel_sel(3) [OF assms])
  then show ?thesis by (simp add: listed_def)
qed

lemma listed_leave:
  assumes "listed c {} PL OW FS" "distinct (PL q)" "i \<in> set (PL q)"
  shows "listed c {i} (PL(q := remove1 i (PL q))) OW (FS(i := fs))"
  using assms by (auto simp: listed_def)

lemma listed_enter:
  assumes "listed c {i} PL OW FS" "OW i = Some k" "q = pclass k (sm_per_slab (slab k c)) (length (FS i))"
  shows "listed c {} (PL(q := i # PL q)) OW FS"
  using assms by (auto simp: listed_def)

lemma listed_drop: "listed c {i} PL OW FS \<Longrightarrow> listed c {} PL (OW(i := None)) FS"
  by (auto simp: listed_def)

lemma listed_out: "listed c {i} PL OW FS \<Longrightarrow> i \<notin> set (PL r)"
  by (auto simp: listed_def)

lemma cache_rep_page:
  assumes "cache_rep c X PL OW FS IL" "OW i = Some k"
  shows "page_inv c k i (FS i)" "k < length (mc_slabs c)" "i \<in> set (PL (pclass k (sm_per_slab (slab k c)) (length (FS i))))"
  using assms by (auto simp: cache_rep_def page_inv_def listed_def)

lemma cache_rep_sel:
  assumes "cache_rep c X PL OW FS IL"
  shows "geo c" "pages_rep c (\<lambda>_. 0) PL" "page_lists c PL" "item_lists c IL" "listed c {} PL OW FS"
    "k < length (mc_slabs c) \<Longrightarrow> \<exists>i. OW i = Some k"
    "k < length (mc_slabs c) \<Longrightarrow> (\<Union>ar. set (IL (k, ar))) = used c OW FS k"
    "a \<in> set (IL (k, ar)) \<Longrightarrow> a \<notin> X \<Longrightarrow> ITEM_AREA (item a c) = ar"
    "OW i = Some k \<Longrightarrow> a \<in> set (FS i) \<Longrightarrow> a \<notin> X \<Longrightarrow> i_exptime (item a c) = 0"
  using assms by (auto simp: cache_rep_def pages_rep_def)

lemma cache_repI:
  assumes "geo c" "pages_rep c (\<lambda>_. 0) PL" "item_lists c IL" "\<And>i k. OW i = Some k \<Longrightarrow> page_inv c k i (FS i)"
    "listed c {} PL OW FS" "\<And>k. k < length (mc_slabs c) \<Longrightarrow> (\<exists>i. OW i = Some k) \<and> (\<Union>ar. set (IL (k, ar))) = used c OW FS k"
    "\<And>k ar a. a \<in> set (IL (k, ar)) - X \<Longrightarrow> ITEM_AREA (item a c) = ar"
    "\<And>i k a. OW i = Some k \<Longrightarrow> a \<in> set (FS i) - X \<Longrightarrow> i_exptime (item a c) = 0"
  shows "cache_rep c X PL OW FS IL"
  unfolding cache_rep_def
  by (intro conjI allI impI ballI assms(1-5,7,8) conjunct1 [OF assms(6)] conjunct2 [OF assms(6)])

text \<open>An item in a list is a slot of an owned page that is not free.\<close>

lemma cache_rep_item:
  assumes rep: "cache_rep c X PL OW FS IL" and a: "a \<in> set (IL (k, ar))"
  shows "\<exists>i. OW i = Some k \<and> a \<in> slots c k i \<and> a \<notin> set (FS i)"
proof -
  have "k < length (mc_slabs c)" using item_lists_mem(1) [OF cache_rep_sel(4) [OF rep] a] .
  from cache_rep_sel(7) [OF rep this] a show ?thesis by (auto simp: used_def)
qed

text \<open>Every slab keeps the number of its pages: they are all in its lists.\<close>

lemma partial_no_rep:
  assumes "pages_rep c e PL" "k < length (mc_slabs c)"
  shows "pages_rep (upd_slab k (\<lambda>s. s\<lparr>sm_partial_pages_no := sm_partial_pages_no s + d\<rparr>) c) (e(k := e k + d)) PL"
proof -
  let ?g = "\<lambda>s :: slab_manager. s\<lparr>sm_partial_pages_no := sm_partial_pages_no s + d\<rparr>"
  have 1: "repage c c" by (simp add: repage_def)
  have 2: "slab_step (Full k) k (phead c (Full k)) (int (length (PL (Full k))) - int (length (PL (Full k)))) d (slab k c) (?g (slab k c))"
    using assms(2) by (simp add: slab_step_def skel_def phead_def)
  have 3: "page_lists c2 PL" if "mc_pages c2 = mc_pages c" "mc_pool c2 = mc_pool c" "phead c2 = phead c" for c2
    using page_lists_cong [OF that] assms(1) by (simp add: pages_rep_def)
  have "pages_rep (upd_slab k ?g c) (e(k := e k + d)) (PL(Full k := PL (Full k))) \<and> pages_only c (upd_slab k ?g c)"
    by (rule slab_step_rep [OF assms _ 1, where g = ?g, OF _ 2]) (simp_all add: 3)
  then show ?thesis by simp
qed

end
