(* ===== verification/Mdb_Alloc.thy ===== *)
theory Mdb_Alloc
  imports Mdb_Invariant
begin

section \<open>Release and allocation of items\<close>

text \<open>
  \<open>slab_manager::free_item\<close> and \<open>slab_manager::alloc_item\<close> on a cache that satisfies the invariant:
  they return, keep it, and move exactly one slot between the free slots of its page and the item
  lists. Eviction always finds an item, since every slab owns a page.
\<close>

subsection \<open>Frames\<close>

definition core :: "mdb_item \<Rightarrow> mdb_item" where
  "core it = it\<lparr>i_next := 0, i_prev := 0\<rparr>"

lemma core_sel:
  assumes "core it' = core it"
  shows "i_h_next it' = i_h_next it" "i_exptime it' = i_exptime it" "i_key_len it' = i_key_len it"
    "i_data_len it' = i_data_len it" "i_version it' = i_version it" "i_update_time it' = i_update_time it"
    "i_item_id it' = i_item_id it" "i_data it' = i_data it"
    "ITEM_AREA it' = ITEM_AREA it" "ITEM_KEY it' = ITEM_KEY it" "ITEM_DATA it' = ITEM_DATA it"
proof -
  have e: "it'\<lparr>i_next := 0, i_prev := 0\<rparr> = it\<lparr>i_next := 0, i_prev := 0\<rparr>" using assms by (simp add: core_def)
  show f: "i_h_next it' = i_h_next it" "i_exptime it' = i_exptime it" "i_key_len it' = i_key_len it"
    "i_data_len it' = i_data_len it" "i_version it' = i_version it" "i_update_time it' = i_update_time it"
    "i_item_id it' = i_item_id it" "i_data it' = i_data it"
    using arg_cong [OF e, of i_h_next] arg_cong [OF e, of i_exptime] arg_cong [OF e, of i_key_len]
      arg_cong [OF e, of i_data_len] arg_cong [OF e, of i_version] arg_cong [OF e, of i_update_time]
      arg_cong [OF e, of i_item_id] arg_cong [OF e, of i_data] by simp_all
  show "ITEM_AREA it' = ITEM_AREA it" "ITEM_KEY it' = ITEM_KEY it" "ITEM_DATA it' = ITEM_DATA it"
    by (simp_all add: ITEM_AREA_def ITEM_KEY_def ITEM_DATA_def f)
qed

lemma core_upd:
  "core (it\<lparr>i_h_next := x\<rparr>) = (core it)\<lparr>i_h_next := x\<rparr>" "core (it\<lparr>i_prev := y\<rparr>) = core it"
  "core (it\<lparr>i_next := y\<rparr>) = core it" "core (it\<lparr>i_item_id := y\<rparr>) = (core it)\<lparr>i_item_id := y\<rparr>"
  by (simp_all add: core_def)

definition steady :: "cache \<Rightarrow> cache \<Rightarrow> bool" where
  "steady c c' \<longleftrightarrow> psz c' = psz c \<and> mp_total_pages (mc_pool c') = mp_total_pages (mc_pool c) \<and>
     length (mc_slabs c') = length (mc_slabs c) \<and> (\<forall>j. gskel (slab j c') = gskel (slab j c)) \<and>
     mc_area_timestamp c' = mc_area_timestamp c"

lemma steady_refl [simp]: "steady c c" by (simp add: steady_def)

lemma steady_trans [trans]: "steady c c1 \<Longrightarrow> steady c1 c2 \<Longrightarrow> steady c c2" by (simp add: steady_def)

lemma steadyD:
  assumes "steady c c'"
  shows "psz c' = psz c" "mp_total_pages (mc_pool c') = mp_total_pages (mc_pool c)"
    "length (mc_slabs c') = length (mc_slabs c)" "gskel (slab j c') = gskel (slab j c)"
    "mc_area_timestamp c' = mc_area_timestamp c" "sm_slab_size (slab j c') = sm_slab_size (slab j c)"
    "sm_per_slab (slab j c') = sm_per_slab (slab j c)" "slots c' j i = slots c j i"
proof -
  show s: "psz c' = psz c" "mp_total_pages (mc_pool c') = mp_total_pages (mc_pool c)"
    "length (mc_slabs c') = length (mc_slabs c)" "gskel (slab j c') = gskel (slab j c)"
    "mc_area_timestamp c' = mc_area_timestamp c" using assms by (simp_all add: steady_def)
  show "sm_slab_size (slab j c') = sm_slab_size (slab j c)" "sm_per_slab (slab j c') = sm_per_slab (slab j c)"
    using gskel_sel [OF s(4)] by simp_all
  show "slots c' j i = slots c j i" by (rule slots_cong(1) [OF s(1,4)])
qed

lemma lists_only_frame:
  assumes "lists_only c c'"
  shows "steady c c'" "core (item b c') = core (item b c)" "pskel (slab j c') = pskel (slab j c)"
proof -
  have sl: "slab j c' = (slab j c)\<lparr>sm_item_list := sm_item_list (slab j c')\<rparr>" for j using assms by (simp add: lists_only_def)
  have it: "item b c' = (item b c)\<lparr>i_next := i_next (item b c'), i_prev := i_prev (item b c')\<rparr>" for b
    using assms by (simp add: lists_only_def)
  have "gskel (slab j c') = gskel (slab j c)" for j by (subst sl) (simp add: gskel_def)
  with lists_only_sel [OF assms] show "steady c c'" by (simp add: steady_def)
  show "core (item b c') = core (item b c)" by (subst it) (simp add: core_def)
  show "pskel (slab j c') = pskel (slab j c)" by (subst sl) (simp add: pskel_def)
qed

lemma lists_only_pages:
  assumes "lists_only c c'"
  shows "pages_rep c' e PL = pages_rep c e PL"
  by (rule pages_rep_cong) (simp_all add: lists_only_sel(1,2,4) [OF assms] lists_only_frame(3) [OF assms])

lemma pages_only_frame:
  assumes "pages_only c c'"
  shows "steady c c'" "mc_items c' = mc_items c" "mc_pool c' = mc_pool c" "sm_item_list (slab j c') = sm_item_list (slab j c)"
    "pi_id (page i c') = pi_id (page i c)" "pi_free_nr (page i c') = pi_free_nr (page i c)"
    "pi_free_head (page i c') = pi_free_head (page i c)"
proof -
  have sk: "skel (slab j c') = skel (slab j c)" for j using assms by (simp add: pages_only_def)
  then have "gskel (slab j c') = gskel (slab j c)" for j using sk [of j] by (simp add: skel_def gskel_def)
  with assms show "steady c c'" by (simp add: pages_only_def steady_def)
  show "sm_item_list (slab j c') = sm_item_list (slab j c)" using sk [of j] by (simp add: skel_def)
qed (use assms in \<open>simp_all add: pages_only_def\<close>)

lemma pages_only_items:
  assumes "pages_only c c'" "item_lists c IL"
  shows "item_lists c' IL"
  by (rule item_lists_cong [OF assms(2)])
    (use pages_only_frame [OF assms(1)] steadyD [OF pages_only_frame(1) [OF assms(1)]] in simp_all)

subsection \<open>One slot changes\<close>

lemma page_invs_step:
  assumes geo: "geo c" and inv: "\<And>j k. OW j = Some k \<Longrightarrow> page_inv c k j (FS j)"
    and st: "steady c c'" and own: "\<And>j k. OW' j = Some k \<Longrightarrow> OW j = Some k \<and> j \<notin> free_set (mc_pool c')"
    and i: "OW i = Some k" "a \<in> slots c k i"
    and it: "\<And>b. b \<noteq> a \<Longrightarrow> core (item b c') = core (item b c)"
      "CLEAR_FLAGS (i_item_id (item a c')) = CLEAR_FLAGS (i_item_id (item a c))"
      "length (i_data (item a c')) = length (i_data (item a c))"
    and pg: "\<And>j. j \<noteq> i \<Longrightarrow> pi_id (page j c') = pi_id (page j c) \<and> pi_free_nr (page j c') = pi_free_nr (page j c) \<and>
      pi_free_head (page j c') = pi_free_head (page j c)"
    and pi: "pi_id (page i c') = pi_id (page i c)" "pi_free_nr (page i c') = int (length fs)"
      "fchain c' (pi_free_head (page i c')) fs" "distinct fs" "set fs \<subseteq> slots c k i"
      "\<And>b. b \<in> set fs \<Longrightarrow> CLEAR_FLAGS (i_item_id (item b c')) = i_item_id (item b c')"
    and j: "OW' j = Some k'"
  shows "page_inv c' k' j ((FS(i := fs)) j)"
proof -
  note s = steadyD [OF st] and o = own [OF j]
  have same: "CLEAR_FLAGS (i_item_id (item b c')) = CLEAR_FLAGS (i_item_id (item b c)) \<and>
      length (i_data (item b c')) = length (i_data (item b c))" for b
    using it core_sel [OF it(1), of b] by (cases "b = a") auto
  show ?thesis
  proof (cases "j = i")
    case True
    with o i(1) have "k' = k" by simp
    with True page_inv_cong [OF inv [OF i(1)] s(1,2) _ s(3,4) pi] o same show ?thesis by simp
  next
    case False
    have k: "k < length (mc_slabs c)" "k' < length (mc_slabs c)" using inv o i(1) by (auto simp: page_inv_def)
    have "a \<notin> slots c k' j" using slots_apart [OF geo k i(2)] False by blast
    moreover have "set (FS j) \<subseteq> slots c k' j" using inv [OF conjunct1 [OF o]] by (simp add: page_inv_def)
    ultimately have ne: "b \<noteq> a" if "b \<in> set (FS j)" for b using that by blast
    have "page_inv c' k' j (FS j)"
    proof (rule page_inv_same [OF _ s(1,2) _ s(3,4)])
      show "page_inv c k' j (FS j)" "j \<notin> free_set (mc_pool c')" using inv o by blast+
      show "i_item_id (item b c') = i_item_id (item b c) \<and> i_h_next (item b c') = i_h_next (item b c)"
        if "b \<in> set (FS j)" for b using core_sel [OF it(1) [OF ne [OF that]]] by simp
    qed (use pg [OF False] same in auto)
    with False show ?thesis by simp
  qed
qed

text \<open>The slots in use when a slot is freed or taken, and the union of the item lists with them.\<close>

lemma used_steady: "steady c c' \<Longrightarrow> used c' OW FS k = used c OW FS k"
  using steadyD(8) by (simp add: used_def)

lemma used_free:
  assumes rep: "cache_rep c X PL OW FS IL" and a: "OW i = Some k" "a \<in> slots c k i" and k': "k' < length (mc_slabs c)"
  shows "used c OW (FS(i := a # FS i)) k' = used c OW FS k' - {a}"
proof -
  have "j = i" if "OW j = Some k'" "a \<in> slots c k' j" for j
    using slots_apart [OF cache_rep_sel(1) [OF rep] k' cache_rep_page(2) [OF rep a(1)]] that a(2) by blast
  then show ?thesis by (auto simp: used_def) metis
qed

lemma used_take:
  assumes inv: "page_inv c k i (FS i)" and i: "OW i = Some k" "FS i = a # fs"
  shows "used c OW (FS(i := fs)) k' = used c OW FS k' \<union> (if k' = k then {a} else {})"
proof -
  have "distinct (a # fs)" "set (a # fs) \<subseteq> slots c k i" using inv i(2) by (auto simp: page_inv_def)
  with i show ?thesis by (auto simp: used_def split: if_splits) (metis option.inject)+
qed

lemma used_drop:
  assumes "slots c k i = set (FS i)" "OW i = Some k"
  shows "used c (OW(i := None)) FS k' = used c OW FS k'"
proof -
  have "\<not> (OW i = Some k' \<and> b \<in> slots c k' i - set (FS i))" for b using assms by auto
  then show ?thesis unfolding used_def by (metis (no_types, lifting) fun_upd_apply option.distinct(1))
qed

lemma lists_remove:
  assumes "item_lists c IL" "a \<in> set (IL (k, ar))"
  shows "(\<Union>r. set ((IL((k, ar) := remove1 a (IL (k, ar)))) (k', r))) = (\<Union>r. set (IL (k', r))) - {a}"
  using item_lists_mem(5,6) [OF assms] by (auto split: if_splits)

lemma lists_add:
  "(\<Union>r. set ((IL((k, ar) := a # IL (k, ar))) (k', r))) = (\<Union>r. set (IL (k', r))) \<union> (if k' = k then {a} else {})"
  by (auto split: if_splits)

text \<open>A page whose slots are all free.\<close>

lemma all_free:
  assumes "geo c" "page_inv c k i fs" "length fs = sm_per_slab (slab k c)"
  shows "set fs = slots c k i"
proof -
  have "k < length (mc_slabs c)" "distinct fs" "set fs \<subseteq> slots c k i" using assms(2) by (auto simp: page_inv_def)
  with card_slots [OF assms(1), of k i] assms(3) show ?thesis
    by (intro card_subset_eq) (auto simp: distinct_card)
qed

lemma free_slots_less:
  assumes "geo c" "page_inv c k i fs" "a \<in> slots c k i" "a \<notin> set fs"
  shows "length fs < sm_per_slab (slab k c)"
proof -
  have f: "k < length (mc_slabs c)" "distinct fs" "set fs \<subseteq> slots c k i" using assms(2) by (auto simp: page_inv_def)
  then have "card (set fs) < card (slots c k i)" using assms(3,4) by (intro psubset_card_mono) auto
  with card_slots [OF assms(1) f(1), of i] f(2) show ?thesis by (simp add: distinct_card)
qed

lemma free_count: "geo c \<Longrightarrow> page_inv c k i fs \<Longrightarrow> length fs \<le> sm_per_slab (slab k c)"
  using card_mono [OF finite_slots, of "set fs" c k i] distinct_card [of fs] card_slots [of c k i]
  by (simp add: page_inv_def)

lemma free_head: "geo c \<Longrightarrow> page_inv c k i fs \<Longrightarrow> pi_free_head (page i c) = 0 \<longleftrightarrow> fs = []"
  using slot_item(2) [of c k i fs "hd fs"] by (cases fs) (auto simp: page_inv_def CLEAR_FLAGS_def)

subsection \<open>Release\<close>

text \<open>The page of the item leaves its list.\<close>

lemma leave_list:
  assumes rep: "cache_rep c X PL OW FS IL" and i: "OW i = Some k" and n: "length (FS i) < sm_per_slab (slab k c)"
    and c1: "pages_rep c1 (\<lambda>_. 0) PL" "steady c c1" "\<And>j. page j c1 = page j c"
  defines "q \<equiv> pclass k (sm_per_slab (slab k c)) (length (FS i))"
  shows "\<exists>c2. (if pi_free_nr (page i c1) = 0
              then do { (head, c) \<leftarrow> unlink_page i (sm_full_pages (slab k c1)) c1;
                        Some (upd_slab k (\<lambda>s. s\<lparr>sm_full_pages := head, sm_full_pages_no := sm_full_pages_no s - 1,
                          sm_partial_pages_no := sm_partial_pages_no s + 1\<rparr>) c) }
              else if pi_free_head (page i c1) = 0 then None else unlink_partial_page k i c1) = Some c2 \<and>
           pages_only c1 c2 \<and> pages_rep c2 ((\<lambda>_. 0)(k := 1)) (PL(q := remove1 i (PL q)))"
proof -
  note inv = cache_rep_page [OF rep i] and geo = cache_rep_sel(1) [OF rep] and s = steadyD [OF c1(2)]
  have k: "k < length (mc_slabs c1)" using inv(2) s(3) by simp
  have fr: "pi_free_nr (page i c1) = int (length (FS i))" using inv(1) c1(3) by (simp add: page_inv_def)
  show ?thesis
  proof (cases "FS i = []")
    case True
    then have q: "q = Full k" by (simp add: q_def pclass_def)
    have "phead c1 (Full k) = sm_full_pages (slab k c1)" using k by (simp add: phead_def)
    with unlink_page_rep [OF c1(1) k, of "Full k" i] inv(3) obtain h c2 where c2:
      "unlink_page i (sm_full_pages (slab k c1)) c1 = Some (h, c2)"
      "\<forall>g d. slab_step q k h (- 1) d (slab k c1) (g (slab k c1)) \<longrightarrow>
         pages_rep (upd_slab k g c2) ((\<lambda>_. 0)(k := 0 + d)) (PL(q := remove1 i (PL q))) \<and> pages_only c1 (upd_slab k g c2)"
      unfolding q_def [symmetric] q by auto
    let ?g = "\<lambda>s. s\<lparr>sm_full_pages := h, sm_full_pages_no := sm_full_pages_no s - 1, sm_partial_pages_no := sm_partial_pages_no s + 1\<rparr>"
    have "slab_step q k h (- 1) 1 (slab k c1) (?g (slab k c1))" by (simp add: slab_step_def q skel_def)
    with spec [OF spec [OF c2(2), of ?g], of 1]
    have "pages_rep (upd_slab k ?g c2) ((\<lambda>_. 0)(k := 0 + 1)) (PL(q := remove1 i (PL q))) \<and> pages_only c1 (upd_slab k ?g c2)"
      by simp
    with c2(1) fr True show ?thesis by simp
  next
    case False
    then have "pi_free_head (page i c1) \<noteq> 0" using free_head [OF geo inv(1)] c1(3) by simp
    moreover have q: "q = Part k (length (FS i) div 10)" using False n by (simp add: q_def pclass_def)
    moreover have "length (FS i) div 10 < length (sm_partial_pages (slab k c1))"
      using geo_slab(8) [OF geo inv(2)] n gskel_sel(5) [OF s(4), of k] by (simp add: div_less_iff_less_mult)
    with unlink_partial_page_rep [OF c1(1) k, of "length (FS i) div 10" i] fr inv(3) q
    have "\<exists>c'. unlink_partial_page k i c1 = Some c' \<and> pages_only c1 c' \<and>
        pages_rep c' ((\<lambda>_. 0)(k := 1)) (PL(q := remove1 i (PL q)))" by (auto simp: q_def [symmetric])
    ultimately show ?thesis using fr False by auto
  qed
qed

text \<open>The cache after the slot \<open>a\<close> of page \<open>i\<close> has been put on the page's chain and the page into a list.\<close>

lemma freed_rep:
  assumes rep: "cache_rep c X PL OW FS IL" and i: "OW i = Some k" and a: "a \<in> slots c k i" "a \<notin> set (FS i)"
    and ar: "a \<in> set (IL (k, ar))" and fl: "CLEAR_FLAGS (i_item_id (item a c)) = i_item_id (item a c)"
    and st: "steady c c'" and pool: "pool_wf (mc_pool c')"
    and own: "OW' = OW \<and> mc_pool c' = mc_pool c \<or>
      OW' = OW(i := None) \<and> free_set (mc_pool c') = insert i (free_set (mc_pool c)) \<and> slots c k i = set (a # FS i) \<and> (\<exists>j. j \<noteq> i \<and> OW j = Some k)"
    and it: "\<And>b. b \<noteq> a \<Longrightarrow> core (item b c') = core (item b c)"
      "core (item a c') = core ((item a c)\<lparr>i_h_next := pi_free_head (page i c)\<rparr>)"
    and pg: "\<And>j. pi_id (page j c') = pi_id (page j c)"
      "\<And>j. j \<noteq> i \<Longrightarrow> pi_free_nr (page j c') = pi_free_nr (page j c) \<and> pi_free_head (page j c') = pi_free_head (page j c)"
      "pi_free_nr (page i c') = pi_free_nr (page i c) + 1" "pi_free_head (page i c') = i_item_id (item a c)"
    and lists: "pages_rep c' (\<lambda>_. 0) PL'" "listed c' {} PL' OW' (FS(i := a # FS i))"
      "item_lists c' (IL((k, ar) := remove1 a (IL (k, ar))))"
  shows "cache_rep c' (insert a X) PL' OW' (FS(i := a # FS i)) (IL((k, ar) := remove1 a (IL (k, ar))))"
proof -
  let ?FS = "FS(i := a # FS i)" and ?IL = "IL((k, ar) := remove1 a (IL (k, ar)))"
  note geo = cache_rep_sel(1) [OF rep] and s = steadyD [OF st] and inv = cache_rep_page(1) [OF rep]
  note ia = core_sel [OF it(2)] and ib = core_sel [OF it(1)]
  have k: "k < length (mc_slabs c)" by (rule cache_rep_page(2) [OF rep i])
  have fsi: "set (FS i) \<subseteq> slots c k i" "distinct (FS i)" using inv [OF i] by (auto simp: page_inv_def)
  show ?thesis
  proof (rule cache_repI)
    show "geo c'" by (rule geo_cong [OF geo pool s(1,3,4)])
    show "page_inv c' k' j (?FS j)" if "OW' j = Some k'" for j k'
    proof (rule page_invs_step [where c = c and OW = OW and FS = FS and OW' = OW' and fs = "a # FS i", OF geo inv st _ i a(1) it(1)])
      show "OW j = Some k' \<and> j \<notin> free_set (mc_pool c')" if "OW' j = Some k'" for j k'
        using own that inv by (auto simp: page_inv_def split: if_splits)
      have "i_item_id (item b c') = i_item_id (item b c) \<and> i_h_next (item b c') = i_h_next (item b c)" if "b \<in> set (FS i)" for b
        using ib(1,7) [of b] a(2) that by blast
      from fchain_cong [of "FS i" c' c, OF this] have "fchain c' (pi_free_head (page i c)) (FS i)"
        using inv [OF i] by (simp add: page_inv_def)
      then show "fchain c' (pi_free_head (page i c')) (a # FS i)" using ia pg(4) by simp
      show "CLEAR_FLAGS (i_item_id (item b c')) = i_item_id (item b c')" if "b \<in> set (a # FS i)" for b
        using that inv [OF i] ia ib(7) [of b] fl by (cases "b = a") (auto simp: page_inv_def)
    qed (use that ia pg fsi a inv [OF i] in \<open>auto simp: page_inv_def\<close>)
    show "(\<exists>i. OW' i = Some k') \<and> (\<Union>r. set (?IL (k', r))) = used c' OW' ?FS k'" if k': "k' < length (mc_slabs c')" for k'
    proof -
      have k'c: "k' < length (mc_slabs c)" using k' s(3) by simp
      obtain j where j: "OW j = Some k'" using cache_rep_sel(6) [OF rep k'c] by blast
      have "\<exists>j. OW' j = Some k'" using own j i by (cases "j = i") (auto split: if_splits)
      moreover have "used c' OW' ?FS k' = used c OW ?FS k'"
        using own used_steady [OF st] used_drop [of c k i ?FS OW] i by auto
      ultimately show ?thesis
        using used_free [OF rep i a(1) k'c] lists_remove [OF cache_rep_sel(4) [OF rep] ar] cache_rep_sel(7) [OF rep k'c] by simp
    qed
    show "ITEM_AREA (item b c') = r" if "b \<in> set (?IL (k', r)) - insert a X" for k' r b
      using that cache_rep_sel(8) [OF rep, of b k' r] ib(9) [of b] by (auto split: if_splits dest: notin_set_remove1 set_remove1_subset [THEN subsetD])
    show "i_exptime (item b c') = 0" if "OW' j = Some k'" "b \<in> set (?FS j) - insert a X" for j k' b
      using that own cache_rep_sel(9) [OF rep, of j k' b] ib(2) [of b] by (auto split: if_splits)
  qed (fact lists)+
qed

lemma item_total_frame:
  fixes c :: cache and k :: nat and f :: "u64 \<Rightarrow> u64"
  defines "c' \<equiv> upd_slab k (\<lambda>s. s\<lparr>sm_item_total_count := f (sm_item_total_count s)\<rparr>) c"
  shows "steady c c'" "pskel (slab j c') = pskel (slab j c)" "sm_item_list (slab j c') = sm_item_list (slab j c)"
  by (cases "k < length (mc_slabs c)"; cases "j = k";
      simp add: c'_def steady_def gskel_def pskel_def nth_list_update list_update_beyond)+

text \<open>The end of \<open>free_item\<close>: a page all of whose slots are free is kept or given back.\<close>

definition settle_page :: "nat \<Rightarrow> nat \<Rightarrow> cache \<Rightarrow> cache option" where
  "settle_page k i c =
     (if pi_free_nr (page i c) = int (sm_per_slab (slab k c))
      then do {
        let c = upd_slab k (\<lambda>s. s\<lparr>sm_partial_pages_no := sm_partial_pages_no s - 1\<rparr>) c;
        let s = slab k c;
        if sm_free_pages_no s + sm_full_pages_no s + sm_partial_pages_no s \<le> 1
        then do { (head, c) \<leftarrow> link_page i (sm_free_pages s) c;
                  Some (upd_slab k (\<lambda>s. s\<lparr>sm_free_pages := head, sm_free_pages_no := sm_free_pages_no s + 1\<rparr>) c) }
        else do { p \<leftarrow> mp_free_page (int (pi_id (page i c))) (mc_pool c); Some (c\<lparr>mc_pool := p\<rparr>) } }
      else link_partial_page k i c)"

text \<open>A list of pages that is not empty shows a page of its slab.\<close>

lemma listed_page:
  assumes "listed c H PL OW FS" "PL (Full k) \<noteq> [] \<or> PL (Free k) \<noteq> [] \<or> (\<exists>b. PL (Part k b) \<noteq> [])"
  shows "\<exists>j. j \<notin> H \<and> OW j = Some k"
proof -
  from assms(2) obtain q j where q: "q \<in> {Full k, Free k} \<union> range (Part k)" "j \<in> set (PL q)"
    by (metis UnCI insertCI last_in_set rangeI)
  from assms(1) q(2) obtain k' where "j \<notin> H" "OW j = Some k'" "q = pclass k' (sm_per_slab (slab k' c)) (length (FS j))"
    unfolding listed_def by blast
  with q(1) show ?thesis by (auto simp: pclass_def split: if_splits)
qed

lemma settle_page_rep:
  assumes rep: "pages_rep c ((\<lambda>_. 0)(k := 1)) PL" and geo: "geo c" and k: "k < length (mc_slabs c)"
    and ok: "page_ok c i" and i: "OW i = Some k" "listed c {i} PL OW FS"
    and n: "pi_free_nr (page i c) = int (length (FS i))" "0 < length (FS i)" "length (FS i) \<le> sm_per_slab (slab k c)"
  shows "\<exists>c' OW' PL'. settle_page k i c = Some c' \<and> steady c c' \<and> mc_items c' = mc_items c \<and>
    (\<forall>j. sm_item_list (slab j c') = sm_item_list (slab j c)) \<and>
    (\<forall>j. pi_id (page j c') = pi_id (page j c) \<and> pi_free_nr (page j c') = pi_free_nr (page j c) \<and>
       pi_free_head (page j c') = pi_free_head (page j c)) \<and>
    pool_wf (mc_pool c') \<and> pages_rep c' (\<lambda>_. 0) PL' \<and> listed c' {} PL' OW' FS \<and>
    (OW' = OW \<and> mc_pool c' = mc_pool c \<or> OW' = OW(i := None) \<and> free_set (mc_pool c') = insert i (free_set (mc_pool c)) \<and>
       length (FS i) = sm_per_slab (slab k c) \<and> (\<exists>j. j \<noteq> i \<and> OW j = Some k))"
proof -
  note out = listed_out [OF i(2)]
  let ?per = "sm_per_slab (slab k c)"
  have wf: "pool_wf (mc_pool c)" using geo by (simp add: geo_def)
  define q where "q = pclass k ?per (length (FS i))"
  have enter: "listed c' {} (PL(q := i # PL q)) OW FS" if "steady c c'" for c'
    using listed_cong [of c' c] steadyD(4) [OF that] listed_enter [OF i(2,1) q_def] by simp
  show ?thesis
  proof (cases "length (FS i) = ?per")
    case False
    then have q: "q = Part k (length (FS i) div 10)" using n(2) by (simp add: q_def pclass_def)
    have b: "length (FS i) div 10 < length (sm_partial_pages (slab k c))"
      using geo_slab(8) [OF geo k] n(3) False by (simp add: div_less_iff_less_mult)
    from link_partial_page_rep [OF rep k ok out _ b] n(1) obtain c' where c': "link_partial_page k i c = Some c'"
      "pages_only c c'" "pages_rep c' (\<lambda>_. 0) (PL(q := i # PL q))" by (auto simp: q fun_upd_idem)
    note f = pages_only_frame [OF c'(2)]
    show ?thesis
      by (rule exI [of _ c'], rule exI [of _ OW], rule exI [of _ "PL(q := i # PL q)"])
        (use c' f enter [OF f(1)] False n(1) wf in \<open>simp add: settle_page_def\<close>)
  next
    case True
    then have q: "q = Free k" using n(2) by (simp add: q_def pclass_def)
    define c1 where "c1 = upd_slab k (\<lambda>s. s\<lparr>sm_partial_pages_no := sm_partial_pages_no s - 1\<rparr>) c"
    have rep1: "pages_rep c1 (\<lambda>_. 0) PL" using partial_no_rep [OF rep k, of "- 1"] by (simp add: c1_def fun_upd_idem)
    have sl1: "slab j c1 = (if j = k then (slab k c)\<lparr>sm_partial_pages_no := sm_partial_pages_no (slab k c) - 1\<rparr> else slab j c)" for j
      using k by (simp add: c1_def nth_list_update)
    have c1: "mc_pool c1 = mc_pool c" "mc_items c1 = mc_items c" "mc_pages c1 = mc_pages c"
      "length (mc_slabs c1) = length (mc_slabs c)" "mc_area_timestamp c1 = mc_area_timestamp c" by (simp_all add: c1_def)
    have st1: "steady c c1" by (simp add: steady_def c1 sl1 gskel_def)
    have k1: "k < length (mc_slabs c1)" and ok1: "page_ok c1 i" using k ok by (simp_all add: c1 page_ok_iff)
    have il1: "sm_item_list (slab j c1) = sm_item_list (slab j c)" for j by (simp add: sl1)
    show ?thesis
    proof (cases "sm_free_pages_no (slab k c1) + sm_full_pages_no (slab k c1) + sm_partial_pages_no (slab k c1) \<le> 1")
      case few: True
      let ?g = "\<lambda>s :: slab_manager. s\<lparr>sm_free_pages := i, sm_free_pages_no := sm_free_pages_no s + 1\<rparr>"
      have ph: "phead c1 (Free k) = sm_free_pages (slab k c1)" using k1 by (simp add: phead_def)
      from link_page_rep [OF rep1 k1, of "Free k" i] ok1 out obtain c2 where c2: "link_page i (sm_free_pages (slab k c1)) c1 = Some (i, c2)"
        "\<forall>g d. slab_step q k i 1 d (slab k c1) (g (slab k c1)) \<longrightarrow>
          pages_rep (upd_slab k g c2) ((\<lambda>_. 0)(k := 0 + d)) (PL(q := i # PL q)) \<and> pages_only c1 (upd_slab k g c2)"
        unfolding ph q by auto
      have "slab_step q k i 1 0 (slab k c1) (?g (slab k c1))" by (simp add: slab_step_def q skel_def)
      with spec [OF spec [OF c2(2), of ?g], of 0]
      have c3: "pages_rep (upd_slab k ?g c2) (\<lambda>_. 0) (PL(q := i # PL q))" "pages_only c1 (upd_slab k ?g c2)"
        by (simp_all add: fun_upd_idem)
      note f = pages_only_frame [OF c3(2)]
      have st: "steady c (upd_slab k ?g c2)" using st1 f(1) by (rule steady_trans)
      have "settle_page k i c = Some (upd_slab k ?g c2)"
        using True n(1) few c2(1) by (simp add: settle_page_def Let_def c1_def [symmetric])
      then show ?thesis
        by (intro exI [of _ "upd_slab k ?g c2"] exI [of _ OW] exI [of _ "PL(q := i # PL q)"])
          (use c3(1) f st enter [OF st] wf il1 c1 in \<open>simp del: upd_sel\<close>)
    next
      case many: False
      have "0 < i" "i < mp_total_pages (mc_pool c)" "pi_id (page i c1) = i" using ok by (simp_all add: page_ok_iff c1)
      with mp_free_page_ok [OF wf this(1,2)] obtain p where p: "mp_free_page (int i) (mc_pool c) = Some p" "pool_wf p"
        "free_set p = insert i (free_set (mc_pool c))" by blast
      have psame: "mp_page_size p = psz c" "mp_total_pages p = mp_total_pages (mc_pool c)"
        using p(1) by (auto simp: mp_free_page_def bind_eq_Some_conv split: if_splits)
      note sc = slab_counts_sel [OF rep1 k1]
      have "PL (Full k) \<noteq> [] \<or> PL (Free k) \<noteq> [] \<or> (\<exists>b. PL (Part k b) \<noteq> [])"
      proof (rule ccontr)
        assume "\<not> ?thesis"
        with many sc(2-4) show False by simp
      qed
      from listed_page [OF i(2) this] have other: "\<exists>j. j \<noteq> i \<and> OW j = Some k" by auto
      let ?c = "c1\<lparr>mc_pool := p\<rparr>"
      have st: "steady c ?c" using st1 psame by (simp add: steady_def)
      have "settle_page k i c = Some ?c"
        using True n(1) many p(1) \<open>pi_id (page i c1) = i\<close> by (simp add: settle_page_def Let_def c1_def [symmetric] c1)
      moreover have "pages_rep ?c (\<lambda>_. 0) PL" using rep1 psame by (subst pages_rep_cong [of ?c c1]) (simp_all add: c1)
      moreover have "listed ?c {} PL (OW(i := None)) FS"
        using listed_drop [OF i(2)] listed_cong [of ?c c] steadyD(4) [OF st] by simp
      ultimately show ?thesis
        by (intro exI [of _ ?c] exI [of _ "OW(i := None)"] exI [of _ PL])
          (use st p other True il1 c1 in simp)
    qed
  qed
qed

lemma sm_free_item_rep:
  assumes rep: "cache_rep c X PL OW FS IL" and a: "a \<in> set (IL (k, ITEM_AREA (item a c)))"
    and fl: "CLEAR_FLAGS (i_item_id (item a c)) = i_item_id (item a c)"
  defines "IL' \<equiv> IL((k, ITEM_AREA (item a c)) := remove1 a (IL (k, ITEM_AREA (item a c))))"
  shows "\<exists>c' PL' OW' FS'. sm_free_item k a c = Some c' \<and> cache_rep c' (insert a X) PL' OW' FS' IL' \<and> steady c c' \<and>
    (\<forall>b. b \<noteq> a \<longrightarrow> core (item b c') = core (item b c)) \<and> core (item a c') = core ((item a c)\<lparr>i_h_next := i_h_next (item a c')\<rparr>)"
proof -
  let ?ar = "ITEM_AREA (item a c)"
  note geo = cache_rep_sel(1) [OF rep] and pr = cache_rep_sel(2) [OF rep]
  from cache_rep_item [OF rep a] obtain i where i: "OW i = Some k" "a \<in> slots c k i" "a \<notin> set (FS i)" by blast
  note inv = cache_rep_page [OF rep i(1)]
  note sl = slot_item [OF geo inv(1) i(2)]
  have n: "length (FS i) < sm_per_slab (slab k c)" by (rule free_slots_less [OF geo inv(1) i(2,3)])
  have ok: "page_ok c i" using inv(1) by (simp add: page_inv_def)
  define c0 where "c0 = upd_slab k (\<lambda>s. s\<lparr>sm_item_total_count := sm_item_total_count s - 1\<rparr>) c"
  note f0 = item_total_frame [where c = c and k = k and f = "\<lambda>x. x - 1", folded c0_def] and s0 = steadyD [OF f0(1)]
  have c0: "mc_items c0 = mc_items c" "mc_pages c0 = mc_pages c" "mc_pool c0 = mc_pool c" by (simp_all add: c0_def)
  have "item_lists c0 IL" by (rule item_lists_cong [OF cache_rep_sel(4) [OF rep]]) (simp_all add: c0 s0 f0(3))
  from unlink_item_lists [OF this] a obtain c1 where c1: "unlink_item k a c0 = Some c1" "item_lists c1 IL'" "lists_only c0 c1"
    by (auto simp: c0(1) IL'_def)
  note f1 = lists_only_frame [OF c1(3)] and l1 = lists_only_sel [OF c1(3)]
  have st1: "steady c c1" using f0(1) f1(1) by (rule steady_trans)
  note s1 = steadyD [OF st1]
  have pr1: "pages_rep c1 (\<lambda>_. 0) PL"
    using pr pages_rep_cong [of c0 c] f0(2) s0 by (simp add: lists_only_pages [OF c1(3)] c0)
  have pg1: "page j c1 = page j c" for j by (simp add: l1(2) c0(2))
  have pid: "unat (PAGE_ID (i_item_id (item a c1))) = i" using sl(3) l1(7) c0(1) by simp
  have at: "page_at i c1 = Some i" using ok s1(2) by (simp add: page_ok_iff page_at_def index_to_page_def)
  define q where "q = pclass k (sm_per_slab (slab k c)) (length (FS i))"
  define PL1 where "PL1 = PL(q := remove1 i (PL q))"
  from leave_list [OF rep i(1) n pr1 st1 pg1] obtain c2 where
    c2: "(if pi_free_nr (page i c1) = 0
              then do { (head, c) \<leftarrow> unlink_page i (sm_full_pages (slab k c1)) c1;
                        Some (upd_slab k (\<lambda>s. s\<lparr>sm_full_pages := head, sm_full_pages_no := sm_full_pages_no s - 1,
                          sm_partial_pages_no := sm_partial_pages_no s + 1\<rparr>) c) }
              else if pi_free_head (page i c1) = 0 then None else unlink_partial_page k i c1) = Some c2"
      "pages_only c1 c2" "pages_rep c2 ((\<lambda>_. 0)(k := 1)) PL1"
    by (auto simp: PL1_def q_def)
  note f2 = pages_only_frame [OF c2(2)]
  have listed1: "listed c {i} PL1 OW (FS(i := a # FS i))"
    using listed_leave [OF cache_rep_sel(5) [OF rep] page_lists_head(5) [OF cache_rep_sel(3) [OF rep]] inv(3)]
    by (simp add: PL1_def q_def)
  define c3 where "c3 = upd_item a (\<lambda>it. it\<lparr>i_prev := 0, i_next := 0, i_h_next := pi_free_head (page i c2)\<rparr>) c2"
  define c4 where "c4 = upd_page i (\<lambda>p. p\<lparr>pi_free_head := i_item_id (item a c3), pi_free_nr := pi_free_nr p + 1\<rparr>) c3"
  have run: "sm_free_item k a c = settle_page k i c4"
    unfolding sm_free_item_def Let_def c0_def [symmetric] c1(1) Option.bind.bind_lunit pid at c2(1)
    unfolding c3_def [symmetric] c4_def [symmetric] settle_page_def Let_def
    by (rule if_not_P) (use sl(2) in \<open>auto simp: CLEAR_FLAGS_def\<close>)
  have pool4: "mc_pool c4 = mc_pool c" using f2(3) l1(1) by (simp add: c4_def c3_def c0)
  have sk4: "slab j c4 = slab j c2" for j by (simp add: c4_def c3_def)
  have st4: "steady c c4"
    using steady_trans [OF st1 f2(1)] pool4 by (simp add: steady_def c4_def c3_def)
  note s4 = steadyD [OF st4]
  have it2: "item b c2 = item b c1" for b using f2(2) by simp
  have core1: "core (item b c1) = core (item b c)" for b using f1(2) [of b] c0(1) by simp
  note k1 = core_sel [OF core1]
  have it4: "core (item b c4) = core (item b c)" if "b \<noteq> a" for b using core1 that by (simp add: c4_def c3_def it2)
  have ita: "core (item a c4) = core ((item a c)\<lparr>i_h_next := pi_free_head (page i c)\<rparr>)"
    using core1 [of a] f2(7) [of i] pg1 by (simp add: c4_def c3_def it2 core_upd)
  have pg4: "pi_id (page j c4) = pi_id (page j c)"
    "pi_free_nr (page j c4) = (if j = i then pi_free_nr (page j c) + 1 else pi_free_nr (page j c))"
    "pi_free_head (page j c4) = (if j = i then i_item_id (item a c) else pi_free_head (page j c))" for j
    using f2(5-7) [of j] pg1 k1(7) [of a] by (auto simp: c4_def c3_def it2)
  have rep4: "pages_rep c4 ((\<lambda>_. 0)(k := 1)) PL1"
    using c2(3) by (subst pages_rep_cong [of c4 c2]) (simp_all add: c4_def c3_def)
  have il4: "item_lists c4 IL'"
  proof (rule item_lists_cong [OF pages_only_items [OF c2(2) c1(2)]])
    fix p b
    assume "b \<in> set (IL' p)"
    then have "b \<noteq> a"
      using item_lists_mem(5) [OF cache_rep_sel(4) [OF rep] a] item_lists_mem(6) [OF cache_rep_sel(4) [OF rep] a, of p]
      by (cases "p = (k, ?ar)") (auto simp: IL'_def)
    then show "i_next (item b c4) = i_next (item b c2) \<and> i_prev (item b c4) = i_prev (item b c2) \<and>
      CLEAR_FLAGS (i_item_id (item b c4)) = CLEAR_FLAGS (i_item_id (item b c2))" by (simp add: c4_def c3_def)
  qed (simp_all add: c4_def c3_def)
  have "geo c4" by (rule geo_cong [OF geo _ s4(1,3,4)]) (use geo pool4 in \<open>simp add: geo_def\<close>)
  moreover have "k < length (mc_slabs c4)" "page_ok c4 i" using inv(2) ok s4 pg4(1) by (simp_all add: page_ok_iff)
  moreover have "listed c4 {i} PL1 OW (FS(i := a # FS i))" using listed1 listed_cong [of c4 c] s4(4) by simp
  moreover have "pi_free_nr (page i c4) = int (length ((FS(i := a # FS i)) i))" "0 < length ((FS(i := a # FS i)) i)"
    "length ((FS(i := a # FS i)) i) \<le> sm_per_slab (slab k c4)"
    using inv(1) n s4(7) [of k] pg4(2) by (simp_all add: page_inv_def)
  ultimately obtain c5 OW' PL' where
    c5: "settle_page k i c4 = Some c5" "steady c4 c5" "mc_items c5 = mc_items c4"
      "\<forall>j. sm_item_list (slab j c5) = sm_item_list (slab j c4)"
      "\<forall>j. pi_id (page j c5) = pi_id (page j c4) \<and> pi_free_nr (page j c5) = pi_free_nr (page j c4) \<and>
         pi_free_head (page j c5) = pi_free_head (page j c4)"
      "pool_wf (mc_pool c5)" "pages_rep c5 (\<lambda>_. 0) PL'" "listed c5 {} PL' OW' (FS(i := a # FS i))"
      "OW' = OW \<and> mc_pool c5 = mc_pool c4 \<or> OW' = OW(i := None) \<and> free_set (mc_pool c5) = insert i (free_set (mc_pool c4)) \<and>
         length (a # FS i) = sm_per_slab (slab k c4) \<and> (\<exists>j. j \<noteq> i \<and> OW j = Some k)"
    using settle_page_rep [where c = c4 and OW = OW and FS = "FS(i := a # FS i)" and i = i and k = k and PL = PL1] rep4 i(1)
    by (simp only: fun_upd_same) blast
  have st5: "steady c c5" using st4 c5(2) by (rule steady_trans)
  have all: "slots c k i = set (a # FS i)" if "length (a # FS i) = sm_per_slab (slab k c4)"
  proof -
    have "set (a # FS i) \<subseteq> slots c k i" "distinct (a # FS i)" using inv(1) i by (auto simp: page_inv_def)
    with that card_slots [OF geo inv(2), of i] s4(7) [of k] show ?thesis
      by (intro card_subset_eq [symmetric]) (auto simp: distinct_card simp del: set_simps)
  qed
  have "item_lists c5 IL'" by (rule item_lists_cong [OF il4]) (use c5(3,4) steadyD [OF c5(2)] in simp_all)
  then have "cache_rep c5 (insert a X) PL' OW' (FS(i := a # FS i)) IL'"
    unfolding IL'_def
    by (intro freed_rep [OF rep i(1,2,3) a fl st5 c5(6) _ _ _ _ _ _ _ c5(7,8)])
      (use c5(3,5,9) pool4 all it4 ita pg4 in auto)
  moreover have "i_h_next (item a c5) = pi_free_head (page i c)" using core_sel(1) [OF ita] c5(3) by simp
  ultimately show ?thesis using run c5(1,3) st5 it4 ita by auto
qed

subsection \<open>Taking a page\<close>

text \<open>The invariant while page \<open>i\<close> of slab \<open>k\<close> is out of the page lists.\<close>

definition hand_rep :: "cache \<Rightarrow> nat set \<Rightarrow> nat \<Rightarrow> nat \<Rightarrow> (plist \<Rightarrow> nat list) \<Rightarrow> (nat \<Rightarrow> nat option) \<Rightarrow> (nat \<Rightarrow> nat list) \<Rightarrow>
    (nat \<times> nat \<Rightarrow> nat list) \<Rightarrow> bool" where
  "hand_rep c X k i PL OW FS IL \<longleftrightarrow> geo c \<and> pages_rep c ((\<lambda>_. 0)(k := 1)) PL \<and> item_lists c IL \<and>
     (\<forall>i k. OW i = Some k \<longrightarrow> page_inv c k i (FS i)) \<and> listed c {i} PL OW FS \<and> OW i = Some k \<and>
     (\<forall>k < length (mc_slabs c). (\<exists>i. OW i = Some k) \<and> (\<Union>ar. set (IL (k, ar))) = used c OW FS k) \<and>
     (\<forall>k ar. \<forall>a \<in> set (IL (k, ar)) - X. ITEM_AREA (item a c) = ar) \<and>
     (\<forall>i k. OW i = Some k \<longrightarrow> (\<forall>a \<in> set (FS i) - X. i_exptime (item a c) = 0))"

lemma hand_repI:
  assumes "geo c" "pages_rep c ((\<lambda>_. 0)(k := 1)) PL" "item_lists c IL" "\<And>i k. OW i = Some k \<Longrightarrow> page_inv c k i (FS i)"
    "listed c {i} PL OW FS" "OW i = Some k"
    "\<And>k. k < length (mc_slabs c) \<Longrightarrow> (\<exists>i. OW i = Some k) \<and> (\<Union>ar. set (IL (k, ar))) = used c OW FS k"
    "\<And>k ar a. a \<in> set (IL (k, ar)) - X \<Longrightarrow> ITEM_AREA (item a c) = ar"
    "\<And>i k a. OW i = Some k \<Longrightarrow> a \<in> set (FS i) - X \<Longrightarrow> i_exptime (item a c) = 0"
  shows "hand_rep c X k i PL OW FS IL"
  unfolding hand_rep_def
  by (intro conjI allI impI ballI assms(1-6,8,9) conjunct1 [OF assms(7)] conjunct2 [OF assms(7)])

lemma hand_rep_sel:
  assumes "hand_rep c X k i PL OW FS IL"
  shows "geo c" "pages_rep c ((\<lambda>_. 0)(k := 1)) PL" "item_lists c IL" "OW j = Some k' \<Longrightarrow> page_inv c k' j (FS j)"
    "listed c {i} PL OW FS" "OW i = Some k" "k' < length (mc_slabs c) \<Longrightarrow> \<exists>i. OW i = Some k'"
    "k' < length (mc_slabs c) \<Longrightarrow> (\<Union>ar. set (IL (k', ar))) = used c OW FS k'"
    "a \<in> set (IL (k', ar)) \<Longrightarrow> a \<notin> X \<Longrightarrow> ITEM_AREA (item a c) = ar"
    "OW j = Some k' \<Longrightarrow> a \<in> set (FS j) \<Longrightarrow> a \<notin> X \<Longrightarrow> i_exptime (item a c) = 0" "k < length (mc_slabs c)"
  using assms by (auto simp: hand_rep_def page_inv_def)

text \<open>A page of the slab is taken out of its list.\<close>

lemma hand_of_listed:
  assumes rep: "cache_rep c X PL OW FS IL" and i: "OW i = Some k"
    and c': "pages_only c c'" "pages_rep c' ((\<lambda>_. 0)(k := 1)) (PL(q := remove1 i (PL q)))"
    and q: "q = pclass k (sm_per_slab (slab k c)) (length (FS i))"
  shows "hand_rep c' X k i (PL(q := remove1 i (PL q))) OW FS IL"
proof -
  note f = pages_only_frame [OF c'(1)] and s = steadyD [OF pages_only_frame(1) [OF c'(1)]]
  have "geo c'" by (rule geo_cong [OF cache_rep_sel(1) [OF rep] _ s(1,3,4)])
      (use cache_rep_sel(1) [OF rep] f(3) in \<open>simp add: geo_def\<close>)
  moreover have "page_inv c' k' j (FS j)" if "OW j = Some k'" for j k'
    by (rule page_inv_same [OF cache_rep_page(1) [OF rep that] s(1,2) _ s(3,4)])
      (use f cache_rep_page(1) [OF rep that] in \<open>simp_all add: page_inv_def\<close>)
  moreover have "listed c' {i} (PL(q := remove1 i (PL q))) OW FS"
    using listed_leave [OF cache_rep_sel(5) [OF rep] page_lists_head(5) [OF cache_rep_sel(3) [OF rep]] cache_rep_page(3) [OF rep i], of "FS i"]
      listed_cong [of c' c] s(4) by (simp add: q)
  ultimately show ?thesis
    using cache_rep_sel [OF rep] used_steady [OF f(1)] f(2) s(3) i c'(2) pages_only_items [OF c'(1)]
    by (intro hand_repI) auto
qed

text \<open>\<open>init_page\<close> writes the header and the slots of the new page and nothing else.\<close>

lemma fold_upd:
  assumes "inj f"
  shows "fold (\<lambda>j st. st(f j := g j)) [0 ..< n] st a = (if \<exists>j < n. a = f j then g (inv f a) else st a)"
  using assms by (induction n) (auto simp: less_Suc_eq inv_f_f)

lemma init_page_items:
  assumes geo: "geo c" and k: "k < length (mc_slabs c)"
  shows "j < sm_per_slab (slab k c) \<Longrightarrow> item (slot_addr c k i j) (init_page k i c) =
      fresh_item (sm_slab_size (slab k c)) (sm_per_slab (slab k c)) i k j"
    and "b div psz c \<noteq> i \<Longrightarrow> item b (init_page k i c) = item b c"
proof -
  note g = geo_slab [OF geo k]
  have inj: "inj (slot_addr c k i)" by (rule slot_addr_inj [OF geo k])
  have f: "(\<lambda>j st. st(i * psz c + sizeof_page_info + j * sm_slab_size (slab k c) := fresh_item (sm_slab_size (slab k c)) (sm_per_slab (slab k c)) i k j)) =
      (\<lambda>j st. st(slot_addr c k i j := fresh_item (sm_slab_size (slab k c)) (sm_per_slab (slab k c)) i k j))"
    by (simp add: slot_addr_def)
  have it: "item b (init_page k i c) = (if \<exists>j < sm_per_slab (slab k c). b = slot_addr c k i j
      then fresh_item (sm_slab_size (slab k c)) (sm_per_slab (slab k c)) i k (inv (slot_addr c k i) b)
      else if i * psz c \<le> b \<and> b < i * psz c + psz c then blank_item else item b c)" for b
    unfolding init_page_def Let_def g(1,7) f by (simp add: fold_upd [OF inj])
  show "item (slot_addr c k i j) (init_page k i c) = fresh_item (sm_slab_size (slab k c)) (sm_per_slab (slab k c)) i k j"
    if "j < sm_per_slab (slab k c)" using that inj by (auto simp: it inv_f_f)
  show "item b (init_page k i c) = item b c" if "b div psz c \<noteq> i"
  proof -
    have "b \<noteq> slot_addr c k i j" if "j < sm_per_slab (slab k c)" for j
      using slots_bounds(3) [OF geo k, of b i] that \<open>b div psz c \<noteq> i\<close> by (auto simp: slots_def)
    moreover have "\<not> (i * psz c \<le> b \<and> b < i * psz c + psz c)"
      using that g(11) by (auto simp: div_nat_eqI algebra_simps)
    ultimately show ?thesis by (auto simp: it)
  qed
qed

lemma fresh_chain:
  assumes "\<And>j. j < n \<Longrightarrow> item (f j) c = fresh_item ss n i k j" "m \<le> n"
  shows "fchain c (if m < n then ITEM_ID ss m i k else 0) (map f [m ..< n])"
  using assms(2)
proof (induction "n - m" arbitrary: m)
  case (Suc d)
  then have m: "m < n" by simp
  from Suc.hyps(1) [of "m + 1"] Suc.hyps(2) m
  have "fchain c (if m + 1 < n then ITEM_ID ss (m + 1) i k else 0) (map f [m + 1 ..< n])" by simp
  with m show ?case by (auto simp: upt_conv_Cons assms(1) fresh_item_def blank_item_def split: if_splits)
qed simp

lemma CLEAR_FLAGS_ITEM_ID:
  assumes "ss < 2 ^ 20" "j < 2 ^ 16" "i < 2 ^ 16" "k < 2 ^ 8"
  shows "CLEAR_FLAGS (ITEM_ID ss j i k) = ITEM_ID ss j i k"
  using ITEM_ID_of_fields [of "ITEM_ID ss j i k"] assms by (simp add: ITEM_ID_fields unat_small)

lemma hand_new_page:
  assumes rep: "cache_rep c X PL OW FS IL" and k: "k < length (mc_slabs c)" and free: "free_set (mc_pool c) \<noteq> {}"
  shows "\<exists>pg i p c1 fs. alloc_page (mc_pool c) = Some (Some (pg, i), p) \<and>
    c1 = upd_slab k (\<lambda>s. s\<lparr>sm_partial_pages_no := sm_partial_pages_no s + 1\<rparr>) (init_page k i (c\<lparr>mc_pool := p\<rparr>)) \<and>
    steady c c1 \<and> hand_rep c1 X k i PL (OW(i \<mapsto> k)) (FS(i := fs)) IL \<and> fs \<noteq> [] \<and>
    (\<forall>b. b div psz c \<noteq> i \<longrightarrow> item b c1 = item b c) \<and> i \<notin> dom OW"
proof -
  note geo = cache_rep_sel(1) [OF rep] and pr = cache_rep_sel(2) [OF rep]
  have wf: "pool_wf (mc_pool c)" using geo by (simp add: geo_def)
  from alloc_page_ok [OF wf free] obtain i pg p where p: "alloc_page (mc_pool c) = Some (Some (pg, i), p)"
    "i \<in> free_set (mc_pool c)" "0 < i" "pool_wf p" "free_set p = free_set (mc_pool c) - {i}"
    and pe: "p = (mc_pool c)\<lparr>mp_current_page := i + 1, mp_free_pages := mp_free_pages (mc_pool c) - 1, mp_bitmap := mp_bitmap p\<rparr>"
    by blast
  have ps: "mp_page_size p = psz c" "mp_total_pages p = mp_total_pages (mc_pool c)" by (subst pe, simp)+
  have new: "OW i = None"
  proof (cases "OW i")
    case (Some k')
    from cache_rep_page(1) [OF rep this] p(2) show ?thesis by (simp add: page_inv_def)
  qed
  define c0 where "c0 = c\<lparr>mc_pool := p\<rparr>"
  define c1 where "c1 = upd_slab k (\<lambda>s. s\<lparr>sm_partial_pages_no := sm_partial_pages_no s + 1\<rparr>) (init_page k i c0)"
  define per where "per = sm_per_slab (slab k c)"
  define fs where "fs = map (slot_addr c k i) [0 ..< per]"
  note g = geo_slab [OF geo k]
  have st0: "steady c c0" by (simp add: c0_def steady_def ps)
  have st1: "steady c c1"
    using k by (auto simp: c1_def init_page_def Let_def c0_def steady_def ps gskel_def nth_list_update)
  note s1 = steadyD [OF st1]
  have geo0: "geo c0" by (rule geo_cong [OF geo]) (use steadyD [OF st0] p(4) in \<open>auto simp: c0_def\<close>)
  have geo1: "geo c1" by (rule geo_cong [OF geo _ s1(1,3,4)]) (simp add: c1_def init_page_def Let_def c0_def p(4))
  have c0: "psz c0 = psz c" "mc_slabs c0 = mc_slabs c" "mc_items c0 = mc_items c" "slot_addr c0 k i j = slot_addr c k i j" for j
    by (simp_all add: c0_def ps slot_addr_def)
  have k0: "k < length (mc_slabs c0)" using k c0(2) by simp
  have items: "b div psz c \<noteq> i \<Longrightarrow> item b c1 = item b c"
    "j < per \<Longrightarrow> item (slot_addr c k i j) c1 = fresh_item (sm_slab_size (slab k c)) per i k j" for b j
    using init_page_items(1) [OF geo0 k0, of j i] init_page_items(2) [OF geo0 k0, of b i] c0 by (simp_all add: c1_def per_def)
  have pages: "page j c1 = (if j = i then \<lparr>pi_id = i, pi_free_nr = int per, pi_next = 0, pi_prev = 0,
      pi_free_head = ITEM_ID (sm_slab_size (slab k c)) 0 i k\<rparr> else page j c)" for j
    using g(1) by (simp add: c1_def init_page_def Let_def c0_def per_def)
  have pool: "mc_pool c1 = p" by (simp add: c1_def init_page_def Let_def c0_def)
  have inv_old: "page_inv c1 k' j (FS j)" if "OW j = Some k'" for j k'
  proof -
    note pj = cache_rep_page [OF rep that]
    have ji: "j \<noteq> i" using that new by auto
    have sl: "item b c1 = item b c" if "b \<in> slots c k' j" for b
      using items(1) [of b] slots_bounds(3) [OF geo pj(2) that] ji by simp
    moreover have "set (FS j) \<subseteq> slots c k' j" using pj(1) by (simp add: page_inv_def)
    ultimately show ?thesis
      using pj(1) p(5) by (intro page_inv_same [OF pj(1) s1(1,2) _ s1(3,4)]) (auto simp: pages ji pool page_inv_def)
  qed
  have inv_new: "page_inv c1 k i fs"
  proof -
    have "fchain c1 (ITEM_ID (sm_slab_size (slab k c)) 0 i k) fs"
      using fresh_chain [where f = "slot_addr c k i" and n = per and m = 0 and c = c1, OF items(2)] g(5) by (simp add: fs_def per_def)
    moreover have "distinct fs" using slot_addr_inj [OF geo k, of i] by (auto simp: fs_def distinct_map intro: inj_on_subset)
    moreover have "i < mp_total_pages (mc_pool c)" using p(2) by (simp add: free_set_def)
    moreover have "set fs = slots c k i" by (auto simp: fs_def slots_def per_def)
    moreover have "CLEAR_FLAGS (ITEM_ID (sm_slab_size (slab k c)) j i k) = ITEM_ID (sm_slab_size (slab k c)) j i k" if "j < per" for j
      using that g(3,6,9,12) calculation(3) by (intro CLEAR_FLAGS_ITEM_ID) (auto simp: per_def)
    moreover from this have "CLEAR_FLAGS (i_item_id (item a c1)) = i_item_id (item a c1)" if "a \<in> set fs" for a
      using that by (auto simp: fs_def items(2) fresh_item_def)
    moreover have "length fs = per" by (simp add: fs_def)
    ultimately show ?thesis
      using s1(1,3,6,7) p(3,5) k unfolding page_inv_def Let_def slots_cong [OF s1(1,4)]
      by (auto simp: page_ok_iff pages pool ps items(2) [unfolded per_def] fresh_item_def blank_item_def per_def)
  qed
  have out: "i \<notin> set (PL q)" for q using cache_rep_sel(5) [OF rep] new by (auto simp: listed_def)
  have "hand_rep c1 X k i PL (OW(i \<mapsto> k)) (FS(i := fs)) IL"
  proof (rule hand_repI)
    have "pages_rep (init_page k i c0) (\<lambda>_. 0) PL"
      using pr out by (subst pages_rep_cong [of _ c]) (auto simp: init_page_def Let_def c0_def ps)
    then show "pages_rep c1 ((\<lambda>_. 0)(k := 1)) PL"
      using partial_no_rep [of "init_page k i c0" "\<lambda>_. 0" PL k 1] k by (simp add: c1_def init_page_def Let_def c0_def)
    have same: "item b c1 = item b c" if "b \<in> set (IL (k', ar))" for b k' ar
    proof -
      from cache_rep_item [OF rep that] obtain j where j: "OW j = Some k'" "b \<in> slots c k' j" by blast
      from j(1) new have "j \<noteq> i" by auto
      with slots_bounds(3) [OF geo cache_rep_page(2) [OF rep j(1)] j(2)] items(1) [of b] show ?thesis by simp
    qed
    show "item_lists c1 IL"
    proof (rule item_lists_cong [OF cache_rep_sel(4) [OF rep] s1(1,3)])
      show "sm_item_list (slab j c1) = sm_item_list (slab j c)" for j
        using k by (simp add: c1_def init_page_def Let_def c0_def nth_list_update)
      show "i_next (item b c1) = i_next (item b c) \<and> i_prev (item b c1) = i_prev (item b c) \<and>
        CLEAR_FLAGS (i_item_id (item b c1)) = CLEAR_FLAGS (i_item_id (item b c))" if "b \<in> set (IL r)" for b r
        using same [of b "fst r" "snd r"] that by simp
    qed
    show "page_inv c1 k' j ((FS(i := fs)) j)" if "(OW(i \<mapsto> k)) j = Some k'" for j k'
      using that inv_old inv_new by (auto split: if_splits)
    show "listed c1 {i} PL (OW(i \<mapsto> k)) (FS(i := fs))"
      using cache_rep_sel(5) [OF rep] new out s1(7) by (auto simp: listed_def)
    show "(\<exists>j. (OW(i \<mapsto> k)) j = Some k') \<and> (\<Union>ar. set (IL (k', ar))) = used c1 (OW(i \<mapsto> k)) (FS(i := fs)) k'"
      if "k' < length (mc_slabs c1)" for k'
    proof -
      have k': "k' < length (mc_slabs c)" using that s1(3) by simp
      obtain j where "OW j = Some k'" using cache_rep_sel(6) [OF rep k'] by blast
      then have "\<exists>j. (OW(i \<mapsto> k)) j = Some k'" using new by (intro exI [of _ j]) auto
      moreover have "set fs = slots c k i" by (auto simp: fs_def slots_def per_def)
      then have "used c1 (OW(i \<mapsto> k)) (FS(i := fs)) k' = used c OW FS k'"
        using new s1(8) by (auto simp: used_def split: if_splits) (metis option.distinct(1))
      ultimately show ?thesis using cache_rep_sel(7) [OF rep k'] by (simp del: fun_upd_apply)
    qed
    show "ITEM_AREA (item a c1) = ar" if "a \<in> set (IL (k', ar)) - X" for k' ar a
      using that same cache_rep_sel(8) [OF rep] by auto
    show "i_exptime (item a c1) = 0" if "(OW(i \<mapsto> k)) j = Some k'" "a \<in> set ((FS(i := fs)) j) - X" for j k' a
    proof (cases "j = i")
      case True
      with that(2) obtain m where "m < per" "a = slot_addr c k i m" by (auto simp: fs_def)
      then show ?thesis by (simp add: items(2) fresh_item_def blank_item_def)
    next
      case False
      with that have j: "OW j = Some k'" "a \<in> set (FS j)" "a \<notin> X" by auto
      note pj = cache_rep_page [OF rep j(1)]
      have "a \<in> slots c k' j" using pj(1) j(2) by (auto simp: page_inv_def)
      from slots_bounds(3) [OF geo pj(2) this] False items(1) [of a] cache_rep_sel(9) [OF rep j] show ?thesis by simp
    qed
  qed (use geo1 in auto)
  moreover have "fs \<noteq> []" using g(5) by (simp add: fs_def per_def)
  ultimately show ?thesis using p(1) c1_def c0_def st1 items(1) new by blast
qed

text \<open>The first partly used page, and the first free page.\<close>

lemma first_partial:
  assumes rep: "pages_rep c (\<lambda>_. 0) PL" and k: "k < length (mc_slabs c)" and pos: "0 < sm_partial_pages_no (slab k c)"
  shows "\<exists>b i is. PL (Part k b) = i # is \<and> b < length (sm_partial_pages (slab k c)) \<and> get_partial_page_id k c = Some i"
proof -
  let ?n = "length (sm_partial_pages (slab k c))" and ?B = "buckets c PL k"
  have lists: "page_lists c PL" using rep by (simp add: pages_rep_def)
  note sc = slab_counts_sel [OF rep k]
  have "(\<Sum>b < ?n. length (PL (Part k b))) \<noteq> 0"
  proof
    assume "(\<Sum>b < ?n. length (PL (Part k b))) = 0"
    with sc(4) have "sm_partial_pages_no (slab k c) = 0" by (simp only: of_nat_0 add_0)
    with pos show False by simp
  qed
  then have "?B \<noteq> {}" by (auto simp: buckets_def)
  then have b: "first_of ?B \<in> ?B" using Min_in [OF finite_buckets] by (auto simp: first_of_def)
  have "\<forall>b \<in> ?B. b < ?n \<and> PL (Part k b) \<noteq> []" by (simp add: buckets_def)
  from bspec [OF this b] obtain i "is" where i: "PL (Part k (first_of ?B)) = i # is" "first_of ?B < ?n"
    by (cases "PL (Part k (first_of ?B))") auto
  with bucket_heads(1) [OF lists k i(2)] page_lists_head(2) [OF lists i(1)] sc(6) show ?thesis
    by (auto simp: get_partial_page_id_def Let_def)
qed

lemma page_at_ok: "page_ok c i \<Longrightarrow> page_at i c = Some i"
  by (simp add: page_ok_def)

text \<open>When neither a partly used, nor a free, nor a new page is left, all slots of the slab are in use.\<close>

lemma slab_full:
  assumes rep: "cache_rep c X PL OW FS IL" and k: "k < length (mc_slabs c)"
    and no: "\<not> 0 < sm_partial_pages_no (slab k c)" "\<not> 0 < sm_free_pages_no (slab k c)"
  shows "\<exists>ar. IL (k, ar) \<noteq> []"
proof -
  note geo = cache_rep_sel(1) [OF rep] and sc = slab_counts_sel [OF cache_rep_sel(2) [OF rep] k]
  obtain i where i: "OW i = Some k" using cache_rep_sel(6) [OF rep k] by blast
  note pi = cache_rep_page [OF rep i]
  let ?n = "length (sm_partial_pages (slab k c))"
  have free: "PL (Free k) = []" using no(2) sc(3) by simp
  have part: "PL (Part k b) = []" if "b < ?n" for b
  proof -
    have "(\<Sum>b < ?n. length (PL (Part k b))) = 0" using no(1) sc(4) by (simp only: add.right_neutral)
    with that show ?thesis by simp
  qed
  have "FS i = []"
    using free_count [OF geo pi(1)] pi(3) free part geo_slab(8) [OF geo k]
    by (auto simp: pclass_def div_less_iff_less_mult split: if_splits)
  moreover have "slots c k i \<noteq> {}" using geo_slab(5) [OF geo k] by (auto simp: slots_def)
  ultimately obtain b where "b \<in> used c OW FS k" using i by (auto simp: used_def) (metis empty_iff empty_set)
  then obtain ar where "b \<in> set (IL (k, ar))" using cache_rep_sel(7) [OF rep k] by blast
  then show ?thesis by (intro exI [of _ ar]) auto
qed

lemma take_page_rep:
  assumes rep: "cache_rep c X PL OW FS IL" and k: "k < length (mc_slabs c)"
  shows "(take_page k c = Some (None, c) \<and> (\<exists>ar. IL (k, ar) \<noteq> [])) \<or>
    (\<exists>i c1 PL1 OW1 FS1. take_page k c = Some (Some i, c1) \<and> hand_rep c1 X k i PL1 OW1 FS1 IL \<and> FS1 i \<noteq> [] \<and> steady c c1 \<and>
       (\<forall>p. \<forall>b \<in> set (IL p). item b c1 = item b c))"
proof -
  note geo = cache_rep_sel(1) [OF rep] and pr = cache_rep_sel(2) [OF rep] and lists = cache_rep_sel(3) [OF rep]
  note sc = slab_counts_sel [OF pr k]
  have own: "OW i = Some k \<and> pclass k (sm_per_slab (slab k c)) (length (FS i)) = q"
    if "i \<in> set (PL q)" "q \<in> {Full k, Free k} \<union> range (Part k)" for i q
    using cache_rep_sel(5) [OF rep] that by (force simp: listed_def pclass_def split: if_splits)
  have head: "pi_free_head (page i c) \<noteq> 0" "pi_free_nr (page i c) = int (length (FS i))" "length (FS i) \<le> sm_per_slab (slab k c)"
    if "OW i = Some k" "FS i \<noteq> []" for i
    using that free_count [OF geo cache_rep_page(1) [OF rep that(1)]] free_head [OF geo cache_rep_page(1) [OF rep that(1)]]
      cache_rep_page(1) [OF rep that(1)] by (simp_all add: page_inv_def)
  consider "0 < sm_partial_pages_no (slab k c)" | "\<not> 0 < sm_partial_pages_no (slab k c)" "0 < sm_free_pages_no (slab k c)"
    | "\<not> 0 < sm_partial_pages_no (slab k c)" "\<not> 0 < sm_free_pages_no (slab k c)" by blast
  then show ?thesis
  proof cases
    case 1
    from first_partial [OF pr k 1] obtain b i "is" where b: "PL (Part k b) = i # is" "b < length (sm_partial_pages (slab k c))"
      "get_partial_page_id k c = Some i" by blast
    have i: "OW i = Some k" "pclass k (sm_per_slab (slab k c)) (length (FS i)) = Part k b" using own [of i "Part k b"] b(1) by auto
    have fs: "FS i \<noteq> []" "b = length (FS i) div 10" using i(2) by (auto simp: pclass_def split: if_splits)
    note h = head [OF i(1) fs(1)]
    from unlink_partial_page_rep [OF pr k, of b i] h(2) fs(2) b obtain c' where c': "unlink_partial_page k i c = Some c'"
      "pages_only c c'" "pages_rep c' ((\<lambda>_. 0)(k := 1)) (PL(Part k b := remove1 i (PL (Part k b))))" by auto
    have "take_page k c = Some (Some i, c')"
      using 1 b(3) h fs(1) c'(1) page_at_ok [OF page_lists_head(4) [OF lists, of i "Part k b"]] b(1)
      by (simp add: take_page_def Let_def)
    with hand_of_listed [OF rep i(1) c'(2,3)] i(2) fs(1) pages_only_frame(1,2) [OF c'(2)] show ?thesis by auto
  next
    case 2
    then obtain i "is" where b: "PL (Free k) = i # is" using sc(3) by (cases "PL (Free k)") auto
    have i: "OW i = Some k" "pclass k (sm_per_slab (slab k c)) (length (FS i)) = Free k" using own [of i "Free k"] b by auto
    have fs: "FS i \<noteq> []" "length (FS i) = sm_per_slab (slab k c)" using i(2) by (auto simp: pclass_def split: if_splits)
    note h = head [OF i(1) fs(1)]
    have ph: "phead c (Free k) = sm_free_pages (slab k c)" "sm_free_pages (slab k c) = i"
      using page_lists_head(2) [OF lists b] k by (simp_all add: phead_def)
    from unlink_page_rep [OF pr k, of "Free k" i] b obtain hd c1 where c1: "unlink_page i i c = Some (hd, c1)"
      "\<forall>g d. slab_step (Free k) k hd (- 1) d (slab k c) (g (slab k c)) \<longrightarrow>
         pages_rep (upd_slab k g c1) ((\<lambda>_. 0)(k := 0 + d)) (PL(Free k := remove1 i (PL (Free k)))) \<and> pages_only c (upd_slab k g c1)"
      unfolding ph by auto
    let ?g = "\<lambda>s :: slab_manager. s\<lparr>sm_free_pages := hd, sm_free_pages_no := sm_free_pages_no s - 1,
                                  sm_partial_pages_no := sm_partial_pages_no s + 1\<rparr>"
    have "slab_step (Free k) k hd (- 1) 1 (slab k c) (?g (slab k c))" by (simp add: slab_step_def skel_def)
    with spec [OF spec [OF c1(2), of ?g], of 1] have c2: "pages_rep (upd_slab k ?g c1) ((\<lambda>_. 0)(k := 1)) (PL(Free k := remove1 i (PL (Free k))))"
      "pages_only c (upd_slab k ?g c1)" by simp_all
    have "take_page k c = Some (Some i, upd_slab k ?g c1)"
      using 2 h fs c1(1) ph(2) page_at_ok [OF page_lists_head(4) [OF lists, of i "Free k"]] b
      by (simp add: take_page_def Let_def)
    with hand_of_listed [OF rep i(1) c2(2,1)] i(2) fs(1) pages_only_frame(1,2) [OF c2(2)] show ?thesis by auto
  next
    case 3
    show ?thesis
    proof (cases "free_set (mc_pool c) = {}")
      case True
      have "alloc_page (mc_pool c) = Some (None, mc_pool c)" using geo True by (intro alloc_page_empty) (simp_all add: geo_def)
      with 3 have "take_page k c = Some (None, c)" by (simp add: take_page_def Let_def)
      with slab_full [OF rep k 3] show ?thesis by blast
    next
      case False
      from hand_new_page [OF rep k this] obtain pg i p c1 fs where n: "alloc_page (mc_pool c) = Some (Some (pg, i), p)"
        "c1 = upd_slab k (\<lambda>s. s\<lparr>sm_partial_pages_no := sm_partial_pages_no s + 1\<rparr>) (init_page k i (c\<lparr>mc_pool := p\<rparr>))"
        "steady c c1" "hand_rep c1 X k i PL (OW(i \<mapsto> k)) (FS(i := fs)) IL" "fs \<noteq> []"
        "\<forall>b. b div psz c \<noteq> i \<longrightarrow> item b c1 = item b c" "i \<notin> dom OW" by blast
      have "item b c1 = item b c" if b: "b \<in> set (IL p)" for b p
      proof -
        from cache_rep_item [OF rep, of b "fst p" "snd p"] b obtain j where j: "OW j = Some (fst p)" "b \<in> slots c (fst p) j" by auto
        then have "j \<noteq> i" using n(7) by auto
        with n(6) slots_bounds(3) [OF geo cache_rep_page(2) [OF rep j(1)] j(2)] show ?thesis by simp
      qed
      moreover have "take_page k c = Some (Some i, c1)" using 3 n(1,2) by (simp add: take_page_def Let_def)
      ultimately show ?thesis
        using n(3-5) by (intro disjI2 exI [of _ i] exI [of _ c1] exI [of _ PL] exI [of _ "OW(i \<mapsto> k)"] exI [of _ "FS(i := fs)"]) auto
    qed
  qed
qed

end
