(* ===== verification/Mdb_Evict.thy ===== *)
theory Mdb_Evict
  imports Mdb_Alloc
begin

section \<open>New items and eviction\<close>

text \<open>
  The three ways \<open>slab_manager::alloc_item\<close> comes by an item: a free slot (\<open>alloc_new_item\<close>), the
  least recently used or an expired item of the same area (\<open>evict_self\<close>), and the least recently used
  item of some area (\<open>evict_any\<close>). On a cache that satisfies the invariant one of them succeeds.
\<close>

subsection \<open>A free slot\<close>

text \<open>The page goes back into a list.\<close>

definition place_page :: "nat \<Rightarrow> nat \<Rightarrow> cache \<Rightarrow> cache option" where
  "place_page k i c =
     (if pi_free_nr (page i c) = 0
      then do { (head, c) \<leftarrow> link_page i (sm_full_pages (slab k c)) c;
                Some (upd_page i (\<lambda>p. p\<lparr>pi_free_head := 0\<rparr>)
                  (upd_slab k (\<lambda>s. s\<lparr>sm_full_pages := head, sm_full_pages_no := sm_full_pages_no s + 1,
                     sm_partial_pages_no := sm_partial_pages_no s - 1\<rparr>) c)) }
      else link_partial_page k i c)"

lemma place_page_rep:
  assumes rep: "pages_rep c ((\<lambda>_. 0)(k := 1)) PL" and geo: "geo c" and k: "k < length (mc_slabs c)"
    and ok: "page_ok c i" and i: "OW i = Some k" "listed c {i} PL OW FS"
    and n: "pi_free_nr (page i c) = int (length (FS i))" "length (FS i) < sm_per_slab (slab k c)"
  shows "\<exists>c' PL'. place_page k i c = Some c' \<and> steady c c' \<and> mc_items c' = mc_items c \<and> mc_pool c' = mc_pool c \<and>
    (\<forall>j. sm_item_list (slab j c') = sm_item_list (slab j c)) \<and>
    (\<forall>j. pi_id (page j c') = pi_id (page j c) \<and> pi_free_nr (page j c') = pi_free_nr (page j c) \<and>
       (j \<noteq> i \<longrightarrow> pi_free_head (page j c') = pi_free_head (page j c))) \<and>
    pages_rep c' (\<lambda>_. 0) PL' \<and> listed c' {} PL' OW FS"
proof -
  note out = listed_out [OF i(2)]
  let ?per = "sm_per_slab (slab k c)"
  define q where "q = pclass k ?per (length (FS i))"
  have enter: "listed c' {} (PL(q := i # PL q)) OW FS" if "steady c c'" for c'
    using listed_cong [of c' c] steadyD(4) [OF that] listed_enter [OF i(2,1) q_def] by simp
  show ?thesis
  proof (cases "FS i = []")
    case False
    then have q: "q = Part k (length (FS i) div 10)" using n(2) by (simp add: q_def pclass_def)
    have b: "length (FS i) div 10 < length (sm_partial_pages (slab k c))"
      using geo_slab(8) [OF geo k] n(2) by (simp add: div_less_iff_less_mult)
    from link_partial_page_rep [OF rep k ok out _ b] n(1) obtain c' where c': "link_partial_page k i c = Some c'"
      "pages_only c c'" "pages_rep c' (\<lambda>_. 0) (PL(q := i # PL q))" by (auto simp: q fun_upd_idem)
    note f = pages_only_frame [OF c'(2)]
    show ?thesis
      by (rule exI [of _ c'], rule exI [of _ "PL(q := i # PL q)"])
        (use c' f enter [OF f(1)] False n(1) in \<open>simp add: place_page_def\<close>)
  next
    case True
    then have q: "q = Full k" by (simp add: q_def pclass_def)
    let ?g = "\<lambda>s :: slab_manager. s\<lparr>sm_full_pages := i, sm_full_pages_no := sm_full_pages_no s + 1,
                     sm_partial_pages_no := sm_partial_pages_no s - 1\<rparr>"
    have ph: "phead c (Full k) = sm_full_pages (slab k c)" using k by (simp add: phead_def)
    from link_page_rep [OF rep k, of "Full k" i] ok out obtain c2 where c2: "link_page i (sm_full_pages (slab k c)) c = Some (i, c2)"
      "\<forall>g d. slab_step q k i 1 d (slab k c) (g (slab k c)) \<longrightarrow>
        pages_rep (upd_slab k g c2) ((\<lambda>_. 0)(k := 1 + d)) (PL(q := i # PL q)) \<and> pages_only c (upd_slab k g c2)"
      unfolding ph q by auto
    define c3 where "c3 = upd_slab k ?g c2"
    have "slab_step q k i 1 (- 1) (slab k c) (?g (slab k c))" by (simp add: slab_step_def q skel_def)
    with spec [OF spec [OF c2(2), of ?g], of "- 1"] have c3: "pages_rep c3 (\<lambda>_. 0) (PL(q := i # PL q))" "pages_only c c3"
      by (simp_all add: fun_upd_idem c3_def)
    note f = pages_only_frame [OF c3(2)]
    define c4 where "c4 = upd_page i (\<lambda>p. p\<lparr>pi_free_head := 0\<rparr>) c3"
    have c4: "mc_pool c4 = mc_pool c3" "mc_items c4 = mc_items c3" "mc_slabs c4 = mc_slabs c3"
      "mc_area_timestamp c4 = mc_area_timestamp c3" by (simp_all add: c4_def)
    have st: "steady c c4" using f(1) c4 by (simp add: steady_def)
    have "place_page k i c = Some c4" using True n(1) c2(1) by (simp add: place_page_def c4_def c3_def)
    moreover have "pages_rep c4 (\<lambda>_. 0) (PL(q := i # PL q))"
      using c3(1) by (subst pages_rep_cong [of c4 c3]) (simp_all add: c4_def)
    ultimately show ?thesis
      by (intro exI [of _ c4] exI [of _ "PL(q := i # PL q)"]) (use f st enter [OF st] c4 in \<open>auto simp: c4_def\<close>)
  qed
qed

text \<open>The cache after slot \<open>a\<close> has left the chain of its page and entered the list of \<open>area\<close>.\<close>

lemma taken_rep:
  assumes hand: "hand_rep c X k i PL OW FS IL" and fs: "FS i = a # fs" and st: "steady c c'" and pool: "mc_pool c' = mc_pool c"
    and it: "\<And>b. core (item b c') = core (item b c)"
    and pg: "\<And>j. pi_id (page j c') = pi_id (page j c)"
      "\<And>j. j \<noteq> i \<Longrightarrow> pi_free_nr (page j c') = pi_free_nr (page j c) \<and> pi_free_head (page j c') = pi_free_head (page j c)"
      "pi_free_nr (page i c') = int (length fs)" "pi_free_head (page i c') = i_h_next (item a c)"
    and lists: "pages_rep c' (\<lambda>_. 0) PL'" "listed c' {} PL' OW (FS(i := fs))"
      "item_lists c' (IL((k, ar) := a # IL (k, ar)))"
  shows "cache_rep c' (insert a X) PL' OW (FS(i := fs)) (IL((k, ar) := a # IL (k, ar)))"
proof -
  let ?FS = "FS(i := fs)" and ?IL = "IL((k, ar) := a # IL (k, ar))"
  note h = hand_rep_sel [OF hand] and s = steadyD [OF st] and ib = core_sel [OF it]
  note inv = h(4) [OF h(6), unfolded fs]
  have a: "a \<in> slots c k i" "distinct (a # fs)" "set fs \<subseteq> slots c k i" using inv by (auto simp: page_inv_def)
  show ?thesis
  proof (rule cache_repI)
    show "geo c'" by (rule geo_cong [OF h(1) _ s(1,3,4)]) (use h(1) pool in \<open>simp add: geo_def\<close>)
    show "page_inv c' k' j (?FS j)" if "OW j = Some k'" for j k'
    proof (rule page_invs_step [where c = c and OW = OW and FS = FS and OW' = OW and fs = fs, OF h(1) h(4) st _ h(6) a(1) it])
      show "OW j = Some k' \<and> j \<notin> free_set (mc_pool c')" if "OW j = Some k'" for j k'
        using that h(4) [OF that] pool by (simp add: page_inv_def)
      from fchain_cong [of fs c' c] ib(1,7) inv show "fchain c' (pi_free_head (page i c')) fs"
        by (simp add: page_inv_def pg(4))
      show "CLEAR_FLAGS (i_item_id (item b c')) = i_item_id (item b c')" if "b \<in> set fs" for b
        using that inv ib(7) [of b] by (simp add: page_inv_def)
    qed (use that ib pg a in auto)
    show "(\<exists>i. OW i = Some k') \<and> (\<Union>r. set (?IL (k', r))) = used c' OW ?FS k'" if "k' < length (mc_slabs c')" for k'
      using h(7,8) [of k'] that s(3) used_steady [OF st] used_take [where OW = OW and FS = FS and k' = k', OF h(4) [OF h(6)] h(6) fs]
        lists_add [of IL k ar a k'] by simp
    show "ITEM_AREA (item b c') = r" if "b \<in> set (?IL (k', r)) - insert a X" for k' r b
      using that h(9) [of b k' r] ib(9) [of b] by (auto split: if_splits)
    show "i_exptime (item b c') = 0" if "OW j = Some k'" "b \<in> set (?FS j) - insert a X" for j k' b
      using that h(10) [of j k' b] ib(2) [of b] fs by (auto split: if_splits)
  qed (fact lists)+
qed

lemma alloc_new_item_rep:
  assumes rep: "cache_rep c X PL OW FS IL" and k: "k < length (mc_slabs c)" and area: "area < TAIR_MAX_AREA_COUNT"
  shows "(alloc_new_item k area c = Some (None, c) \<and> (\<exists>ar. IL (k, ar) \<noteq> [])) \<or>
    (\<exists>a c' PL' OW' FS'. alloc_new_item k area c = Some (Some a, c') \<and>
       cache_rep c' (insert a X) PL' OW' FS' (IL((k, area) := a # IL (k, area))) \<and> steady c c' \<and>
       (\<forall>p. \<forall>b \<in> set (IL p). core (item b c') = core (item b c)) \<and> (\<forall>p. a \<notin> set (IL p)) \<and>
       CLEAR_FLAGS (i_item_id (item a c')) = i_item_id (item a c') \<and> (a \<notin> X \<longrightarrow> i_exptime (item a c') = 0))"
  using take_page_rep [OF rep k]
proof
  assume "take_page k c = Some (None, c) \<and> (\<exists>ar. IL (k, ar) \<noteq> [])"
  then show ?thesis by (simp add: alloc_new_item_def)
next
  assume "\<exists>i c1 PL1 OW1 FS1. take_page k c = Some (Some i, c1) \<and> hand_rep c1 X k i PL1 OW1 FS1 IL \<and> FS1 i \<noteq> [] \<and>
    steady c c1 \<and> (\<forall>p. \<forall>b \<in> set (IL p). item b c1 = item b c)"
  then obtain i c1 PL1 OW1 FS1 where t: "take_page k c = Some (Some i, c1)" and hand: "hand_rep c1 X k i PL1 OW1 FS1 IL"
    and "FS1 i \<noteq> []" and st1: "steady c c1" and same: "\<forall>p. \<forall>b \<in> set (IL p). item b c1 = item b c" by blast
  then obtain a fs where fs: "FS1 i = a # fs" by (cases "FS1 i") auto
  note h = hand_rep_sel [OF hand]
  note inv = h(4) [OF h(6), unfolded fs]
  have head: "pi_free_head (page i c1) = i_item_id (item a c1)" and fl: "CLEAR_FLAGS (i_item_id (item a c1)) = i_item_id (item a c1)"
    and a: "a \<in> slots c1 k i" "a \<notin> set fs" and ok: "page_ok c1 i" and nr: "pi_free_nr (page i c1) = int (length fs) + 1"
    using inv by (auto simp: page_inv_def)
  note sl = slot_item [OF h(1) inv a(1)]
  define c2 where "c2 = upd_page i (\<lambda>p. p\<lparr>pi_free_nr := pi_free_nr p - 1\<rparr>) c1"
  have c2: "mc_pool c2 = mc_pool c1" "mc_items c2 = mc_items c1" "mc_slabs c2 = mc_slabs c1"
    "mc_area_timestamp c2 = mc_area_timestamp c1" by (simp_all add: c2_def)
  have st2: "steady c1 c2" by (simp add: steady_def c2)
  have "geo c2" by (rule geo_cong [OF h(1)]) (use h(1) in \<open>simp_all add: c2 geo_def\<close>)
  moreover have "pages_rep c2 ((\<lambda>_. 0)(k := 1)) PL1" using h(2) by (subst pages_rep_cong [of c2 c1]) (simp_all add: c2_def)
  moreover have "page_ok c2 i" using ok by (simp add: page_ok_iff c2_def)
  moreover have "listed c2 {i} PL1 OW1 (FS1(i := fs))" using h(5) by (auto simp: listed_def c2)
  moreover have "pi_free_nr (page i c2) = int (length ((FS1(i := fs)) i))" using nr by (simp add: c2_def)
  moreover have "length ((FS1(i := fs)) i) < sm_per_slab (slab k c2)" using free_count [OF h(1) inv] by (simp add: c2)
  ultimately obtain c3 PL' where c3: "place_page k i c2 = Some c3" "steady c2 c3" "mc_items c3 = mc_items c2" "mc_pool c3 = mc_pool c2"
    "\<forall>j. sm_item_list (slab j c3) = sm_item_list (slab j c2)"
    "\<forall>j. pi_id (page j c3) = pi_id (page j c2) \<and> pi_free_nr (page j c3) = pi_free_nr (page j c2) \<and>
       (j \<noteq> i \<longrightarrow> pi_free_head (page j c3) = pi_free_head (page j c2))"
    "pages_rep c3 (\<lambda>_. 0) PL'" "listed c3 {} PL' OW1 (FS1(i := fs))"
    using place_page_rep [where c = c2 and k = k and i = i and OW = OW1 and FS = "FS1(i := fs)" and PL = PL1] h(6,11)
    unfolding c2(3) by blast
  define c4 where "c4 = upd_slab k (\<lambda>s. s\<lparr>sm_item_total_count := sm_item_total_count s + 1\<rparr>) c3"
  note f4 = item_total_frame [where c = c3 and k = k and f = "\<lambda>x. x + 1", folded c4_def]
  define c5 where "c5 = upd_page i (\<lambda>p. p\<lparr>pi_free_head := i_h_next (item a c4)\<rparr>) c4"
  have it5: "mc_items c5 = mc_items c1" and pool5: "mc_pool c5 = mc_pool c1" using c3(3,4) c2 by (simp_all add: c5_def c4_def)
  have st5: "steady c1 c5"
    using st2 c3(2) f4(1) by (simp add: steady_def c5_def)
  note s5 = steadyD [OF st5]
  have pg5: "pi_id (page j c5) = pi_id (page j c1)" "pi_free_nr (page j c5) = (if j = i then int (length fs) else pi_free_nr (page j c1))"
    "pi_free_head (page j c5) = (if j = i then i_h_next (item a c1) else pi_free_head (page j c1))" for j
    using spec [OF c3(6), of j] nr c3(3) c2(2) by (auto simp: c5_def c4_def c2_def)
  have rep5: "pages_rep c5 (\<lambda>_. 0) PL'"
    using c3(7) f4(2) steadyD(3) [OF f4(1)] by (subst pages_rep_cong [of c5 c3]) (simp_all add: c5_def, simp_all add: c4_def)
  have il5: "item_lists c5 IL"
    by (rule item_lists_cong [OF h(3) s5(1,3)]) (use c3(5) f4(3) it5 c2(3) in \<open>simp_all add: c5_def\<close>)
  have notin: "a \<notin> set (IL p)" for p
  proof
    assume in_p: "a \<in> set (IL p)"
    obtain k' ar where p: "p = (k', ar)" by force
    have k': "k' < length (mc_slabs c1)" using item_lists_mem(1) [OF h(3)] in_p p by blast
    have "a \<in> used c1 OW1 FS1 k'" using in_p p unfolding h(8) [OF k', symmetric] by blast
    then obtain j where j: "OW1 j = Some k'" "a \<in> slots c1 k' j" "a \<notin> set (FS1 j)" by (auto simp: used_def)
    with slots_apart [OF h(1) h(11) k' a(1) j(2)] fs show False by simp
  qed
  have "item_ok c5 a" "CLEAR_FLAGS (i_item_id (item a c5)) \<noteq> 0" using sl(1,2) it5 pool5 by (simp_all add: item_ok_def item_at_def)
  moreover have "k < length (mc_slabs c5)" using h(11) s5(3) by simp
  ultimately obtain c6 where c6: "link_item k a area c5 = Some c6" "item_lists c6 (IL((k, area) := a # IL (k, area)))" "lists_only c5 c6"
    using link_item_lists [OF il5 _ area notin] by blast
  note f6 = lists_only_frame [OF c6(3)] and l6 = lists_only_sel [OF c6(3)]
  have st6: "steady c1 c6" using st5 f6(1) by (rule steady_trans)
  have core6: "core (item b c6) = core (item b c1)" for b using f6(2) [of b] it5 by simp
  have pg6: "page j c6 = page j c5" for j using l6(2) by simp
  have inv6: "cache_rep c6 (insert a X) PL' OW1 (FS1(i := fs)) (IL((k, area) := a # IL (k, area)))"
  proof (rule taken_rep [OF hand fs st6 _ core6])
    show "listed c6 {} PL' OW1 (FS1(i := fs))"
      using c3(8) listed_cong [of c6 c1] listed_cong [of c3 c1] steadyD(4) [OF st6] steadyD(4) [OF steady_trans [OF st2 c3(2)]] by simp
  qed (use l6(1) pool5 pg6 pg5 rep5 lists_only_pages [OF c6(3)] c6(2) in auto)
  have chk: "fs = [] \<longleftrightarrow> i_h_next (item a c1) = 0"
  proof -
    have "fchain c1 (i_h_next (item a c1)) fs" "set fs \<subseteq> slots c1 k i" using inv by (auto simp: page_inv_def)
    then show ?thesis using slot_item(2) [OF h(1) inv, of "hd fs"] by (cases fs) (auto simp: CLEAR_FLAGS_def)
  qed
  have at: "item_at (i_item_id (item a c1)) c3 = Some a" using sl(1) c3(4) c2(1) by (simp add: item_ok_def item_at_def)
  have run: "alloc_new_item k area c = Some (Some a, c6)"
    unfolding alloc_new_item_def t Option.bind.bind_lunit prod.case option.case Let_def head c2_def [symmetric]
      place_page_def [symmetric] c3(1) at c4_def [symmetric] c5_def [symmetric] c6(1)
    using core_sel(7) [OF core6, of a] pg6 pg5 [of i] chk by auto
  moreover have "a \<notin> X \<Longrightarrow> i_exptime (item a c6) = 0" using h(10) [OF h(6), of a] fs core_sel(2) [OF core6, of a] by simp
  moreover have "core (item b c6) = core (item b c)" if "b \<in> set (IL p)" for b p
    using core6 [of b] bspec [OF spec [OF same, of p] that] by simp
  ultimately show ?thesis using inv6 steady_trans [OF st1 st6] notin fl core_sel(7) [OF core6, of a] by auto
qed

subsection \<open>Changes to items\<close>

text \<open>
  A change to the contents of items keeps the invariant when it keeps the list links and the identifiers
  of the items in use, and the identifiers and chain links of the free ones.
\<close>

lemma items_rep:
  assumes rep: "cache_rep c X PL OW FS IL"
    and used: "\<And>p b. b \<in> set (IL p) \<Longrightarrow> i_next (st b) = i_next (item b c) \<and> i_prev (st b) = i_prev (item b c) \<and>
      CLEAR_FLAGS (i_item_id (st b)) = CLEAR_FLAGS (i_item_id (item b c)) \<and> length (i_data (st b)) = length (i_data (item b c))"
    and free: "\<And>b. (\<And>p. b \<notin> set (IL p)) \<Longrightarrow> i_item_id (st b) = i_item_id (item b c) \<and> i_h_next (st b) = i_h_next (item b c) \<and>
      length (i_data (st b)) = length (i_data (item b c))"
    and area: "\<And>k ar b. b \<in> set (IL (k, ar)) - X' \<Longrightarrow> ITEM_AREA (st b) = ar"
    and expt: "\<And>i k b. OW i = Some k \<Longrightarrow> b \<in> set (FS i) - X' \<Longrightarrow> i_exptime (st b) = 0"
  shows "cache_rep (c\<lparr>mc_items := st\<rparr>) X' PL OW FS IL"
proof -
  let ?c = "c\<lparr>mc_items := st\<rparr>"
  note r = cache_rep_sel [OF rep]
  have st: "steady c ?c" by (simp add: steady_def)
  note s = steadyD [OF st]
  have same: "CLEAR_FLAGS (i_item_id (st b)) = CLEAR_FLAGS (i_item_id (item b c)) \<and> length (i_data (st b)) = length (i_data (item b c))" for b
    using used [of b] free [of b] by metis
  have fs: "b \<notin> set (IL p)" if "OW i = Some k" "b \<in> set (FS i)" for i k b p
  proof
    assume b: "b \<in> set (IL p)"
    obtain k' ar where p: "p = (k', ar)" by force
    from cache_rep_item [OF rep b [unfolded p]] obtain j where j: "OW j = Some k'" "b \<in> slots c k' j" "b \<notin> set (FS j)" by blast
    have "b \<in> slots c k i" using cache_rep_page(1) [OF rep that(1)] that(2) by (auto simp: page_inv_def)
    from slots_apart [OF r(1) cache_rep_page(2) [OF rep that(1)] cache_rep_page(2) [OF rep j(1)] this j(2)] j(3) that(2) show False by simp
  qed
  show ?thesis
  proof (rule cache_repI)
    show "geo ?c" by (rule geo_cong [OF r(1) _ s(1,3,4)]) (use r(1) in \<open>simp add: geo_def\<close>)
    show "pages_rep ?c (\<lambda>_. 0) PL" using r(2) by (subst pages_rep_cong [of ?c c]) simp_all
    show "item_lists ?c IL" by (rule item_lists_cong [OF r(4) s(1,3)]) (use used in simp_all)
    show "page_inv ?c k i (FS i)" if "OW i = Some k" for i k
      using cache_rep_page(1) [OF rep that] fs [OF that] free same
      by (intro page_inv_same [OF cache_rep_page(1) [OF rep that] s(1,2) _ s(3,4)]) (auto simp: page_inv_def)
    show "listed ?c {} PL OW FS" using r(5) listed_cong [of ?c c] s(4) by simp
    show "(\<exists>i. OW i = Some k) \<and> (\<Union>ar. set (IL (k, ar))) = used ?c OW FS k" if "k < length (mc_slabs ?c)" for k
      using r(6,7) [of k] that used_steady [OF st] by simp
  qed (use area expt in auto)
qed

lemma clear_flags_rep:
  assumes rep: "cache_rep c X PL OW FS IL" and a: "a \<in> set (IL (k0, r0))"
  shows "cache_rep (upd_item a (\<lambda>it. it\<lparr>i_item_id := CLEAR_FLAGS (i_item_id it)\<rparr>) c) X PL OW FS IL"
  unfolding upd_item_def
proof (rule items_rep [OF rep])
  let ?st = "(mc_items c)(a := (item a c)\<lparr>i_item_id := CLEAR_FLAGS (i_item_id (item a c))\<rparr>)"
  show "ITEM_AREA (?st b) = r" if "b \<in> set (IL (k, r)) - X" for k r b
    using that cache_rep_sel(8) [OF rep, of b k r] by (auto simp: ITEM_AREA_def)
qed (use a cache_rep_sel(9) [OF rep] in auto)

subsection \<open>Eviction\<close>

lemma tail_of:
  assumes "item_lists c IL" "k < length (mc_slabs c)" "area < TAIR_MAX_AREA_COUNT"
  defines "tail \<equiv> snd (sm_item_list (slab k c) ! area)"
  shows "area < length (sm_item_list (slab k c))" "tail = 0 \<longleftrightarrow> IL (k, area) = []"
    "IL (k, area) \<noteq> [] \<Longrightarrow> item_at tail c = Some (last (IL (k, area)))"
    "find_expired n now tail c = Some (find (expired_at now c) (take n (rev (IL (k, area)))))"
proof -
  note l = item_lists_at [OF assms(1-3)]
  obtain hd tl where ht: "sm_item_list (slab k c) ! area = (hd, tl)" by force
  have t: "tail = tl" by (simp add: tail_def ht)
  show "area < length (sm_item_list (slab k c))" using l by (simp add: item_list_def)
  have at: "item_at tl c = (if IL (k, area) = [] then None else Some (last (IL (k, area))))" and il: "il.is_list c (item_at hd c) (IL (k, area))"
    using l by (auto simp: item_list_def ht)
  show "tail = 0 \<longleftrightarrow> IL (k, area) = []" "IL (k, area) \<noteq> [] \<Longrightarrow> item_at tail c = Some (last (IL (k, area)))"
    using at by (auto simp: t split: if_splits)
  show "find_expired n now tail c = Some (find (expired_at now c) (take n (rev (IL (k, area)))))"
    using find_expired_spec [of c "item_at hd c" "IL (k, area)" "[]" tl n now] il at by (simp add: t)
qed

lemma evict_area_finds:
  "(\<exists>t < n. snd (ls ! ((s + t) mod 100)) \<noteq> 0) \<Longrightarrow> s < 100 \<Longrightarrow>
   \<exists>idx. evict_area n s ls = Some (idx, snd (ls ! idx)) \<and> idx < 100 \<and> snd (ls ! idx) \<noteq> 0"
proof (induction n arbitrary: s)
  case (Suc n)
  show ?case
  proof (cases "snd (ls ! s) = 0")
    case True
    let ?s = "if TAIR_MAX_AREA_COUNT \<le> s + 1 then 0 else s + 1"
    have s: "?s < 100" "?s = (s + 1) mod 100" using Suc.prems(2) by (cases "s = 99"; simp add: TAIR_MAX_AREA_COUNT_def)+
    from Suc.prems(1) obtain t where t: "t < Suc n" "snd (ls ! ((s + t) mod 100)) \<noteq> 0" by blast
    with True Suc.prems(2) obtain u where u: "t = Suc u" by (cases t) auto
    have "(?s + u) mod 100 = (s + t) mod 100" unfolding s(2) u by (simp add: mod_simps)
    with t u have "\<exists>u < n. snd (ls ! ((?s + u) mod 100)) \<noteq> 0" by (intro exI [of _ u]) simp
    from Suc.IH [OF this s(1)] True show ?thesis by simp
  qed (use Suc.prems in auto)
qed simp

text \<open>Moving an item in use to the front of a list.\<close>

lemma move_rep:
  assumes rep: "cache_rep c X PL OW FS IL" and a: "a \<in> set (IL (k, ITEM_AREA (item a c)))" and area: "area < TAIR_MAX_AREA_COUNT"
  defines "ar \<equiv> ITEM_AREA (item a c)"
  defines "IL1 \<equiv> IL((k, ar) := remove1 a (IL (k, ar)))"
  shows "\<exists>c'. sm_update_item k a area c = Some c' \<and>
    cache_rep c' (if area = ar then X else insert a X) PL OW FS (IL1((k, area) := a # IL1 (k, area))) \<and> steady c c' \<and>
    (\<forall>b. core (item b c') = core (item b c))"
proof -
  note r = cache_rep_sel [OF rep]
  from sm_update_item_lists [OF r(4) a area] obtain c' where
    c': "sm_update_item k a area c = Some c'" "item_lists c' (IL1((k, area) := a # IL1 (k, area)))" "lists_only c c'"
    by (auto simp: IL1_def ar_def)
  note f = lists_only_frame [OF c'(3)] and l = lists_only_sel [OF c'(3)] and s = steadyD [OF lists_only_frame(1) [OF c'(3)]]
  note ib = core_sel [OF f(2)]
  have "cache_rep c' (if area = ar then X else insert a X) PL OW FS (IL1((k, area) := a # IL1 (k, area)))"
  proof (rule cache_repI)
    show "geo c'" by (rule geo_cong [OF r(1) _ s(1,3,4)]) (use r(1) l(1) in \<open>simp add: geo_def\<close>)
    show "pages_rep c' (\<lambda>_. 0) PL" using r(2) lists_only_pages [OF c'(3)] by simp
    show "page_inv c' k' i (FS i)" if "OW i = Some k'" for i k'
      using cache_rep_page(1) [OF rep that] l(1,2) ib
      by (intro page_inv_same [OF cache_rep_page(1) [OF rep that] s(1,2) _ s(3,4)]) (auto simp: page_inv_def)
    show "listed c' {} PL OW FS" using r(5) listed_cong [of c' c] s(4) by simp
    show "(\<exists>i. OW i = Some k') \<and> (\<Union>r. set ((IL1((k, area) := a # IL1 (k, area))) (k', r))) = used c' OW FS k'"
      if "k' < length (mc_slabs c')" for k'
    proof -
      have "(\<Union>r. set ((IL1((k, area) := a # IL1 (k, area))) (k', r))) = (\<Union>r. set (IL (k', r)))"
        unfolding lists_add IL1_def lists_remove [OF r(4) a [folded ar_def]] using a item_lists_mem(6) [OF r(4) a] by (auto simp: ar_def)
      with r(6,7) [of k'] that s(3) used_steady [OF f(1)] show ?thesis by simp
    qed
    show "ITEM_AREA (item b c') = r" if "b \<in> set ((IL1((k, area) := a # IL1 (k, area))) (k', r)) - (if area = ar then X else insert a X)" for k' r b
    proof (cases "b = a")
      case True
      have "a \<notin> set (IL1 p)" for p
        using item_lists_mem(5) [OF r(4) a] item_lists_mem(6) [OF r(4) a, of p] by (cases "p = (k, ar)") (auto simp: IL1_def ar_def)
      with that True have "area = ar" "r = area" by (auto split: if_splits)
      then show ?thesis using True ib(9) [of a] by (simp add: ar_def)
    next
      case False
      have "set (IL1 p) \<subseteq> set (IL p)" for p by (auto simp: IL1_def dest: set_remove1_subset [THEN subsetD] split: if_splits)
      with that False have "b \<in> set (IL (k', r))" "b \<notin> X" by (auto split: if_splits)
      with r(8) show ?thesis using ib(9) [of b] by simp
    qed
    show "i_exptime (item b c') = 0" if "OW j = Some k'" "b \<in> set (FS j) - (if area = ar then X else insert a X)" for j k' b
      using r(9) [OF that(1), of b] that(2) ib(2) [of b] by (auto split: if_splits)
  qed (fact c'(2))
  with c'(1) f(1,2) show ?thesis by blast
qed

text \<open>The same with the flags of the item cleared first.\<close>

lemma recycle_rep:
  assumes rep: "cache_rep c X PL OW FS IL" and a: "a \<in> set (IL (k, ITEM_AREA (item a c)))" and area: "area < TAIR_MAX_AREA_COUNT"
  defines "ar \<equiv> ITEM_AREA (item a c)"
  defines "IL1 \<equiv> IL((k, ar) := remove1 a (IL (k, ar)))"
  shows "\<exists>c'. sm_update_item k a area (upd_item a (\<lambda>it. it\<lparr>i_item_id := CLEAR_FLAGS (i_item_id it)\<rparr>) c) = Some c' \<and>
    cache_rep c' (if area = ar then X else insert a X) PL OW FS (IL1((k, area) := a # IL1 (k, area))) \<and> steady c c' \<and>
    (\<forall>b. b \<noteq> a \<longrightarrow> core (item b c') = core (item b c)) \<and>
    core (item a c') = core ((item a c)\<lparr>i_item_id := CLEAR_FLAGS (i_item_id (item a c))\<rparr>)"
proof -
  define c1 where "c1 = upd_item a (\<lambda>it. it\<lparr>i_item_id := CLEAR_FLAGS (i_item_id it)\<rparr>) c"
  have ai: "ITEM_AREA (item a c1) = ar" by (simp add: c1_def ITEM_AREA_def ar_def)
  have "cache_rep c1 X PL OW FS IL" unfolding c1_def by (rule clear_flags_rep [OF rep a])
  from move_rep [OF this, of a k area, unfolded ai] a area obtain c' where
    c': "sm_update_item k a area c1 = Some c'" "cache_rep c' (if area = ar then X else insert a X) PL OW FS (IL1((k, area) := a # IL1 (k, area)))"
      "steady c1 c'" "\<forall>b. core (item b c') = core (item b c1)" by (auto simp: ar_def IL1_def)
  moreover have "steady c c'" using steady_trans [OF _ c'(3), of c] by (simp add: c1_def steady_def)
  ultimately show ?thesis by (auto simp: c1_def)
qed

text \<open>The victim in a list: the expired item nearest to the tail among the last fifty, else the tail.\<close>

definition victim :: "u32 \<Rightarrow> cache \<Rightarrow> nat list \<Rightarrow> nat" where
  "victim now c xs = (case find (expired_at now c) (take 50 (rev xs)) of Some a \<Rightarrow> a | None \<Rightarrow> last xs)"

definition victim_type :: "u32 \<Rightarrow> cache \<Rightarrow> nat list \<Rightarrow> alloc_type" where
  "victim_type now c xs = (if find (expired_at now c) (take 50 (rev xs)) = None then ALLOC_EVICT_SELF else ALLOC_EXPIRED)"

lemma victim_in: "xs \<noteq> [] \<Longrightarrow> victim now c xs \<in> set xs"
  by (auto simp: victim_def find_Some_iff split: option.split)
    (metis in_set_takeD length_rev min_less_iff_conj nth_mem nth_take set_rev length_take)

lemma evict_self_rep:
  fixes now :: u32
  assumes rep: "cache_rep c {} PL OW FS IL" and k: "k < length (mc_slabs c)" and area: "area < TAIR_MAX_AREA_COUNT"
    and ne: "IL (k, area) \<noteq> []"
  defines "a \<equiv> victim now c (IL (k, area))"
  shows "\<exists>c'. evict_self k area now c = Some (Some (a, victim_type now c (IL (k, area))), c') \<and>
    cache_rep c' {} PL OW FS (IL((k, area) := a # remove1 a (IL (k, area)))) \<and> steady c c' \<and>
    (\<forall>b. b \<noteq> a \<longrightarrow> core (item b c') = core (item b c)) \<and>
    core (item a c') = core ((item a c)\<lparr>i_item_id := CLEAR_FLAGS (i_item_id (item a c))\<rparr>)"
proof -
  note r = cache_rep_sel [OF rep] and t = tail_of [OF cache_rep_sel(4) [OF rep] k area]
  have a: "a \<in> set (IL (k, area))" using victim_in [OF ne] by (simp add: a_def)
  have ar: "ITEM_AREA (item a c) = area" "ITEM_AREA (item (last (IL (k, area))) c) = area"
    using r(8) [of a k area] a r(8) [of "last (IL (k, area))" k area] last_in_set [OF ne] by simp_all
  from recycle_rep [OF rep, of a k area] a ar area obtain c' where
    c': "sm_update_item k a area (upd_item a (\<lambda>it. it\<lparr>i_item_id := CLEAR_FLAGS (i_item_id it)\<rparr>) c) = Some c'"
      "cache_rep c' {} PL OW FS (IL((k, area) := a # remove1 a (IL (k, area))))" "steady c c'"
      "\<forall>b. b \<noteq> a \<longrightarrow> core (item b c') = core (item b c)"
      "core (item a c') = core ((item a c)\<lparr>i_item_id := CLEAR_FLAGS (i_item_id (item a c))\<rparr>)" by auto
  have "evict_self k area now c = Some (Some (a, victim_type now c (IL (k, area))), c')"
  proof (cases "find (expired_at now c) (take 50 (rev (IL (k, area))))")
    case None
    then have "a = last (IL (k, area))" by (simp add: a_def victim_def)
    with None t ne ar c'(1) show ?thesis by (simp add: evict_self_def Let_def victim_type_def ITEM_AREA_def)
  next
    case (Some b)
    then have "a = b" by (simp add: a_def victim_def)
    with Some t ne ar c'(1) show ?thesis by (simp add: evict_self_def Let_def victim_type_def ITEM_AREA_def)
  qed
  with c' show ?thesis by blast
qed

lemma evict_self_none:
  "cache_rep c X PL OW FS IL \<Longrightarrow> k < length (mc_slabs c) \<Longrightarrow> area < TAIR_MAX_AREA_COUNT \<Longrightarrow> IL (k, area) = [] \<Longrightarrow>
   evict_self k area now c = Some (None, c)"
  using tail_of [OF cache_rep_sel(4), of c X PL OW FS IL k area] by (simp add: evict_self_def Let_def)

text \<open>A change of the counters of a slab.\<close>

definition counters_only :: "cache \<Rightarrow> cache \<Rightarrow> bool" where
  "counters_only c c' \<longleftrightarrow> mc_pool c' = mc_pool c \<and> mc_items c' = mc_items c \<and> mc_pages c' = mc_pages c \<and>
     mc_area_timestamp c' = mc_area_timestamp c \<and> length (mc_slabs c') = length (mc_slabs c) \<and>
     (\<forall>j. gskel (slab j c') = gskel (slab j c) \<and> pskel (slab j c') = pskel (slab j c) \<and>
          sm_item_list (slab j c') = sm_item_list (slab j c))"

lemma counters_onlyI:
  assumes "\<And>s. gskel (g s) = gskel s \<and> pskel (g s) = pskel s \<and> sm_item_list (g s) = sm_item_list s"
  shows "counters_only c (upd_slab k g c)"
proof -
  have "slab j (upd_slab k g c) = g (slab j c) \<or> slab j (upd_slab k g c) = slab j c" for j
    by (cases "k < length (mc_slabs c)"; cases "j = k") (simp_all add: list_update_beyond)
  with assms show ?thesis unfolding counters_only_def by (metis upd_sel(11-14) length_list_update upd_sel(15))
qed

lemma counters_only_rep:
  assumes "counters_only c c'" "cache_rep c X PL OW FS IL"
  shows "cache_rep c' X PL OW FS IL" "steady c c'"
proof -
  note c' = assms(1) [unfolded counters_only_def] and r = cache_rep_sel [OF assms(2)]
  show st: "steady c c'" using c' by (simp add: steady_def)
  note s = steadyD [OF st]
  show "cache_rep c' X PL OW FS IL"
  proof (rule cache_repI)
    show "geo c'" by (rule geo_cong [OF r(1) _ s(1,3,4)]) (use r(1) c' in \<open>simp add: geo_def\<close>)
    show "pages_rep c' (\<lambda>_. 0) PL" using r(2) c' by (subst pages_rep_cong [of c' c]) simp_all
    show "item_lists c' IL" by (rule item_lists_cong [OF r(4) s(1,3)]) (use c' in simp_all)
    show "page_inv c' k i (FS i)" if "OW i = Some k" for i k
      using cache_rep_page(1) [OF assms(2) that] c'
      by (intro page_inv_same [OF cache_rep_page(1) [OF assms(2) that] s(1,2) _ s(3,4)]) (auto simp: page_inv_def)
    show "listed c' {} PL OW FS" using r(5) listed_cong [of c' c] s(4) by simp
    show "(\<exists>i. OW i = Some k) \<and> (\<Union>ar. set (IL (k, ar))) = used c' OW FS k" if "k < length (mc_slabs c')" for k
      using r(6,7) [of k] that used_steady [OF st] s(3) by simp
  qed (use r(8,9) c' in auto)
qed

lemma cache_rep_mono: "cache_rep c X PL OW FS IL \<Longrightarrow> X \<subseteq> Y \<Longrightarrow> cache_rep c Y PL OW FS IL"
  unfolding cache_rep_def by blast

lemma evict_any_rep:
  fixes now :: u32
  assumes rep: "cache_rep c {} PL OW FS IL" and k: "k < length (mc_slabs c)" and area: "area < TAIR_MAX_AREA_COUNT"
    and ne: "\<exists>ar. IL (k, ar) \<noteq> []"
  shows "\<exists>a ar ty c' IL'. evict_any k area now c = Some ((a, ty), c') \<and> ty \<noteq> ALLOC_NEW \<and> IL (k, ar) \<noteq> [] \<and> a = last (IL (k, ar)) \<and>
    IL' = (IL((k, ar) := remove1 a (IL (k, ar))))((k, area) := a # (IL((k, ar) := remove1 a (IL (k, ar)))) (k, area)) \<and>
    cache_rep c' {a} PL OW FS IL' \<and> steady c c' \<and> (\<forall>b. b \<noteq> a \<longrightarrow> core (item b c') = core (item b c)) \<and>
    core (item a c') = core ((item a c)\<lparr>i_item_id := CLEAR_FLAGS (i_item_id (item a c))\<rparr>)"
proof -
  note r = cache_rep_sel [OF rep]
  let ?ls = "sm_item_list (slab k c)"
  define start where "start = (if TAIR_MAX_AREA_COUNT \<le> sm_evict_index (slab k c) then 0 else sm_evict_index (slab k c))"
  have start: "start < 100" by (simp add: start_def TAIR_MAX_AREA_COUNT_def)
  from ne obtain ar where ar: "IL (k, ar) \<noteq> []" by blast
  then have "ar < TAIR_MAX_AREA_COUNT" using item_lists_mem(2) [OF r(4)] by (meson last_in_set)
  then have "snd (?ls ! ar) \<noteq> 0" "ar < 100" using tail_of(2) [OF r(4) k] ar by (auto simp: TAIR_MAX_AREA_COUNT_def)
  moreover have "(start + (if start \<le> ar then ar - start else 100 - start + ar)) mod 100 = ar"
    using start \<open>ar < 100\<close> by auto
  ultimately have "\<exists>t < TAIR_MAX_AREA_COUNT + 1. snd (?ls ! ((start + t) mod 100)) \<noteq> 0"
    by (intro exI [of _ "if start \<le> ar then ar - start else 100 - start + ar"]) (auto simp: TAIR_MAX_AREA_COUNT_def)
  from evict_area_finds [OF this start] obtain idx where idx: "evict_area (TAIR_MAX_AREA_COUNT + 1) start ?ls = Some (idx, snd (?ls ! idx))"
    "idx < TAIR_MAX_AREA_COUNT" "snd (?ls ! idx) \<noteq> 0" by (auto simp: TAIR_MAX_AREA_COUNT_def)
  define a where "a = last (IL (k, idx))"
  have ne': "IL (k, idx) \<noteq> []" and at: "item_at (snd (?ls ! idx)) c = Some a"
    using tail_of(2,3) [OF r(4) k idx(2)] idx(3) by (auto simp: a_def)
  have a: "a \<in> set (IL (k, idx))" "ITEM_AREA (item a c) = idx" using ne' r(8) [of a k idx] by (simp_all add: a_def)
  define c1 where "c1 = upd_slab k (\<lambda>s. s\<lparr>sm_evict_index := idx\<rparr>) c"
  have "counters_only c c1" unfolding c1_def by (rule counters_onlyI) (simp add: gskel_def pskel_def)
  from counters_only_rep [OF this rep] have rep1: "cache_rep c1 {} PL OW FS IL" and st1: "steady c c1" .
  have it1: "mc_items c1 = mc_items c" by (simp add: c1_def)
  from recycle_rep [OF rep1, of a k area] a area it1 obtain c' where
    c': "sm_update_item k a area (upd_item a (\<lambda>it. it\<lparr>i_item_id := CLEAR_FLAGS (i_item_id it)\<rparr>) c1) = Some c'"
      "cache_rep c' (if area = idx then {} else {a}) PL OW FS
         ((IL((k, idx) := remove1 a (IL (k, idx))))((k, area) := a # (IL((k, idx) := remove1 a (IL (k, idx)))) (k, area)))" "steady c1 c'"
      "\<forall>b. b \<noteq> a \<longrightarrow> core (item b c') = core (item b c)"
      "core (item a c') = core ((item a c)\<lparr>i_item_id := CLEAR_FLAGS (i_item_id (item a c))\<rparr>)" by auto
  have "evict_any k area now c = Some ((a, if 0 < i_exptime (item a c) \<and> i_exptime (item a c) < now then ALLOC_EXPIRED else ALLOC_EVICT_ANY), c')"
    unfolding evict_any_def Let_def start_def [symmetric] idx(1) Option.bind.bind_lunit prod.case c1_def [symmetric]
    using area at c'(1) it1 by (simp add: item_at_def c1_def)
  with cache_rep_mono [OF c'(2)] steady_trans [OF st1 c'(3)] c'(4,5) ne' show ?thesis
    by (intro exI [of _ a] exI [of _ idx] exI [of _ "if 0 < i_exptime (item a c) \<and> i_exptime (item a c) < now then ALLOC_EXPIRED else ALLOC_EVICT_ANY"] exI [of _ c'])
      (auto simp: a_def)
qed

text \<open>
  What an allocation gives: an item \<open>a\<close> in the list of the area, its flags cleared; it was free
  (\<open>ALLOC_NEW\<close>) or held another entry, which it still holds; the other items in use keep theirs.
\<close>

definition allocated :: "cache \<Rightarrow> (nat \<times> nat \<Rightarrow> nat list) \<Rightarrow> nat \<Rightarrow> nat \<Rightarrow> nat \<Rightarrow> alloc_type \<Rightarrow> cache \<Rightarrow> (nat \<times> nat \<Rightarrow> nat list) \<Rightarrow> bool" where
  "allocated c IL k area a ty c' IL' \<longleftrightarrow> steady c c' \<and> a \<in> set (IL' (k, area)) \<and>
     (\<Union>p. set (IL' p)) = insert a (\<Union>p. set (IL p)) \<and>
     (\<forall>p. \<forall>b \<in> set (IL p). b \<noteq> a \<longrightarrow> core (item b c') = core (item b c)) \<and>
     CLEAR_FLAGS (i_item_id (item a c')) = i_item_id (item a c') \<and>
     (if ty = ALLOC_NEW then (\<forall>p. a \<notin> set (IL p)) \<and> i_exptime (item a c') = 0
      else (\<exists>p. a \<in> set (IL p)) \<and> core (item a c') = core ((item a c)\<lparr>i_item_id := CLEAR_FLAGS (i_item_id (item a c))\<rparr>))"

lemma allocated_counters: "allocated c IL k area a ty c' IL' \<Longrightarrow> counters_only c' c'' \<Longrightarrow> allocated c IL k area a ty c'' IL'"
  by (simp add: allocated_def counters_only_def steady_def del: split_paired_All split_paired_Ex)

lemma lists_moved:
  assumes "item_lists c IL" "a \<in> set (IL (k, ar))"
  shows "(\<Union>p. set (((IL((k, ar) := remove1 a (IL (k, ar))))((k, area) := a # (IL((k, ar) := remove1 a (IL (k, ar)))) (k, area))) p)) =
    insert a (\<Union>p. set (IL p))"
  using item_lists_mem(5) [OF assms] assms(2) by (auto split: if_splits) (metis)+

lemma allocated_recycled:
  assumes IL: "item_lists c IL" and a: "a \<in> set (IL (k, ar))" and ty: "ty \<noteq> ALLOC_NEW"
    and IL': "IL' = (IL((k, ar) := remove1 a (IL (k, ar))))((k, area) := a # (IL((k, ar) := remove1 a (IL (k, ar)))) (k, area))"
    and c': "steady c c'" "\<forall>b. b \<noteq> a \<longrightarrow> core (item b c') = core (item b c)"
      "core (item a c') = core ((item a c)\<lparr>i_item_id := CLEAR_FLAGS (i_item_id (item a c))\<rparr>)"
  shows "allocated c IL k area a ty c' IL'"
proof -
  have "CLEAR_FLAGS (i_item_id (item a c')) = i_item_id (item a c')" using core_sel(7) [OF c'(3)] by simp
  moreover have "\<exists>p. a \<in> set (IL p)" using a by blast
  ultimately show ?thesis
    unfolding allocated_def IL' lists_moved [OF IL a] using c' ty by (simp del: split_paired_All split_paired_Ex)
qed

text \<open>The three blocks of \<open>alloc_item\<close>.\<close>

lemma try_new_rep:
  assumes rep: "cache_rep c {} PL OW FS IL" and k: "k < length (mc_slabs c)" and area: "area < TAIR_MAX_AREA_COUNT"
  shows "(try_new k area c = Some (None, c) \<and> (\<exists>ar. IL (k, ar) \<noteq> [])) \<or>
    (\<exists>a c' PL' OW' FS' IL'. try_new k area c = Some (Some (a, ALLOC_NEW), c') \<and> cache_rep c' {a} PL' OW' FS' IL' \<and>
       allocated c IL k area a ALLOC_NEW c' IL')"
  using alloc_new_item_rep [OF rep k area]
proof (elim disjE exE)
  fix a c1 PL' OW' FS'
  let ?IL = "IL((k, area) := a # IL (k, area))"
  let ?g = "\<lambda>s. s\<lparr>sm_item_count := bump area (\<lambda>n. n + 1) (sm_item_count s)\<rparr>"
  assume h: "alloc_new_item k area c = Some (Some a, c1) \<and> cache_rep c1 {a} PL' OW' FS' ?IL \<and> steady c c1 \<and>
     (\<forall>p. \<forall>b \<in> set (IL p). core (item b c1) = core (item b c)) \<and> (\<forall>p. a \<notin> set (IL p)) \<and>
     CLEAR_FLAGS (i_item_id (item a c1)) = i_item_id (item a c1) \<and> (a \<notin> {} \<longrightarrow> i_exptime (item a c1) = 0)"
  have co: "counters_only c1 (upd_slab k ?g c1)" by (rule counters_onlyI) (simp add: gskel_def pskel_def)
  have "(\<Union>p. set (?IL p)) = insert a (\<Union>p. set (IL p))" by (auto split: if_splits)
  with h have "allocated c IL k area a ALLOC_NEW c1 ?IL" unfolding allocated_def by simp
  with h allocated_counters [OF _ co] counters_only_rep(1) [OF co] have
    "try_new k area c = Some (Some (a, ALLOC_NEW), upd_slab k ?g c1) \<and> cache_rep (upd_slab k ?g c1) {a} PL' OW' FS' ?IL \<and>
     allocated c IL k area a ALLOC_NEW (upd_slab k ?g c1) ?IL" by (simp add: try_new_def)
  then show ?thesis by blast
qed (simp add: try_new_def)

lemma try_self_rep:
  fixes now :: u32
  assumes rep: "cache_rep c {} PL OW FS IL" and k: "k < length (mc_slabs c)" and area: "area < TAIR_MAX_AREA_COUNT"
  shows "if IL (k, area) = [] then try_self exceed k area now c = Some (None, c)
    else \<exists>a ty c' IL'. try_self exceed k area now c = Some (Some (a, ty), c') \<and> ty \<noteq> ALLOC_NEW \<and>
       cache_rep c' {a} PL OW FS IL' \<and> allocated c IL k area a ty c' IL'"
proof (cases "IL (k, area) = []")
  case True
  with evict_self_none [OF rep k area] show ?thesis by (simp add: try_self_def)
next
  case False
  define a ty where "a = victim now c (IL (k, area))" and "ty = victim_type now c (IL (k, area))"
  from evict_self_rep [OF rep k area False, of now] obtain c1 where c1: "evict_self k area now c = Some (Some (a, ty), c1)"
    "cache_rep c1 {} PL OW FS (IL((k, area) := a # remove1 a (IL (k, area))))" "steady c c1"
    "\<forall>b. b \<noteq> a \<longrightarrow> core (item b c1) = core (item b c)"
    "core (item a c1) = core ((item a c)\<lparr>i_item_id := CLEAR_FLAGS (i_item_id (item a c))\<rparr>)" by (auto simp: a_def ty_def)
  let ?IL = "IL((k, area) := a # remove1 a (IL (k, area)))"
  have ty: "ty = ALLOC_EXPIRED \<or> ty = ALLOC_EVICT_SELF" by (simp add: ty_def victim_type_def)
  have a: "a \<in> set (IL (k, area))" using victim_in [OF False] by (simp add: a_def)
  have al: "allocated c IL k area a ty c1 ?IL"
    by (rule allocated_recycled [OF cache_rep_sel(4) [OF rep] a _ _ c1(3-5)]) (use ty in auto)
  define c2 where "c2 = (if ty = ALLOC_EVICT_SELF \<and> \<not> exceed then upd_slab k (\<lambda>s. s\<lparr>sm_evict_total_count := sm_evict_total_count s + 1,
     sm_evict_count := bump area (\<lambda>n. n + 1) (sm_evict_count s)\<rparr>) c1 else c1)"
  have "counters_only c1 c1" by (simp add: counters_only_def)
  then have co: "counters_only c1 c2" unfolding c2_def by (auto intro!: counters_onlyI simp: gskel_def pskel_def)
  have "try_self exceed k area now c = Some (Some (a, ty), c2)" using c1(1) ty by (auto simp: try_self_def c2_def)
  moreover have "cache_rep c2 {a} PL OW FS ?IL" using cache_rep_mono [OF counters_only_rep(1) [OF co c1(2)]] by simp
  moreover have "allocated c IL k area a ty c2 ?IL" by (rule allocated_counters [OF al co])
  ultimately show ?thesis using False ty by auto
qed

lemma last_any_rep:
  fixes now :: u32
  assumes rep: "cache_rep c {} PL OW FS IL" and k: "k < length (mc_slabs c)" and area: "area < TAIR_MAX_AREA_COUNT"
    and ne: "\<exists>ar. IL (k, ar) \<noteq> []"
  shows "\<exists>a ty c' IL'. last_any k area now c = Some ((a, ty), c') \<and> ty \<noteq> ALLOC_NEW \<and>
       cache_rep c' {a} PL OW FS IL' \<and> allocated c IL k area a ty c' IL'"
proof -
  from evict_any_rep [OF assms, of now] obtain a ar ty c1 IL' where c1: "evict_any k area now c = Some ((a, ty), c1)"
    "ty \<noteq> ALLOC_NEW" "IL (k, ar) \<noteq> []" "a = last (IL (k, ar))"
    "IL' = (IL((k, ar) := remove1 a (IL (k, ar))))((k, area) := a # (IL((k, ar) := remove1 a (IL (k, ar)))) (k, area))"
    "cache_rep c1 {a} PL OW FS IL'" "steady c c1" "\<forall>b. b \<noteq> a \<longrightarrow> core (item b c1) = core (item b c)"
    "core (item a c1) = core ((item a c)\<lparr>i_item_id := CLEAR_FLAGS (i_item_id (item a c))\<rparr>)" by blast
  have a: "a \<in> set (IL (k, ar))" using c1(3,4) by simp
  have al: "allocated c IL k area a ty c1 IL'"
    by (rule allocated_recycled [OF cache_rep_sel(4) [OF rep] a c1(2,5,7-9)])
  let ?old = "ITEM_AREA (item a c1)"
  define c2 where "c2 = (if ty = ALLOC_EVICT_ANY then upd_slab k (\<lambda>s. s\<lparr>sm_evict_total_count := sm_evict_total_count s + 1,
      sm_evict_count := bump ?old (\<lambda>n. n + 1) (sm_evict_count s)\<rparr>) c1 else c1)"
  define c3 where "c3 = upd_slab k (\<lambda>s. s\<lparr>sm_item_count := bump area (\<lambda>n. n + 1) (bump ?old (\<lambda>n. n - 1) (sm_item_count s))\<rparr>) c2"
  have "counters_only c1 c1" by (simp add: counters_only_def)
  then have co: "counters_only c1 c2" unfolding c2_def by (auto intro!: counters_onlyI simp: gskel_def pskel_def)
  have co3: "counters_only c2 c3" unfolding c3_def by (rule counters_onlyI) (simp add: gskel_def pskel_def)
  have "last_any k area now c = Some ((a, ty), c3)" using c1(1) by (simp add: last_any_def Let_def c2_def c3_def)
  with c1(2) counters_only_rep(1) [OF co3 counters_only_rep(1) [OF co c1(6)]] allocated_counters [OF allocated_counters [OF al co] co3]
  show ?thesis by blast
qed

text \<open>Allocation always succeeds in a slab.\<close>

lemma sm_alloc_item_rep:
  fixes now :: u32
  assumes rep: "cache_rep c {} PL OW FS IL" and k: "k < length (mc_slabs c)" and area: "area < TAIR_MAX_AREA_COUNT"
  shows "\<exists>a ty c' PL' OW' FS' IL'. sm_alloc_item exceed k area now c = Some ((a, ty), c') \<and>
       cache_rep c' {a} PL' OW' FS' IL' \<and> allocated c IL k area a ty c' IL'"
proof -
  define Q where "Q = (\<lambda>a ty c'. \<exists>PL' OW' FS' IL'. cache_rep c' {a} PL' OW' FS' IL' \<and> allocated c IL k area a ty c' IL')"
  have n: "(\<exists>a c'. try_new k area c = Some (Some (a, ALLOC_NEW), c') \<and> Q a ALLOC_NEW c') \<or>
      try_new k area c = Some (None, c) \<and> (\<exists>a ty c'. last_any k area now c = Some ((a, ty), c') \<and> Q a ty c')"
    using try_new_rep [OF rep k area] last_any_rep [OF rep k area, of now] unfolding Q_def by blast
  have s: "(\<exists>a ty c'. try_self exceed k area now c = Some (Some (a, ty), c') \<and> Q a ty c') \<or> try_self exceed k area now c = Some (None, c)"
    using try_self_rep [OF rep k area, of exceed now] unfolding Q_def by (cases "IL (k, area) = []") (simp, simp, blast)
  have "\<exists>a ty c'. sm_alloc_item exceed k area now c = Some ((a, ty), c') \<and> Q a ty c'"
    using n s area by (cases exceed) (auto simp: sm_alloc_item_def)
  then show ?thesis unfolding Q_def by blast
qed

end
