(* ===== verification/Mdb_Refine.thy ===== *)
theory Mdb_Refine
  imports Mdb_Evict Mdb_Manager
begin

section \<open>The cache as a map from keys to entries\<close>

text \<open>
  The abstract view of the cache: a finite map from keys to entries (value, version, times and flags).
  \<open>holds d M\<close> says that the slabs, the item lists, the free chains and the hash table of \<open>d\<close> are in
  order and that together they store \<open>M\<close>. The operations of the manager are shown to act on this map.
\<close>

subsection \<open>Entries\<close>

record centry =
  ce_data :: string
  ce_version :: u16
  ce_expire :: u32
  ce_update :: u32
  ce_flags :: u64

definition entry_of :: "mdb_item \<Rightarrow> centry" where
  "entry_of it = \<lparr>ce_data = ITEM_DATA it, ce_version = i_version it, ce_expire = i_exptime it,
     ce_update = i_update_time it, ce_flags = ITEM_FLAGS (i_item_id it)\<rparr>"

text \<open>The part of an item that is neither a link of a list nor of a chain.\<close>

definition pay :: "mdb_item \<Rightarrow> mdb_item" where
  "pay it = (core it)\<lparr>i_h_next := 0\<rparr>"

lemma pay_sel:
  assumes "pay it' = pay it"
  shows "i_exptime it' = i_exptime it" "i_key_len it' = i_key_len it" "i_data_len it' = i_data_len it"
    "i_version it' = i_version it" "i_update_time it' = i_update_time it" "i_item_id it' = i_item_id it"
    "i_data it' = i_data it" "ITEM_AREA it' = ITEM_AREA it" "ITEM_KEY it' = ITEM_KEY it" "entry_of it' = entry_of it"
proof -
  have e: "(core it')\<lparr>i_h_next := 0\<rparr> = (core it)\<lparr>i_h_next := 0\<rparr>" using assms by (simp add: pay_def)
  show f: "i_exptime it' = i_exptime it" "i_key_len it' = i_key_len it" "i_data_len it' = i_data_len it"
    "i_version it' = i_version it" "i_update_time it' = i_update_time it" "i_item_id it' = i_item_id it" "i_data it' = i_data it"
    using arg_cong [OF e, of i_exptime] arg_cong [OF e, of i_key_len] arg_cong [OF e, of i_data_len]
      arg_cong [OF e, of i_version] arg_cong [OF e, of i_update_time] arg_cong [OF e, of i_item_id]
      arg_cong [OF e, of i_data] by (simp_all add: core_def)
  show "ITEM_AREA it' = ITEM_AREA it" "ITEM_KEY it' = ITEM_KEY it" "entry_of it' = entry_of it"
    by (simp_all add: ITEM_AREA_def ITEM_KEY_def entry_of_def ITEM_DATA_def f)
qed

lemma core_pay: "core it' = core it \<Longrightarrow> pay it' = pay it"
  by (simp add: pay_def)

lemma relinked_pay: "relinked st st' \<Longrightarrow> pay (st' a) = pay (st a)"
  unfolding relinked_def pay_def core_def by (metis (no_types, lifting) mdb_item.update_convs(1-3) mdb_item.surjective)

definition fits :: "mdb_item \<Rightarrow> bool" where
  "fits it \<longleftrightarrow> 2 \<le> i_key_len it \<and> i_key_len it + i_data_len it \<le> length (i_data it)"

definition mdb_rep :: "mdb \<Rightarrow> (string \<rightharpoonup> nat) \<Rightarrow> nat set \<Rightarrow> (plist \<Rightarrow> nat list) \<Rightarrow> (nat \<Rightarrow> nat option) \<Rightarrow> (nat \<Rightarrow> nat list) \<Rightarrow>
    (nat \<times> nat \<Rightarrow> nat list) \<Rightarrow> bool" where
  "mdb_rep d m X PL OW FS IL \<longleftrightarrow> cache_rep (md_cache d) X PL OW FS IL \<and> hm_rep (dpsz d) (index_of d) m \<and>
     ran m = (\<Union>p. set (IL p)) - X \<and> length (md_stat d) = TAIR_MAX_AREA_COUNT \<and>
     length (mc_area_timestamp (md_cache d)) = TAIR_MAX_AREA_COUNT \<and> (\<forall>a \<in> ran m. fits (it_of a d))"

definition holds :: "mdb \<Rightarrow> (string \<rightharpoonup> centry) \<Rightarrow> bool" where
  "holds d M \<longleftrightarrow> (\<exists>m PL OW FS IL. mdb_rep d m {} PL OW FS IL \<and> M = map_option (\<lambda>a. entry_of (it_of a d)) \<circ> m)"

lemma mdb_rep_sel:
  assumes "mdb_rep d m X PL OW FS IL"
  shows "cache_rep (md_cache d) X PL OW FS IL" "hm_rep (dpsz d) (md_hash d, mc_items (md_cache d)) m"
    "ran m = (\<Union>p. set (IL p)) - X" "length (md_stat d) = TAIR_MAX_AREA_COUNT"
    "length (mc_area_timestamp (md_cache d)) = TAIR_MAX_AREA_COUNT" "a \<in> ran m \<Longrightarrow> fits (it_of a d)"
  using assms by (auto simp: mdb_rep_def index_of_def)

text \<open>What is known of the item of a key.\<close>

lemma mdb_rep_item:
  assumes rep: "mdb_rep d m X PL OW FS IL" and key: "m key = Some a"
  shows "\<exists>k i. a \<in> set (IL (k, KEY_AREA key)) \<and> OW i = Some k \<and> a \<in> slots (md_cache d) k i \<and> a \<notin> set (FS i)"
    and "ITEM_KEY (it_of a d) = key" "key \<noteq> []" "2 \<le> length key" "a \<in> ran m" "a \<notin> X"
    "ITEM_AREA (it_of a d) = KEY_AREA key" "KEY_AREA key < TAIR_MAX_AREA_COUNT" "fits (it_of a d)"
    "\<And>key'. m key' = Some a \<Longrightarrow> key' = key"
proof -
  note r = mdb_rep_sel [OF rep]
  note h = hm_rep_item [OF r(2) key]
  show a: "a \<in> ran m" using key by (auto simp: ran_def)
  then show X: "a \<notin> X" and fit: "fits (it_of a d)" using r(3,6) by auto
  from h show "ITEM_KEY (it_of a d) = key" "key \<noteq> []" by simp_all
  show len: "2 \<le> length key" using fit h(3) by (simp add: fits_def)
  have ka: "KEY_AREA key = ITEM_AREA (it_of a d)"
    using h(1,3) len KEY_AREA_take [of "length key" "i_data (it_of a d)"] by (auto simp: ITEM_AREA_def ITEM_KEY_def)
  then show "ITEM_AREA (it_of a d) = KEY_AREA key" by simp
  from a r(3) obtain k ar where p: "a \<in> set (IL (k, ar))" by auto
  have ar: "ar = KEY_AREA key" using cache_rep_sel(8) [OF r(1) p X] ka by simp
  with cache_rep_item [OF r(1) p] p
  show "\<exists>k i. a \<in> set (IL (k, KEY_AREA key)) \<and> OW i = Some k \<and> a \<in> slots (md_cache d) k i \<and> a \<notin> set (FS i)" by auto
  show "KEY_AREA key < TAIR_MAX_AREA_COUNT" using item_lists_mem(2) [OF cache_rep_sel(4) [OF r(1)] p] ar by simp
  show "key' = key" if "m key' = Some a" for key' using hm_rep_item(1) [OF r(2) that] h(1) by simp
qed

lemma md_find_rep: "mdb_rep d m X PL OW FS IL \<Longrightarrow> key \<noteq> [] \<Longrightarrow> md_find key d = Some (m key)"
  using hm_find_rep [of "dpsz d" "index_of d" m key] by (simp add: mdb_rep_def md_find_def)

text \<open>The contents do not change with the links.\<close>

lemma contents_cong:
  assumes "\<And>a. a \<in> ran m \<Longrightarrow> pay (it_of a d') = pay (it_of a d)"
  shows "map_option (\<lambda>a. entry_of (it_of a d')) \<circ> m = map_option (\<lambda>a. entry_of (it_of a d)) \<circ> m"
proof
  fix key
  show "(map_option (\<lambda>a. entry_of (it_of a d')) \<circ> m) key = (map_option (\<lambda>a. entry_of (it_of a d)) \<circ> m) key"
    using pay_sel(10) [OF assms] by (cases "m key") (auto simp: ran_def)
qed

subsection \<open>Taking an entry out\<close>

lemma md_hash_remove_rep:
  assumes cache: "cache_rep (md_cache d) X PL OW FS IL" and hm: "hm_rep (dpsz d) (md_hash d, mc_items (md_cache d)) m"
    and a: "m (ITEM_KEY (it_of a d)) = Some a" and ran: "ran m \<subseteq> (\<Union>p. set (IL p))"
  shows "\<exists>d'. md_hash_remove a d = Some d' \<and> md_stat d' = md_stat d \<and> steady (md_cache d) (md_cache d') \<and>
    cache_rep (md_cache d') X PL OW FS IL \<and>
    hm_rep (dpsz d') (md_hash d', mc_items (md_cache d')) (m(ITEM_KEY (it_of a d) := None)) \<and> (\<forall>b. pay (it_of b d') = pay (it_of b d))"
proof -
  from hm_remove_rep [OF hm a] obtain hm' st' where r: "hm_remove (dpsz d) a (md_hash d, mc_items (md_cache d)) = Some (True, hm', st')"
    "hm_rep (dpsz d) (hm', st') (m(ITEM_KEY (it_of a d) := None))" "relinked (mc_items (md_cache d)) st'"
    "\<forall>x. x \<notin> ran m \<longrightarrow> st' x = it_of x d" by blast
  let ?d = "d\<lparr>md_hash := hm', md_cache := (md_cache d)\<lparr>mc_items := st'\<rparr>\<rparr>"
  note sel = relinked_sel [OF r(3)] and py = pay_sel [OF relinked_pay [OF r(3)]]
  have "cache_rep ((md_cache d)\<lparr>mc_items := st'\<rparr>) X PL OW FS IL"
  proof (rule items_rep [OF cache])
    show "i_item_id (st' b) = i_item_id (it_of b d) \<and> i_h_next (st' b) = i_h_next (it_of b d) \<and> length (i_data (st' b)) = length (i_data (it_of b d))"
      if "\<And>p. b \<notin> set (IL p)" for b
    proof -
      have "b \<notin> ran m" using that ran by blast
      with r(4) show ?thesis by simp
    qed
  qed (use sel py cache_rep_sel(8,9) [OF cache] in auto)
  moreover have "md_hash_remove a d = Some ?d" using r(1) by (simp add: md_hash_remove_def index_of_def with_index_def)
  ultimately show ?thesis using r(2) relinked_pay [OF r(3)] by (auto simp: steady_def)
qed

text \<open>The hash table does not depend on the links of the item lists.\<close>

lemma hm_rep_core:
  assumes "hm_rep n (hm, st) m" "\<And>a. a \<in> ran m \<Longrightarrow> core (st' a) = core (st a)"
  shows "hm_rep n (hm, st') m"
proof (rule hm_rep_cong [OF assms(1)])
  fix a
  assume "a \<in> ran m"
  note c = core_sel [OF assms(2) [OF this]]
  show "i_h_next (st' a) = i_h_next (st a) \<and> i_key_len (st' a) = i_key_len (st a) \<and> ITEM_KEY (st' a) = ITEM_KEY (st a) \<and>
      id_to_item n (i_item_id (st' a)) = id_to_item n (i_item_id (st a))" by (simp add: c)
qed

lemma ran_del:
  assumes "\<forall>k'. m k' = Some a \<longrightarrow> k' = k" "m k = Some a"
  shows "ran (m(k := None)) = ran m - {a}"
proof (intro set_eqI iffI)
  fix x
  assume "x \<in> ran (m(k := None))"
  then obtain j where "j \<noteq> k" "m j = Some x" by (auto simp: ran_def split: if_splits)
  with assms(1) show "x \<in> ran m - {a}" by (auto simp: ran_def)
next
  fix x
  assume "x \<in> ran m - {a}"
  then obtain j where "m j = Some x" "x \<noteq> a" by (auto simp: ran_def)
  then have "(m(k := None)) j = Some x" using assms(2) by auto
  then show "x \<in> ran (m(k := None))" by (auto simp: ran_def simp del: fun_upd_apply)
qed

lemma md_remove_rep:
  assumes rep: "mdb_rep d m {} PL OW FS IL" and key: "m key = Some a"
  shows "\<exists>d' PL' OW' FS' IL'. md_remove a d = Some d' \<and> mdb_rep d' (m(key := None)) {} PL' OW' FS' IL' \<and>
    steady (md_cache d) (md_cache d') \<and> (\<forall>b. b \<noteq> a \<longrightarrow> pay (it_of b d') = pay (it_of b d))"
proof -
  note r = mdb_rep_sel [OF rep] and ki = mdb_rep_item [OF rep key]
  from ki(1) obtain k i where ki': "a \<in> set (IL (k, KEY_AREA key))" "OW i = Some k" "a \<in> slots (md_cache d) k i" by blast
  note sl = slot_item [OF cache_rep_sel(1) [OF r(1)] cache_rep_page(1) [OF r(1) ki'(2)] ki'(3)]
  have k: "k < length (mc_slabs (md_cache d))" by (rule cache_rep_page(2) [OF r(1) ki'(2)])
  define d1 where "d1 = d\<lparr>md_stat := (md_stat d)[ITEM_AREA (it_of a d) := (md_stat d ! ITEM_AREA (it_of a d))
    \<lparr>as_data_size := as_data_size (md_stat d ! ITEM_AREA (it_of a d)) - item_bytes (it_of a d),
     as_space_usage := as_space_usage (md_stat d ! ITEM_AREA (it_of a d)) - SLAB_SIZE (i_item_id (it_of a d)),
     as_item_count := as_item_count (md_stat d ! ITEM_AREA (it_of a d)) - 1\<rparr>]\<rparr>"
  have d1: "md_cache d1 = md_cache d" "md_hash d1 = md_hash d" "length (md_stat d1) = TAIR_MAX_AREA_COUNT" by (simp_all add: d1_def r(4))
  have stat: "upd_stat (ITEM_AREA (it_of a d)) (\<lambda>s. s\<lparr>as_data_size := as_data_size s - item_bytes (it_of a d),
     as_space_usage := as_space_usage s - SLAB_SIZE (i_item_id (it_of a d)), as_item_count := as_item_count s - 1\<rparr>) d = Some d1"
    using ki(7,8) r(4) by (simp add: upd_stat_def d1_def)
  have "m (ITEM_KEY (it_of a d1)) = Some a" "ran m \<subseteq> (\<Union>p. set (IL p))" using ki(2) key r(3) d1(1) by auto
  from md_hash_remove_rep [of d1, unfolded d1, OF r(1,2) this [unfolded d1]] obtain d2 where d2: "md_hash_remove a d1 = Some d2"
    "md_stat d2 = md_stat d1" "steady (md_cache d) (md_cache d2)" "cache_rep (md_cache d2) {} PL OW FS IL"
    "hm_rep (dpsz d2) (md_hash d2, mc_items (md_cache d2)) (m(key := None))" "\<forall>b. pay (it_of b d2) = pay (it_of b d)"
    unfolding ki(2) by blast
  define d3 where "d3 = upd_it a (\<lambda>it. it\<lparr>i_item_id := CLEAR_FLAGS (i_item_id it)\<rparr>) d2"
  note p2 = pay_sel [OF spec [OF d2(6)]]
  have c3: "md_cache d3 = upd_item a (\<lambda>it. it\<lparr>i_item_id := CLEAR_FLAGS (i_item_id it)\<rparr>) (md_cache d2)" by (simp add: d3_def upd_it_def)
  have rep3: "cache_rep (md_cache d3) {} PL OW FS IL"
    unfolding c3 by (rule clear_flags_rep [OF d2(4) ki'(1)])
  have a3: "a \<in> set (IL (k, ITEM_AREA (item a (md_cache d3))))" "CLEAR_FLAGS (i_item_id (item a (md_cache d3))) = i_item_id (item a (md_cache d3))"
    using ki'(1) ki(7) p2(8) [of a] by (simp_all add: c3 ITEM_AREA_def)
  from sm_free_item_rep [OF rep3 a3] obtain c4 PL' OW' FS' where c4: "sm_free_item k a (md_cache d3) = Some c4"
    "cache_rep c4 {a} PL' OW' FS' (IL((k, KEY_AREA key) := remove1 a (IL (k, KEY_AREA key))))" "steady (md_cache d3) c4"
    "\<forall>b. b \<noteq> a \<longrightarrow> core (item b c4) = core (item b (md_cache d3))"
    using ki(7) p2(8) [of a] by (auto simp: c3 ITEM_AREA_def)
  let ?IL = "IL((k, KEY_AREA key) := remove1 a (IL (k, KEY_AREA key)))"
  have slab3: "unat (SLAB_ID (i_item_id (item a (md_cache d3)))) = k" using sl(4) p2(6) [of a] by (simp add: c3)
  have st3: "steady (md_cache d) (md_cache d3)" using d2(3) by (simp add: c3 steady_def)
  have free: "mc_free_item a (md_cache d3) = Some c4"
    using c4(1) slab3 k steadyD(3) [OF st3] by (simp add: mc_free_item_def Let_def)
  note il = cache_rep_sel(4) [OF r(1)]
  have notin: "a \<notin> set (?IL p)" for p
    using item_lists_mem(5) [OF il ki'(1)] item_lists_mem(6) [OF il ki'(1), of p] by (cases "p = (k, KEY_AREA key)") auto
  let ?z = "\<lambda>it. it\<lparr>i_exptime := 0, i_data_len := 0, i_key_len := 0, i_version := 0, i_update_time := 0\<rparr>"
  define d5 where "d5 = upd_it a ?z (d3\<lparr>md_cache := c4\<rparr>)"
  have c5: "md_cache d5 = upd_item a ?z c4" "md_hash d5 = md_hash d2" "md_stat d5 = md_stat d1" by (simp_all add: d5_def upd_it_def d3_def d2(2))
  have rep5: "cache_rep (md_cache d5) {} PL' OW' FS' ?IL"
    unfolding c5(1) upd_item_def
  proof (rule items_rep [OF c4(2)])
    show "ITEM_AREA (((mc_items c4)(a := ?z (mc_items c4 a))) b) = r" if "b \<in> set (?IL (k', r)) - {}" for k' r b
      using that notin [of "(k', r)"] cache_rep_sel(8) [OF c4(2), of b k' r] by (auto simp: ITEM_AREA_def)
    show "i_exptime (((mc_items c4)(a := ?z (mc_items c4 a))) b) = 0" if "OW' j = Some k'" "b \<in> set (FS' j) - {}" for j k' b
      using that cache_rep_sel(9) [OF c4(2), of j k' b] by auto
  qed (use notin in auto)
  have st5: "steady (md_cache d) (md_cache d5)"
    using steady_trans [OF st3 c4(3)] by (simp add: c5 steady_def)
  have ran: "ran (m(key := None)) = ran m - {a}" using ran_del [of m a key] ki(10) key by blast
  have core5: "core (it_of b d5) = core (it_of b d2)" if "b \<noteq> a" for b using c4(4) that by (simp add: c5(1) c3)
  have "hm_rep (dpsz d5) (md_hash d5, mc_items (md_cache d5)) (m(key := None))"
    using hm_rep_core [OF d2(5)] core5 ran steadyD(1) [OF st5] steadyD(1) [OF d2(3)] by (simp add: c5(2))
  moreover have "(\<Union>p. set (?IL p)) = (\<Union>p. set (IL p)) - {a}"
  proof -
    have "set (?IL p) = set (IL p) - {a}" for p
      using item_lists_mem(5) [OF il ki'(1)] item_lists_mem(6) [OF il ki'(1), of p] by (cases "p = (k, KEY_AREA key)") auto
    then show ?thesis by blast
  qed
  moreover have "fits (it_of b d5)" if "b \<in> ran (m(key := None))" for b
    using r(6) [of b] that pay_sel [OF core_pay [OF core5], of b] p2 [of b] unfolding ran fits_def by auto
  ultimately have "mdb_rep d5 (m(key := None)) {} PL' OW' FS' ?IL"
    using rep5 r(3,5) ran d1(3) steadyD(5) [OF st5] by (simp add: mdb_rep_def index_of_def c5(3))
  moreover have "md_remove a d = Some d5"
    unfolding md_remove_def Let_def stat Option.bind.bind_lunit d2(1) d3_def [symmetric] free d5_def [symmetric] by (rule refl)
  moreover have "pay (it_of b d5) = pay (it_of b d)" if "b \<noteq> a" for b using core_pay [OF core5 [OF that]] d2(6) by simp
  ultimately show ?thesis using st5 by blast
qed

subsection \<open>Getting an item\<close>

lemma get_slabmng_Some:
  assumes "get_slabmng sz c = Some k"
  shows "k < length (mc_slabs c)" "sz \<le> sm_slab_size (slab k c)"
  using assms by (auto simp: get_slabmng_def find_Some_iff)

text \<open>
  An item for an entry of \<open>area\<close>: a free one, or the one of a victim, whose entry leaves the map. The
  item of a victim keeps its expiry time.
\<close>

lemma obtain_item_rep:
  fixes now :: u32
  assumes rep: "mdb_rep d m {} PL OW FS IL" and slab: "get_slabmng sz (md_cache d) = Some k" and area: "area < TAIR_MAX_AREA_COUNT"
  shows "\<exists>a d' v PL' OW' FS' IL'. obtain_item sz area now d = Some (a, d') \<and>
    mdb_rep d' (case v of None \<Rightarrow> m | Some vk \<Rightarrow> m(vk := None)) {a} PL' OW' FS' IL' \<and> a \<in> set (IL' (k, area)) \<and>
    CLEAR_FLAGS (i_item_id (it_of a d')) = i_item_id (it_of a d') \<and> steady (md_cache d) (md_cache d') \<and>
    (\<forall>b. b \<in> ran m \<longrightarrow> b \<noteq> a \<longrightarrow> pay (it_of b d') = pay (it_of b d)) \<and>
    (case v of None \<Rightarrow> a \<notin> ran m \<and> i_exptime (it_of a d') = 0
             | Some vk \<Rightarrow> m vk = Some a \<and> i_exptime (it_of a d') = i_exptime (it_of a d))"
proof -
  note r = mdb_rep_sel [OF rep] and k = get_slabmng_Some [OF slab]
  obtain exceed where ex: "is_quota_exceed area d = Some exceed" using area r(4) by (simp add: is_quota_exceed_def)
  from sm_alloc_item_rep [OF r(1) k(1) area, of exceed now] obtain a ty c1 PL' OW' FS' IL' where
    al: "sm_alloc_item exceed k area now (md_cache d) = Some ((a, ty), c1)" "cache_rep c1 {a} PL' OW' FS' IL'"
      "allocated (md_cache d) IL k area a ty c1 IL'" by blast
  have ac: "steady (md_cache d) c1" "a \<in> set (IL' (k, area))" "(\<Union>p. set (IL' p)) = insert a (\<Union>p. set (IL p))"
    "CLEAR_FLAGS (i_item_id (item a c1)) = i_item_id (item a c1)"
    and core1: "b \<in> ran m \<Longrightarrow> b \<noteq> a \<Longrightarrow> core (item b c1) = core (it_of b d)" for b
    using al(3) r(3) by (auto simp: allocated_def)
  have mc: "mc_alloc_item exceed sz area now (md_cache d) = Some (Some (a, ty), c1)"
    using al(1) slab by (simp add: mc_alloc_item_def)
  let ?d1 = "d\<lparr>md_cache := c1\<rparr>"
  show ?thesis
  proof (cases "ty = ALLOC_NEW")
    case True
    then have new: "a \<notin> ran m" "i_exptime (item a c1) = 0" using al(3) r(3) by (auto simp: allocated_def)
    have hm1: "hm_rep (psz c1) (md_hash d, mc_items c1) m"
      using hm_rep_core [OF r(2)] core1 new(1) steadyD(1) [OF ac(1)] by metis
    have fits1: "fits (item b c1)" if "b \<in> ran m" for b
    proof -
      have "b \<noteq> a" using that new(1) by blast
      with r(6) [OF that] core_sel [OF core1 [OF that]] show ?thesis by (simp add: fits_def)
    qed
    have "mdb_rep ?d1 m {a} PL' OW' FS' IL'"
      using al(2) hm1 fits1 r(3-5) ac(3) new(1) steadyD(5) [OF ac(1)] by (auto simp: mdb_rep_def index_of_def)
    moreover have "obtain_item sz area now d = Some (a, ?d1)"
      using slab ex mc True by (simp add: obtain_item_def Let_def)
    moreover have "pay (item b c1) = pay (it_of b d)" if "b \<in> ran m" "b \<noteq> a" for b
      by (rule core_pay [OF core1 [OF that]])
    ultimately show ?thesis using ac new
      by (intro exI [of _ a] exI [of _ ?d1] exI [of _ None] exI [of _ PL'] exI [of _ OW'] exI [of _ FS'] exI [of _ IL']) auto
  next
    case False
    then have old: "a \<in> ran m" "core (item a c1) = core ((it_of a d)\<lparr>i_item_id := CLEAR_FLAGS (i_item_id (it_of a d))\<rparr>)"
      using al(3) r(3) by (auto simp: allocated_def)
    from old(1) obtain vk where vk: "m vk = Some a" by (auto simp: ran_def)
    note ki = mdb_rep_item [OF rep vk] and ca = core_sel [OF old(2)]
    have ids: "item_at (i_item_id (item a c1)) (md_cache d) = item_at (i_item_id (it_of a d)) (md_cache d)"
    proof -
      from ki(1) obtain k' i where "OW i = Some k'" "a \<in> slots (md_cache d) k' i" by blast
      note nz = slot_item(2) [OF cache_rep_sel(1) [OF r(1)] cache_rep_page(1) [OF r(1) this(1)] this(2)]
      then show ?thesis by (intro item_at_flags) (auto simp: ca, auto simp: CLEAR_FLAGS_def)
    qed
    have hm1: "hm_rep (psz c1) (md_hash d, mc_items c1) m"
      unfolding steadyD(1) [OF ac(1)]
    proof (rule hm_rep_cong [OF r(2)])
      show "i_h_next (item b c1) = i_h_next (it_of b d) \<and> i_key_len (item b c1) = i_key_len (it_of b d) \<and>
        ITEM_KEY (item b c1) = ITEM_KEY (it_of b d) \<and> id_to_item (dpsz d) (i_item_id (item b c1)) = id_to_item (dpsz d) (i_item_id (it_of b d))"
        if "b \<in> ran m" for b
        using core_sel [OF core1 [OF that]] ca ids by (cases "b = a") (auto simp: item_at_def ITEM_KEY_def)
    qed
    have ka: "ITEM_AREA (item a c1) = KEY_AREA vk" "ITEM_KEY (item a c1) = vk" using ca(9,10) ki(2,7) by (simp_all add: ITEM_AREA_def ITEM_KEY_def)
    let ?f = "\<lambda>s. s\<lparr>as_data_size := as_data_size s - item_bytes (item a c1), as_space_usage := as_space_usage s - SLAB_SIZE (i_item_id (item a c1)),
        as_item_count := as_item_count s - 1, as_evict_count := (if ty = ALLOC_EXPIRED then as_evict_count s else as_evict_count s + 1)\<rparr>"
    define d2 where "d2 = ?d1\<lparr>md_stat := (md_stat d)[KEY_AREA vk := ?f (md_stat d ! KEY_AREA vk)]\<rparr>"
    have d2: "md_cache d2 = c1" "md_hash d2 = md_hash d" "length (md_stat d2) = TAIR_MAX_AREA_COUNT" by (simp_all add: d2_def r(4))
    have stat: "upd_stat (ITEM_AREA (item a c1)) ?f ?d1 = Some d2" using ki(8) r(4) by (simp add: upd_stat_def d2_def ka(1))
    have "m (ITEM_KEY (item a c1)) = Some a" "ran m \<subseteq> (\<Union>p. set (IL' p))" using ka(2) vk r(3) ac(3) by auto
    from md_hash_remove_rep [of d2, unfolded d2, OF al(2) hm1 this] obtain d3 where d3: "md_hash_remove a d2 = Some d3"
      "md_stat d3 = md_stat d2" "steady c1 (md_cache d3)" "cache_rep (md_cache d3) {a} PL' OW' FS' IL'"
      "hm_rep (dpsz d3) (md_hash d3, mc_items (md_cache d3)) (m(vk := None))" "\<forall>b. pay (it_of b d3) = pay (item b c1)"
      unfolding ka(2) by blast
    note p3 = pay_sel [OF spec [OF d3(6)]]
    have st: "steady (md_cache d) (md_cache d3)" using ac(1) d3(3) by (rule steady_trans)
    have ran: "ran (m(vk := None)) = ran m - {a}" using ran_del [of m a vk] ki(10) vk by blast
    have pay3: "pay (it_of b d3) = pay (it_of b d)" if "b \<in> ran m" "b \<noteq> a" for b using core_pay [OF core1 [OF that]] d3(6) by simp
    have "fits (it_of b d3)" if "b \<in> ran (m(vk := None))" for b
      using r(6) [of b] that pay_sel [OF pay3, of b] unfolding ran fits_def by auto
    then have "mdb_rep d3 (m(vk := None)) {a} PL' OW' FS' IL'"
      using d3 r(3,5) ran ac(3) d2(3) steadyD(5) [OF st] by (auto simp: mdb_rep_def index_of_def)
    moreover have "obtain_item sz area now d = Some (a, d3)"
      using slab ex mc False stat d3(1) by (cases ty) (simp_all add: obtain_item_def Let_def)
    moreover have "i_exptime (it_of a d3) = i_exptime (it_of a d)" using p3(1) [of a] ca(2) by simp
    ultimately show ?thesis using ac st vk pay3 p3(6) [of a]
      by (intro exI [of _ a] exI [of _ d3] exI [of _ "Some vk"] exI [of _ PL'] exI [of _ OW'] exI [of _ FS'] exI [of _ IL']) auto
  qed
qed

subsection \<open>Storing an entry\<close>

lemma publish_item_rep:
  assumes rep: "mdb_rep d m {a} PL OW FS IL" and a: "a \<in> set (IL (k, KEY_AREA key))" and key: "m key = None" "key \<noteq> []"
    and it: "i_next (g (it_of a d)) = i_next (it_of a d)" "i_prev (g (it_of a d)) = i_prev (it_of a d)"
      "CLEAR_FLAGS (i_item_id (g (it_of a d))) = CLEAR_FLAGS (i_item_id (it_of a d))"
      "length (i_data (g (it_of a d))) = length (i_data (it_of a d))" "ITEM_KEY (g (it_of a d)) = key"
      "i_key_len (g (it_of a d)) = length key" "ITEM_AREA (g (it_of a d)) = KEY_AREA key" "fits (g (it_of a d))"
  shows "\<exists>d'. publish_item a (upd_it a g d) = Some d' \<and> mdb_rep d' (m(key \<mapsto> a)) {} PL OW FS IL \<and>
    steady (md_cache d) (md_cache d') \<and> (\<forall>b. b \<noteq> a \<longrightarrow> it_of b d' = it_of b d) \<and> pay (it_of a d') = pay (g (it_of a d))"
proof -
  note r = mdb_rep_sel [OF rep]
  define st where "st = (mc_items (md_cache d))(a := g (it_of a d))"
  define hs where "hs = hm_insert a (md_hash d, st)"
  have new: "a \<notin> ran m" using r(3) by auto
  have nz: "CLEAR_FLAGS (i_item_id (it_of a d)) \<noteq> 0" "item_ok (md_cache d) a"
    using item_lists_mem(3,4) [OF cache_rep_sel(4) [OF r(1)] a] by simp_all
  have "item_at (i_item_id (st a)) (md_cache d) = item_at (i_item_id (it_of a d)) (md_cache d)"
    using nz(1) it(3) by (intro item_at_flags) (auto simp: st_def, auto simp: CLEAR_FLAGS_def)
  then have own: "id_to_item (dpsz d) (i_item_id (st a)) = Some a" using nz(2) by (simp add: item_ok_def item_at_def)
  have "hm_rep (dpsz d) (md_hash d, st) m" by (rule hm_rep_core [OF r(2)]) (use new in \<open>auto simp: st_def\<close>)
  from hm_insert_rep [OF this new] key own it(5,6) have hm: "hm_rep (dpsz d) hs (m(key \<mapsto> a))" "relinked st (snd hs)"
    by (simp_all add: st_def hs_def)
  obtain x where hst: "snd hs = st(a := (st a)\<lparr>i_h_next := x\<rparr>)" by (simp add: hs_def hm_insert_def Let_def)
  let ?c = "(md_cache d)\<lparr>mc_items := snd hs\<rparr>"
  have sa: "snd hs a = (g (it_of a d))\<lparr>i_h_next := x\<rparr>" "b \<noteq> a \<Longrightarrow> snd hs b = it_of b d" for b by (simp_all add: hst st_def)
  have ra: "cache_rep ?c {} PL OW FS IL"
  proof (rule items_rep [OF r(1)])
    show "ITEM_AREA (snd hs b) = ar" if "b \<in> set (IL (k', ar)) - {}" for k' ar b
    proof (cases "b = a")
      case True
      with item_lists_mem(6) [OF cache_rep_sel(4) [OF r(1)] a, of "(k', ar)"] that have "ar = KEY_AREA key" by auto
      with True it(7) show ?thesis by (simp add: sa ITEM_AREA_def)
    qed (use that cache_rep_sel(8) [OF r(1)] sa(2) in auto)
    show "i_exptime (snd hs b) = 0" if "OW i = Some k'" "b \<in> set (FS i) - {}" for i k' b
    proof -
      have "b \<noteq> a"
      proof
        assume "b = a"
        from cache_rep_item [OF r(1) a] obtain j where j: "OW j = Some k" "a \<in> slots (md_cache d) k j" "a \<notin> set (FS j)" by blast
        have "b \<in> slots (md_cache d) k' i" using cache_rep_page(1) [OF r(1) that(1)] that(2) by (auto simp: page_inv_def)
        from slots_apart [OF cache_rep_sel(1) [OF r(1)] cache_rep_page(2) [OF r(1) that(1)] cache_rep_page(2) [OF r(1) j(1)] this] j that(2) \<open>b = a\<close>
        show False by auto
      qed
      with that cache_rep_sel(9) [OF r(1)] sa(2) show ?thesis by auto
    qed
    show "i_item_id (snd hs b) = i_item_id (it_of b d) \<and> i_h_next (snd hs b) = i_h_next (it_of b d) \<and>
      length (i_data (snd hs b)) = length (i_data (it_of b d))" if "\<And>p. b \<notin> set (IL p)" for b
      using that a sa(2) [of b] by (metis)
    show "i_next (snd hs b) = i_next (it_of b d) \<and> i_prev (snd hs b) = i_prev (it_of b d) \<and>
      CLEAR_FLAGS (i_item_id (snd hs b)) = CLEAR_FLAGS (i_item_id (it_of b d)) \<and> length (i_data (snd hs b)) = length (i_data (it_of b d))" for b
      using it sa by (cases "b = a") simp_all
  qed
  let ?ar = "KEY_AREA key"
  have ar: "?ar < TAIR_MAX_AREA_COUNT" using item_lists_mem(2) [OF cache_rep_sel(4) [OF r(1)] a] .
  let ?f = "\<lambda>s. s\<lparr>as_data_size := as_data_size s + item_bytes (snd hs a), as_space_usage := as_space_usage s + SLAB_SIZE (i_item_id (snd hs a)),
     as_item_count := as_item_count s + 1, as_put_count := as_put_count s + 1\<rparr>"
  define d' where "d' = d\<lparr>md_cache := ?c, md_hash := fst hs, md_stat := (md_stat d)[?ar := ?f (md_stat d ! ?ar)]\<rparr>"
  have ins: "md_hash_insert a (upd_it a g d) = d\<lparr>md_cache := ?c, md_hash := fst hs\<rparr>"
    by (simp add: md_hash_insert_def index_of_def upd_it_def upd_item_def with_index_def hs_def st_def)
  have iar: "ITEM_AREA (snd hs a) = ?ar" using it(7) by (simp add: sa ITEM_AREA_def)
  have "publish_item a (upd_it a g d) = Some d'"
    using ar r(4) by (simp add: publish_item_def Let_def ins upd_stat_def iar d'_def)
  moreover have d': "md_cache d' = ?c" "md_hash d' = fst hs" "length (md_stat d') = TAIR_MAX_AREA_COUNT" by (simp_all add: d'_def r(4))
  have "mdb_rep d' (m(key \<mapsto> a)) {} PL OW FS IL"
  proof -
    have "ran (m(key \<mapsto> a)) = insert a (ran m)" using key(1) by simp
    moreover have "fits (snd hs b)" if "b \<in> insert a (ran m)" for b
      using that it(8) r(6) [of b] new sa by (cases "b = a") (auto simp: fits_def)
    ultimately show ?thesis
      using ra hm(1) d' r(3,5) a unfolding mdb_rep_def index_of_def by auto
  qed
  moreover have "pay (snd hs a) = pay (g (it_of a d))" by (simp add: sa pay_def core_def)
  ultimately show ?thesis using d'(1) sa(2) by (intro exI [of _ d']) (simp add: steady_def)
qed

text \<open>When an entry counts as expired, and what \<open>do_put\<close> decides on an entry that is there.\<close>

definition entry_expired :: "u32 \<Rightarrow> u32 list \<Rightarrow> string \<Rightarrow> centry \<Rightarrow> bool" where
  "entry_expired now ts key e \<longleftrightarrow> ce_expire e \<noteq> 0 \<and> ce_expire e < now \<or> ce_update e < ts ! KEY_AREA key"

definition put_check :: "(string \<rightharpoonup> centry) \<Rightarrow> u32 list \<Rightarrow> u32 \<Rightarrow> string \<Rightarrow> u16 \<Rightarrow> u16 \<Rightarrow> bool \<Rightarrow> int + u16" where
  "put_check M ts now key version server_flag version_care =
     (case M key of
        None \<Rightarrow> Inr 0
      | Some e \<Rightarrow>
          if server_flag AND TAIR_OPERATION_UNLOCK = 0 \<and> test_flag (ce_flags e) TAIR_ITEM_FLAG_LOCKED then Inl TAIR_RETURN_LOCK_EXIST
          else if entry_expired now ts key e then Inr 0
          else if version_care \<and> version \<noteq> 0 \<and> ce_version e \<noteq> version then Inl TAIR_RETURN_VERSION_ERROR
          else Inr (if test_flag (ce_flags e) TAIR_ITEM_FLAG_DELETED then 0 else if version_care then ce_version e else version))"

definition put_entry :: "string \<Rightarrow> u16 \<Rightarrow> u32 \<Rightarrow> u32 \<Rightarrow> u8 \<Rightarrow> centry" where
  "put_entry val version expire now flag =
     \<lparr>ce_data = val, ce_version = version, ce_expire = expire, ce_update = now, ce_flags = ucast flag AND 0xf\<rparr>"

lemma item_expired_entry:
  assumes "mdb_rep d m X PL OW FS IL" "m key = Some a"
  shows "is_item_expired (it_of a d) now d \<longleftrightarrow> entry_expired now (mc_area_timestamp (md_cache d)) key (entry_of (it_of a d))"
  using mdb_rep_item(7) [OF assms] by (simp add: is_item_expired_def entry_expired_def entry_of_def get_area_timestamp_def)

text \<open>The old entry, if any, is checked and removed.\<close>

lemma put_over_rep:
  assumes rep: "mdb_rep d m {} PL OW FS IL"
    and ok: "put_check (map_option (\<lambda>a. entry_of (it_of a d)) \<circ> m) (mc_area_timestamp (md_cache d)) now bytes
      (me_version (de_meta key)) (de_server_flag data) version_care = Inr v"
  shows "\<exists>d' PL' OW' FS' IL'. (case m bytes of None \<Rightarrow> Some (Inr (0, d)) | Some a \<Rightarrow> put_over key data version_care now a d) = Some (Inr (v, d')) \<and>
    mdb_rep d' (m(bytes := None)) {} PL' OW' FS' IL' \<and> steady (md_cache d) (md_cache d') \<and>
    (\<forall>b \<in> ran (m(bytes := None)). pay (it_of b d') = pay (it_of b d))"
proof (cases "m bytes")
  case None
  then have "m(bytes := None) = m" by auto
  moreover have "v = 0" using ok None by (simp add: put_check_def)
  ultimately show ?thesis using rep None by auto
next
  case (Some a)
  note ex = item_expired_entry [OF rep Some, of now]
  from md_remove_rep [OF rep Some] obtain d' PL' OW' FS' IL' where d': "md_remove a d = Some d'"
    "mdb_rep d' (m(bytes := None)) {} PL' OW' FS' IL'" "steady (md_cache d) (md_cache d')"
    "\<forall>b. b \<noteq> a \<longrightarrow> pay (it_of b d') = pay (it_of b d)" by blast
  have "ran (m(bytes := None)) = ran m - {a}" using ran_del [of m a bytes] mdb_rep_item(10) [OF rep Some] Some by blast
  moreover have "put_over key data version_care now a d = Some (Inr (v, d'))"
    using ok Some ex d'(1) by (auto simp: put_check_def put_over_def Let_def entry_of_def split: if_splits)
  ultimately show ?thesis using d'(2-4) Some by auto
qed

text \<open>The item that \<open>do_put\<close> fills.\<close>

definition put_item :: "string \<Rightarrow> string \<Rightarrow> u16 \<Rightarrow> u32 option \<Rightarrow> u32 \<Rightarrow> u8 \<Rightarrow> mdb_item \<Rightarrow> mdb_item" where
  "put_item key val version expire now flag it =
     (let it = set_data_len (length val) (set_key_len (length key) it);
          it = it\<lparr>i_update_time := now, i_version := version\<rparr>;
          it = (case expire of None \<Rightarrow> it | Some t \<Rightarrow> it\<lparr>i_exptime := t\<rparr>);
          it = it\<lparr>i_item_id := SET_ITEM_FLAGS (i_item_id it) (ucast flag)\<rparr>
      in write_entry key val it)"

lemma put_item_sel:
  fixes it :: mdb_item and version :: u16 and expire :: "u32 option" and now :: u32 and flag :: u8
  assumes "length key < 2 ^ 12" "length val < 2 ^ 20" "2 \<le> length key" "length key + length val \<le> length (i_data it)"
    and flags: "CLEAR_FLAGS (i_item_id it) = i_item_id it"
  defines "it' \<equiv> put_item key val version expire now flag it"
  shows "i_next it' = i_next it" "i_prev it' = i_prev it" "CLEAR_FLAGS (i_item_id it') = CLEAR_FLAGS (i_item_id it)"
    "length (i_data it') = length (i_data it)" "ITEM_KEY it' = key" "i_key_len it' = length key" "i_data_len it' = length val"
    "ITEM_AREA it' = KEY_AREA key" "fits it'"
    "entry_of it' = put_entry val version (case expire of None \<Rightarrow> i_exptime it | Some t \<Rightarrow> t) now flag"
proof -
  define it0 where "it0 = it\<lparr>i_key_len := length key, i_data_len := length val, i_update_time := now, i_version := version\<rparr>"
  define it1 where "it1 = (case expire of None \<Rightarrow> it0 | Some t \<Rightarrow> it0\<lparr>i_exptime := t\<rparr>)
     \<lparr>i_item_id := SET_ITEM_FLAGS (i_item_id it) (ucast flag)\<rparr>"
  have w: "it' = write_entry key val it1"
    using assms(1,2) by (cases expire) (simp_all add: it'_def put_item_def Let_def set_data_len_def set_key_len_def it1_def it0_def)
  have s: "i_key_len it1 = length key" "i_data_len it1 = length val" "i_data it1 = i_data it" "i_next it1 = i_next it"
    "i_prev it1 = i_prev it" "i_item_id it1 = SET_ITEM_FLAGS (i_item_id it) (ucast flag)" "i_version it1 = version"
    "i_update_time it1 = now" "i_exptime it1 = (case expire of None \<Rightarrow> i_exptime it | Some t \<Rightarrow> t)"
    by (cases expire; simp add: it1_def it0_def)+
  note we = write_entry_key [of it1 key val] write_entry_area [of it1 key val]
  have sel: "i_key_len it' = length key" "i_data_len it' = length val" "i_next it' = i_next it" "i_prev it' = i_prev it"
    "i_item_id it' = SET_ITEM_FLAGS (i_item_id it) (ucast flag)" "i_version it' = version" "i_update_time it' = now"
    "i_exptime it' = (case expire of None \<Rightarrow> i_exptime it | Some t \<Rightarrow> t)"
    using s by (simp_all add: w write_entry_def)
  then show "i_next it' = i_next it" "i_prev it' = i_prev it" "CLEAR_FLAGS (i_item_id it') = CLEAR_FLAGS (i_item_id it)"
    "i_key_len it' = length key" "i_data_len it' = length val" by simp_all
  show len: "length (i_data it') = length (i_data it)" and "ITEM_KEY it' = key" "ITEM_AREA it' = KEY_AREA key"
    using we s assms(3,4) by (simp_all add: w)
  show "fits it'" using assms(3,4) len sel by (simp add: fits_def)
  have "ITEM_FLAGS (i_item_id it) = 0" using flags flags_fields(10) [of "i_item_id it"] by simp
  then show "entry_of it' = put_entry val version (case expire of None \<Rightarrow> i_exptime it | Some t \<Rightarrow> t) now flag"
    using we(2) s assms(4) sel by (simp add: entry_of_def put_entry_def w [symmetric])
qed

lemma get_slabmng_steady: "steady c c' \<Longrightarrow> get_slabmng sz c' = get_slabmng sz c"
  using steadyD(3,6) by (simp add: get_slabmng_def)

definition put_expire :: "int \<Rightarrow> u32 \<Rightarrow> u32 option" where
  "put_expire expired now =
     (if 0 < expired then Some (if now < of_int expired then of_int expired else now + of_int expired) else None)"

lemma do_put_rep:
  fixes data key :: data_entry
  assumes hold: "holds d M"
    and ok: "put_check M (mc_area_timestamp (md_cache d)) now (de_data key) (me_version (de_meta key)) (de_server_flag data) version_care = Inr v"
    and len: "2 \<le> length (de_data key)" "length (de_data key) < 2 ^ 12" "length (de_data data) < 2 ^ 20"
    and area: "KEY_AREA (de_data key) < TAIR_MAX_AREA_COUNT"
    and slab: "get_slabmng (de_size key + de_size data + sizeof_mdb_item) (md_cache d) \<noteq> None"
  shows "\<exists>key' d' w. do_put key data version_care expired now d = Some (0, key', d') \<and>
    holds d' ((case w of None \<Rightarrow> M | Some vk \<Rightarrow> M(vk := None))(de_data key \<mapsto>
      put_entry (de_data data) (if version_care then v + 1 else me_version (de_meta key))
        (case put_expire expired now of Some t \<Rightarrow> t | None \<Rightarrow> (case w of None \<Rightarrow> 0 | Some vk \<Rightarrow> ce_expire (the (M vk))))
        now (me_flag (de_meta data)))) \<and>
    (\<forall>vk. w = Some vk \<longrightarrow> vk \<noteq> de_data key \<and> M vk \<noteq> None) \<and> steady (md_cache d) (md_cache d')"
proof -
  let ?key = "de_data key" and ?val = "de_data data"
  from hold obtain m PL OW FS IL where rep: "mdb_rep d m {} PL OW FS IL" and M: "M = map_option (\<lambda>a. entry_of (it_of a d)) \<circ> m"
    by (auto simp: holds_def)
  define key1 where "key1 = (if unat (de_area key) \<noteq> KEY_AREA ?key then key\<lparr>de_area := of_nat (KEY_AREA ?key)\<rparr> else key)"
  have k1: "de_data key1 = ?key" "de_size key1 = length ?key" "de_meta key1 = de_meta key" "unat (de_area key1) = KEY_AREA ?key"
    using area by (auto simp: key1_def de_data_def de_size_def unat_of_nat TAIR_MAX_AREA_COUNT_def)
  have find: "md_find ?key d = Some (m ?key)" by (rule md_find_rep [OF rep]) (use len(1) in auto)
  from put_over_rep [where key = key1, OF rep, unfolded k1(3), OF ok [unfolded M]] obtain d1 PL1 OW1 FS1 IL1 where
    d1: "(case m ?key of None \<Rightarrow> Some (Inr (0, d)) | Some a \<Rightarrow> put_over key1 data version_care now a d) = Some (Inr (v, d1))"
      "mdb_rep d1 (m(?key := None)) {} PL1 OW1 FS1 IL1" "steady (md_cache d) (md_cache d1)"
      "\<forall>b \<in> ran (m(?key := None)). pay (it_of b d1) = pay (it_of b d)" by blast
  define m1 where "m1 = m(?key := None)"
  from slab obtain k where k: "get_slabmng (de_size key1 + de_size data + sizeof_mdb_item) (md_cache d1) = Some k"
    using get_slabmng_steady [OF d1(3)] k1(2) by (auto simp: de_size_def)
  from obtain_item_rep [OF d1(2) [folded m1_def] k, of "KEY_AREA ?key" now] area obtain a d2 w PL2 OW2 FS2 IL2 where
    d2: "obtain_item (de_size key1 + de_size data + sizeof_mdb_item) (unat (de_area key1)) now d1 = Some (a, d2)"
      "mdb_rep d2 (case w of None \<Rightarrow> m1 | Some vk \<Rightarrow> m1(vk := None)) {a} PL2 OW2 FS2 IL2" "a \<in> set (IL2 (k, KEY_AREA ?key))"
      "CLEAR_FLAGS (i_item_id (it_of a d2)) = i_item_id (it_of a d2)" "steady (md_cache d1) (md_cache d2)"
      "\<forall>b. b \<in> ran m1 \<longrightarrow> b \<noteq> a \<longrightarrow> pay (it_of b d2) = pay (it_of b d1)"
      "case w of None \<Rightarrow> a \<notin> ran m1 \<and> i_exptime (it_of a d2) = 0 | Some vk \<Rightarrow> m1 vk = Some a \<and> i_exptime (it_of a d2) = i_exptime (it_of a d1)"
    unfolding k1(4) by blast
  define m2 where "m2 = (case w of None \<Rightarrow> m1 | Some vk \<Rightarrow> m1(vk := None))"
  have rep2: "mdb_rep d2 m2 {a} PL2 OW2 FS2 IL2" using d2(2) by (simp add: m2_def)
  note r2 = mdb_rep_sel [OF rep2]
  let ?ver = "if version_care then v + 1 else me_version (de_meta key)"
  define g where "g = put_item ?key ?val ?ver (put_expire expired now) now (me_flag (de_meta data))"
  have room: "length ?key + length ?val \<le> length (i_data (it_of a d2))"
  proof -
    from cache_rep_item [OF r2(1) d2(3)] obtain i where i: "OW2 i = Some k" "a \<in> slots (md_cache d2) k i" by blast
    from slot_item(6) [OF cache_rep_sel(1) [OF r2(1)] cache_rep_page(1) [OF r2(1) i(1)] i(2)] get_slabmng_Some(2) [OF k]
      steadyD(6) [OF d2(5), of k] k1(2) show ?thesis by (simp add: de_size_def)
  qed
  note gs = put_item_sel [OF len(2,3,1) room d2(4), of ?ver "put_expire expired now" now "me_flag (de_meta data)", folded g_def]
  have none: "m2 ?key = None" by (simp add: m2_def m1_def split: option.split)
  have "?key \<noteq> []" using len(1) by auto
  from publish_item_rep [where g = g, OF rep2 d2(3) none this gs(1-6,8,9)] obtain d3 where
    d3: "publish_item a (upd_it a g d2) = Some d3" "mdb_rep d3 (m2(?key \<mapsto> a)) {} PL2 OW2 FS2 IL2"
      "steady (md_cache d2) (md_cache d3)" "\<forall>b. b \<noteq> a \<longrightarrow> it_of b d3 = it_of b d2" "pay (it_of a d3) = pay (g (it_of a d2))" by blast
  have g_eq: "(\<lambda>it. let it = set_data_len (de_size data) (set_key_len (de_size key1) it);
                    it = it\<lparr>i_update_time := now, i_version := (if version_care then v + 1 else me_version (de_meta key1))\<rparr>;
                    it = (if 0 < (if expired < 0 then 0 else expired)
                          then it\<lparr>i_exptime := (if now < of_int (if expired < 0 then 0 else expired) then of_int (if expired < 0 then 0 else expired)
                                                  else now + of_int (if expired < 0 then 0 else expired))\<rparr>
                          else it);
                    it = it\<lparr>i_item_id := SET_ITEM_FLAGS (i_item_id it) (ucast (me_flag (de_meta data)))\<rparr>
                in write_entry ?key ?val it) = g"
    by (auto simp: fun_eq_iff g_def put_item_def Let_def put_expire_def de_size_def k1(1,3))
  have "\<exists>key'. do_put key data version_care expired now d = Some (0, key', d3)"
    unfolding do_put_def Let_def key1_def [symmetric] find Option.bind.bind_lunit d1(1) sum.case prod.case d2(1)
    unfolding g_eq [unfolded Let_def] d3(1) by simp
  moreover have "holds d3 ((case w of None \<Rightarrow> M | Some vk \<Rightarrow> M(vk := None))(?key \<mapsto>
      put_entry ?val ?ver (case put_expire expired now of Some t \<Rightarrow> t | None \<Rightarrow> (case w of None \<Rightarrow> 0 | Some vk \<Rightarrow> ce_expire (the (M vk))))
        now (me_flag (de_meta data))))"
  proof -
    have ran2: "b \<in> ran m1" "b \<noteq> a" if "b \<in> ran m2" for b
      using that r2(3) by (auto simp: m2_def ran_def split: option.splits if_splits)
    have pay: "pay (it_of b d1) = pay (it_of b d)" if "b \<in> ran m1" for b using d1(4) that by (simp add: m1_def)
    have ent: "entry_of (it_of b d3) = entry_of (it_of b d)" if "b \<in> ran m2" for b
      using pay_sel(10) [of "it_of b d2" "it_of b d"] pay [OF ran2(1) [OF that]] d2(6) d3(4) ran2 [OF that] by simp
    have old: "i_exptime (it_of a d2) = (case w of None \<Rightarrow> 0 | Some vk \<Rightarrow> ce_expire (the (M vk)))"
    proof (cases w)
      case (Some vk)
      then have vk: "m1 vk = Some a" "i_exptime (it_of a d2) = i_exptime (it_of a d1)" using d2(7) by auto
      then have "a \<in> ran m1" "m vk = Some a" by (auto simp: ran_def m1_def split: if_splits)
      with pay_sel(1) [OF pay, of a] vk(2) Some show ?thesis by (simp add: M entry_of_def)
    qed (use d2(7) in simp)
    have "map_option (\<lambda>a. entry_of (it_of a d3)) \<circ> m2(?key \<mapsto> a) = (case w of None \<Rightarrow> M | Some vk \<Rightarrow> M(vk := None))(?key \<mapsto>
      put_entry ?val ?ver (case put_expire expired now of Some t \<Rightarrow> t | None \<Rightarrow> (case w of None \<Rightarrow> 0 | Some vk \<Rightarrow> ce_expire (the (M vk))))
        now (me_flag (de_meta data)))" (is "?L = ?R")
    proof
      fix x
      show "?L x = ?R x"
      proof (cases "x = ?key")
        case True
        with pay_sel(10) [OF d3(5)] gs(10) old show ?thesis by (simp split: option.split)
      next
        case False
        have "map_option (\<lambda>a. entry_of (it_of a d3)) (m2 x) = map_option (\<lambda>a. entry_of (it_of a d)) (m2 x)"
          using ent by (cases "m2 x") (auto simp: ran_def)
        with False show ?thesis by (auto simp: m2_def m1_def M split: option.split)
      qed
    qed
    then show ?thesis using d3(2) unfolding holds_def by metis
  qed
  moreover have "vk \<noteq> ?key \<and> M vk \<noteq> None" if "w = Some vk" for vk
    using that d2(7) M by (auto simp: m1_def split: if_splits)
  moreover have "steady (md_cache d) (md_cache d3)" using steady_trans [OF steady_trans [OF d1(3) d2(5)] d3(3)] .
  ultimately show ?thesis by blast
qed

subsection \<open>Reading, removing, looking up\<close>

text \<open>Touching an item changes the order of its list only.\<close>

lemma mc_update_item_rep:
  assumes rep: "mdb_rep d m {} PL OW FS IL" and key: "m key = Some a"
  shows "\<exists>c' IL'. mc_update_item a (md_cache d) = Some c' \<and> mdb_rep (d\<lparr>md_cache := c'\<rparr>) m {} PL OW FS IL' \<and>
    steady (md_cache d) c' \<and> (\<forall>b. pay (item b c') = pay (it_of b d))"
proof -
  note r = mdb_rep_sel [OF rep] and ki = mdb_rep_item [OF rep key]
  from ki(1) obtain k i where ki': "a \<in> set (IL (k, KEY_AREA key))" "OW i = Some k" "a \<in> slots (md_cache d) k i" by blast
  note sl = slot_item [OF cache_rep_sel(1) [OF r(1)] cache_rep_page(1) [OF r(1) ki'(2)] ki'(3)]
  let ?IL = "IL((k, KEY_AREA key) := a # remove1 a (IL (k, KEY_AREA key)))"
  from move_rep [OF r(1), of a k "KEY_AREA key"] ki'(1) ki(7,8) obtain c' where
    c': "sm_update_item k a (KEY_AREA key) (md_cache d) = Some c'" "cache_rep c' {} PL OW FS ?IL"
      "steady (md_cache d) c'" "\<forall>b. core (item b c') = core (it_of b d)" by auto
  have upd: "mc_update_item a (md_cache d) = Some c'"
    using c'(1) sl(4) ki(7) cache_rep_page(2) [OF r(1) ki'(2)] by (simp add: mc_update_item_def Let_def)
  have "hm_rep (psz c') (md_hash d, mc_items c') m" using hm_rep_core [OF r(2)] c'(4) steadyD(1) [OF c'(3)] by simp
  moreover have "(\<Union>p. set (?IL p)) = (\<Union>p. set (IL p))"
    using lists_moved [OF cache_rep_sel(4) [OF r(1)] ki'(1), of "KEY_AREA key"] ki'(1) by auto
  moreover have "fits (item b c')" if "b \<in> ran m" for b
    using r(6) [OF that] core_sel [OF spec [OF c'(4), of b]] by (simp add: fits_def)
  ultimately have "mdb_rep (d\<lparr>md_cache := c'\<rparr>) m {} PL OW FS ?IL"
    using c'(2) r(3-5) steadyD(5) [OF c'(3)] by (simp add: mdb_rep_def index_of_def)
  moreover have "pay (item b c') = pay (it_of b d)" for b by (rule core_pay [OF spec [OF c'(4)]])
  ultimately show ?thesis using upd c'(3) by blast
qed

lemma mdb_rep_stat:
  "mdb_rep d m X PL OW FS IL \<Longrightarrow> length st = TAIR_MAX_AREA_COUNT \<Longrightarrow> mdb_rep (d\<lparr>md_stat := st\<rparr>) m X PL OW FS IL"
  by (simp add: mdb_rep_def index_of_def)

lemma holdsI:
  assumes "mdb_rep d m {} PL OW FS IL" "\<And>a. a \<in> ran m \<Longrightarrow> pay (it_of a d) = pay (st a)"
  shows "holds d (map_option (\<lambda>a. entry_of (st a)) \<circ> m)"
proof -
  have "map_option (\<lambda>a. entry_of (st a)) (m x) = map_option (\<lambda>a. entry_of (it_of a d)) (m x)" for x
  proof (cases "m x")
    case (Some a)
    then have "a \<in> ran m" by (auto simp: ran_def)
    from pay_sel(10) [OF assms(2) [OF this]] Some show ?thesis by simp
  qed simp
  then have "map_option (\<lambda>a. entry_of (st a)) \<circ> m = map_option (\<lambda>a. entry_of (it_of a d)) \<circ> m" by auto
  with assms(1) show ?thesis unfolding holds_def by metis
qed

text \<open>Removing the entry of a key.\<close>

lemma contents_del: "map_option f \<circ> m(k := None) = (map_option f \<circ> m)(k := None)"
  by auto

lemma md_remove_holds:
  assumes "mdb_rep d m {} PL OW FS IL" "m key = Some a"
  shows "\<exists>d'. md_remove a d = Some d' \<and> holds d' ((map_option (\<lambda>a. entry_of (it_of a d)) \<circ> m)(key := None)) \<and>
    length (md_stat d') = TAIR_MAX_AREA_COUNT \<and> steady (md_cache d) (md_cache d')"
proof -
  from md_remove_rep [OF assms] obtain d' PL' OW' FS' IL' where d': "md_remove a d = Some d'"
    "mdb_rep d' (m(key := None)) {} PL' OW' FS' IL'" "steady (md_cache d) (md_cache d')"
    "\<forall>b. b \<noteq> a \<longrightarrow> pay (it_of b d') = pay (it_of b d)" by blast
  have "a \<notin> ran (m(key := None))" using ran_del [of m a key] mdb_rep_item(10) [OF assms] assms(2) by blast
  then have "holds d' (map_option (\<lambda>a. entry_of (it_of a d)) \<circ> m(key := None))" by (intro holdsI [OF d'(2)]) (use d'(4) in auto)
  with d' mdb_rep_sel(4) [OF d'(2)] show ?thesis unfolding contents_del by blast
qed

lemma remove_if_expired_rep:
  assumes hold: "holds d M" and key: "key \<noteq> []"
  shows "case M key of
      None \<Rightarrow> remove_if_expired key now d = Some (False, None, d)
    | Some e \<Rightarrow>
        if entry_expired now (mc_area_timestamp (md_cache d)) key e
        then \<exists>d'. remove_if_expired key now d = Some (True, None, d') \<and> holds d' (M(key := None)) \<and>
               length (md_stat d') = TAIR_MAX_AREA_COUNT \<and> steady (md_cache d) (md_cache d')
        else \<exists>a m PL OW FS IL. remove_if_expired key now d = Some (False, Some a, d) \<and> mdb_rep d m {} PL OW FS IL \<and>
               M = map_option (\<lambda>a. entry_of (it_of a d)) \<circ> m \<and> m key = Some a"
proof -
  from hold obtain m PL OW FS IL where rep: "mdb_rep d m {} PL OW FS IL" and M: "M = map_option (\<lambda>a. entry_of (it_of a d)) \<circ> m"
    by (auto simp: holds_def)
  note find = md_find_rep [OF rep key]
  show ?thesis
  proof (cases "m key")
    case None
    with find show ?thesis by (simp add: M remove_if_expired_def)
  next
    case (Some a)
    note ex = item_expired_entry [OF rep Some, of now]
    show ?thesis
    proof (cases "is_item_expired (it_of a d) now d")
      case True
      with md_remove_holds [OF rep Some] find Some ex M show ?thesis by (auto simp: remove_if_expired_def)
    next
      case False
      with find Some ex have "remove_if_expired key now d = Some (False, Some a, d)" by (simp add: remove_if_expired_def)
      with rep M Some have "\<exists>a m PL OW FS IL. remove_if_expired key now d = Some (False, Some a, d) \<and> mdb_rep d m {} PL OW FS IL \<and>
          M = map_option (\<lambda>a. entry_of (it_of a d)) \<circ> m \<and> m key = Some a" by blast
      moreover have "M key = Some (entry_of (it_of a d))" by (simp add: M Some)
      ultimately show ?thesis using False ex by simp
    qed
  qed
qed

end
