(* ===== verification/Mdb_Client.thy ===== *)
theory Mdb_Client
  imports Mdb_Refine
begin

section \<open>The operations of the cache on the map\<close>

text \<open>
  Reading, removing, looking up and the refused \<open>put\<close>, over the map that \<open>holds\<close> gives, and the
  same for the C interface: the calls of \<^verbatim>\<open>libmdb_c.cpp\<close> are simulated by an abstract cache, a map
  from keys to entries that a \<open>put\<close> may lose one other entry of.
\<close>

subsection \<open>The effect of a read\<close>

definition read_entry :: "(string \<rightharpoonup> centry) \<Rightarrow> u32 list \<Rightarrow> u32 \<Rightarrow> string \<Rightarrow> int \<times> centry option \<times> (string \<rightharpoonup> centry)" where
  "read_entry M ts now key =
     (case M key of
        None \<Rightarrow> (TAIR_RETURN_DATA_NOT_EXIST, None, M)
      | Some e \<Rightarrow> if entry_expired now ts key e then (TAIR_RETURN_DATA_EXPIRED, None, M(key := None))
                  else (TAIR_RETURN_SUCCESS, Some e, M))"

lemma holds_stat:
  assumes "holds d M" "area < TAIR_MAX_AREA_COUNT"
  shows "\<exists>d'. upd_stat area f d = Some d' \<and> holds d' M \<and> md_cache d' = md_cache d"
proof -
  from assms(1) obtain m PL OW FS IL where m: "mdb_rep d m {} PL OW FS IL" "M = map_option (\<lambda>a. entry_of (it_of a d)) \<circ> m"
    by (auto simp: holds_def)
  let ?d = "d\<lparr>md_stat := (md_stat d)[area := f (md_stat d ! area)]\<rparr>"
  have "mdb_rep ?d m {} PL OW FS IL" using mdb_rep_stat [OF m(1)] mdb_rep_sel(4) [OF m(1)] by simp
  moreover have "M = map_option (\<lambda>a. entry_of (it_of a ?d)) \<circ> m" using m(2) by simp
  ultimately have "holds ?d M" unfolding holds_def by blast
  with assms(2) mdb_rep_sel(4) [OF m(1)] show ?thesis by (simp add: upd_stat_def)
qed

lemma holds_stat_if:
  assumes "holds d M" "area < TAIR_MAX_AREA_COUNT"
  shows "\<exists>d'. (if b then upd_stat area f d else Some d) = Some d' \<and> holds d' M \<and> md_cache d' = md_cache d"
  using holds_stat [OF assms, of f] assms(1) by (cases b) auto

text \<open>A hit: the item moves to the front of its list and the counters of the area grow.\<close>

lemma touch_rep:
  assumes rep: "mdb_rep d m {} PL OW FS IL" and key: "m key = Some a" and M: "M = map_option (\<lambda>a. entry_of (it_of a d)) \<circ> m"
  shows "\<exists>c'. mc_update_item a (md_cache d) = Some c' \<and> holds (d\<lparr>md_cache := c'\<rparr>) M \<and> steady (md_cache d) c'"
proof -
  from mc_update_item_rep [OF rep key] obtain c' IL' where c': "mc_update_item a (md_cache d) = Some c'"
    "mdb_rep (d\<lparr>md_cache := c'\<rparr>) m {} PL OW FS IL'" "steady (md_cache d) c'" "\<forall>b. pay (item b c') = pay (it_of b d)" by blast
  with holdsI [OF c'(2), of "mc_items (md_cache d)"] M show ?thesis by auto
qed

lemma do_get_rep:
  assumes hold: "holds d M" and key: "de_data key \<noteq> []"
    and area: "unat (de_area key) = KEY_AREA (de_data key)" "KEY_AREA (de_data key) < TAIR_MAX_AREA_COUNT"
    and spec: "read_entry M (mc_area_timestamp (md_cache d)) now (de_data key) = (rc, r, M')"
  shows "\<exists>key' data' d'. do_get key data with_stat now d = Some (rc, key', data', d') \<and> holds d' M' \<and> steady (md_cache d) (md_cache d') \<and>
    (case r of None \<Rightarrow> key' = key \<and> data' = data
     | Some e \<Rightarrow> de_data data' = ce_data e \<and> me_version (de_meta key') = ce_version e \<and> me_edate (de_meta key') = ce_expire e)"
proof (cases "M (de_data key)")
  case None
  with remove_if_expired_rep [OF hold key, of now] have r1: "remove_if_expired (de_data key) now d = Some (False, None, d)" by simp
  from holds_stat_if [OF hold area(2)] obtain d' where
    "(if with_stat then upd_stat (unat (de_area key)) (\<lambda>s. s\<lparr>as_get_count := as_get_count s + 1\<rparr>) d else Some d) = Some d'"
    "holds d' M" "md_cache d' = md_cache d" unfolding area(1) by blast
  with spec None r1 show ?thesis by (auto simp: do_get_def read_entry_def Let_def)
next
  case (Some e)
  note re = remove_if_expired_rep [OF hold key, of now, unfolded Some option.case]
  show ?thesis
  proof (cases "entry_expired now (mc_area_timestamp (md_cache d)) (de_data key) e")
    case True
    with re obtain d1 where d1: "remove_if_expired (de_data key) now d = Some (True, None, d1)" "holds d1 (M(de_data key := None))"
      "steady (md_cache d) (md_cache d1)" by auto
    from holds_stat_if [OF d1(2) area(2)] obtain d' where
      "(if with_stat then upd_stat (unat (de_area key)) (\<lambda>s. s\<lparr>as_get_count := as_get_count s + 1\<rparr>) d1 else Some d1) = Some d'"
      "holds d' (M(de_data key := None))" "md_cache d' = md_cache d1" unfolding area(1) by blast
    with spec Some True d1 show ?thesis by (auto simp: do_get_def read_entry_def Let_def)
  next
    case False
    with re obtain a m PL OW FS IL where a: "remove_if_expired (de_data key) now d = Some (False, Some a, d)"
      "mdb_rep d m {} PL OW FS IL" "M = map_option (\<lambda>a. entry_of (it_of a d)) \<circ> m" "m (de_data key) = Some a" by auto
    from touch_rep [OF a(2,4,3)] obtain c' where c': "mc_update_item a (md_cache d) = Some c'" "holds (d\<lparr>md_cache := c'\<rparr>) M"
      "steady (md_cache d) c'" by blast
    from holds_stat_if [OF c'(2) area(2)] obtain d2 where
      d2: "(if with_stat then upd_stat (unat (de_area key)) (\<lambda>s. s\<lparr>as_hit_count := as_hit_count s + 1\<rparr>) (d\<lparr>md_cache := c'\<rparr>)
            else Some (d\<lparr>md_cache := c'\<rparr>)) = Some d2" "holds d2 M" "md_cache d2 = c'" unfolding area(1) by force
    from holds_stat_if [OF d2(2) area(2)] obtain d3 where
      d3: "(if with_stat then upd_stat (unat (de_area key)) (\<lambda>s. s\<lparr>as_get_count := as_get_count s + 1\<rparr>) d2 else Some d2) = Some d3"
        "holds d3 M" "md_cache d3 = md_cache d2" unfolding area(1) by blast
    have e: "e = entry_of (it_of a d)" using Some a(3,4) by simp
    have "do_get key data with_stat now d = Some (0, got_key (it_of a d) key, got_data (it_of a d) data, d3)"
      using a(1) c'(1) area(1) mdb_rep_item(7) [OF a(2,4)] d2(1) d3(1)
      by (cases with_stat) (simp_all add: do_get_def Let_def)
    moreover have "de_data (got_data (it_of a d) data) = ce_data e" "me_version (de_meta (got_key (it_of a d) key)) = ce_version e"
      "me_edate (de_meta (got_key (it_of a d) key)) = ce_expire e"
      by (simp_all add: e entry_of_def got_data_def got_key_def Let_def set_data_def free_data_def de_data_def set_valsize_def)
    moreover have "rc = 0" "r = Some e" "M' = M" using spec Some False by (auto simp: read_entry_def TAIR_RETURN_SUCCESS_def)
    ultimately show ?thesis using d3(2,3) d2(3) c'(3) by simp
  qed
qed

text \<open>Removal and look-up.\<close>

definition drop_entry :: "(string \<rightharpoonup> centry) \<Rightarrow> string \<Rightarrow> int \<times> (string \<rightharpoonup> centry)" where
  "drop_entry M key = (if M key = None then TAIR_RETURN_DATA_NOT_EXIST else 0, M(key := None))"

lemma remove_if_exists_rep:
  assumes hold: "holds d M" and key: "key \<noteq> []"
  shows "\<exists>d'. remove_if_exists key d = Some (M key \<noteq> None, d') \<and> holds d' (M(key := None)) \<and> steady (md_cache d) (md_cache d')"
proof -
  from hold obtain m PL OW FS IL where rep: "mdb_rep d m {} PL OW FS IL" and M: "M = map_option (\<lambda>a. entry_of (it_of a d)) \<circ> m"
    by (auto simp: holds_def)
  note find = md_find_rep [OF rep key]
  show ?thesis
  proof (cases "m key")
    case None
    then have "M(key := None) = M" by (auto simp: M)
    with None find hold show ?thesis by (simp add: remove_if_exists_def M)
  next
    case (Some a)
    from md_remove_holds [OF rep Some] find Some show ?thesis by (auto simp: remove_if_exists_def M)
  qed
qed

lemma do_remove_rep:
  assumes hold: "holds d M" and key: "de_data key \<noteq> []" and area: "unat (de_area key) < TAIR_MAX_AREA_COUNT"
  shows "\<exists>key' d'. do_remove key d = Some (fst (drop_entry M (de_data key)), key', d') \<and>
    holds d' (snd (drop_entry M (de_data key))) \<and> steady (md_cache d) (md_cache d')"
proof -
  from remove_if_exists_rep [OF hold key] obtain d1 where d1: "remove_if_exists (de_data key) d = Some (M (de_data key) \<noteq> None, d1)"
    "holds d1 (M(de_data key := None))" "steady (md_cache d) (md_cache d1)" by blast
  from holds_stat [OF d1(2) area] obtain d2 where
    "upd_stat (unat (de_area key)) (\<lambda>s. s\<lparr>as_remove_count := as_remove_count s + 1\<rparr>) d1 = Some d2"
    "holds d2 (M(de_data key := None))" "md_cache d2 = md_cache d1" by blast
  with d1 show ?thesis by (auto simp: do_remove_def de_data_def drop_entry_def)
qed

lemma do_lookup_rep:
  assumes hold: "holds d M" and key: "de_data key \<noteq> []" and area: "unat (de_area key) = KEY_AREA (de_data key)"
    and spec: "read_entry M (mc_area_timestamp (md_cache d)) now (de_data key) = (rc, r, M')"
  shows "\<exists>d'. do_lookup key now d = Some (r \<noteq> None, d') \<and> holds d' M' \<and> steady (md_cache d) (md_cache d')"
proof -
  have eq: "do_lookup key now d = do { (b, r, d) \<leftarrow> remove_if_expired (de_data key) now d; Some (r \<noteq> None, d) }"
    using area by (auto simp: do_lookup_def remove_if_expired_def split: option.split Option.bind_split)
  show ?thesis
    using remove_if_expired_rep [OF hold key, of now] spec hold unfolding eq
    by (cases "M (de_data key)") (auto simp: read_entry_def split: if_splits)
qed

text \<open>A \<open>put\<close> that is refused changes nothing.\<close>

lemma do_put_refused:
  assumes hold: "holds d M" and key: "de_data key \<noteq> []"
    and no: "put_check M (mc_area_timestamp (md_cache d)) now (de_data key) (me_version (de_meta key)) (de_server_flag data) version_care = Inl rc"
  shows "\<exists>key'. do_put key data version_care expired now d = Some (rc, key', d)"
proof -
  from hold obtain m PL OW FS IL where rep: "mdb_rep d m {} PL OW FS IL" and M: "M = map_option (\<lambda>a. entry_of (it_of a d)) \<circ> m"
    by (auto simp: holds_def)
  from no M obtain a where a: "m (de_data key) = Some a" by (cases "m (de_data key)") (auto simp: put_check_def)
  have "put_over key' data version_care now a d = Some (Inl rc)" if "de_meta key' = de_meta key" for key'
    using no a item_expired_entry [OF rep a, of now] that
    by (auto simp: put_check_def put_over_def M Let_def entry_of_def split: if_splits)
  with md_find_rep [OF rep key] a show ?thesis by (simp add: do_put_def Let_def)
qed

subsection \<open>The calls of the C interface\<close>

datatype request =
    Put int string string int bool int
  | Get int string
  | Del int string
  | Lookup int string
  | Clear int
  | Set_quota int u64

datatype response = Code int | Value int "(string \<times> u16 \<times> u32) option" | Present bool | Done

text \<open>
  One call at time \<open>now\<close>. \<open>Clear\<close> is the call for one area; the special values of the argument
  start the walks over the whole cache.
\<close>

fun serve :: "u32 \<times> request \<Rightarrow> mdb \<Rightarrow> (response \<times> mdb) option" where
  "serve (now, Put area key val version care expire) d =
     do { (rc, d) \<leftarrow> mdb_put area key val version care expire now d; Some (Code rc, d) }"
| "serve (now, Get area key) d = do { (rc, v, d) \<leftarrow> mdb_get area key now d; Some (Value rc v, d) }"
| "serve (now, Del area key) d = do { (rc, d) \<leftarrow> mdb_del area key d; Some (Code rc, d) }"
| "serve (now, Lookup area key) d = do { (b, d) \<leftarrow> mdb_lookup area key now d; Some (Present b, d) }"
| "serve (now, Clear area) d = do { (rc, d) \<leftarrow> md_clear area [] now d; Some (Code rc, d) }"
| "serve (now, Set_quota area quota) d = do { d \<leftarrow> set_area_quota (nat area) quota d; Some (Done, d) }"

subsection \<open>The abstract cache\<close>

record acache =
  ac_map :: "string \<rightharpoonup> centry"
  ac_time :: "u32 list"

definition full_key :: "int \<Rightarrow> string \<Rightarrow> string" where
  "full_key area key = area_bytes (nat area) @ key"

text \<open>
  A \<open>put\<close> that is not refused stores its entry and may lose one other, the victim; with no expiry
  time of its own it takes over the one of the victim.
\<close>

definition stored :: "string \<Rightarrow> string \<Rightarrow> u16 \<Rightarrow> int \<Rightarrow> u32 \<Rightarrow> string option \<Rightarrow> (string \<rightharpoonup> centry) \<Rightarrow> (string \<rightharpoonup> centry)" where
  "stored key val version expire now w M =
     (case w of None \<Rightarrow> M | Some vk \<Rightarrow> M(vk := None))
       (key \<mapsto> put_entry val version
          (case put_expire expire now of Some t \<Rightarrow> t | None \<Rightarrow> (case w of None \<Rightarrow> 0 | Some vk \<Rightarrow> ce_expire (the (M vk)))) now 0)"

inductive acall :: "u32 \<times> request \<Rightarrow> acache \<Rightarrow> response \<Rightarrow> acache \<Rightarrow> bool" where
  put_refused: "put_check (ac_map s) (ac_time s) now (full_key area key) (of_int version) 0 care = Inl rc \<Longrightarrow>
    acall (now, Put area key val version care expire) s (Code rc) s"
| put_stored: "put_check (ac_map s) (ac_time s) now (full_key area key) (of_int version) 0 care = Inr v \<Longrightarrow>
    (\<And>vk. w = Some vk \<Longrightarrow> vk \<noteq> full_key area key \<and> ac_map s vk \<noteq> None) \<Longrightarrow>
    acall (now, Put area key val version care expire) s (Code 0)
      (s\<lparr>ac_map := stored (full_key area key) val (if care then v + 1 else of_int version) expire now w (ac_map s)\<rparr>)"
| get: "read_entry (ac_map s) (ac_time s) now (full_key area key) = (rc, r, M) \<Longrightarrow>
    acall (now, Get area key) s (Value rc (map_option (\<lambda>e. (ce_data e, ce_version e, ce_expire e)) r)) (s\<lparr>ac_map := M\<rparr>)"
| del: "drop_entry (ac_map s) (full_key area key) = (rc, M) \<Longrightarrow> acall (now, Del area key) s (Code rc) (s\<lparr>ac_map := M\<rparr>)"
| lookup: "read_entry (ac_map s) (ac_time s) now (full_key area key) = (rc, r, M) \<Longrightarrow>
    acall (now, Lookup area key) s (Present (r \<noteq> None)) (s\<lparr>ac_map := M\<rparr>)"
| clear: "acall (now, Clear area) s (Code 0) (s\<lparr>ac_time := (ac_time s)[nat area := now]\<rparr>)"
| set_quota: "acall (now, Set_quota area quota) s Done s"

inductive_cases acall_PutE: "acall (now, Put area key val version care expire) s r s'"
inductive_cases acall_GetE: "acall (now, Get area key) s r s'"

definition cache_of :: "mdb \<Rightarrow> acache \<Rightarrow> bool" where
  "cache_of d s \<longleftrightarrow> holds d (ac_map s) \<and> ac_time s = mc_area_timestamp (md_cache d)"

text \<open>The requests within the limits of the cache: an area it has, a key and a value that fit an item.\<close>

definition area_ok :: "int \<Rightarrow> bool" where "area_ok area \<longleftrightarrow> 0 \<le> area \<and> area < int TAIR_MAX_AREA_COUNT"

fun request_ok :: "mdb \<Rightarrow> request \<Rightarrow> bool" where
  "request_ok d (Put area key val _ _ _) \<longleftrightarrow> area_ok area \<and> length key + 2 < 2 ^ 12 \<and> length val < 2 ^ 20 \<and>
     get_slabmng (length key + 2 + length val + sizeof_mdb_item) (md_cache d) \<noteq> None"
| "request_ok d (Get area _) \<longleftrightarrow> area_ok area"
| "request_ok d (Del area _) \<longleftrightarrow> area_ok area"
| "request_ok d (Lookup area _) \<longleftrightarrow> area_ok area"
| "request_ok d (Clear area) \<longleftrightarrow> area_ok area"
| "request_ok d (Set_quota area _) \<longleftrightarrow> area_ok area"

lemma area_key_sel:
  assumes "area_ok area"
  shows "de_data (area_key area key) = full_key area key" "full_key area key \<noteq> []" "2 \<le> length (full_key area key)"
    "length (full_key area key) = length key + 2"
    "unat (de_area (area_key area key)) = KEY_AREA (full_key area key)" "KEY_AREA (full_key area key) < TAIR_MAX_AREA_COUNT"
proof -
  have a: "nat (area mod 2 ^ 32) = nat area" "nat area < 2 ^ 16" "nat area < TAIR_MAX_AREA_COUNT"
    using assms by (auto simp: area_ok_def TAIR_MAX_AREA_COUNT_def)
  show "de_data (area_key area key) = full_key area key"
    unfolding area_key_def a(1)
    by (auto simp: merge_area_def new_entry_def set_data_def free_data_def de_init_def de_data_def de_size_def full_key_def Let_def)
  show "full_key area key \<noteq> []" "2 \<le> length (full_key area key)" "length (full_key area key) = length key + 2"
    by (simp_all add: full_key_def area_bytes_def)
  have "KEY_AREA (full_key area key) = nat area" unfolding full_key_def by (rule KEY_AREA_area_bytes [OF a(2)])
  moreover have "unat (de_area (area_key area key)) = nat area"
    using a(2) unfolding area_key_def a(1)
    by (simp add: merge_area_def new_entry_def set_data_def free_data_def de_init_def Let_def unat_of_nat)
  ultimately show "unat (de_area (area_key area key)) = KEY_AREA (full_key area key)" "KEY_AREA (full_key area key) < TAIR_MAX_AREA_COUNT"
    using a(3) by simp_all
qed

subsection \<open>Simulation of one call\<close>

lemma cache_of_stay: "cache_of d s \<Longrightarrow> holds d' M \<Longrightarrow> steady (md_cache d) (md_cache d') \<Longrightarrow> cache_of d' (s\<lparr>ac_map := M\<rparr>)"
  using steadyD(5) by (simp add: cache_of_def)

lemma serve_put:
  assumes of: "cache_of d s" and ok: "request_ok d (Put area key val version care expire)"
  shows "\<exists>r d' s'. serve (now, Put area key val version care expire) d = Some (r, d') \<and>
    acall (now, Put area key val version care expire) s r s' \<and> cache_of d' s' \<and> steady (md_cache d) (md_cache d')"
proof -
  from ok have "area_ok area" by simp
  note ak = area_key_sel [OF this, of key]
  define k where "k = (area_key area key)\<lparr>de_meta := (de_meta (area_key area key))\<lparr>me_version := of_int version\<rparr>\<rparr>"
  define v where "v = new_entry val False"
  have k: "de_data k = full_key area key" "me_version (de_meta k) = of_int version" using ak(1) by (simp_all add: k_def de_data_def)
  have v: "de_data v = val" "de_server_flag v = 0" "me_flag (de_meta v) = 0"
    by (simp_all add: v_def new_entry_def set_data_def free_data_def de_init_def blank_meta_def de_data_def Let_def)
  have hold: "holds d (ac_map s)" and ts: "mc_area_timestamp (md_cache d) = ac_time s" using of by (simp_all add: cache_of_def)
  show ?thesis
  proof (cases "put_check (ac_map s) (ac_time s) now (full_key area key) (of_int version) 0 care")
    case (Inl rc)
    from do_put_refused [where key = k and data = v and version_care = care and now = now, OF hold, unfolded k v ts, OF ak(2) Inl]
    have "serve (now, Put area key val version care expire) d = Some (Code rc, d)"
      by (auto simp: mdb_put_def Let_def k_def [symmetric] v_def [symmetric] dest!: meta_spec [of _ expire])
    with acall.put_refused [OF Inl] of show ?thesis by (auto intro!: exI [of _ s])
  next
    case (Inr ver)
    have "\<exists>key' d' w. do_put k v care expire now d = Some (0, key', d') \<and>
      holds d' (stored (full_key area key) val (if care then ver + 1 else of_int version) expire now w (ac_map s)) \<and>
      (\<forall>vk. w = Some vk \<longrightarrow> vk \<noteq> full_key area key \<and> ac_map s vk \<noteq> None) \<and> steady (md_cache d) (md_cache d')"
      using do_put_rep [where key = k and data = v and version_care = care and now = now and expired = expire, OF hold,
          unfolded k v ts de_size_def, OF Inr ak(3) _ _ ak(6)] ok ak(4)
      unfolding stored_def by simp
    then obtain key' d' w where p: "do_put k v care expire now d = Some (0, key', d')"
      "holds d' (stored (full_key area key) val (if care then ver + 1 else of_int version) expire now w (ac_map s))"
      "\<And>vk. w = Some vk \<Longrightarrow> vk \<noteq> full_key area key \<and> ac_map s vk \<noteq> None" "steady (md_cache d) (md_cache d')" by blast
    have "serve (now, Put area key val version care expire) d = Some (Code 0, d')"
      using p(1) by (simp add: mdb_put_def Let_def k_def [symmetric] v_def [symmetric])
    with acall.put_stored [where w = w, OF Inr p(3), of val expire] cache_of_stay [OF of p(2,4)] p(4) show ?thesis by blast
  qed
qed

lemma serve_get:
  assumes of: "cache_of d s" and ok: "area_ok area"
  shows "\<exists>r d' s'. serve (now, Get area key) d = Some (r, d') \<and> acall (now, Get area key) s r s' \<and> cache_of d' s' \<and>
    steady (md_cache d) (md_cache d')"
proof -
  note ak = area_key_sel [OF ok, of key]
  have hold: "holds d (ac_map s)" and ts: "mc_area_timestamp (md_cache d) = ac_time s" using of by (simp_all add: cache_of_def)
  obtain rc e M where r: "read_entry (ac_map s) (ac_time s) now (full_key area key) = (rc, e, M)" by (rule prod_cases3)
  from do_get_rep [where key = "area_key area key", OF hold, unfolded ak(1) ts, OF ak(2,5,6) r, of de_init True] obtain key' data' d' where
    d': "do_get (area_key area key) de_init True now d = Some (rc, key', data', d')" "holds d' M" "steady (md_cache d) (md_cache d')"
    "case e of None \<Rightarrow> key' = area_key area key \<and> data' = de_init
     | Some e \<Rightarrow> de_data data' = ce_data e \<and> me_version (de_meta key') = ce_version e \<and> me_edate (de_meta key') = ce_expire e" by blast
  have "rc = 0 \<longleftrightarrow> e \<noteq> None"
    using r by (cases "ac_map s (full_key area key)") (auto simp: read_entry_def TAIR_RETURN_SUCCESS_def
        TAIR_RETURN_DATA_NOT_EXIST_def TAIR_RETURN_DATA_EXPIRED_def split: if_splits, metis)
  with d'(1,4) have "serve (now, Get area key) d = Some (Value rc (map_option (\<lambda>e. (ce_data e, ce_version e, ce_expire e)) e), d')"
    by (cases e) (simp_all add: mdb_get_def)
  with acall.get [OF r] cache_of_stay [OF of d'(2,3)] d'(3) show ?thesis by blast
qed

lemma serve_del:
  assumes of: "cache_of d s" and ok: "area_ok area"
  shows "\<exists>r d' s'. serve (now, Del area key) d = Some (r, d') \<and> acall (now, Del area key) s r s' \<and> cache_of d' s' \<and>
    steady (md_cache d) (md_cache d')"
proof -
  note ak = area_key_sel [OF ok, of key]
  obtain rc M where r: "drop_entry (ac_map s) (full_key area key) = (rc, M)" by (rule prod.exhaust)
  have "holds d (ac_map s)" using of by (simp add: cache_of_def)
  from do_remove_rep [OF this, where key = "area_key area key", unfolded ak(1,5) r, OF ak(2,6)] obtain key' d' where
    d': "do_remove (area_key area key) d = Some (rc, key', d')" "holds d' M" "steady (md_cache d) (md_cache d')" by auto
  have "serve (now, Del area key) d = Some (Code rc, d')" using d'(1) by (simp add: mdb_del_def)
  with acall.del [OF r] cache_of_stay [OF of d'(2,3)] d'(3) show ?thesis by blast
qed

lemma serve_lookup:
  assumes of: "cache_of d s" and ok: "area_ok area"
  shows "\<exists>r d' s'. serve (now, Lookup area key) d = Some (r, d') \<and> acall (now, Lookup area key) s r s' \<and> cache_of d' s' \<and>
    steady (md_cache d) (md_cache d')"
proof -
  note ak = area_key_sel [OF ok, of key]
  have hold: "holds d (ac_map s)" and ts: "mc_area_timestamp (md_cache d) = ac_time s" using of by (simp_all add: cache_of_def)
  obtain rc e M where r: "read_entry (ac_map s) (ac_time s) now (full_key area key) = (rc, e, M)" by (rule prod_cases3)
  from do_lookup_rep [where key = "area_key area key", OF hold, unfolded ak(1) ts, OF ak(2,5) r] obtain d' where
    d': "do_lookup (area_key area key) now d = Some (e \<noteq> None, d')" "holds d' M" "steady (md_cache d) (md_cache d')" by blast
  have "serve (now, Lookup area key) d = Some (Present (e \<noteq> None), d')" using d'(1) by (simp add: mdb_lookup_def)
  with acall.lookup [OF r] cache_of_stay [OF of d'(2,3)] d'(3) show ?thesis by blast
qed

text \<open>The time stamps of the areas are no part of the invariant.\<close>

lemma cache_rep_timestamp:
  assumes rep: "cache_rep c {} PL OW FS IL"
  shows "cache_rep (c\<lparr>mc_area_timestamp := ts\<rparr>) {} PL OW FS IL" (is "cache_rep ?c _ _ _ _ _")
proof (rule cache_repI)
  note r = cache_rep_sel [OF rep]
  show "geo ?c" by (rule geo_cong [OF r(1)]) (use r(1) in \<open>simp_all add: geo_def\<close>)
  show "pages_rep ?c (\<lambda>_. 0) PL" using r(2) by (subst pages_rep_cong [of ?c c]) simp_all
  show "item_lists ?c IL" by (rule item_lists_cong [OF r(4)]) simp_all
  show "page_inv ?c k i (FS i)" if "OW i = Some k" for i k
    using cache_rep_page(1) [OF rep that] by (intro page_inv_same [OF cache_rep_page(1) [OF rep that]]) (simp_all add: page_inv_def)
  show "listed ?c {} PL OW FS" using r(5) listed_cong [of ?c c] by simp
  show "(\<exists>i. OW i = Some k) \<and> (\<Union>ar. set (IL (k, ar))) = used ?c OW FS k" if "k < length (mc_slabs ?c)" for k
    using r(6,7) [of k] that by (simp add: used_def slots_def slot_addr_def)
qed (use cache_rep_sel(8,9) [OF rep] in auto)

lemma holds_timestamp:
  assumes "holds d M" "length ts = TAIR_MAX_AREA_COUNT"
  shows "holds (d\<lparr>md_cache := (md_cache d)\<lparr>mc_area_timestamp := ts\<rparr>\<rparr>) M"
proof -
  from assms(1) obtain m PL OW FS IL where m: "mdb_rep d m {} PL OW FS IL" "M = map_option (\<lambda>a. entry_of (it_of a d)) \<circ> m"
    by (auto simp: holds_def)
  let ?c = "(md_cache d)\<lparr>mc_area_timestamp := ts\<rparr>"
  have "cache_rep ?c {} PL OW FS IL" by (rule cache_rep_timestamp [OF mdb_rep_sel(1) [OF m(1)]])
  then have "mdb_rep (d\<lparr>md_cache := ?c\<rparr>) m {} PL OW FS IL" using m(1) assms(2) by (simp add: mdb_rep_def index_of_def)
  moreover have "M = map_option (\<lambda>a. entry_of (it_of a (d\<lparr>md_cache := ?c\<rparr>))) \<circ> m" using m(2) by simp
  ultimately show ?thesis unfolding holds_def by blast
qed

lemma serve_clear:
  assumes of: "cache_of d s" and ok: "area_ok area"
  shows "\<exists>d'. serve (now, Clear area) d = Some (Code 0, d') \<and> cache_of d' (s\<lparr>ac_time := (ac_time s)[nat area := now]\<rparr>) \<and>
    mc_slabs (md_cache d') = mc_slabs (md_cache d)"
proof -
  have hold: "holds d (ac_map s)" and ts: "ac_time s = mc_area_timestamp (md_cache d)" using of by (simp_all add: cache_of_def)
  from hold have "length (mc_area_timestamp (md_cache d)) = TAIR_MAX_AREA_COUNT" by (auto simp: holds_def mdb_rep_def)
  with holds_timestamp [OF hold, of "(ac_time s)[nat area := now]"] ok ts show ?thesis
    by (auto simp: md_clear_def area_ok_def cache_of_def set_area_timestamp_def)
qed

lemma serve_set_quota:
  assumes of: "cache_of d s" and ok: "area_ok area"
  shows "\<exists>d'. serve (now, Set_quota area quota) d = Some (Done, d') \<and> cache_of d' s \<and> md_cache d' = md_cache d"
proof -
  from of ok holds_stat [of d "ac_map s" "nat area" "\<lambda>s. s\<lparr>as_quota := quota\<rparr>"] obtain d' where
    "upd_stat (nat area) (\<lambda>s. s\<lparr>as_quota := quota\<rparr>) d = Some d'" "holds d' (ac_map s)" "md_cache d' = md_cache d"
    by (auto simp: cache_of_def area_ok_def nat_less_iff)
  with of ok show ?thesis by (auto simp: set_area_quota_def cache_of_def area_ok_def nat_less_iff)
qed

subsection \<open>Simulation as an interface\<close>

text \<open>
  A service refines an abstract one when every request within its limits is answered, the answer is
  one the abstract service may give, and the states stay related. Runs of requests are then runs of
  the abstract service.
\<close>

locale simulation =
  fixes exec :: "'q \<Rightarrow> 's \<Rightarrow> ('r \<times> 's) option" and spec :: "'q \<Rightarrow> 'a \<Rightarrow> 'r \<Rightarrow> 'a \<Rightarrow> bool" and rel :: "'s \<Rightarrow> 'a \<Rightarrow> bool"
    and ok :: "'s \<Rightarrow> 'q \<Rightarrow> bool"
  assumes sim: "rel s a \<Longrightarrow> ok s q \<Longrightarrow> \<exists>r s' a'. exec q s = Some (r, s') \<and> spec q a r a' \<and> rel s' a' \<and> (\<forall>q'. ok s' q' = ok s q')"
begin

fun runs :: "'q list \<Rightarrow> 's \<Rightarrow> ('r list \<times> 's) option" where
  "runs [] s = Some ([], s)"
| "runs (q # qs) s = do { (r, s) \<leftarrow> exec q s; (rs, s) \<leftarrow> runs qs s; Some (r # rs, s) }"

fun traces :: "'q list \<Rightarrow> 'a \<Rightarrow> 'r list \<Rightarrow> 'a \<Rightarrow> bool" where
  "traces [] a rs a' \<longleftrightarrow> rs = [] \<and> a' = a"
| "traces (q # qs) a rs a' \<longleftrightarrow> (\<exists>r rs' b. rs = r # rs' \<and> spec q a r b \<and> traces qs b rs' a')"

lemma runs_sim:
  "rel s a \<Longrightarrow> (\<And>q. q \<in> set qs \<Longrightarrow> ok s q) \<Longrightarrow> \<exists>rs s' a'. runs qs s = Some (rs, s') \<and> traces qs a rs a' \<and> rel s' a'"
proof (induction qs arbitrary: s a)
  case (Cons q qs)
  from sim [OF Cons.prems(1), of q] Cons.prems(2) obtain r s1 a1 where
    1: "exec q s = Some (r, s1)" "spec q a r a1" "rel s1 a1" "\<forall>q'. ok s1 q' = ok s q'" by auto
  from Cons.IH [OF 1(3)] Cons.prems(2) 1(4) obtain rs s' a' where
    "runs qs s1 = Some (rs, s')" "traces qs a1 rs a'" "rel s' a'" by auto
  with 1 show ?case by auto
qed simp

end

lemma serve_sim:
  assumes of: "cache_of d s" and ok: "request_ok d q"
  shows "\<exists>r d' s'. serve (now, q) d = Some (r, d') \<and> acall (now, q) s r s' \<and> cache_of d' s' \<and> (\<forall>q'. request_ok d' q' = request_ok d q')"
proof -
  have keep: "request_ok d' q' = request_ok d q'" if "steady (md_cache d) (md_cache d')" for d' q'
    using get_slabmng_steady [OF that] by (cases q') simp_all
  have same: "request_ok d' q' = request_ok d q'" if "mc_slabs (md_cache d') = mc_slabs (md_cache d)" for d' q'
    using that by (cases q') (simp_all add: get_slabmng_def)
  show ?thesis
  proof (cases q)
    case (Put area key val version care expire)
    with serve_put [OF of] ok keep show ?thesis by metis
  next
    case (Get area key)
    with serve_get [OF of, of area] ok keep show ?thesis by (metis request_ok.simps(2))
  next
    case (Del area key)
    with serve_del [OF of, of area] ok keep show ?thesis by (metis request_ok.simps(3))
  next
    case (Lookup area key)
    with serve_lookup [OF of, of area] ok keep show ?thesis by (metis request_ok.simps(4))
  next
    case (Clear area)
    with serve_clear [OF of, of area] ok same acall.clear show ?thesis by (metis request_ok.simps(5))
  next
    case (Set_quota area quota)
    with serve_set_quota [OF of, of area] ok same acall.set_quota show ?thesis by (metis request_ok.simps(6))
  qed
qed

interpretation mdb_service: simulation serve acall cache_of "\<lambda>d q. request_ok d (snd q)"
proof
  fix d s and q :: "u32 \<times> request"
  assume "cache_of d s" "request_ok d (snd q)"
  from serve_sim [OF this, of "fst q"] show "\<exists>r d' s'. serve q d = Some (r, d') \<and> acall q s r s' \<and> cache_of d' s' \<and>
    (\<forall>q'. request_ok d' (snd q') = request_ok d (snd q'))" by simp
qed

end
