(* ===== verification/Mdb_Start.thy ===== *)
theory Mdb_Start
  imports Mdb_Client
begin

section \<open>A new cache\<close>

text \<open>
  \<open>mdb_manager::initialize\<close> on a fresh segment: the pool, the hash table and the slabs with one free
  page each. The result is shown to hold the empty map, so that every later state of the cache does
  what the abstract cache does.
\<close>

subsection \<open>Pages for the hash table\<close>

lemma alloc_page_frame:
  assumes wf: "pool_wf p" and free: "free_set p \<noteq> {}"
  shows "\<exists>i page p'. alloc_page p = Some (Some (page, i), p') \<and> i \<in> free_set p \<and> 0 < i \<and> pool_wf p' \<and> free_set p' = free_set p - {i} \<and>
    mp_page_size p' = mp_page_size p \<and> mp_total_pages p' = mp_total_pages p \<and> mp_pool p' = mp_pool p \<and> card (free_set p') = card (free_set p) - 1"
proof -
  from alloc_page_ok [OF assms] obtain i page p' where
    p': "alloc_page p = Some (Some (page, i), p')" "i \<in> free_set p" "0 < i" "pool_wf p'" "free_set p' = free_set p - {i}"
    and pe: "p' = p\<lparr>mp_current_page := i + 1, mp_free_pages := mp_free_pages p - 1, mp_bitmap := mp_bitmap p'\<rparr>" by blast
  have "mp_page_size p' = mp_page_size p" "mp_total_pages p' = mp_total_pages p" "mp_pool p' = mp_pool p" by (subst pe, simp)+
  with p' show ?thesis by auto
qed

lemma alloc_pages_some:
  assumes "pool_wf p" "n \<le> card (free_set p)"
  shows "\<exists>p'. alloc_pages n p = Some p' \<and> pool_wf p' \<and> card (free_set p') = card (free_set p) - n \<and>
    mp_page_size p' = mp_page_size p \<and> mp_total_pages p' = mp_total_pages p"
  using assms
proof (induction n arbitrary: p)
  case (Suc n)
  then have "free_set p \<noteq> {}" by auto
  from alloc_page_frame [OF Suc.prems(1) this] obtain i page p1 where p1: "alloc_page p = Some (Some (page, i), p1)" "pool_wf p1"
    "mp_page_size p1 = mp_page_size p" "mp_total_pages p1 = mp_total_pages p" "card (free_set p1) = card (free_set p) - 1" by blast
  with Suc.IH [OF p1(2)] Suc.prems(2) show ?case by auto
qed simp

lemma cache_hash_map_starts:
  assumes wf: "pool_wf p" "mp_pool p \<noteq> 0" and hm: "\<not> hm_is_inited hm" and shift: "shift < 32"
    and room: "(2 ^ shift * 8 + n - 1) div n \<le> card (free_set p)" "0 < n"
  shows "\<exists>hm' p'. cache_hash_map shift n p hm = Some (hm', p') \<and> pool_wf p' \<and> mp_page_size p' = mp_page_size p \<and>
    mp_total_pages p' = mp_total_pages p \<and> card (free_set p') = card (free_set p) - (2 ^ shift * 8 + n - 1) div n \<and>
    (\<forall>k st. hm_rep k (hm', st) Map.empty)"
proof -
  let ?n = "(2 ^ shift * 8 + n - 1) div n"
  have "1 \<le> (2 :: nat) ^ shift" by simp
  then have "n \<le> 2 ^ shift * 8 + n - 1" by linarith
  then have n: "0 < ?n" using room(2) by (simp add: div_greater_zero_iff)
  then have "free_set p \<noteq> {}" using room(1) by auto
  from alloc_page_frame [OF wf(1) this] obtain i page p1 where p1: "alloc_page p = Some (Some (page, i), p1)" "pool_wf p1"
    "mp_page_size p1 = mp_page_size p" "mp_total_pages p1 = mp_total_pages p" "card (free_set p1) = card (free_set p) - 1" by blast
  have "?n - 1 \<le> card (free_set p1)" using room(1) p1(5) by simp
  from alloc_pages_some [OF p1(2) this] obtain p2 where p2: "alloc_pages (?n - 1) p1 = Some p2" "pool_wf p2"
    "card (free_set p2) = card (free_set p1) - (?n - 1)" "mp_page_size p2 = mp_page_size p1" "mp_total_pages p2 = mp_total_pages p1" by blast
  let ?h = "hm\<lparr>hm_is_inited := True, hm_bucket_size := 2 ^ shift, hm_item_count := 0, hm_start_page := i, hm_table := replicate (2 ^ shift) 0\<rparr>"
  have "cache_hash_map shift n p hm = Some (?h, p2)" using wf(2) hm p1(1) p2(1) by (simp add: cache_hash_map_def Let_def)
  moreover have "hm_rep k (?h, st) Map.empty" for k st by (rule empty_table_rep [OF _ shift]) simp_all
  moreover have "card (free_set p2) = card (free_set p) - ?n" using p2(3) p1(5) n by simp
  ultimately show ?thesis using p2 p1 by auto
qed

subsection \<open>Slabs with one free page each\<close>

definition size_ok :: "nat \<Rightarrow> nat \<Rightarrow> bool" where
  "size_ok n s \<longleftrightarrow> sizeof_mdb_item \<le> s \<and> s < 2 ^ 20 \<and> s \<le> n - sizeof_page_info \<and> (n - sizeof_page_info) div s < 2 ^ 16"

definition first_slab :: "cache \<Rightarrow> nat \<Rightarrow> nat \<Rightarrow> slab_manager" where
  "first_slab c k i = (new_slab k (sm_slab_size (slab k c)) (psz c))\<lparr>sm_free_pages_no := 1, sm_free_pages := i\<rparr>"

definition first_page :: "cache \<Rightarrow> nat \<Rightarrow> nat \<Rightarrow> bool" where
  "first_page c k i \<longleftrightarrow> page i c = \<lparr>pi_id = i, pi_free_nr = int (sm_per_slab (slab k c)), pi_next = 0, pi_prev = 0,
       pi_free_head = ITEM_ID (sm_slab_size (slab k c)) 0 i k\<rparr> \<and>
     (\<forall>j < sm_per_slab (slab k c). item (slot_addr c k i j) c = fresh_item (sm_slab_size (slab k c)) (sm_per_slab (slab k c)) i k j)"

definition started :: "cache \<Rightarrow> nat list \<Rightarrow> bool" where
  "started c pgs \<longleftrightarrow> pool_wf (mc_pool c) \<and> length (mc_slabs c) = length pgs \<and> length pgs \<le> 256 \<and> distinct pgs \<and>
     (\<forall>i \<in> set pgs. 0 < i \<and> i < mp_total_pages (mc_pool c) \<and> i \<notin> free_set (mc_pool c)) \<and>
     (\<forall>k < length pgs. size_ok (psz c) (sm_slab_size (slab k c)) \<and> slab k c = first_slab c k (pgs ! k) \<and> first_page c k (pgs ! k))"

lemma slab_geo_new:
  assumes "size_ok (psz c) s" "gskel (slab k c) = gskel (new_slab k s (psz c))"
  shows "slab_geo c k"
proof -
  note g = gskel_sel [OF assms(2)]
  have "0 < (psz c - sizeof_page_info) div s" using assms(1) by (simp add: size_ok_def div_greater_zero_iff sizeof_mdb_item_def)
  with assms(1) g show ?thesis
    by (simp add: slab_geo_def Let_def size_ok_def new_slab_def PARTIAL_PAGE_BUCKET_def)
qed

lemma first_slab_sel:
  "gskel (first_slab c k i) = gskel (new_slab k (sm_slab_size (slab k c)) (psz c))"
  "sm_item_list (first_slab c k i) = replicate TAIR_MAX_AREA_COUNT (0, 0)"
  by (simp_all add: first_slab_def gskel_def new_slab_def Let_def blank_slab_def)

lemma started_geo: "started c pgs \<Longrightarrow> geo c"
  using slab_geo_new first_slab_sel(1) unfolding geo_def started_def by (metis (no_types, lifting))

lemma empty_item_lists:
  assumes "\<And>k. k < length (mc_slabs c) \<Longrightarrow> sm_item_list (slab k c) = replicate TAIR_MAX_AREA_COUNT (0, 0)"
  shows "item_lists c (\<lambda>_. [])"
  using assms by (auto simp: item_lists_def item_list_def il.is_list_def)

text \<open>The page lists of the start: the page of a slab is in its list of free pages.\<close>

definition start_lists :: "nat list \<Rightarrow> plist \<Rightarrow> nat list" where
  "start_lists pgs q = (case q of Free k \<Rightarrow> if k < length pgs then [pgs ! k] else [] | _ \<Rightarrow> [])"

lemma start_lists_sel [simp]:
  "start_lists pgs (Full k) = []" "start_lists pgs (Part k b) = []"
  "start_lists pgs (Free k) = (if k < length pgs then [pgs ! k] else [])"
  by (simp_all add: start_lists_def)

lemma start_page_lists:
  assumes "started c pgs"
  shows "page_lists c (start_lists pgs)"
proof -
  have st: "length (mc_slabs c) = length pgs" "distinct pgs" and pg: "0 < i \<and> i < mp_total_pages (mc_pool c)" if "i \<in> set pgs" for i
    using assms that by (auto simp: started_def)
  have sl: "slab k c = first_slab c k (pgs ! k)" "first_page c k (pgs ! k)" if "k < length pgs" for k
    using assms that by (auto simp: started_def)
  have len: "length (mc_slabs c) = length pgs" "distinct pgs" using assms by (auto simp: started_def)
  have head: "phead c q = (case start_lists pgs q of [] \<Rightarrow> 0 | i # _ \<Rightarrow> i)" for q
  proof (cases q)
    case (Free k)
    have "sm_free_pages (slab k c) = pgs ! k" if "k < length pgs" by (subst sl(1) [OF that]) (simp add: first_slab_def)
    with Free len(1) show ?thesis by (simp add: phead_def)
  next
    case (Full k)
    have "sm_full_pages (slab k c) = 0" if "k < length pgs"
      by (subst sl(1) [OF that]) (simp add: first_slab_def new_slab_def blank_slab_def Let_def)
    with Full len(1) show ?thesis by (simp add: phead_def)
  next
    case (Part k b)
    have "\<forall>b < length (sm_partial_pages (slab k c)). sm_partial_pages (slab k c) ! b = 0" if "k < length pgs"
      by (subst (1 2) sl(1) [OF that]) (simp add: first_slab_def new_slab_def blank_slab_def Let_def)
    with Part len(1) show ?thesis by (simp add: phead_def)
  qed
  have "pl.is_list c (page_ref c (phead c q)) (start_lists pgs q)" for q
  proof (cases "start_lists pgs q")
    case (Cons i js)
    then obtain k where k: "q = Free k" "k < length pgs" "i = pgs ! k" "js = []" by (cases q) (auto split: if_splits)
    have "page_ok c i" "pi_next (page i c) = 0" "pi_prev (page i c) = 0"
      using sl(2) [OF k(2)] pg [of i] k by (auto simp: first_page_def page_ok_iff)
    with k head [of q] Cons pg [of i] show ?thesis unfolding pl.is_list_def by (simp add: page_ref_def)
  next
    case Nil
    with head [of q] show ?thesis unfolding pl.is_list_def by (simp add: page_ref_def)
  qed
  moreover have "set (start_lists pgs q) \<inter> set (start_lists pgs r) = {}" if "q \<noteq> r" for q r
    using that len(2) by (cases q; cases r) (auto simp: nth_eq_iff_index_eq split: if_splits)
  ultimately show ?thesis unfolding page_lists_def pl.family_def by blast
qed

definition owner :: "nat list \<Rightarrow> nat \<Rightarrow> nat option" where
  "owner pgs i = find (\<lambda>k. pgs ! k = i) [0 ..< length pgs]"

lemma owner_Some: "distinct pgs \<Longrightarrow> owner pgs i = Some k \<longleftrightarrow> k < length pgs \<and> pgs ! k = i"
  by (auto simp: owner_def find_Some_iff nth_eq_iff_index_eq)

text \<open>The page of a slab, with all its slots in the free chain.\<close>

lemma start_page_inv:
  assumes st: "started c pgs" and k: "k < length pgs"
  shows "page_inv c k (pgs ! k) (map (slot_addr c k (pgs ! k)) [0 ..< sm_per_slab (slab k c)])"
proof -
  let ?i = "pgs ! k" and ?per = "sm_per_slab (slab k c)" and ?s = "sm_slab_size (slab k c)"
  have k': "k < length (mc_slabs c)" and fp: "first_page c k ?i" and i: "0 < ?i" "?i < mp_total_pages (mc_pool c)" "?i \<notin> free_set (mc_pool c)"
    using st k by (auto simp: started_def)
  note geo = started_geo [OF st]
  note g = geo_slab [OF geo k']
  have it: "item (slot_addr c k ?i j) c = fresh_item ?s ?per ?i k j" if "j < ?per" for j using fp that by (simp add: first_page_def)
  have id: "CLEAR_FLAGS (ITEM_ID ?s j ?i k) = ITEM_ID ?s j ?i k" if "j < ?per" for j
    using that g(3,6,9,12) i(2) by (intro CLEAR_FLAGS_ITEM_ID) auto
  have "fchain c (ITEM_ID ?s 0 ?i k) (map (slot_addr c k ?i) [0 ..< ?per])"
    using fresh_chain [where f = "slot_addr c k ?i" and n = ?per and m = 0 and c = c, OF it] g(5) by simp
  moreover have "distinct (map (slot_addr c k ?i) [0 ..< ?per])"
    using slot_addr_inj [OF geo k', of ?i] by (auto simp: distinct_map intro: inj_on_subset)
  moreover have "set (map (slot_addr c k ?i) [0 ..< ?per]) \<subseteq> slots c k ?i" by (auto simp: slots_def)
  moreover have "CLEAR_FLAGS (i_item_id (item a c)) = i_item_id (item a c)" if "a \<in> set (map (slot_addr c k ?i) [0 ..< ?per])" for a
    using that it id by (auto simp: fresh_item_def)
  ultimately show ?thesis
    using k' fp i id unfolding page_inv_def Let_def
    by (auto simp: page_ok_iff first_page_def fresh_item_def blank_item_def)
qed

lemma started_rep:
  assumes st: "started c pgs"
  shows "\<exists>FS. cache_rep c {} (start_lists pgs) (owner pgs) FS (\<lambda>_. [])"
proof -
  define FS where "FS i = (case owner pgs i of None \<Rightarrow> [] | Some k \<Rightarrow> map (slot_addr c k i) [0 ..< sm_per_slab (slab k c)])" for i
  have len: "length (mc_slabs c) = length pgs" and dis: "distinct pgs" using st by (auto simp: started_def)
  have sl: "slab k c = first_slab c k (pgs ! k)" "first_page c k (pgs ! k)" if "k < length pgs" for k
    using st that by (auto simp: started_def)
  note geo = started_geo [OF st] and ow = owner_Some [OF dis]
  have FS: "FS (pgs ! k) = map (slot_addr c k (pgs ! k)) [0 ..< sm_per_slab (slab k c)]" if "k < length pgs" for k
    using that ow [of "pgs ! k" k] by (simp add: FS_def)
  have "cache_rep c {} (start_lists pgs) (owner pgs) FS (\<lambda>_. [])"
  proof (rule cache_repI [OF geo])
    have "slab_counts c (\<lambda>_. 0) (start_lists pgs) k" if "k < length pgs" for k
    proof -
      have "buckets c (start_lists pgs) k = {}" by (simp add: buckets_def)
      with that show ?thesis
        unfolding slab_counts_def Let_def
        by (subst (1 2 3 4 5 6 7 8) sl(1) [OF that]) (simp add: first_slab_def new_slab_def blank_slab_def Let_def first_of_def)
    qed
    with start_page_lists [OF st] len show "pages_rep c (\<lambda>_. 0) (start_lists pgs)" by (simp add: pages_rep_def)
    show "item_lists c (\<lambda>_. [])"
      by (rule empty_item_lists) (use sl(1) first_slab_sel(2) len in metis)
    show inv: "page_inv c k i (FS i)" if "owner pgs i = Some k" for i k
      using that start_page_inv [OF st, of k] by (auto simp: ow FS)
    show "listed c {} (start_lists pgs) (owner pgs) FS"
    proof (unfold listed_def, intro allI iffI)
      fix q i
      assume "i \<in> set (start_lists pgs q)"
      then obtain k where k: "q = Free k" "k < length pgs" "i = pgs ! k" by (cases q) (auto split: if_splits)
      with geo_slab(5) [OF geo, of k] len have "q = pclass k (sm_per_slab (slab k c)) (length (FS i))" by (simp add: FS pclass_def)
      with k show "i \<notin> {} \<and> (\<exists>k. owner pgs i = Some k \<and> q = pclass k (sm_per_slab (slab k c)) (length (FS i)))" by (auto simp: ow)
    next
      fix q i
      assume "i \<notin> {} \<and> (\<exists>k. owner pgs i = Some k \<and> q = pclass k (sm_per_slab (slab k c)) (length (FS i)))"
      then obtain k where k: "k < length pgs" "pgs ! k = i" "q = pclass k (sm_per_slab (slab k c)) (length (FS i))" by (auto simp: ow)
      with geo_slab(5) [OF geo, of k] len have "q = Free k" by (auto simp: FS pclass_def)
      with k(1,2) show "i \<in> set (start_lists pgs q)" by simp
    qed
    show "(\<exists>i. owner pgs i = Some k) \<and> (\<Union>ar. set ([] :: nat list)) = used c (owner pgs) FS k" if "k < length (mc_slabs c)" for k
    proof -
      have "used c (owner pgs) FS k = {}" by (auto simp: used_def ow FS slots_def)
      with that len show ?thesis by (auto simp: ow)
    qed
    show "i_exptime (item a c) = 0" if "owner pgs i = Some k" "a \<in> set (FS i) - {}" for i k a
      using that sl(2) [of k] by (auto simp: ow FS first_page_def fresh_item_def blank_item_def)
  qed simp
  then show ?thesis by blast
qed

subsection \<open>Setting the slabs up\<close>

text \<open>One round of \<open>slab_initialize\<close>: the new slab gets its first page.\<close>

lemma add_slab:
  assumes st: "started c pgs" and free: "free_set (mc_pool c) \<noteq> {}" and s: "size_ok (psz c) s" and room: "length pgs < 256"
  shows "\<exists>n c' i. pre_alloc (length pgs) 1 (c\<lparr>mc_slabs := mc_slabs c @ [new_slab (length pgs) s (psz c)]\<rparr>) = Some (n, c') \<and>
    started c' (pgs @ [i]) \<and> map sm_slab_size (mc_slabs c') = map sm_slab_size (mc_slabs c) @ [s] \<and> psz c' = psz c \<and>
    card (free_set (mc_pool c')) = card (free_set (mc_pool c)) - 1 \<and> mc_area_timestamp c' = mc_area_timestamp c"
proof -
  let ?k = "length pgs"
  have wf: "pool_wf (mc_pool c)" and len: "length (mc_slabs c) = ?k" and dis: "distinct pgs"
    and pg: "\<And>i. i \<in> set pgs \<Longrightarrow> 0 < i \<and> i < mp_total_pages (mc_pool c) \<and> i \<notin> free_set (mc_pool c)"
    and old: "\<And>k. k < ?k \<Longrightarrow> size_ok (psz c) (sm_slab_size (slab k c)) \<and> slab k c = first_slab c k (pgs ! k) \<and> first_page c k (pgs ! k)"
    using st by (auto simp: started_def)
  from alloc_page_frame [OF wf free] obtain i pg' p where p: "alloc_page (mc_pool c) = Some (Some (pg', i), p)" "i \<in> free_set (mc_pool c)"
    "0 < i" "pool_wf p" "free_set p = free_set (mc_pool c) - {i}" "mp_page_size p = psz c" "mp_total_pages p = mp_total_pages (mc_pool c)"
    "card (free_set p) = card (free_set (mc_pool c)) - 1" by blast
  have i: "i < mp_total_pages (mc_pool c)" "i \<notin> set pgs" using p(2) pg by (auto simp: free_set_def)
  define ns where "ns = (new_slab ?k s (psz c))\<lparr>sm_free_pages_no := 1\<rparr>"
  define c0 where "c0 = c\<lparr>mc_pool := p, mc_slabs := mc_slabs c @ [ns]\<rparr>"
  define c1 where "c1 = (init_page ?k i c0)\<lparr>mc_slabs := mc_slabs c @ [ns\<lparr>sm_free_pages := i\<rparr>]\<rparr>"
  have ns: "gskel ns = gskel (new_slab ?k s (psz c))" "sm_slab_size ns = s" "sm_free_pages ns = 0"
    by (simp_all add: ns_def gskel_def new_slab_def blank_slab_def Let_def)
  have c0: "psz c0 = psz c" "slab ?k c0 = ns" "length (mc_slabs c0) = Suc ?k" "mc_items c0 = mc_items c"
    "\<And>k. k < ?k \<Longrightarrow> slab k c0 = slab k c" using p(6) len by (simp_all add: c0_def nth_append)
  have "slab_geo c0 k" if "k < Suc ?k" for k
  proof (cases "k = ?k")
    case True
    with slab_geo_new [of c0 s k] s ns(1) c0 show ?thesis by simp
  next
    case False
    then have k: "k < ?k" using that by simp
    then have "gskel (slab k c0) = gskel (new_slab k (sm_slab_size (slab k c)) (psz c))"
      using old [OF k] c0(5) first_slab_sel(1) by metis
    with slab_geo_new [of c0 "sm_slab_size (slab k c)" k] conjunct1 [OF old [OF k]] c0(1) show ?thesis by simp
  qed
  then have geo0: "geo c0" using p(4) room c0(3) by (simp add: geo_def c0_def)
  have k0: "?k < length (mc_slabs c0)" using c0(3) by simp
  note items = init_page_items [OF geo0 k0, unfolded c0(1,2,4)]
  have pages: "page j c1 = (if j = i then \<lparr>pi_id = i, pi_free_nr = int (sm_per_slab ns), pi_next = 0, pi_prev = 0,
      pi_free_head = ITEM_ID s 0 i ?k\<rparr> else page j c)" for j
    using geo_slab(1) [OF geo0 k0] c0(2) ns(2) by (simp add: c1_def init_page_def Let_def c0_def)
  have c1: "psz c1 = psz c" "mc_pool c1 = p" "mc_area_timestamp c1 = mc_area_timestamp c" "mc_slabs c1 = mc_slabs c @ [ns\<lparr>sm_free_pages := i\<rparr>]"
    "mc_items c1 = mc_items (init_page ?k i c0)"
    by (simp_all add: c1_def init_page_def Let_def c0_def p(6))
  have sl1: "slab ?k c1 = ns\<lparr>sm_free_pages := i\<rparr>" "\<And>k. k < ?k \<Longrightarrow> slab k c1 = slab k c" using len by (simp_all add: c1(4) nth_append)
  have "pre_alloc ?k 1 (c\<lparr>mc_slabs := mc_slabs c @ [new_slab ?k s (psz c)]\<rparr>) = Some (1, c1)"
  proof -
    have upd: "(mc_slabs c @ [x])[?k := y] = mc_slabs c @ [y]" "(mc_slabs c @ [x]) ! ?k = x" for x y
      by (simp_all add: len [symmetric])
    have "upd_slab ?k (\<lambda>s. s\<lparr>sm_free_pages_no := sm_free_pages_no s + 1\<rparr>)
      (c\<lparr>mc_slabs := mc_slabs c @ [new_slab ?k s (psz c)], mc_pool := p\<rparr>) = c0"
      by (simp add: upd_slab_def c0_def ns_def new_slab_def blank_slab_def Let_def upd)
    moreover have "link_page i (sm_free_pages (slab ?k (init_page ?k i c0))) (init_page ?k i c0) = Some (i, init_page ?k i c0)"
      using ns(3) by (simp add: link_page_def init_page_def Let_def c0_def upd upd_page_def)
    moreover have "upd_slab ?k (\<lambda>s. s\<lparr>sm_free_pages := i\<rparr>) (init_page ?k i c0) = c1"
      by (simp add: upd_slab_def c1_def init_page_def Let_def c0_def upd)
    ultimately show ?thesis using p(1) by (simp add: One_nat_def)
  qed
  moreover have "started c1 (pgs @ [i])"
  proof -
    have slabs: "size_ok (psz c1) (sm_slab_size (slab k c1)) \<and> slab k c1 = first_slab c1 k ((pgs @ [i]) ! k) \<and> first_page c1 k ((pgs @ [i]) ! k)"
      if "k < Suc ?k" for k
    proof (cases "k = ?k")
      case True
      have "slab ?k c1 = first_slab c1 ?k i" using sl1(1) c1(1) ns(2) by (simp add: first_slab_def ns_def)
      moreover have "first_page c1 ?k i"
        using items(1) ns(2) c1(1) pages sl1(1) c0 unfolding first_page_def by (simp add: c1(5) slot_addr_def)
      moreover have "sm_slab_size (slab ?k c1) = s" using sl1(1) ns(2) by simp
      ultimately show ?thesis using True s c1(1) by simp
    next
      case False
      then have k: "k < ?k" using that by simp
      have ki: "pgs ! k \<noteq> i" using k i(2) by auto
      have "item (slot_addr c k (pgs ! k) j) c1 = item (slot_addr c k (pgs ! k) j) c" if "j < sm_per_slab (slab k c)" for j
        using items(2) slots_bounds(3) [OF started_geo [OF st], of k "slot_addr c k (pgs ! k) j" "pgs ! k"] that k len ki
        by (simp add: c1(5) slots_def)
      moreover have "first_page c k (pgs ! k)" using old [OF k] by blast
      ultimately have "first_page c1 k (pgs ! k)" using sl1(2) [OF k] pages ki c1(1) by (simp add: first_page_def slot_addr_def)
      moreover have "slab k c1 = first_slab c1 k (pgs ! k)" using old [OF k] sl1(2) [OF k] c1(1) unfolding first_slab_def by metis
      moreover have "size_ok (psz c1) (sm_slab_size (slab k c1))" using conjunct1 [OF old [OF k]] sl1(2) [OF k] c1(1) by simp
      moreover have "(pgs @ [i]) ! k = pgs ! k" using k by (simp add: nth_append)
      ultimately show ?thesis by simp
    qed
    have "\<forall>k < length (pgs @ [i]). size_ok (psz c1) (sm_slab_size (slab k c1)) \<and> slab k c1 = first_slab c1 k ((pgs @ [i]) ! k) \<and>
      first_page c1 k ((pgs @ [i]) ! k)" unfolding length_append_singleton using slabs by blast
    moreover have "pool_wf (mc_pool c1)" "length (mc_slabs c1) = length (pgs @ [i])" "length (pgs @ [i]) \<le> 256" "distinct (pgs @ [i])"
      "\<forall>i \<in> set (pgs @ [i]). 0 < i \<and> i < mp_total_pages (mc_pool c1) \<and> i \<notin> free_set (mc_pool c1)"
      using p(3-7) i pg dis len room by (auto simp: c1(2,4))
    ultimately show ?thesis unfolding started_def by blast
  qed
  ultimately show ?thesis using c1 p(8) ns(2) by (intro exI [of _ 1] exI [of _ c1] exI [of _ i]) simp
qed

text \<open>The sizes of the slabs.\<close>

fun slab_sizes :: "(nat \<Rightarrow> nat) \<Rightarrow> nat \<Rightarrow> nat \<Rightarrow> nat \<Rightarrow> nat list" where
  "slab_sizes grow lst 0 start = []"
| "slab_sizes grow lst (Suc n) start =
     (if lst < start then []
      else let start = (if lst div 2 < start then lst else start) in start # slab_sizes grow lst n (ALIGN (grow start)))"

lemma ALIGN_ge: "n \<le> ALIGN n"
  by (simp add: ALIGN_def ALIGN_SIZE_def)

lemma make_slabs_started:
  assumes "started c pgs" "psz c = 2 ^ 20" "n \<le> card (free_set (mc_pool c))" "length pgs + n \<le> 256"
    "sizeof_mdb_item \<le> start" "\<And>x. x \<le> grow x"
  shows "\<exists>c' pgs'. make_slabs grow n (length pgs) start c = Some c' \<and> started c' pgs' \<and> psz c' = 2 ^ 20 \<and>
    map sm_slab_size (mc_slabs c') = map sm_slab_size (mc_slabs c) @ slab_sizes grow (2 ^ 20 - sizeof_page_info) n start \<and>
    mc_area_timestamp c' = mc_area_timestamp c"
  using assms(1-5)
proof (induction n arbitrary: c pgs start)
  case (Suc n)
  let ?last = "psz c - sizeof_page_info"
  show ?case
  proof (cases "?last < start")
    case True
    with Suc.prems show ?thesis by auto
  next
    case False
    define s where "s = (if ?last div 2 < start then ?last else start)"
    have s: "size_ok (psz c) s" "start \<le> s"
    proof -
      have b: "sizeof_mdb_item \<le> s" "s \<le> 2 ^ 20 - 24" "start \<le> s"
        using False Suc.prems(2,5) by (auto simp: s_def sizeof_page_info_def)
      moreover have "(2 ^ 20 - 24) div s \<le> (2 ^ 20 - 24) div 46" using b(1) by (intro div_le_mono2) (simp_all add: sizeof_mdb_item_def)
      ultimately show "size_ok (psz c) s" "start \<le> s"
        using Suc.prems(2) by (simp_all add: size_ok_def sizeof_page_info_def)
    qed
    have "free_set (mc_pool c) \<noteq> {}" "length pgs < 256" using Suc.prems(3,4) by auto
    from add_slab [OF Suc.prems(1) this(1) s(1) this(2)] obtain m c1 i where
      c1: "pre_alloc (length pgs) 1 (c\<lparr>mc_slabs := mc_slabs c @ [new_slab (length pgs) s (psz c)]\<rparr>) = Some (m, c1)"
        "started c1 (pgs @ [i])" "map sm_slab_size (mc_slabs c1) = map sm_slab_size (mc_slabs c) @ [s]" "psz c1 = psz c"
        "card (free_set (mc_pool c1)) = card (free_set (mc_pool c)) - 1" "mc_area_timestamp c1 = mc_area_timestamp c" by blast
    have "sizeof_mdb_item \<le> ALIGN (grow s)" using Suc.prems(5) s(2) assms(6) [of s] ALIGN_ge [of "grow s"] by linarith
    moreover have "psz c1 = 2 ^ 20" "n \<le> card (free_set (mc_pool c1))" "length (pgs @ [i]) + n \<le> 256" using Suc.prems c1(4,5) by simp_all
    ultimately obtain c' pgs' where
      c': "make_slabs grow n (length pgs + 1) (ALIGN (grow s)) c1 = Some c'" "started c' pgs'" "psz c' = 2 ^ 20"
        "map sm_slab_size (mc_slabs c') = map sm_slab_size (mc_slabs c1) @ slab_sizes grow (2 ^ 20 - sizeof_page_info) n (ALIGN (grow s))"
        "mc_area_timestamp c' = mc_area_timestamp c1" using Suc.IH [OF c1(2)] by fastforce
    have "make_slabs grow (Suc n) (length pgs) start c = Some c'"
      using False c1(1) c'(1) by (simp add: Let_def s_def [symmetric] del: pre_alloc.simps One_nat_def)
    moreover have "slab_sizes grow (2 ^ 20 - sizeof_page_info) (Suc n) start = s # slab_sizes grow (2 ^ 20 - sizeof_page_info) n (ALIGN (grow s))"
      using False Suc.prems(2) by (simp add: Let_def s_def)
    ultimately show ?thesis using c' c1(3,6) by auto
  qed
qed auto

text \<open>The memory that the slab managers with their bucket arrays take.\<close>

definition managers_size :: "nat list \<Rightarrow> nat" where
  "managers_size sizes = sum_list (map (\<lambda>s. sizeof_slab_manager + 4 * (((2 ^ 20 - sizeof_page_info) div s + 9) div 10)) sizes)"

lemma started_managers:
  assumes "started c pgs" "psz c = 2 ^ 20"
  shows "sum_list (map (\<lambda>s. sizeof_slab_manager + 4 * sm_partial_pages_bucket_num s) (mc_slabs c)) = managers_size (map sm_slab_size (mc_slabs c))"
proof -
  have "sm_partial_pages_bucket_num s = ((2 ^ 20 - sizeof_page_info) div sm_slab_size s + 9) div 10" if "s \<in> set (mc_slabs c)" for s
  proof -
    from that assms(1) obtain k where "k < length pgs" "s = slab k c" by (auto simp: in_set_conv_nth started_def)
    with assms(1) have "s = first_slab c k (pgs ! k)" by (simp add: started_def)
    then have "sm_partial_pages_bucket_num s = (sm_per_slab s + 9) div 10" "sm_per_slab s = (psz c - sizeof_page_info) div sm_slab_size s"
      by (simp_all add: first_slab_def new_slab_def Let_def PARTIAL_PAGE_BUCKET_def)
    with assms(2) show ?thesis by simp
  qed
  then have "map (\<lambda>s. sizeof_slab_manager + 4 * sm_partial_pages_bucket_num s) (mc_slabs c) =
    map (\<lambda>s. sizeof_slab_manager + 4 * (((2 ^ 20 - sizeof_page_info) div sm_slab_size s + 9) div 10)) (mc_slabs c)" by (intro map_cong) simp_all
  then show ?thesis by (simp only: managers_size_def map_map o_def)
qed

definition base_size :: "nat \<Rightarrow> nat" where
  "base_size n = (let n = (if n = 0 then sizeof_mdb_item + 16 else n) in if n < sizeof_mdb_item + 16 then ALIGN (sizeof_mdb_item + 16) else n)"

lemma mc_initialize_started:
  assumes "pool_wf (mc_pool c)" "psz c = 2 ^ 20" "TAIR_SLAB_LARGEST \<le> card (free_set (mc_pool c))" "\<And>x. x \<le> grow x"
    "base_size n \<le> 2 ^ 20 - 24" "managers_size (slab_sizes grow (2 ^ 20 - sizeof_page_info) TAIR_SLAB_LARGEST (base_size n)) < sizeof_slab_manager * TAIR_SLAB_LARGEST"
  shows "\<exists>c' pgs. mc_initialize grow TAIR_SLAB_LARGEST (if n = 0 then sizeof_mdb_item + 16 else n) c = Some c' \<and> started c' pgs \<and> psz c' = 2 ^ 20 \<and>
    map sm_slab_size (mc_slabs c') = slab_sizes grow (2 ^ 20 - sizeof_page_info) TAIR_SLAB_LARGEST (base_size n) \<and>
    mc_area_timestamp c' = replicate TAIR_MAX_AREA_COUNT 0"
proof -
  let ?c = "c\<lparr>mc_area_timestamp := replicate TAIR_MAX_AREA_COUNT 0, mc_slabs := []\<rparr>"
  have st: "started ?c []" using assms(1) by (simp add: started_def)
  have "sizeof_mdb_item \<le> base_size n" using ALIGN_ge [of "sizeof_mdb_item + 16"] by (auto simp: base_size_def Let_def)
  with make_slabs_started [OF st, of TAIR_SLAB_LARGEST "base_size n" grow] assms obtain c' pgs where
    c': "make_slabs grow TAIR_SLAB_LARGEST 0 (base_size n) ?c = Some c'" "started c' pgs" "psz c' = 2 ^ 20"
      "map sm_slab_size (mc_slabs c') = slab_sizes grow (2 ^ 20 - sizeof_page_info) TAIR_SLAB_LARGEST (base_size n)"
      "mc_area_timestamp c' = replicate TAIR_MAX_AREA_COUNT 0" by (auto simp: TAIR_SLAB_LARGEST_def)
  have "\<not> psz c \<le> base_size n" using assms(2,5) by simp
  with c'(1,4) assms(6) started_managers [OF c'(2,3)] have
    "mc_initialize grow TAIR_SLAB_LARGEST (if n = 0 then sizeof_mdb_item + 16 else n) c = Some c'"
    by (simp add: mc_initialize_def slab_initialize_def base_size_def Let_def TAIR_SLAB_LARGEST_def sizeof_mdb_item_def)
  with c' show ?thesis by blast
qed

subsection \<open>The cache manager\<close>

lemma set_area_quotas_holds:
  assumes "holds d M" "\<forall>(area, quota) \<in> set qs. area < TAIR_MAX_AREA_COUNT"
  shows "\<exists>d'. set_area_quotas qs d = Some d' \<and> holds d' M \<and> md_cache d' = md_cache d"
  using assms
proof (induction qs arbitrary: d)
  case (Cons q qs)
  obtain area quota where q: "q = (area, quota)" by (rule prod.exhaust)
  with Cons.prems(2) have area: "area < TAIR_MAX_AREA_COUNT" by simp
  from holds_stat [OF Cons.prems(1) area, of "\<lambda>s. s\<lparr>as_quota := quota\<rparr>"] obtain d1 where
    d1: "upd_stat area (\<lambda>s. s\<lparr>as_quota := quota\<rparr>) d = Some d1" "holds d1 M" "md_cache d1 = md_cache d" by blast
  from Cons.IH [OF d1(2)] Cons.prems(2) d1 area q show ?case by (auto simp: set_area_quota_def)
qed simp

definition hash_pages :: "nat \<Rightarrow> nat" where
  "hash_pages shift = (2 ^ shift * 8 + 2 ^ 20 - 1) div 2 ^ 20"

definition slab_list :: "(nat \<Rightarrow> nat) \<Rightarrow> nat \<Rightarrow> nat list" where
  "slab_list grow base = slab_sizes grow (2 ^ 20 - sizeof_page_info) TAIR_SLAB_LARGEST (base_size base)"

text \<open>
  What the parameters must satisfy: pages of one megabyte; room for the meta data (two pages), the
  hash table and one page for each slab there can be; a growth factor of at least one; slab managers
  that fit the meta data.
\<close>

definition params_ok :: "(nat \<Rightarrow> nat) \<Rightarrow> nat \<Rightarrow> nat \<Rightarrow> nat \<Rightarrow> (nat \<times> u64) list \<Rightarrow> bool" where
  "params_ok grow mem_size shift base quotas \<longleftrightarrow>
     mem_size div 2 ^ 20 \<le> MAX_PAGES_NO \<and> shift < 32 \<and> 2 + hash_pages shift + TAIR_SLAB_LARGEST \<le> mem_size div 2 ^ 20 \<and>
     (\<forall>x. x \<le> grow x) \<and> base_size base \<le> 2 ^ 20 - 24 \<and> managers_size (slab_list grow base) < sizeof_slab_manager * TAIR_SLAB_LARGEST \<and>
     (\<forall>(area, quota) \<in> set quotas. area < TAIR_MAX_AREA_COUNT)"

lemma started_holds:
  assumes "started (md_cache d) pgs" "\<And>st. hm_rep (dpsz d) (md_hash d, st) Map.empty" "length (md_stat d) = TAIR_MAX_AREA_COUNT"
    "length (mc_area_timestamp (md_cache d)) = TAIR_MAX_AREA_COUNT"
  shows "holds d Map.empty"
proof -
  from started_rep [OF assms(1)] obtain FS where "cache_rep (md_cache d) {} (start_lists pgs) (owner pgs) FS (\<lambda>_. [])" by blast
  then have "mdb_rep d Map.empty {} (start_lists pgs) (owner pgs) FS (\<lambda>_. [])" using assms(2-4) by (simp add: mdb_rep_def index_of_def)
  moreover have "Map.empty = map_option (\<lambda>a. entry_of (it_of a d)) \<circ> Map.empty" by auto
  ultimately show ?thesis unfolding holds_def by blast
qed

lemma mp_initialize_pool: "mp_initialize pool n t m p = Some p' \<Longrightarrow> mp_pool p' = pool"
  by (auto simp: mp_initialize_def Let_def bind_eq_Some_conv split: if_splits)

lemma md_initialize_holds:
  assumes ok: "params_ok grow mem_size shift base quotas" and pool: "pool \<noteq> 0"
    and fresh: "\<not> mp_inited (mc_pool (md_cache d))" "\<not> hm_is_inited (md_hash d)"
  shows "\<exists>d'. md_initialize grow pool mem_size (2 ^ 20) shift base quotas d = Some (True, d') \<and>
    cache_of d' \<lparr>ac_map = Map.empty, ac_time = replicate TAIR_MAX_AREA_COUNT 0\<rparr> \<and>
    map sm_slab_size (mc_slabs (md_cache d')) = slab_list grow base"
proof -
  let ?t = "mem_size div 2 ^ 20" and ?meta = "2 ^ 20 + sizeof_slab_manager * TAIR_SLAB_LARGEST"
  have o: "?t \<le> MAX_PAGES_NO" "shift < 32" "2 + hash_pages shift + TAIR_SLAB_LARGEST \<le> ?t" "\<And>x. x \<le> grow x" "base_size base \<le> 2 ^ 20 - 24"
    "managers_size (slab_list grow base) < sizeof_slab_manager * TAIR_SLAB_LARGEST" "\<forall>(area, quota) \<in> set quotas. area < TAIR_MAX_AREA_COUNT"
    using ok unfolding params_ok_def by blast+
  have m: "(?meta + 2 ^ 20 - 1) div 2 ^ 20 = 2" by (simp add: sizeof_slab_manager_def TAIR_SLAB_LARGEST_def)
  have "?meta + 2 ^ 20 - 1 < ?t * 2 ^ 20"
  proof -
    have "102 * 2 ^ 20 \<le> ?t * 2 ^ 20" using o(3) by (intro mult_le_mono1) (simp add: TAIR_SLAB_LARGEST_def)
    then show ?thesis by (simp add: sizeof_slab_manager_def TAIR_SLAB_LARGEST_def)
  qed
  from mp_initialize_wf [OF pool _ _ o(1) _ this fresh(1)] m obtain p1 where
    p1: "mp_initialize pool (2 ^ 20) ?t ?meta (mc_pool (md_cache d)) = Some p1" "pool_wf p1" "mp_page_size p1 = 2 ^ 20" "free_set p1 = {2 ..< ?t}"
    by auto
  have p1': "mp_pool p1 \<noteq> 0" "card (free_set p1) = ?t - 2" using mp_initialize_pool [OF p1(1)] pool p1(4) by simp_all
  then have "(2 ^ shift * 8 + 2 ^ 20 - 1) div 2 ^ 20 \<le> card (free_set p1)" using o(3) by (simp add: hash_pages_def)
  from cache_hash_map_starts [OF p1(2) p1'(1) fresh(2) o(2) this] p1(3) p1'(2) obtain hm p2 where
    p2: "cache_hash_map shift (2 ^ 20) p1 (md_hash d) = Some (hm, p2)" "pool_wf p2" "mp_page_size p2 = 2 ^ 20"
      "card (free_set p2) = ?t - 2 - hash_pages shift" "\<And>k st. hm_rep k (hm, st) Map.empty"
    by (auto simp: hash_pages_def)
  have "TAIR_SLAB_LARGEST \<le> card (free_set p2)" using o(3) p2(4) by simp
  with mc_initialize_started [of "(md_cache d)\<lparr>mc_pool := p2\<rparr>" grow base] p2(2,3) o(4-6) obtain c pgs where
    c: "mc_initialize grow TAIR_SLAB_LARGEST (if base = 0 then sizeof_mdb_item + 16 else base) ((md_cache d)\<lparr>mc_pool := p2\<rparr>) = Some c"
      "started c pgs" "psz c = 2 ^ 20" "map sm_slab_size (mc_slabs c) = slab_list grow base" "mc_area_timestamp c = replicate TAIR_MAX_AREA_COUNT 0"
    unfolding slab_list_def by auto
  define d1 where "d1 = d\<lparr>md_cache := c, md_hash := hm, md_stat := replicate TAIR_MAX_AREA_COUNT as_reset\<rparr>"
  have "holds d1 Map.empty" by (rule started_holds) (use c p2(5) in \<open>simp_all add: d1_def\<close>)
  from set_area_quotas_holds [OF this o(7)] obtain d2 where d2: "set_area_quotas quotas d1 = Some d2" "holds d2 Map.empty" "md_cache d2 = c"
    by (auto simp: d1_def)
  have "md_initialize grow pool mem_size (2 ^ 20) shift base quotas d = Some (True, d2)"
    unfolding md_initialize_def Let_def p1(1) Option.bind.bind_lunit p2(1) prod.case c(1) d1_def [symmetric] d2(1) using pool by simp
  with d2 c(4,5) show ?thesis by (auto simp: cache_of_def)
qed

end
