(* ===== verification/Mdb_Contract.thy ===== *)
theory Mdb_Contract
  imports Mdb_Start
begin

section \<open>What the cache promises its clients\<close>

text \<open>
  The properties of the cache as a whole: a new cache and every cache reached from it by calls of the
  C interface behave as the abstract cache, and what follows from that for single clients.
\<close>

subsection \<open>Sequences of calls\<close>

fun serve_all :: "(u32 \<times> request) list \<Rightarrow> mdb \<Rightarrow> (response list \<times> mdb) option" where
  "serve_all [] d = Some ([], d)"
| "serve_all (q # qs) d = do { (r, d) \<leftarrow> serve q d; (rs, d) \<leftarrow> serve_all qs d; Some (r # rs, d) }"

text \<open>The answers that the abstract cache may give to a sequence of calls.\<close>

fun allowed :: "(u32 \<times> request) list \<Rightarrow> acache \<Rightarrow> response list \<Rightarrow> acache \<Rightarrow> bool" where
  "allowed [] s rs s' \<longleftrightarrow> rs = [] \<and> s' = s"
| "allowed (q # qs) s rs s' \<longleftrightarrow> (\<exists>r rs' s1. rs = r # rs' \<and> acall q s r s1 \<and> allowed qs s1 rs' s')"

lemma serve_all_runs: "serve_all qs d = mdb_service.runs qs d"
  by (induction qs arbitrary: d) (simp_all cong: Option.bind_cong)

lemma allowed_traces: "allowed qs s rs s' = mdb_service.traces qs s rs s'"
  by (induction qs arbitrary: s rs) simp_all

text \<open>The limits of a request, over the sizes of the slabs.\<close>

fun within :: "nat list \<Rightarrow> request \<Rightarrow> bool" where
  "within sizes (Put area key val _ _ _) \<longleftrightarrow> area_ok area \<and> length key + 2 < 2 ^ 12 \<and> length val < 2 ^ 20 \<and>
     (\<exists>s \<in> set sizes. length key + 2 + length val + sizeof_mdb_item \<le> s)"
| "within sizes (Get area _) \<longleftrightarrow> area_ok area"
| "within sizes (Del area _) \<longleftrightarrow> area_ok area"
| "within sizes (Lookup area _) \<longleftrightarrow> area_ok area"
| "within sizes (Clear area) \<longleftrightarrow> area_ok area"
| "within sizes (Set_quota area _) \<longleftrightarrow> area_ok area"

definition sizes_of :: "mdb \<Rightarrow> nat list" where
  "sizes_of d = map sm_slab_size (mc_slabs (md_cache d))"

lemma request_ok_within: "request_ok d q = within (sizes_of d) q"
proof -
  have "get_slabmng n (md_cache d) = None \<longleftrightarrow> (\<forall>s \<in> set (sizes_of d). \<not> n \<le> s)" for n
    by (auto simp: get_slabmng_def find_None_iff sizes_of_def all_set_conv_all_nth)
  then show ?thesis by (cases q) auto
qed

lemma serve_all_sim:
  assumes "cache_of d s" "\<And>now q. (now, q) \<in> set qs \<Longrightarrow> within (sizes_of d) q"
  shows "\<exists>rs d' s'. serve_all qs d = Some (rs, d') \<and> allowed qs s rs s' \<and> cache_of d' s'"
  unfolding serve_all_runs allowed_traces
  by (rule mdb_service.runs_sim [OF assms(1)]) (use assms(2) in \<open>auto simp: request_ok_within\<close>)

definition new_cache :: acache where
  "new_cache = \<lparr>ac_map = Map.empty, ac_time = replicate TAIR_MAX_AREA_COUNT 0\<rparr>"

definition fresh_mdb :: "mdb \<Rightarrow> bool" where
  "fresh_mdb d \<longleftrightarrow> \<not> mp_inited (mc_pool (md_cache d)) \<and> \<not> hm_is_inited (md_hash d)"


text \<open>A small cache for the examples: one slab of items of 400 bytes in a segment of 128 pages.\<close>

definition blank_mdb :: mdb where
  "blank_mdb = \<lparr>md_cache = \<lparr>mc_pool = blank_pool, mc_pages = (\<lambda>_. \<lparr>pi_id = 0, pi_free_nr = 0, pi_next = 0, pi_prev = 0, pi_free_head = 0\<rparr>),
     mc_items = (\<lambda>_. blank_item), mc_slabs = [], mc_area_timestamp = []\<rparr>,
     md_hash = \<lparr>hm_is_inited = False, hm_bucket_size = 0, hm_item_count = 0, hm_start_page = 0, hm_table = []\<rparr>, md_stat = [],
     md_bucket_count = 1023, md_last_balance_time = 0, md_last_expd_time = 0\<rparr>"

definition one_slab :: "nat \<Rightarrow> nat" where "one_slab n = n + 2 ^ 20"

lemma slab_list_one: "slab_list one_slab 400 = [400]"
proof -
  have n: "TAIR_SLAB_LARGEST = Suc (Suc 98)" by (simp add: TAIR_SLAB_LARGEST_def)
  have "base_size 400 = 400" "ALIGN (one_slab 400) = 1048976" by (simp_all add: base_size_def sizeof_mdb_item_def ALIGN_def ALIGN_SIZE_def one_slab_def)
  then show ?thesis unfolding slab_list_def n slab_sizes.simps Let_def by (simp add: sizeof_page_info_def)
qed

lemma one_slab_ok: "params_ok one_slab (2 ^ 27) 10 400 []"
proof -
  have "managers_size [400] = 4348" by (simp add: managers_size_def sizeof_slab_manager_def sizeof_page_info_def)
  then show ?thesis
    by (simp add: params_ok_def slab_list_one MAX_PAGES_NO_def hash_pages_def TAIR_SLAB_LARGEST_def sizeof_slab_manager_def base_size_def
        sizeof_mdb_item_def one_slab_def)
qed

lemma blank_mdb_fresh: "fresh_mdb blank_mdb"
  by (simp add: fresh_mdb_def blank_mdb_def blank_pool_def)


subsection \<open>Single calls\<close>


lemma one_slab_starts:
  "\<exists>d0. md_initialize one_slab 4096 (2 ^ 27) (2 ^ 20) 10 400 [] blank_mdb = Some (True, d0) \<and> cache_of d0 new_cache \<and> sizes_of d0 = [400]"
  using md_initialize_holds [OF one_slab_ok, of 4096 blank_mdb] blank_mdb_fresh
  by (auto simp: fresh_mdb_def new_cache_def sizes_of_def slab_list_one)


text \<open>What a successful \<open>put\<close> leaves under its key.\<close>

lemma put_check_code: "put_check M ts now key version flag care \<noteq> Inl 0"
  by (cases "M key") (auto simp: put_check_def TAIR_RETURN_LOCK_EXIST_def TAIR_RETURN_VERSION_ERROR_def)

lemma put_leaves:
  assumes "acall (now, Put area key val version care expire) s (Code 0) s'"
  shows "\<exists>v t. ac_map s' (full_key area key) = Some (put_entry val v t now 0) \<and>
    (\<forall>t'. put_expire expire now = Some t' \<longrightarrow> t = t') \<and> ac_time s' = ac_time s \<and> (\<not> care \<longrightarrow> v = of_int version)"
proof -
  from assms put_check_code obtain v w where
    s': "s' = s\<lparr>ac_map := stored (full_key area key) val (if care then v + 1 else of_int version) expire now w (ac_map s)\<rparr>"
    by (auto elim!: acall_PutE)
  show ?thesis
    by (cases "put_expire expire now"; cases w) (auto simp: s' stored_def)
qed

lemma serve_put_code:
  assumes "cache_of d s" "within (sizes_of d) (Put area key val version care expire)"
  shows "\<exists>rc d' s'. serve (now, Put area key val version care expire) d = Some (Code rc, d') \<and>
    acall (now, Put area key val version care expire) s (Code rc) s' \<and> cache_of d' s' \<and> sizes_of d' = sizes_of d"
proof -
  from serve_put [OF assms(1), of area key val version care expire now] assms(2) obtain r d' s' where
    1: "serve (now, Put area key val version care expire) d = Some (r, d')" "acall (now, Put area key val version care expire) s r s'"
      "cache_of d' s'" "steady (md_cache d) (md_cache d')" by (auto simp: request_ok_within)
  have "sizes_of d' = sizes_of d" using steadyD(3,6) [OF 1(4)] by (simp add: sizes_of_def list_eq_iff_nth_eq)
  moreover obtain rc where "r = Code rc" using 1(2) by (cases rule: acall_PutE) auto
  ultimately show ?thesis using 1 by blast
qed


text \<open>A cache with one entry, for the examples.\<close>

lemma first_put:
  "\<exists>d0 d1. md_initialize one_slab 4096 (2 ^ 27) (2 ^ 20) 10 400 [] blank_mdb = Some (True, d0) \<and> cache_of d0 new_cache \<and> sizes_of d0 = [400] \<and>
    serve (7, Put 3 ''key'' ''value'' 0 False 60) d0 = Some (Code 0, d1) \<and> sizes_of d1 = [400] \<and>
    cache_of d1 (new_cache\<lparr>ac_map := [full_key 3 ''key'' \<mapsto> put_entry ''value'' 0 60 7 0]\<rparr>)"
proof -
  from one_slab_starts obtain d0 where d0: "md_initialize one_slab 4096 (2 ^ 27) (2 ^ 20) 10 400 [] blank_mdb = Some (True, d0)"
    "cache_of d0 new_cache" "sizes_of d0 = [400]" by blast
  have "within (sizes_of d0) (Put 3 ''key'' ''value'' 0 False 60)" by (simp add: d0(3) sizeof_mdb_item_def area_ok_def TAIR_MAX_AREA_COUNT_def)
  from serve_put_code [OF d0(2) this, of 7] obtain rc d1 s1 where d1: "serve (7, Put 3 ''key'' ''value'' 0 False 60) d0 = Some (Code rc, d1)"
    "acall (7, Put 3 ''key'' ''value'' 0 False 60) new_cache (Code rc) s1" "cache_of d1 s1" "sizes_of d1 = [400]" using d0(3) by auto
  have "put_expire 60 7 = Some 60" by (simp add: put_expire_def)
  then have "rc = 0 \<and> s1 = new_cache\<lparr>ac_map := [full_key 3 ''key'' \<mapsto> put_entry ''value'' 0 60 7 0]\<rparr>"
    using d1(2) by (auto elim!: acall_PutE simp: put_check_def new_cache_def stored_def split: option.splits)
  with d0 d1 show ?thesis by blast
qed






subsection \<open>Eviction\<close>

text \<open>
  C11. Who has to leave: when an area that has items in a slab evicts one of its own, the victim is
  the expired item nearest to the least recently used end, of the fifty items there, and the least
  recently used item when none of them has expired. It becomes the most recently used item of the
  area, the order of the others stays, and the cache stays well formed.
\<close>

theorem evict_self_victim:
  fixes now :: u32
  assumes "cache_rep c {} PL OW FS IL" "k < length (mc_slabs c)" "area < TAIR_MAX_AREA_COUNT" "IL (k, area) \<noteq> []"
  shows "\<exists>c' a ty. evict_self k area now c = Some (Some (a, ty), c') \<and>
    (case find (expired_at now c) (take 50 (rev (IL (k, area)))) of
       Some b \<Rightarrow> a = b \<and> ty = ALLOC_EXPIRED | None \<Rightarrow> a = last (IL (k, area)) \<and> ty = ALLOC_EVICT_SELF) \<and>
    cache_rep c' {} PL OW FS (IL((k, area) := a # remove1 a (IL (k, area))))"
proof -
  have "case find (expired_at now c) (take 50 (rev (IL (k, area)))) of
       Some b \<Rightarrow> victim now c (IL (k, area)) = b \<and> victim_type now c (IL (k, area)) = ALLOC_EXPIRED
     | None \<Rightarrow> victim now c (IL (k, area)) = last (IL (k, area)) \<and> victim_type now c (IL (k, area)) = ALLOC_EVICT_SELF"
    by (simp add: victim_def victim_type_def split: option.split)
  with evict_self_rep [OF assms, of now] show ?thesis by blast
qed

theorem evict_self_victim_witness:
  "\<exists>c PL OW FS IL c' a ty. evict_self 0 3 100 c = Some (Some (a, ty), c') \<and> a \<in> set (IL (0, 3)) \<and>
    cache_rep c' {} PL OW FS (IL((0, 3) := a # remove1 a (IL (0, 3))))"
proof -
  from first_put obtain d where d: "sizes_of d = [400]" "cache_of d (new_cache\<lparr>ac_map := [full_key 3 ''key'' \<mapsto> put_entry ''value'' 0 60 7 0]\<rparr>)" by blast
  then obtain m PL OW FS IL where rep: "mdb_rep d m {} PL OW FS IL"
    and m: "[full_key 3 ''key'' \<mapsto> put_entry ''value'' 0 60 7 0] = map_option (\<lambda>a. entry_of (it_of a d)) \<circ> m" by (auto simp: cache_of_def holds_def)
  from fun_cong [OF m, of "full_key 3 ''key''"] obtain b where "m (full_key 3 ''key'') = Some b"
    by (cases "m (full_key 3 ''key'')") auto
  from mdb_rep_item(1,8) [OF rep this] obtain k where "b \<in> set (IL (k, KEY_AREA (full_key 3 ''key'')))" "KEY_AREA (full_key 3 ''key'') < TAIR_MAX_AREA_COUNT" by blast
  moreover have "KEY_AREA (full_key 3 ''key'') = 3" using KEY_AREA_area_bytes [of 3 "''key''"] by (simp add: full_key_def)
  ultimately have b: "b \<in> set (IL (k, 3))" "3 < TAIR_MAX_AREA_COUNT" by simp_all
  note r = mdb_rep_sel(1) [OF rep]
  have n: "length (mc_slabs (md_cache d)) = 1" using arg_cong [OF d(1), of length] by (simp add: sizes_of_def)
  with item_lists_mem(1) [OF cache_rep_sel(4) [OF r] b(1)] have "k = 0" by simp
  with b have ne: "IL (0, 3) \<noteq> []" by auto
  from evict_self_victim [OF r _ b(2) ne, of 100] n obtain c' a ty where
    e: "evict_self 0 3 100 (md_cache d) = Some (Some (a, ty), c')"
      "case find (expired_at 100 (md_cache d)) (take 50 (rev (IL (0, 3)))) of
         Some b \<Rightarrow> a = b \<and> ty = ALLOC_EXPIRED | None \<Rightarrow> a = last (IL (0, 3)) \<and> ty = ALLOC_EVICT_SELF"
      "cache_rep c' {} PL OW FS (IL((0, 3) := a # remove1 a (IL (0, 3))))" by auto
  have "a = victim 100 (md_cache d) (IL (0, 3))" using e(2) by (auto simp: victim_def split: option.splits)
  with victim_in [OF ne] e(1,3) show ?thesis by blast
qed

end
