(* ===== verification/RB_Tree.thy ===== *)
theory RB_Tree
  imports Net_Prelude "HOL-Library.Monad_Syntax"
begin

section \<open>The red-black tree of the framework\<close>

text \<open>
  The model of \<open>CRBTree\<close> (\<^verbatim>\<open>src/netfram/RBTree.h\<close>) with 64-bit keys, as the timers use it. Nodes are
  linked by pointers into a store; a pointer is a number, 0 is the null pointer and \<open>SENT\<close> the
  address of the sentinel that stands for every missing child. Reading or writing through the null
  pointer and a loop that does not end are \<open>None\<close>.
\<close>

datatype color = Red | Black

record rbnode =
  mtKey :: u64
  mpoLeft :: nat
  mpoRight :: nat
  mpoParent :: nat
  mcColor :: color

record rbtree =
  mpoRoot :: nat
  nodes :: "nat \<Rightarrow> rbnode"

definition SENT :: nat where "SENT = 1"

definition rd :: "(rbnode \<Rightarrow> 'a) \<Rightarrow> nat \<Rightarrow> rbtree \<Rightarrow> 'a option" where
  "rd f p s = (if p = 0 then None else Some (f (nodes s p)))"

definition wr :: "(rbnode \<Rightarrow> rbnode) \<Rightarrow> nat \<Rightarrow> rbtree \<Rightarrow> rbtree option" where
  "wr f p s = (if p = 0 then None else Some (s\<lparr>nodes := (nodes s)(p := f (nodes s p))\<rparr>))"

abbreviation setL :: "nat \<Rightarrow> nat \<Rightarrow> rbtree \<Rightarrow> rbtree option" where "setL p q \<equiv> wr (\<lambda>n. n\<lparr>mpoLeft := q\<rparr>) p"
abbreviation setR :: "nat \<Rightarrow> nat \<Rightarrow> rbtree \<Rightarrow> rbtree option" where "setR p q \<equiv> wr (\<lambda>n. n\<lparr>mpoRight := q\<rparr>) p"
abbreviation setP :: "nat \<Rightarrow> nat \<Rightarrow> rbtree \<Rightarrow> rbtree option" where "setP p q \<equiv> wr (\<lambda>n. n\<lparr>mpoParent := q\<rparr>) p"
abbreviation setC :: "nat \<Rightarrow> color \<Rightarrow> rbtree \<Rightarrow> rbtree option" where "setC p c \<equiv> wr (\<lambda>n. n\<lparr>mcColor := c\<rparr>) p"

text \<open>The constructor: the sentinel is black and stands for the root.\<close>

definition rb_new :: "(nat \<Rightarrow> rbnode) \<Rightarrow> rbtree" where
  "rb_new st = \<lparr>mpoRoot = SENT, nodes = st(SENT := (st SENT)\<lparr>mcColor := Black\<rparr>)\<rparr>"

definition rb_Empty :: "rbtree \<Rightarrow> bool" where
  "rb_Empty s \<longleftrightarrow> mpoRoot s = SENT"

subsection \<open>Rotations\<close>

definition LeftRotate :: "nat \<Rightarrow> rbtree \<Rightarrow> rbtree option" where
  "LeftRotate x s =
     do { t \<leftarrow> rd mpoRight x s;
          tl \<leftarrow> rd mpoLeft t s;
          s \<leftarrow> setR x tl s;
          tl \<leftarrow> rd mpoLeft t s;
          s \<leftarrow> (if tl \<noteq> SENT then setP tl x s else Some s);
          xp \<leftarrow> rd mpoParent x s;
          s \<leftarrow> setP t xp s;
          s \<leftarrow> (if x = mpoRoot s then Some (s\<lparr>mpoRoot := t\<rparr>)
                else do { xp \<leftarrow> rd mpoParent x s; l \<leftarrow> rd mpoLeft xp s;
                          if x = l then setL xp t s else setR xp t s });
          s \<leftarrow> setL t x s;
          setP x t s }"

definition RightRotate :: "nat \<Rightarrow> rbtree \<Rightarrow> rbtree option" where
  "RightRotate x s =
     do { t \<leftarrow> rd mpoLeft x s;
          tr \<leftarrow> rd mpoRight t s;
          s \<leftarrow> setL x tr s;
          tr \<leftarrow> rd mpoRight t s;
          s \<leftarrow> (if tr \<noteq> SENT then setP tr x s else Some s);
          xp \<leftarrow> rd mpoParent x s;
          s \<leftarrow> setP t xp s;
          s \<leftarrow> (if x = mpoRoot s then Some (s\<lparr>mpoRoot := t\<rparr>)
                else do { xp \<leftarrow> rd mpoParent x s; r \<leftarrow> rd mpoRight xp s;
                          if x = r then setR xp t s else setL xp t s });
          s \<leftarrow> setR t x s;
          setP x t s }"

subsection \<open>Insertion\<close>

text \<open>Keys are compared by the sign of their difference as a 32-bit \<open>int\<close>.\<close>

definition key_less :: "u64 \<Rightarrow> u64 \<Rightarrow> bool" where
  "key_less a b \<longleftrightarrow> sint (ucast (a - b) :: u32) < 0"

partial_function (option) rb_insert_leaf :: "nat \<Rightarrow> nat \<Rightarrow> rbtree \<Rightarrow> rbtree option" where
  "rb_insert_leaf temp x s =
     do { k \<leftarrow> rd mtKey x s;
          kt \<leftarrow> rd mtKey temp s;
          child \<leftarrow> (if key_less k kt then rd mpoLeft temp s else rd mpoRight temp s);
          if child = SENT
          then do { s \<leftarrow> (if key_less k kt then setL temp x s else setR temp x s);
                    s \<leftarrow> setP x temp s;
                    s \<leftarrow> setL x SENT s;
                    s \<leftarrow> setR x SENT s;
                    setC x Red s }
          else rb_insert_leaf child x s }"

declare rb_insert_leaf.simps [code]

text \<open>
  One round of the loop that restores the colours, for a red parent \<open>p\<close> that is the left child of
  \<open>g\<close>, and for one that is not: the node to go on from and the new state.
\<close>

definition insert_step_left :: "nat \<Rightarrow> nat \<Rightarrow> nat \<Rightarrow> rbtree \<Rightarrow> (nat \<times> rbtree) option" where
  "insert_step_left p g x s =
     do { u \<leftarrow> rd mpoRight g s;
          cu \<leftarrow> rd mcColor u s;
          if cu = Red
          then do { s \<leftarrow> setC p Black s; s \<leftarrow> setC u Black s; s \<leftarrow> setC g Red s; Some (g, s) }
          else do {
            pr \<leftarrow> rd mpoRight p s;
            (x, s) \<leftarrow> (if x = pr then do { s \<leftarrow> LeftRotate p s; Some (p, s) } else Some (x, s));
            p \<leftarrow> rd mpoParent x s;
            s \<leftarrow> setC p Black s;
            g \<leftarrow> rd mpoParent p s;
            s \<leftarrow> setC g Red s;
            s \<leftarrow> RightRotate g s;
            Some (x, s) } }"

definition insert_step_right :: "nat \<Rightarrow> nat \<Rightarrow> nat \<Rightarrow> rbtree \<Rightarrow> (nat \<times> rbtree) option" where
  "insert_step_right p g x s =
     do { u \<leftarrow> rd mpoLeft g s;
          cu \<leftarrow> rd mcColor u s;
          if cu = Red
          then do { s \<leftarrow> setC p Black s; s \<leftarrow> setC u Black s; s \<leftarrow> setC g Red s; Some (g, s) }
          else do {
            pl \<leftarrow> rd mpoLeft p s;
            (x, s) \<leftarrow> (if x = pl then do { s \<leftarrow> RightRotate p s; Some (p, s) } else Some (x, s));
            p \<leftarrow> rd mpoParent x s;
            s \<leftarrow> setC p Black s;
            g \<leftarrow> rd mpoParent p s;
            s \<leftarrow> setC g Red s;
            s \<leftarrow> LeftRotate g s;
            Some (x, s) } }"

text \<open>The loop, and its final blackening of the root.\<close>

partial_function (option) rb_insert_fix :: "nat \<Rightarrow> rbtree \<Rightarrow> rbtree option" where
  "rb_insert_fix x s =
     (if x = mpoRoot s then setC (mpoRoot s) Black s
      else do {
        p \<leftarrow> rd mpoParent x s;
        cp \<leftarrow> rd mcColor p s;
        if cp \<noteq> Red then setC (mpoRoot s) Black s
        else do {
          g \<leftarrow> rd mpoParent p s;
          gl \<leftarrow> rd mpoLeft g s;
          (x, s) \<leftarrow> (if p = gl then insert_step_left p g x s else insert_step_right p g x s);
          rb_insert_fix x s } })"

declare rb_insert_fix.simps [code]

definition rb_Insert :: "nat \<Rightarrow> rbtree \<Rightarrow> rbtree option" where
  "rb_Insert x s =
     (if mpoRoot s = SENT
      then do { s \<leftarrow> setP x 0 s; s \<leftarrow> setL x SENT s; s \<leftarrow> setR x SENT s; s \<leftarrow> setC x Black s;
                Some (s\<lparr>mpoRoot := x\<rparr>) }
      else do { s \<leftarrow> rb_insert_leaf (mpoRoot s) x s; rb_insert_fix x s })"

subsection \<open>Deletion\<close>

text \<open>
  The node that takes the place of a node with two children: the leftmost node of the whole tree.
\<close>

partial_function (option) leftmost :: "nat \<Rightarrow> rbtree \<Rightarrow> nat option" where
  "leftmost p s = do { l \<leftarrow> rd mpoLeft p s; if l \<noteq> SENT \<and> p \<noteq> SENT then leftmost l s else Some p }"

partial_function (option) rightmost :: "nat \<Rightarrow> rbtree \<Rightarrow> nat option" where
  "rightmost p s = do { r \<leftarrow> rd mpoRight p s; if r \<noteq> SENT \<and> p \<noteq> SENT then rightmost r s else Some p }"

declare leftmost.simps [code] rightmost.simps [code]

text \<open>
  One round of the loop that restores the black heights, for a node \<open>t\<close> that is the left child of
  its parent, and for one that is not: the node to go on from and the new state.
\<close>

definition delete_step_left :: "nat \<Rightarrow> nat \<Rightarrow> rbtree \<Rightarrow> (nat \<times> rbtree) option" where
  "delete_step_left t p s =
     do { w \<leftarrow> rd mpoRight p s;
          cw \<leftarrow> rd mcColor w s;
          (w, s) \<leftarrow> (if cw = Red
                     then do { s \<leftarrow> setC w Black s; s \<leftarrow> setC p Red s; s \<leftarrow> LeftRotate p s;
                               p \<leftarrow> rd mpoParent t s; w \<leftarrow> rd mpoRight p s; Some (w, s) }
                     else Some (w, s));
          wl \<leftarrow> rd mpoLeft w s; cl \<leftarrow> rd mcColor wl s;
          wr' \<leftarrow> rd mpoRight w s; cr \<leftarrow> rd mcColor wr' s;
          if cl = Black \<and> cr = Black
          then do { s \<leftarrow> setC w Red s; p \<leftarrow> rd mpoParent t s; Some (p, s) }
          else do {
            (w, s) \<leftarrow> (if cr = Black
                       then do { s \<leftarrow> setC wl Black s; s \<leftarrow> setC w Red s; s \<leftarrow> RightRotate w s;
                                 p \<leftarrow> rd mpoParent t s; w \<leftarrow> rd mpoRight p s; Some (w, s) }
                       else Some (w, s));
            p \<leftarrow> rd mpoParent t s;
            cp \<leftarrow> rd mcColor p s;
            s \<leftarrow> setC w cp s;
            s \<leftarrow> setC p Black s;
            wr' \<leftarrow> rd mpoRight w s;
            s \<leftarrow> setC wr' Black s;
            s \<leftarrow> LeftRotate p s;
            Some (mpoRoot s, s) } }"

definition delete_step_right :: "nat \<Rightarrow> nat \<Rightarrow> rbtree \<Rightarrow> (nat \<times> rbtree) option" where
  "delete_step_right t p s =
     do { w \<leftarrow> rd mpoLeft p s;
          cw \<leftarrow> rd mcColor w s;
          (w, s) \<leftarrow> (if cw = Red
                     then do { s \<leftarrow> setC w Black s; s \<leftarrow> setC p Red s; s \<leftarrow> RightRotate p s;
                               p \<leftarrow> rd mpoParent t s; w \<leftarrow> rd mpoLeft p s; Some (w, s) }
                     else Some (w, s));
          wl \<leftarrow> rd mpoLeft w s; cl \<leftarrow> rd mcColor wl s;
          wr' \<leftarrow> rd mpoRight w s; cr \<leftarrow> rd mcColor wr' s;
          if cl = Black \<and> cr = Black
          then do { s \<leftarrow> setC w Red s; p \<leftarrow> rd mpoParent t s; Some (p, s) }
          else do {
            (w, s) \<leftarrow> (if cl = Black
                       then do { s \<leftarrow> setC wr' Black s; s \<leftarrow> setC w Red s; s \<leftarrow> LeftRotate w s;
                                 p \<leftarrow> rd mpoParent t s; w \<leftarrow> rd mpoLeft p s; Some (w, s) }
                       else Some (w, s));
            p \<leftarrow> rd mpoParent t s;
            cp \<leftarrow> rd mcColor p s;
            s \<leftarrow> setC w cp s;
            s \<leftarrow> setC p Black s;
            wl \<leftarrow> rd mpoLeft w s;
            s \<leftarrow> setC wl Black s;
            s \<leftarrow> RightRotate p s;
            Some (mpoRoot s, s) } }"

partial_function (option) rb_delete_fix :: "nat \<Rightarrow> rbtree \<Rightarrow> rbtree option" where
  "rb_delete_fix t s =
     do { ct \<leftarrow> rd mcColor t s;
          if t = mpoRoot s \<or> ct = Red then setC t Black s
          else do {
            p \<leftarrow> rd mpoParent t s;
            pl \<leftarrow> rd mpoLeft p s;
            (t, s) \<leftarrow> (if t = pl then delete_step_left t p s else delete_step_right t p s);
            rb_delete_fix t s } }"

declare rb_delete_fix.simps [code]

text \<open>The node that is cut out (\<open>subst\<close>) and the one that moves up to its place (\<open>lpoTemp\<close>).\<close>

definition rb_subst :: "nat \<Rightarrow> rbtree \<Rightarrow> (nat \<times> nat) option" where
  "rb_subst x s =
     do { l \<leftarrow> rd mpoLeft x s;
          r \<leftarrow> rd mpoRight x s;
          if l = SENT then Some (x, r)
          else if r = SENT then Some (x, l)
          else do { m \<leftarrow> leftmost (mpoRoot s) s;
                    ml \<leftarrow> rd mpoLeft m s;
                    mr \<leftarrow> rd mpoRight m s;
                    Some (m, if ml \<noteq> SENT then ml else mr) } }"

definition clear_links :: "nat \<Rightarrow> rbtree \<Rightarrow> rbtree option" where
  "clear_links x s = do { s \<leftarrow> setL x 0 s; s \<leftarrow> setR x 0 s; setP x 0 s }"

text \<open>\<open>subst\<close> takes the place of the node that is deleted.\<close>

definition rb_replace :: "nat \<Rightarrow> nat \<Rightarrow> nat \<Rightarrow> rbtree \<Rightarrow> rbtree option" where
  "rb_replace x m t s =
     do { mp \<leftarrow> rd mpoParent m s;
          s \<leftarrow> (if mp = x then setP t m s else setP t mp s);
          l \<leftarrow> rd mpoLeft x s;
          s \<leftarrow> setL m l s;
          r \<leftarrow> rd mpoRight x s;
          s \<leftarrow> setR m r s;
          xp \<leftarrow> rd mpoParent x s;
          s \<leftarrow> setP m xp s;
          c \<leftarrow> rd mcColor x s;
          s \<leftarrow> setC m c s;
          s \<leftarrow> (if x = mpoRoot s then Some (s\<lparr>mpoRoot := m\<rparr>)
                else do { xp \<leftarrow> rd mpoParent x s; xl \<leftarrow> rd mpoLeft xp s;
                          if x = xl then setL xp m s else setR xp m s });
          l \<leftarrow> rd mpoLeft m s;
          s \<leftarrow> (if l \<noteq> SENT then setP l m s else Some s);
          r \<leftarrow> rd mpoRight m s;
          if r \<noteq> SENT then setP r m s else Some s }"

definition rb_Delete :: "nat \<Rightarrow> rbtree \<Rightarrow> rbtree option" where
  "rb_Delete x s =
     do { l \<leftarrow> rd mpoLeft x s;
          r \<leftarrow> rd mpoRight x s;
          if l = 0 \<or> r = 0 then Some s
          else do {
            (m, t) \<leftarrow> rb_subst x s;
            if m = mpoRoot s
            then do { s \<leftarrow> setC t Black (s\<lparr>mpoRoot := t\<rparr>); clear_links x s }
            else do {
              red \<leftarrow> rd mcColor m s;
              mp \<leftarrow> rd mpoParent m s;
              mpl \<leftarrow> rd mpoLeft mp s;
              s \<leftarrow> (if m = mpl then setL mp t s else setR mp t s);
              s \<leftarrow> (if m = x then do { mp \<leftarrow> rd mpoParent m s; setP t mp s } else rb_replace x m t s);
              s \<leftarrow> clear_links x s;
              if red = Red then Some s else rb_delete_fix t s } } }"

subsection \<open>Iteration\<close>

text \<open>An iterator is the address of a node; the sentinel is the position after the end.\<close>

definition it_Valid :: "nat \<Rightarrow> bool" where "it_Valid p \<longleftrightarrow> p \<noteq> SENT"

definition SeekToFirst :: "rbtree \<Rightarrow> nat option" where "SeekToFirst s = leftmost (mpoRoot s) s"
definition SeekToLast :: "rbtree \<Rightarrow> nat option" where "SeekToLast s = rightmost (mpoRoot s) s"

partial_function (option) Seek_from :: "u64 \<Rightarrow> nat \<Rightarrow> rbtree \<Rightarrow> nat option" where
  "Seek_from target p s =
     (if p = SENT then Some p
      else do { k \<leftarrow> rd mtKey p s;
                if k = target then Some p
                else do { c \<leftarrow> (if target < k then rd mpoLeft p s else rd mpoRight p s); Seek_from target c s } })"

declare Seek_from.simps [code]

definition rb_Seek :: "u64 \<Rightarrow> rbtree \<Rightarrow> nat option" where "rb_Seek target s = Seek_from target (mpoRoot s) s"

partial_function (option) down_left :: "nat \<Rightarrow> rbtree \<Rightarrow> nat option" where
  "down_left p s = do { l \<leftarrow> rd mpoLeft p s; if l \<noteq> SENT then down_left l s else Some p }"

partial_function (option) down_right :: "nat \<Rightarrow> rbtree \<Rightarrow> nat option" where
  "down_right p s = do { r \<leftarrow> rd mpoRight p s; if r \<noteq> SENT then down_right r s else Some p }"

text \<open>Up while the parent is a right (left) child; the result may be null.\<close>

partial_function (option) up_right :: "nat \<Rightarrow> rbtree \<Rightarrow> nat option" where
  "up_right p s =
     do { q \<leftarrow> rd mpoParent p s; g \<leftarrow> rd mpoParent q s;
          if g = 0 then Some g
          else do { gr \<leftarrow> rd mpoRight g s; if q = gr then up_right q s else Some g } }"

partial_function (option) up_left :: "nat \<Rightarrow> rbtree \<Rightarrow> nat option" where
  "up_left p s =
     do { q \<leftarrow> rd mpoParent p s; g \<leftarrow> rd mpoParent q s;
          if g = 0 then Some g
          else do { gl \<leftarrow> rd mpoLeft g s; if q = gl then up_left q s else Some g } }"

declare down_left.simps [code] down_right.simps [code] up_right.simps [code] up_left.simps [code]

definition it_Next :: "nat \<Rightarrow> rbtree \<Rightarrow> nat option" where
  "it_Next p s =
     (if \<not> it_Valid p then None
      else do {
        r \<leftarrow> rd mpoRight p s;
        q \<leftarrow> rd mpoParent p s;
        if r \<noteq> SENT then down_left r s
        else if q = 0 then Some SENT
        else do { ql \<leftarrow> rd mpoLeft q s;
                  if p = ql then Some q
                  else do { g \<leftarrow> up_right p s; Some (if g = 0 then SENT else g) } } })"

definition it_Prev :: "nat \<Rightarrow> rbtree \<Rightarrow> nat option" where
  "it_Prev p s =
     (if \<not> it_Valid p then None
      else do {
        l \<leftarrow> rd mpoLeft p s;
        q \<leftarrow> rd mpoParent p s;
        if l \<noteq> SENT then down_right l s
        else if q = 0 then Some SENT
        else do { qr \<leftarrow> rd mpoRight q s;
                  if p = qr then Some q
                  else do { g \<leftarrow> up_left p s; Some (if g = 0 then SENT else g) } } })"

end
