(* ===== verification/RB_Shape.thy ===== *)
theory RB_Shape
  imports RB_Tree "HOL-Library.Tree" "HOL-Library.Multiset"
begin

section \<open>The linked nodes as a tree\<close>

text \<open>
  A tree of the library, with the address and the colour of each node, is what the linked nodes
  stand for (\<open>tree_at\<close>). A place in the tree is a context, the list of nodes on the way up with their
  other subtrees. Rotations and changes of colour act on the tree at a place.
\<close>

type_synonym rbt = "(nat \<times> color) tree"

definition addrs :: "rbt \<Rightarrow> nat list" where "addrs t = map fst (inorder t)"

lemma addrs_simps [simp]: "addrs Leaf = []" "addrs (Node l (a, c) r) = addrs l @ a # addrs r"
  by (simp_all add: addrs_def)

fun tree_at :: "rbtree \<Rightarrow> nat \<Rightarrow> nat \<Rightarrow> rbt \<Rightarrow> bool" where
  "tree_at s q p Leaf \<longleftrightarrow> p = SENT"
| "tree_at s q p (Node l (a, c) r) \<longleftrightarrow> p = a \<and> a \<noteq> 0 \<and> a \<noteq> SENT \<and> mpoParent (nodes s a) = q \<and> mcColor (nodes s a) = c \<and>
     tree_at s a (mpoLeft (nodes s a)) l \<and> tree_at s a (mpoRight (nodes s a)) r"

datatype frame = LF color nat rbt | RF rbt color nat

fun plug :: "frame list \<Rightarrow> rbt \<Rightarrow> rbt" where
  "plug [] t = t"
| "plug (LF c a r # C) t = plug C (Node t (a, c) r)"
| "plug (RF l c a # C) t = plug C (Node l (a, c) t)"

fun caddrs :: "frame list \<Rightarrow> nat list" where
  "caddrs [] = []"
| "caddrs (LF c a r # C) = a # addrs r @ caddrs C"
| "caddrs (RF l c a # C) = a # addrs l @ caddrs C"

text \<open>The context between the root (parent \<open>q0\<close>, address \<open>p0\<close>) and a place (parent \<open>q\<close>, address \<open>p\<close>).\<close>

fun ctx_at :: "rbtree \<Rightarrow> nat \<Rightarrow> nat \<Rightarrow> frame list \<Rightarrow> nat \<Rightarrow> nat \<Rightarrow> bool" where
  "ctx_at s q0 p0 [] q p \<longleftrightarrow> q = q0 \<and> p = p0"
| "ctx_at s q0 p0 (LF c a r # C) q p \<longleftrightarrow> q = a \<and> a \<noteq> 0 \<and> a \<noteq> SENT \<and> mcColor (nodes s a) = c \<and> mpoLeft (nodes s a) = p \<and>
     tree_at s a (mpoRight (nodes s a)) r \<and> ctx_at s q0 p0 C (mpoParent (nodes s a)) a"
| "ctx_at s q0 p0 (RF l c a # C) q p \<longleftrightarrow> q = a \<and> a \<noteq> 0 \<and> a \<noteq> SENT \<and> mcColor (nodes s a) = c \<and> mpoRight (nodes s a) = p \<and>
     tree_at s a (mpoLeft (nodes s a)) l \<and> ctx_at s q0 p0 C (mpoParent (nodes s a)) a"

lemma tree_at_plug: "tree_at s q0 p0 (plug C t) \<longleftrightarrow> (\<exists>q p. ctx_at s q0 p0 C q p \<and> tree_at s q p t)"
  by (induction C t rule: plug.induct) auto

lemma mset_plug: "mset (addrs (plug C t)) = mset (caddrs C @ addrs t)"
  by (induction C t rule: plug.induct) simp_all

lemma set_plug: "set (addrs (plug C t)) = set (caddrs C) \<union> set (addrs t)"
  using mset_eq_setD [OF mset_plug, of C t] by simp

lemma distinct_plug: "distinct (addrs (plug C t)) \<longleftrightarrow> distinct (caddrs C @ addrs t)"
  by (rule mset_eq_imp_distinct_iff [OF mset_plug])

text \<open>The nodes before and after a place.\<close>

fun lside :: "frame list \<Rightarrow> nat list" where
  "lside [] = []"
| "lside (LF c a r # C) = lside C"
| "lside (RF l c a # C) = lside C @ addrs l @ [a]"

fun rside :: "frame list \<Rightarrow> nat list" where
  "rside [] = []"
| "rside (LF c a r # C) = a # addrs r @ rside C"
| "rside (RF l c a # C) = rside C"

lemma addrs_plug: "addrs (plug C t) = lside C @ addrs t @ rside C"
  by (induction C t rule: plug.induct) simp_all

lemma plug_append: "plug (C @ D) t = plug D (plug C t)"
  by (induction C t rule: plug.induct) simp_all

text \<open>What the links of a tree depend on.\<close>

lemma tree_at_cong:
  "(\<And>a. a \<in> set (addrs t) \<Longrightarrow> nodes s' a = nodes s a) \<Longrightarrow> tree_at s' q p t = tree_at s q p t"
  by (induction t arbitrary: q p) auto

lemma ctx_at_cong:
  "(\<And>a. a \<in> set (caddrs C) \<Longrightarrow> nodes s' a = nodes s a) \<Longrightarrow> ctx_at s' q0 p0 C q p = ctx_at s q0 p0 C q p"
proof (induction C arbitrary: q p)
  case (Cons f C)
  then show ?case by (cases f) (auto simp: tree_at_cong [of _ s' s])
qed auto

lemma tree_at_addrs: "tree_at s q p t \<Longrightarrow> a \<in> set (addrs t) \<Longrightarrow> a \<noteq> 0 \<and> a \<noteq> SENT"
  by (induction t arbitrary: q p) auto

lemma ctx_at_addrs: "ctx_at s q0 p0 C q p \<Longrightarrow> a \<in> set (caddrs C) \<Longrightarrow> a \<noteq> 0 \<and> a \<noteq> SENT"
proof (induction C arbitrary: q p)
  case (Cons f C)
  then show ?case by (cases f) (auto dest: tree_at_addrs)
qed auto

lemma ctx_parent: "ctx_at s q0 p0 C q p \<Longrightarrow> C \<noteq> [] \<Longrightarrow> q \<in> set (caddrs C) \<and> q \<noteq> 0 \<and> q \<noteq> SENT"
  by (cases C rule: caddrs.cases) auto

lemma ctx_root: "ctx_at s q0 p0 C q p \<Longrightarrow> C \<noteq> [] \<Longrightarrow> p0 \<in> set (caddrs C)"
proof (induction C arbitrary: q p)
  case (Cons f C)
  then show ?case by (cases f; cases "C = []") auto
qed simp

lemma ptr_of: "tree_at s q p t \<Longrightarrow> p = (case t of Leaf \<Rightarrow> SENT | Node l (a, c) r \<Rightarrow> a)"
  by (cases t) auto

text \<open>The root of the tree has any parent: the code does not read it.\<close>

definition rb_rep :: "rbtree \<Rightarrow> rbt \<Rightarrow> bool" where
  "rb_rep s t \<longleftrightarrow> (\<exists>q. tree_at s q (mpoRoot s) t) \<and> distinct (addrs t) \<and> mcColor (nodes s SENT) = Black"

text \<open>The pointer above a place turns to another node.\<close>

definition relink :: "frame list \<Rightarrow> nat \<Rightarrow> rbtree \<Rightarrow> rbtree" where
  "relink C p s = (case C of
       [] \<Rightarrow> s\<lparr>mpoRoot := p\<rparr>
     | LF c a r # _ \<Rightarrow> s\<lparr>nodes := (nodes s)(a := (nodes s a)\<lparr>mpoLeft := p\<rparr>)\<rparr>
     | RF l c a # _ \<Rightarrow> s\<lparr>nodes := (nodes s)(a := (nodes s a)\<lparr>mpoRight := p\<rparr>)\<rparr>)"

lemma relink_ctx:
  assumes "ctx_at s q0 (mpoRoot s) C q p" "distinct (caddrs C)"
  shows "ctx_at (relink C p' s) q0 (mpoRoot (relink C p' s)) C q p'"
proof (cases C rule: caddrs.cases)
  case (2 c a r D)
  let ?s = "relink C p' s"
  have "tree_at ?s a x r = tree_at s a x r" for x by (rule tree_at_cong) (use 2 assms(2) in \<open>auto simp: relink_def\<close>)
  moreover have "ctx_at ?s q0 x D y z = ctx_at s q0 x D y z" for x y z by (rule ctx_at_cong) (use 2 assms(2) in \<open>auto simp: relink_def\<close>)
  ultimately show ?thesis using 2 assms(1) by (simp add: relink_def)
next
  case (3 l c a D)
  let ?s = "relink C p' s"
  have "tree_at ?s a x l = tree_at s a x l" for x by (rule tree_at_cong) (use 3 assms(2) in \<open>auto simp: relink_def\<close>)
  moreover have "ctx_at ?s q0 x D y z = ctx_at s q0 x D y z" for x y z by (rule ctx_at_cong) (use 3 assms(2) in \<open>auto simp: relink_def\<close>)
  ultimately show ?thesis using 3 assms(1) by (simp add: relink_def)
qed (use assms in \<open>simp add: relink_def\<close>)

lemma relink_nodes: "a \<notin> set (caddrs C) \<Longrightarrow> nodes (relink C p s) a = nodes s a"
  by (cases C rule: caddrs.cases) (auto simp: relink_def)

subsection \<open>A place in the tree\<close>

text \<open>The tree at the place \<open>C\<close> is \<open>t\<close>, with root \<open>p\<close> and parent \<open>q\<close>.\<close>

definition focus :: "rbtree \<Rightarrow> nat \<Rightarrow> frame list \<Rightarrow> nat \<Rightarrow> nat \<Rightarrow> rbt \<Rightarrow> bool" where
  "focus s q0 C q p t \<longleftrightarrow> ctx_at s q0 (mpoRoot s) C q p \<and> tree_at s q p t \<and> distinct (caddrs C @ addrs t) \<and> mcColor (nodes s SENT) = Black"

lemma rb_rep_focus: "rb_rep s (plug C t) \<longleftrightarrow> (\<exists>q0 q p. focus s q0 C q p t)"
  by (auto simp: rb_rep_def focus_def tree_at_plug distinct_plug)

lemma focus_node:
  assumes "focus s q0 C q p (Node l (a, c) r)"
  shows "p = a" "a \<noteq> 0" "a \<noteq> SENT" "mpoParent (nodes s a) = q" "mcColor (nodes s a) = c" "tree_at s a (mpoLeft (nodes s a)) l"
    "tree_at s a (mpoRight (nodes s a)) r" "ctx_at s q0 (mpoRoot s) C q a" "a \<notin> set (caddrs C)"
  using assms by (auto simp: focus_def)

lemma focus_up:
  "focus s q0 (LF c a r # C) q p t \<longleftrightarrow> q = a \<and> mpoLeft (nodes s a) = p \<and> focus s q0 C (mpoParent (nodes s a)) a (Node t (a, c) r)"
  "focus s q0 (RF l c a # C) q p t \<longleftrightarrow> q = a \<and> mpoRight (nodes s a) = p \<and> focus s q0 C (mpoParent (nodes s a)) a (Node l (a, c) t)"
  by (auto simp: focus_def)

text \<open>A place is the root exactly when nothing is above it.\<close>

lemma focus_root: "focus s q0 C q p (Node l (a, c) r) \<Longrightarrow> a = mpoRoot s \<longleftrightarrow> C = []"
  using ctx_root [of s q0 "mpoRoot s" C q p] by (cases "C = []") (auto simp: focus_def)

lemma ptr_mem: "tree_at s q p t \<Longrightarrow> p = SENT \<or> p \<in> set (addrs t)"
  by (cases t) auto

text \<open>The code finds the pointer above a place by comparing with the left child of the parent.\<close>

lemma relink_code:
  assumes f: "ctx_at s q0 (mpoRoot s) C q x" and x: "x \<notin> set (caddrs C)" "x \<noteq> SENT" "x \<noteq> 0"
  shows "(if x = mpoRoot s then Some (s\<lparr>mpoRoot := t\<rparr>)
          else do { l \<leftarrow> rd mpoLeft q s; if x = l then setL q t s else setR q t s }) = Some (relink C t s)"
    "(if x = mpoRoot s then Some (s\<lparr>mpoRoot := t\<rparr>)
          else do { r \<leftarrow> rd mpoRight q s; if x = r then setR q t s else setL q t s }) = Some (relink C t s)"
proof -
  have root: "C \<noteq> [] \<Longrightarrow> x \<noteq> mpoRoot s" using ctx_root [OF f] x by auto
  show "(if x = mpoRoot s then Some (s\<lparr>mpoRoot := t\<rparr>)
          else do { l \<leftarrow> rd mpoLeft q s; if x = l then setL q t s else setR q t s }) = Some (relink C t s)"
    using f x root ptr_mem by (cases C rule: caddrs.cases) (fastforce simp: relink_def rd_def wr_def)+
  show "(if x = mpoRoot s then Some (s\<lparr>mpoRoot := t\<rparr>)
          else do { r \<leftarrow> rd mpoRight q s; if x = r then setR q t s else setL q t s }) = Some (relink C t s)"
    using f x root ptr_mem by (cases C rule: caddrs.cases) (fastforce simp: relink_def rd_def wr_def)+
qed

subsection \<open>Rotations and colours\<close>

definition kept :: "rbtree \<Rightarrow> rbtree \<Rightarrow> bool" where
  "kept s s' \<longleftrightarrow> (\<forall>a. mtKey (nodes s' a) = mtKey (nodes s a)) \<and> mpoParent (nodes s' SENT) = mpoParent (nodes s SENT)"

lemma kept_refl [simp]: "kept s s" by (simp add: kept_def)
lemma kept_trans [trans]: "kept s s1 \<Longrightarrow> kept s1 s2 \<Longrightarrow> kept s s2" by (simp add: kept_def)

lemma LeftRotate_focus:
  assumes f: "focus s q0 C q p (Node A (x, cx) (Node B (y, cy) E))"
  shows "\<exists>s'. LeftRotate x s = Some s' \<and> focus s' q0 C q y (Node (Node A (x, cx) B) (y, cy) E) \<and> kept s s'"
proof -
  define b where "b = mpoLeft (nodes s y)"
  note fx = focus_node [OF f]
  have dis: "distinct (caddrs C @ addrs A @ x # addrs B @ y # addrs E)" using f by (auto simp: focus_def)
  have y: "mpoRight (nodes s x) = y" "y \<noteq> 0" "y \<noteq> SENT" "mpoParent (nodes s y) = x" "mcColor (nodes s y) = cy" "tree_at s y b B"
    "tree_at s y (mpoRight (nodes s y)) E" "x \<noteq> y" "x \<notin> set (caddrs C)" "y \<notin> set (caddrs C)"
    using f by (auto simp: focus_def b_def)
  have b: "b \<noteq> 0" "b \<noteq> x" "b \<noteq> y" "b \<notin> set (caddrs C)" "b \<noteq> SENT \<Longrightarrow> b \<in> set (addrs B)" "b \<notin> set (addrs A)" "b \<notin> set (addrs E)"
    using ptr_mem [OF y(6)] tree_at_addrs [OF y(6)] tree_at_addrs [OF fx(6)] tree_at_addrs [OF fx(7)] tree_at_addrs [OF y(7)]
      ctx_at_addrs [OF fx(8)] dis fx(3) y(3)
    by (auto simp: SENT_def)
  define s3 where "s3 = s\<lparr>nodes := (if b \<noteq> SENT then (nodes s)(b := (nodes s b)\<lparr>mpoParent := x\<rparr>) else nodes s)
    (x := (nodes s x)\<lparr>mpoRight := b\<rparr>, y := (nodes s y)\<lparr>mpoParent := q\<rparr>)\<rparr>"
  have n3: "nodes s3 a = (if a = x then (nodes s x)\<lparr>mpoRight := b\<rparr> else if a = y then (nodes s y)\<lparr>mpoParent := q\<rparr>
      else if a = b \<and> b \<noteq> SENT then (nodes s b)\<lparr>mpoParent := x\<rparr> else nodes s a)" for a
    using y(8) b(2,3) by (simp add: s3_def)
  have ctx3: "ctx_at s3 q0 (mpoRoot s3) C q x"
  proof -
    have "ctx_at s3 q0 (mpoRoot s) C q x = ctx_at s q0 (mpoRoot s) C q x" by (rule ctx_at_cong) (use y(9,10) b(4) in \<open>auto simp: n3\<close>)
    with fx(8) show ?thesis by (simp add: s3_def)
  qed
  define s4 where "s4 = relink C y s3"
  define s' where "s' = s4\<lparr>nodes := (nodes s4)(y := (nodes s4 y)\<lparr>mpoLeft := x\<rparr>, x := (nodes s4 x)\<lparr>mpoParent := y\<rparr>)\<rparr>"
  have n4: "nodes s4 a = nodes s3 a" if "a \<notin> set (caddrs C)" for a using relink_nodes [OF that] by (simp add: s4_def)
  have n': "nodes s' a = (if a = x then (nodes s x)\<lparr>mpoRight := b, mpoParent := y\<rparr> else if a = y then (nodes s y)\<lparr>mpoParent := q, mpoLeft := x\<rparr>
      else nodes s4 a)" for a
    using n4 y(8-10) by (simp add: s'_def n3)
  have run: "LeftRotate x s = Some s'"
  proof -
    have "mpoParent (nodes s3 x) = q" "mpoRoot s3 = mpoRoot s" using fx(4) y(8) by (simp_all add: n3 s3_def)
    note code = relink_code(1) [OF ctx3 y(9) fx(3,2), of y, folded s4_def] and pr = this
    have "(do { s \<leftarrow> (if b \<noteq> SENT then setP b x (s\<lparr>nodes := (nodes s)(x := (nodes s x)\<lparr>mpoRight := b\<rparr>)\<rparr>)
              else Some (s\<lparr>nodes := (nodes s)(x := (nodes s x)\<lparr>mpoRight := b\<rparr>)\<rparr>)); xp \<leftarrow> rd mpoParent x s; setP y xp s }) = Some s3"
      using fx(2,4) y(2,8) b(1-3) by (auto simp: rd_def wr_def s3_def fun_upd_twist)
    then obtain s2 where s2: "(if b \<noteq> SENT then setP b x (s\<lparr>nodes := (nodes s)(x := (nodes s x)\<lparr>mpoRight := b\<rparr>)\<rparr>)
              else Some (s\<lparr>nodes := (nodes s)(x := (nodes s x)\<lparr>mpoRight := b\<rparr>)\<rparr>)) = Some s2" "(do { xp \<leftarrow> rd mpoParent x s2; setP y xp s2 }) = Some s3"
      by (auto simp: bind_eq_Some_conv)
    have fin: "(do { s \<leftarrow> setL y x s4; setP x y s }) = Some s'" using fx(2) y(2,8) by (simp add: wr_def s'_def)
    have r1: "rd mpoRight x s = Some y" "rd mpoLeft y s = Some b" "setR x b s = Some (s\<lparr>nodes := (nodes s)(x := (nodes s x)\<lparr>mpoRight := b\<rparr>)\<rparr>)"
      "rd mpoLeft y (s\<lparr>nodes := (nodes s)(x := (nodes s x)\<lparr>mpoRight := b\<rparr>)\<rparr>) = Some b" "rd mpoParent x s3 = Some q"
      using fx(2) y(1,2,8) pr(1) by (simp_all add: rd_def wr_def b_def)
    obtain xp where xp: "rd mpoParent x s2 = Some xp" "setP y xp s2 = Some s3" using s2(2) by (auto simp: bind_eq_Some_conv)
    show ?thesis
      unfolding LeftRotate_def r1 Option.bind.bind_lunit s2(1) xp code fin by (simp add: r1(5) code fin [unfolded Option.bind.bind_lunit])
  qed
  have rest: "nodes s' a = nodes s a" if "a \<noteq> x" "a \<noteq> y" "a \<noteq> b \<or> b = SENT" "a \<notin> set (caddrs C)" for a
    using that n4 by (auto simp: n' n3)
  have tA: "tree_at s' x z A = tree_at s x z A" for z by (rule tree_at_cong, rule rest) (use dis b(6) in auto)
  have tE: "tree_at s' y z E = tree_at s y z E" for z by (rule tree_at_cong, rule rest) (use dis b(7) in auto)
  have tB: "tree_at s' x b B"
  proof (cases B)
    case (Node Bl bc Br)
    obtain b' c where bc: "bc = (b', c)" by (rule prod.exhaust)
    have bb: "b' = b" using y(6) Node bc by simp
    have "b \<noteq> SENT" using y(6) Node bc by simp
    then have nb: "nodes s' b = (nodes s b)\<lparr>mpoParent := x\<rparr>" using n4 [OF b(4)] b(2,3) by (simp add: n' n3)
    have "tree_at s' b z T = tree_at s b z T" if "T \<in> {Bl, Br}" for z T
      by (rule tree_at_cong, rule rest) (use dis Node bc bb that in auto)
    with y(6) Node bc bb nb show ?thesis by simp
  qed (use y(6) in simp)
  have "ctx_at s' q0 (mpoRoot s') C q y"
  proof -
    have "ctx_at s4 q0 (mpoRoot s4) C q y" unfolding s4_def by (rule relink_ctx [OF ctx3]) (use dis in simp)
    moreover have "ctx_at s' q0 (mpoRoot s4) C q y = ctx_at s4 q0 (mpoRoot s4) C q y" by (rule ctx_at_cong) (use y(9,10) in \<open>auto simp: n'\<close>)
    ultimately show ?thesis by (simp add: s'_def)
  qed
  moreover have "SENT \<notin> set (caddrs C)" using ctx_at_addrs [OF fx(8)] by blast
  then have "nodes s' SENT = nodes s SENT" using rest [of SENT] fx(3) y(3) by auto
  moreover have "nodes s' x = (nodes s x)\<lparr>mpoRight := b, mpoParent := y\<rparr>" "nodes s' y = (nodes s y)\<lparr>mpoParent := q, mpoLeft := x\<rparr>"
    using y(8) by (simp_all add: n')
  moreover have "mtKey (nodes s' a) = mtKey (nodes s a)" for a
    by (simp add: n' s4_def relink_def n3 split: list.split frame.split)
  ultimately have "focus s' q0 C q y (Node (Node A (x, cx) B) (y, cy) E)" "kept s s'"
    using fx tA tE tB y dis f by (auto simp: focus_def kept_def)
  with run show ?thesis by blast
qed

subsection \<open>Left and right exchanged\<close>

text \<open>The code for one side is the code for the other side on the mirrored state.\<close>

definition mir :: "rbtree \<Rightarrow> rbtree" where
  "mir s = s\<lparr>nodes := (\<lambda>a. (nodes s a)\<lparr>mpoLeft := mpoRight (nodes s a), mpoRight := mpoLeft (nodes s a)\<rparr>)\<rparr>"

lemma mir_sel [simp]:
  "mpoRoot (mir s) = mpoRoot s" "mpoLeft (nodes (mir s) a) = mpoRight (nodes s a)" "mpoRight (nodes (mir s) a) = mpoLeft (nodes s a)"
  "mpoParent (nodes (mir s) a) = mpoParent (nodes s a)" "mcColor (nodes (mir s) a) = mcColor (nodes s a)"
  "mtKey (nodes (mir s) a) = mtKey (nodes s a)" "mir (mir s) = s" "(mir s)\<lparr>mpoRoot := p\<rparr> = mir (s\<lparr>mpoRoot := p\<rparr>)"
  by (simp_all add: mir_def)

lemma rd_mir [simp]:
  "rd mpoLeft p (mir s) = rd mpoRight p s" "rd mpoRight p (mir s) = rd mpoLeft p s" "rd mpoParent p (mir s) = rd mpoParent p s"
  "rd mcColor p (mir s) = rd mcColor p s"
  by (simp_all add: rd_def)

lemma wr_mir [simp]:
  "setL p q (mir s) = map_option mir (setR p q s)" "setR p q (mir s) = map_option mir (setL p q s)"
  "setP p q (mir s) = map_option mir (setP p q s)" "setC p c (mir s) = map_option mir (setC p c s)"
  by (simp_all add: wr_def mir_def fun_eq_iff)

lemma mir_bind [simp]: "map_option mir m \<bind> f = m \<bind> (\<lambda>s. f (mir s))"
  by (cases m) simp_all

lemma map_mir_bind [simp]: "map_option mir (m \<bind> g) = m \<bind> (\<lambda>x. map_option mir (g x))"
  by (cases m) simp_all

lemma map_mir_twice [simp]: "map_option mir (map_option mir m) = m"
  by (cases m) simp_all

lemma map_mir_if [simp]: "map_option mir (if b then m else m') = (if b then map_option mir m else map_option mir m')"
  by simp

lemma if_bind: "Option.bind (if b then m else m') f = (if b then Option.bind m f else Option.bind m' f)"
  by simp

lemma RightRotate_mir: "RightRotate x s = map_option mir (LeftRotate x (mir s))"
  by (simp add: RightRotate_def LeftRotate_def if_bind cong: if_cong)

fun mirf :: "frame \<Rightarrow> frame" where
  "mirf (LF c a r) = RF (mirror r) c a"
| "mirf (RF l c a) = LF c a (mirror l)"

lemma addrs_mirror [simp]: "addrs (mirror t) = rev (addrs t)"
  by (simp add: addrs_def inorder_mirror rev_map)

lemma caddrs_mirror: "mset (caddrs (map mirf C)) = mset (caddrs C)"
  by (induction C rule: caddrs.induct) simp_all

lemma tree_at_mir: "tree_at (mir s) q p (mirror t) = tree_at s q p t"
  by (induction t arbitrary: q p) auto

lemma ctx_at_mir: "ctx_at (mir s) q0 p0 (map mirf C) q p = ctx_at s q0 p0 C q p"
proof (induction C arbitrary: q p)
  case (Cons f C)
  then show ?case by (cases f) (auto simp: tree_at_mir)
qed simp

lemma focus_mir: "focus (mir s) q0 (map mirf C) q p (mirror t) = focus s q0 C q p t"
proof -
  have "distinct (caddrs (map mirf C) @ addrs (mirror t)) = distinct (caddrs C @ addrs t)"
    by (rule mset_eq_imp_distinct_iff) (simp add: caddrs_mirror)
  then show ?thesis by (simp add: focus_def ctx_at_mir tree_at_mir)
qed

lemma kept_mir: "kept (mir s) s' = kept s (mir s')"
  by (simp add: kept_def)

lemma RightRotate_focus:
  assumes "focus s q0 C q p (Node (Node E (y, cy) B) (x, cx) A)"
  shows "\<exists>s'. RightRotate x s = Some s' \<and> focus s' q0 C q y (Node E (y, cy) (Node B (x, cx) A)) \<and> kept s s'"
proof -
  have "focus (mir s) q0 (map mirf C) q p (Node (mirror A) (x, cx) (Node (mirror B) (y, cy) (mirror E)))"
    using assms focus_mir [of s q0 C q p] by force
  from LeftRotate_focus [OF this] obtain s' where s': "LeftRotate x (mir s) = Some s'"
    "focus s' q0 (map mirf C) q y (mirror (Node E (y, cy) (Node B (x, cx) A)))" "kept (mir s) s'" by auto
  have "focus (mir s') q0 C q y (Node E (y, cy) (Node B (x, cx) A))"
    using s'(2) focus_mir [of "mir s'" q0 C q y "Node E (y, cy) (Node B (x, cx) A)"] by simp
  moreover have "RightRotate x s = Some (mir s')" using s'(1) by (simp add: RightRotate_mir)
  moreover have "kept s (mir s')" using s'(3) by (simp add: kept_mir)
  ultimately show ?thesis by blast
qed

text \<open>A change of colour.\<close>

lemma setC_focus:
  assumes "focus s q0 C q p (Node l (a, c) r)"
  shows "\<exists>s'. setC a c' s = Some s' \<and> focus s' q0 C q p (Node l (a, c') r) \<and> kept s s' \<and> mpoRoot s' = mpoRoot s"
proof -
  note f = focus_node [OF assms]
  let ?s = "s\<lparr>nodes := (nodes s)(a := (nodes s a)\<lparr>mcColor := c'\<rparr>)\<rparr>"
  have d: "distinct (caddrs C @ addrs l @ a # addrs r)" "mcColor (nodes s SENT) = Black" using assms by (auto simp: focus_def)
  have "tree_at ?s a z t = tree_at s a z t" if "t \<in> {l, r}" for z t by (rule tree_at_cong) (use d that in auto)
  moreover have "ctx_at ?s q0 (mpoRoot s) C q a = ctx_at s q0 (mpoRoot s) C q a" by (rule ctx_at_cong) (use d in auto)
  ultimately have "focus ?s q0 C q p (Node l (a, c') r)" using f d by (auto simp: focus_def)
  moreover have "setC a c' s = Some ?s" using f(2) by (simp add: wr_def)
  ultimately show ?thesis using f(3) by (auto simp: kept_def)
qed

end
