(* ===== verification/RB_Insert.thy ===== *)
theory RB_Insert
  imports RB_Shape
begin

section \<open>Insertion keeps a red-black search tree\<close>

text \<open>
  The colouring loop of \<open>CRBTree::Insert\<close> acts on the tree as the function \<open>fixup\<close>, which keeps the
  order of the nodes, restores the colour rule and keeps the black heights; the search for the leaf
  finds the place that the order of the keys demands.
\<close>

subsection \<open>Colours\<close>

fun tcolor :: "rbt \<Rightarrow> color" where
  "tcolor Leaf = Black"
| "tcolor (Node l (a, c) r) = c"

fun paint :: "color \<Rightarrow> rbt \<Rightarrow> rbt" where
  "paint c Leaf = Leaf"
| "paint c (Node l (a, _) r) = Node l (a, c) r"

lemma addrs_paint [simp]: "addrs (paint c t) = addrs t"
  by (cases "(c, t)" rule: paint.cases) simp_all

text \<open>The colour that the code reads through a pointer; the sentinel is black.\<close>

lemma ptr_color: "tree_at s q p t \<Longrightarrow> mcColor (nodes s SENT) = Black \<Longrightarrow> rd mcColor p s = Some (tcolor t)"
  by (cases t) (auto simp: rd_def SENT_def)

lemma focus_color: "focus s q0 C q p t \<Longrightarrow> rd mcColor p s = Some (tcolor t)"
  by (auto simp: focus_def ptr_color)

subsection \<open>One round of the loop\<close>

definition straight :: "nat \<Rightarrow> rbtree \<Rightarrow> (nat \<times> rbtree) option" where
  "straight x s =
     do { p \<leftarrow> rd mpoParent x s; s \<leftarrow> setC p Black s; g \<leftarrow> rd mpoParent p s; s \<leftarrow> setC g Red s; s \<leftarrow> RightRotate g s; Some (x, s) }"

text \<open>The loop ends behind a node with a black parent.\<close>

definition settled :: "nat \<Rightarrow> rbtree \<Rightarrow> bool" where
  "settled x s \<longleftrightarrow> x \<noteq> 0 \<and> mpoParent (nodes s x) \<noteq> 0 \<and> mcColor (nodes s (mpoParent (nodes s x))) = Black"

lemma settled_ends: "settled x s \<Longrightarrow> rb_insert_fix x s = setC (mpoRoot s) Black s"
  by (subst rb_insert_fix.simps) (simp add: settled_def rd_def)

lemma straight_focus:
  assumes "focus s q0 (LF Red p b # LF cg g U # D) q x (Node l (x, c) r)"
  shows "\<exists>s' q1. straight x s = Some (x, s') \<and> focus s' q0 D q1 p (Node (Node l (x, c) r) (p, Black) (Node b (g, Red) U)) \<and>
    kept s s' \<and> settled x s'"
proof -
  note fx = focus_node [OF assms]
  from assms have f1: "q = p" "focus s q0 (LF cg g U # D) (mpoParent (nodes s p)) p (Node (Node l (x, c) r) (p, Red) b)" by (simp_all add: focus_up)
  from setC_focus [OF f1(2), of Black] obtain s1 where s1: "setC p Black s = Some s1"
    "focus s1 q0 (LF cg g U # D) (mpoParent (nodes s p)) p (Node (Node l (x, c) r) (p, Black) b)" "kept s s1" by blast
  then have f2: "mpoParent (nodes s p) = g" "focus s1 q0 D (mpoParent (nodes s1 g)) g (Node (Node (Node l (x, c) r) (p, Black) b) (g, cg) U)"
    by (simp_all add: focus_up)
  from setC_focus [OF f2(2), of Red] obtain s2 where s2: "setC g Red s1 = Some s2"
    "focus s2 q0 D (mpoParent (nodes s1 g)) g (Node (Node (Node l (x, c) r) (p, Black) b) (g, Red) U)" "kept s1 s2" by blast
  from RightRotate_focus [OF s2(2)] obtain s3 where s3: "RightRotate g s2 = Some s3"
    "focus s3 q0 D (mpoParent (nodes s1 g)) p (Node (Node l (x, c) r) (p, Black) (Node b (g, Red) U))" "kept s2 s3" by blast
  have "rd mpoParent x s = Some p" "rd mpoParent p s1 = Some g"
    using fx(2,4) f1(1) focus_node(2,4) [OF s1(2)] f2(1) by (simp_all add: rd_def)
  with s1(1) s2(1) s3(1) have "straight x s = Some (x, s3)" by (simp add: straight_def)
  moreover have "settled x s3" using focus_node(2,5,6) [OF s3(2)] by (simp add: settled_def)
  ultimately show ?thesis using s3(2) kept_trans [OF kept_trans [OF s1(3) s2(3)] s3(3)] by blast
qed

text \<open>The parent is a left child: either the colours move up to \<open>g\<close>, or the tree is in order.\<close>

definition promoted :: "rbt \<Rightarrow> nat \<Rightarrow> rbt \<Rightarrow> rbt" where
  "promoted P g U = Node (paint Black P) (g, Red) (paint Black U)"

lemma recolor_focus:
  assumes "focus s q0 (LF cg g (Node ul (u, Red) ur) # D) q p (Node a (p, c) b)"
  shows "\<exists>s' q1. (do { s \<leftarrow> setC p Black s; s \<leftarrow> setC u Black s; s \<leftarrow> setC g Red s; Some (g, s) }) = Some (g, s') \<and>
    focus s' q0 D q1 g (promoted (Node a (p, c) b) g (Node ul (u, Red) ur)) \<and> kept s s'"
proof -
  from setC_focus [OF assms, of Black] obtain s1 where s1: "setC p Black s = Some s1"
    "focus s1 q0 (LF cg g (Node ul (u, Red) ur) # D) q p (Node a (p, Black) b)" "kept s s1" by blast
  from s1(2) have f1: "focus s1 q0 D (mpoParent (nodes s1 g)) g (Node (Node a (p, Black) b) (g, cg) (Node ul (u, Red) ur))" by (simp add: focus_up)
  then have "focus s1 q0 (RF (Node a (p, Black) b) cg g # D) g (mpoRight (nodes s1 g)) (Node ul (u, Red) ur)" by (simp add: focus_up)
  from setC_focus [OF this, of Black] obtain s2 where s2: "setC u Black s1 = Some s2"
    "focus s2 q0 (RF (Node a (p, Black) b) cg g # D) g (mpoRight (nodes s1 g)) (Node ul (u, Black) ur)" "kept s1 s2" by blast
  from s2(2) have "focus s2 q0 D (mpoParent (nodes s2 g)) g (Node (Node a (p, Black) b) (g, cg) (Node ul (u, Black) ur))" by (simp add: focus_up)
  from setC_focus [OF this, of Red] obtain s3 where s3: "setC g Red s2 = Some s3"
    "focus s3 q0 D (mpoParent (nodes s2 g)) g (Node (Node a (p, Black) b) (g, Red) (Node ul (u, Black) ur))" "kept s2 s3" by blast
  with s1 s2 kept_trans [OF kept_trans [OF s1(3) s2(3)] s3(3)] show ?thesis by (auto simp: promoted_def)
qed

lemma insert_step_straight:
  "insert_step_left p g x s =
     do { u \<leftarrow> rd mpoRight g s;
          cu \<leftarrow> rd mcColor u s;
          if cu = Red
          then do { s \<leftarrow> setC p Black s; s \<leftarrow> setC u Black s; s \<leftarrow> setC g Red s; Some (g, s) }
          else do {
            pr \<leftarrow> rd mpoRight p s;
            (x, s) \<leftarrow> (if x = pr then do { s \<leftarrow> LeftRotate p s; Some (p, s) } else Some (x, s));
            straight x s } }"
  unfolding insert_step_left_def straight_def by (rule refl)

lemma red_node: "tcolor U = Red \<Longrightarrow> \<exists>ul u ur. U = Node ul (u, Red) ur"
  by (cases U rule: tcolor.cases) auto

text \<open>What a round makes of the tree; \<open>True\<close>: the loop goes on from the root of that tree.\<close>

definition round :: "rbt \<Rightarrow> frame \<Rightarrow> nat \<Rightarrow> rbt \<Rightarrow> rbt \<times> bool" where
  "round t f g U =
     (let P = (case f of LF c p b \<Rightarrow> Node t (p, c) b | RF b c p \<Rightarrow> Node b (p, c) t)
      in if tcolor U = Red then (promoted P g U, True)
         else (case f of
                 LF c p b \<Rightarrow> (Node t (p, Black) (Node b (g, Red) U), False)
               | RF b c p \<Rightarrow> (case t of Node l (x, _) r \<Rightarrow> (Node (Node b (p, Red) l) (x, Black) (Node r (g, Red) U), False))))"

lemma insert_step_left_focus:
  assumes f: "focus s q0 (f # LF cg g U # D) p x t" and t: "t = Node l (x, Red) r" and fr: "f = LF Red p b \<or> f = RF b Red p"
  shows "\<exists>y s' q1 p1. insert_step_left p g x s = Some (y, s') \<and> focus s' q0 D q1 p1 (fst (round t f g U)) \<and> kept s s' \<and>
    (if snd (round t f g U) then y = g \<and> p1 = g else settled y s')"
proof -
  define P where "P = (case f of LF c p b \<Rightarrow> Node t (p, c) b | RF b c p \<Rightarrow> Node b (p, c) t)"
  obtain a b' where P: "P = Node a (p, Red) b'" using fr by (auto simp: P_def)
  have fP: "focus s q0 (LF cg g U # D) (mpoParent (nodes s p)) p P" using f fr by (auto simp: P_def focus_up)
  then have fg: "focus s q0 D (mpoParent (nodes s g)) g (Node P (g, cg) U)" by (simp add: focus_up)
  define u where "u = mpoRight (nodes s g)"
  have u: "rd mpoRight g s = Some u" using focus_node(2) [OF fg] by (simp add: rd_def u_def)
  have cu: "rd mcColor u s = Some (tcolor U)"
    using ptr_color focus_node(7) [OF fg] fg by (auto simp: u_def focus_def)
  show ?thesis
  proof (cases "tcolor U = Red")
    case True
    then obtain ul u' ur where U: "U = Node ul (u', Red) ur" using red_node by blast
    then have "u' = u" using focus_node(7) [OF fg] by (simp add: u_def)
    with recolor_focus [of s q0 cg g ul u ur D] fP P U obtain s' q1 where
      "(do { s \<leftarrow> setC p Black s; s \<leftarrow> setC u Black s; s \<leftarrow> setC g Red s; Some (g, s) }) = Some (g, s')"
      "focus s' q0 D q1 g (promoted P g U)" "kept s s'" by blast
    moreover have "round t f g U = (promoted P g U, True)" using True by (simp add: round_def P_def Let_def)
    ultimately show ?thesis using u cu True by (auto simp: insert_step_straight)
  next
    case False
    have pr: "rd mpoRight p s = Some (mpoRight (nodes s p))" using focus_node(2) [of s q0 _ _ p a p Red b'] fP P by (auto simp: rd_def)
    from fr show ?thesis
    proof
      assume F: "f = LF Red p b"
      have "x \<noteq> mpoRight (nodes s p)"
        using f F t ptr_mem [of s p "mpoRight (nodes s p)" b] by (auto simp: focus_def)
      with straight_focus [of s q0 p b cg g U D p x l Red r] f F t u cu pr False show ?thesis
        by (auto simp: insert_step_straight round_def Let_def)
    next
      assume F: "f = RF b Red p"
      have x: "x = mpoRight (nodes s p)" using f F by (simp add: focus_up)
      have "focus s q0 (LF cg g U # D) (mpoParent (nodes s p)) p (Node b (p, Red) (Node l (x, Red) r))" using f F t by (simp add: focus_up)
      from LeftRotate_focus [OF this] obtain s1 where s1: "LeftRotate p s = Some s1"
        "focus s1 q0 (LF cg g U # D) (mpoParent (nodes s p)) x (Node (Node b (p, Red) l) (x, Red) r)" "kept s s1" by blast
      have "focus s1 q0 (LF Red x r # LF cg g U # D) x p (Node b (p, Red) l)"
        using s1(2) focus_node(1,4,6) [OF s1(2)] by (auto simp: focus_up)
      from straight_focus [OF this] obtain s' q1 where
        "straight p s1 = Some (p, s')" "focus s' q0 D q1 x (Node (Node b (p, Red) l) (x, Black) (Node r (g, Red) U))" "kept s1 s'" "settled p s'" by blast
      with s1 x u cu pr False F t kept_trans [OF s1(3)] show ?thesis by (auto simp: insert_step_straight round_def Let_def)
    qed
  qed
qed

text \<open>The parent is a right child: the mirror image.\<close>

lemma map_bind [simp]: "map_option (apsnd mir) (Option.bind m g) = Option.bind m (\<lambda>x. map_option (apsnd mir) (g x))"
  by (cases m) simp_all

lemma LeftRotate_mir: "LeftRotate x s = map_option mir (RightRotate x (mir s))"
  by (simp add: RightRotate_mir)

lemma Rotate_mir: "LeftRotate x (mir s) = map_option mir (RightRotate x s)" "RightRotate x (mir s) = map_option mir (LeftRotate x s)"
  by (simp_all add: RightRotate_mir)

lemma insert_step_right_mir: "insert_step_right p g x s = map_option (apsnd mir) (insert_step_left p g x (mir s))"
  by (simp add: insert_step_right_def insert_step_left_def if_bind Rotate_mir if_distrib [of "map_option (apsnd mir)"] cong: if_cong)

lemma mirf_twice [simp]: "mirf (mirf f) = f"
  by (cases f) simp_all

lemma insert_step_right_focus:
  assumes f: "focus s q0 (f # RF U cg g # D) p x t" and t: "t = Node l (x, Red) r" and fr: "f = LF Red p b \<or> f = RF b Red p"
  defines "R \<equiv> round (mirror t) (mirf f) g (mirror U)"
  shows "\<exists>y s' q1 p1. insert_step_right p g x s = Some (y, s') \<and> focus s' q0 D q1 p1 (mirror (fst R)) \<and> kept s s' \<and>
    (if snd R then y = g \<and> p1 = g else settled y s')"
proof -
  have m: "focus (mir s) q0 (mirf f # LF cg g (mirror U) # map mirf D) p x (mirror t)"
    using f focus_mir [of s q0 "f # RF U cg g # D" p x t] by simp
  have "mirror t = Node (mirror r) (x, Red) (mirror l)" "mirf f = LF Red p (mirror b) \<or> mirf f = RF (mirror b) Red p" using t fr by auto
  from insert_step_left_focus [OF m this] obtain y s' q1 p1 where s': "insert_step_left p g x (mir s) = Some (y, s')" "focus s' q0 (map mirf D) q1 p1 (fst R)" "kept (mir s) s'"
    "if snd R then y = g \<and> p1 = g else settled y s'"
    unfolding R_def by blast
  have "focus (mir s') q0 D q1 p1 (mirror (fst R))" using s'(2) focus_mir [of "mir s'" q0 D q1 p1 "mirror (fst R)"] by simp
  moreover have "settled y (mir s') = settled y s'" by (simp add: settled_def)
  moreover have "insert_step_right p g x s = Some (y, mir s')" "kept s (mir s')" using s'(1,3) by (simp_all add: insert_step_right_mir kept_mir)
  ultimately show ?thesis using s'(4) by metis
qed

subsection \<open>The loop\<close>

fun fcolor :: "frame \<Rightarrow> color" where
  "fcolor (LF c a r) = c"
| "fcolor (RF l c a) = c"

fun fixup :: "frame list \<Rightarrow> rbt \<Rightarrow> rbt" where
  "fixup (f # LF cg g U # D) t =
     (if fcolor f = Black then plug (f # LF cg g U # D) t
      else if snd (round t f g U) then fixup D (fst (round t f g U)) else plug D (fst (round t f g U)))"
| "fixup (f # RF U cg g # D) t =
     (let R = round (mirror t) (mirf f) g (mirror U)
      in if fcolor f = Black then plug (f # RF U cg g # D) t
         else if snd R then fixup D (mirror (fst R)) else plug D (mirror (fst R)))"
| "fixup C t = plug C t"

lemma blacken_root:
  assumes "focus s q0 C q p t" "t \<noteq> Leaf"
  shows "\<exists>s'. setC (mpoRoot s) Black s = Some s' \<and> rb_rep s' (paint Black (plug C t)) \<and> kept s s'"
proof -
  have ne: "plug C t \<noteq> Leaf" using assms(2) by (induction C t rule: plug.induct) auto
  have "rb_rep s (plug C t)" using assms(1) by (auto simp: rb_rep_focus)
  then have "rb_rep s (plug [] (plug C t))" by simp
  then obtain q1 q2 p1 where f: "focus s q1 [] q2 p1 (plug C t)" unfolding rb_rep_focus by blast
  from ne obtain l a c r where T: "plug C t = Node l (a, c) r" by (cases "plug C t") auto
  have "mpoRoot s = a" using f T by (simp add: focus_def)
  with setC_focus [of s q1 "[]" q2 p1 l a c r Black] f T obtain s' where "setC (mpoRoot s) Black s = Some s'"
    "focus s' q1 [] q2 p1 (Node l (a, Black) r)" "kept s s'" by auto
  moreover from this(2) have "rb_rep s' (plug [] (Node l (a, Black) r))" unfolding rb_rep_focus by blast
  ultimately show ?thesis using T by auto
qed

lemma settled_fixes:
  assumes "settled x s" "focus s q0 C q p t" "t \<noteq> Leaf"
  shows "\<exists>s'. rb_insert_fix x s = Some s' \<and> rb_rep s' (paint Black (plug C t)) \<and> kept s s'"
  using blacken_root [OF assms(2,3)] by (simp add: settled_ends [OF assms(1)])

lemma round_red: "t \<noteq> Leaf \<Longrightarrow> snd (round t f g U) \<Longrightarrow> \<exists>l r. fst (round t f g U) = Node l (g, Red) r"
  by (auto simp: round_def promoted_def Let_def split: if_splits frame.splits tree.splits prod.splits)

lemma round_node: "t \<noteq> Leaf \<Longrightarrow> fst (round t f g U) \<noteq> Leaf"
  by (auto simp: round_def promoted_def Let_def split: frame.splits tree.splits prod.splits)

lemma mirror_node: "mirror t = Leaf \<longleftrightarrow> t = Leaf"
  by (cases t) simp_all

lemma insert_fix_run:
  "focus s q0 C q x t \<Longrightarrow> t = Node l (x, Red) r \<Longrightarrow> (C \<noteq> [] \<Longrightarrow> fcolor (last C) = Black) \<Longrightarrow>
   \<exists>s'. rb_insert_fix x s = Some s' \<and> rb_rep s' (paint Black (fixup C t)) \<and> kept s s'"
proof (induction "length C" arbitrary: C s q x t l r rule: less_induct)
  case less
  note f = less.prems(1) and t = less.prems(2)
  have fx: "focus s q0 C q x (Node l (x, Red) r)" using f t by simp
  note fn = focus_node [OF fx]
  show ?case
  proof (cases C)
    case Nil
    then have "x = mpoRoot s" using focus_root [OF fx] by simp
    then have "rb_insert_fix x s = setC (mpoRoot s) Black s" by (subst rb_insert_fix.simps) simp
    with blacken_root [OF f] t Nil show ?thesis by simp
  next
    case (Cons f1 C1)
    have par: "mpoParent (nodes s x) = q" "q \<noteq> 0" "mcColor (nodes s q) = fcolor f1" using fn(4,8) Cons by (cases f1; auto)+
    have nr: "x \<noteq> mpoRoot s" using focus_root [OF fx] Cons by simp
    show ?thesis
    proof (cases "fcolor f1")
      case Black
      then have "settled x s" using par fn(2) by (simp add: settled_def)
      moreover have "fixup C t = plug C t" using Cons Black by (cases "(C, t)" rule: fixup.cases) (auto simp: Let_def)
      ultimately show ?thesis using settled_fixes [OF _ f] t by simp
    next
      case Red
      then have "C1 \<noteq> []" using less.prems(3) Cons by auto
      then obtain G D where C1: "C1 = G # D" by (cases C1) auto
      from Red obtain b where b: "f1 = LF Red q b \<or> f1 = RF b Red q" using fn(8) Cons by (cases f1) auto
      have len: "length D < length C" and last: "D \<noteq> [] \<Longrightarrow> fcolor (last D) = Black" using less.prems(3) by (auto simp: Cons C1)
      have unfold: "rb_insert_fix x s = do { g \<leftarrow> rd mpoParent q s; gl \<leftarrow> rd mpoLeft g s;
          (x, s) \<leftarrow> (if q = gl then insert_step_left q g x s else insert_step_right q g x s); rb_insert_fix x s }"
        by (subst rb_insert_fix.simps) (use nr par fn(2) Red in \<open>simp add: rd_def\<close>)
      have go: "\<exists>s'. rb_insert_fix x s = Some s' \<and> rb_rep s' (paint Black (fixup C t)) \<and> kept s s'"
        if step: "rb_insert_fix x s = rb_insert_fix y s1" and f1: "focus s1 q0 D q1 p1 T" and k: "kept s s1" and T: "T \<noteq> Leaf"
          and more: "if b then y = g \<and> p1 = g else settled y s1" and red: "b \<Longrightarrow> \<exists>l r. T = Node l (g, Red) r"
          and res: "fixup C t = (if b then fixup D T else plug D T)" for y s1 q1 p1 T b g
      proof (cases b)
        case True
        with more red obtain l' r' where "y = g" "p1 = g" "T = Node l' (g, Red) r'" by auto
        with less.hyps [OF len, of s1 q1 g T l' r'] f1 last obtain s' where
          "rb_insert_fix y s1 = Some s'" "rb_rep s' (paint Black (fixup D T))" "kept s1 s'" by blast
        with True step res kept_trans [OF k] show ?thesis by auto
      next
        case False
        with settled_fixes [OF _ f1 T, of y] more obtain s' where
          "rb_insert_fix y s1 = Some s'" "rb_rep s' (paint Black (plug D T))" "kept s1 s'" by auto
        with False step res kept_trans [OF k] show ?thesis by auto
      qed
      show ?thesis
      proof (cases G)
        case (LF cg g U)
        have "focus s q0 (f1 # LF cg g U # D) q x t" using f Cons C1 LF by simp
        from insert_step_left_focus [OF this t b] obtain y s1 q1 p1 where
          s1: "insert_step_left q g x s = Some (y, s1)" "focus s1 q0 D q1 p1 (fst (round t f1 g U))" "kept s s1"
            "if snd (round t f1 g U) then y = g \<and> p1 = g else settled y s1" by blast
        have "mpoParent (nodes s q) = g" "g \<noteq> 0" "mpoLeft (nodes s g) = q" using fn(8) Cons C1 LF b by auto
        with unfold par(2) s1(1) have "rb_insert_fix x s = rb_insert_fix y s1" by (simp add: rd_def)
        from go [OF this s1(2,3) round_node s1(4) round_red] show ?thesis using Cons C1 LF Red t by auto
      next
        case (RF U cg g)
        let ?R = "round (mirror t) (mirf f1) g (mirror U)"
        have "focus s q0 (f1 # RF U cg g # D) q x t" using f Cons C1 RF by simp
        from insert_step_right_focus [OF this t b] obtain y s1 q1 p1 where
          s1: "insert_step_right q g x s = Some (y, s1)" "focus s1 q0 D q1 p1 (mirror (fst ?R))" "kept s s1"
            "if snd ?R then y = g \<and> p1 = g else settled y s1" by blast
        have "mpoParent (nodes s q) = g" "g \<noteq> 0" "mpoRight (nodes s g) = q" "tree_at s g (mpoLeft (nodes s g)) U" "q \<noteq> SENT" "q \<notin> set (addrs U)"
          using f fn(8) Cons C1 RF b by (auto simp: focus_def)
        with ptr_mem [of s g "mpoLeft (nodes s g)" U] unfold par(2) s1(1) have "rb_insert_fix x s = rb_insert_fix y s1" by (auto simp: rd_def)
        moreover have "mirror (fst ?R) \<noteq> Leaf" using round_node [of "mirror t"] t by (simp add: mirror_node)
        moreover have "\<exists>l r. mirror (fst ?R) = Node l (g, Red) r" if "snd ?R" using round_red [OF _ that] t by force
        ultimately show ?thesis using go [OF _ s1(2,3) _ s1(4)] Cons C1 RF Red by (auto simp: Let_def)
      qed
    qed
  qed
qed

end
