(* ===== verification/RB_Colours.thy ===== *)
theory RB_Colours
  imports RB_Insert
begin

section \<open>The colour rules of the red-black tree\<close>

text \<open>
  The rules on the colours, for a tree and for the context of a place, and that the rounds of
  \<open>fixup\<close> restore them after a red node has come in; the height they give.
\<close>

fun bh :: "rbt \<Rightarrow> nat" where
  "bh Leaf = 0"
| "bh (Node l (a, c) r) = bh l + (if c = Black then 1 else 0)"

fun rb :: "rbt \<Rightarrow> bool" where
  "rb Leaf \<longleftrightarrow> True"
| "rb (Node l (a, c) r) \<longleftrightarrow> rb l \<and> rb r \<and> bh l = bh r \<and> (c = Red \<longrightarrow> tcolor l = Black \<and> tcolor r = Black)"

text \<open>The rules for a context, given the black height of the tree at the place; the root is black.\<close>

fun cinv :: "frame list \<Rightarrow> nat \<Rightarrow> bool" where
  "cinv [] n \<longleftrightarrow> True"
| "cinv (f # C) n \<longleftrightarrow> (let u = (case f of LF _ _ r \<Rightarrow> r | RF l _ _ \<Rightarrow> l)
     in rb u \<and> bh u = n \<and> (fcolor f = Red \<longrightarrow> tcolor u = Black \<and> C \<noteq> [] \<and> fcolor (hd C) = Black) \<and>
        cinv C (n + (if fcolor f = Black then 1 else 0)))"

lemma cinv_last: "cinv C n \<Longrightarrow> C \<noteq> [] \<Longrightarrow> fcolor (last C) = Black"
proof (induction C arbitrary: n)
  case (Cons f C)
  then show ?case by (cases "C = []"; cases "fcolor f") (auto simp: Let_def)
qed simp

lemma rb_unplug:
  "rb (plug C t) \<Longrightarrow> tcolor (plug C t) = Black \<Longrightarrow> rb t \<and> cinv C (bh t) \<and> (tcolor t = Red \<longrightarrow> C \<noteq> [] \<and> fcolor (hd C) = Black)"
proof (induction C arbitrary: t)
  case (Cons f C)
  then show ?case by (cases f; cases "fcolor f") (force simp: Let_def)+
qed simp

lemma rb_plug:
  "rb t \<Longrightarrow> cinv C (bh t) \<Longrightarrow> (tcolor t = Red \<Longrightarrow> C \<noteq> [] \<Longrightarrow> fcolor (hd C) = Black) \<Longrightarrow> rb (plug C t)"
proof (induction C arbitrary: t)
  case (Cons f C)
  show ?case
  proof (cases f)
    case (LF c a r)
    with Cons.prems show ?thesis using Cons.IH [of "Node t (a, c) r"] by (cases c; cases "tcolor t") (auto simp: Let_def)
  next
    case (RF l c a)
    with Cons.prems show ?thesis using Cons.IH [of "Node l (a, c) t"] by (cases c; cases "tcolor t") (auto simp: Let_def)
  qed
qed simp

lemma mirror_color [simp]: "tcolor (mirror t) = tcolor t"
  by (cases t rule: tcolor.cases) auto

lemma rb_mirror: "rb t \<Longrightarrow> rb (mirror t) \<and> bh (mirror t) = bh t"
  by (induction t rule: rb.induct) auto

lemma rb_paint: "rb t \<Longrightarrow> rb (paint Black t)"
  by (cases t rule: tcolor.cases) auto

lemma round_rb:
  assumes "rb t" "tcolor t = Red" "f = LF Red p b \<or> f = RF b Red p" "rb b" "bh b = bh t" "tcolor b = Black" "rb U" "bh U = bh t"
  shows "rb (fst (round t f g U)) \<and> bh (fst (round t f g U)) = bh t + 1 \<and> tcolor (fst (round t f g U)) = (if snd (round t f g U) then Red else Black)"
proof -
  from red_node [OF assms(2)] obtain l x r where t: "t = Node l (x, Red) r" by blast
  have U: "tcolor U = Red \<Longrightarrow> \<exists>ul u ur. U = Node ul (u, Red) ur" using red_node by blast
  show ?thesis
    using assms U unfolding t by (cases "tcolor U") (auto simp: round_def promoted_def Let_def)
qed

lemma round_addrs:
  "t \<noteq> Leaf \<Longrightarrow> addrs (fst (round t f g U)) = addrs (case f of LF c p b \<Rightarrow> Node t (p, c) b | RF b c p \<Rightarrow> Node b (p, c) t) @ g # addrs U"
  by (auto simp: round_def promoted_def Let_def split: frame.splits tree.splits prod.splits)

lemma fixup_addrs: "t \<noteq> Leaf \<Longrightarrow> addrs (fixup C t) = addrs (plug C t)"
proof (induction C t rule: fixup.induct)
  case (1 f cg g U D t)
  then show ?case by (cases f) (auto simp: addrs_plug round_addrs round_node)
next
  case (2 f U cg g D t)
  have "mirror (fst (round (mirror t) (mirf f) g (mirror U))) \<noteq> Leaf" using 2(2) by (simp add: mirror_node round_node)
  moreover have "addrs (fst (round (mirror t) (mirf f) g (mirror U))) = addrs (case mirf f of LF c p b \<Rightarrow> Node (mirror t) (p, c) b | RF b c p \<Rightarrow> Node b (p, c) (mirror t)) @ g # rev (addrs U)"
    using round_addrs [of "mirror t"] 2(2) by (simp add: mirror_node)
  ultimately show ?case using 2(1) by (cases f) (auto simp: addrs_plug Let_def)
qed simp_all

lemma fixup_rb: "rb t \<Longrightarrow> tcolor t = Red \<Longrightarrow> cinv C (bh t) \<Longrightarrow> rb (fixup C t)"
proof (induction C t rule: fixup.induct)
  case (1 f cg g U D t)
  show ?case
  proof (cases "fcolor f")
    case Black
    with 1(2-4) rb_plug [of t "f # LF cg g U # D"] show ?thesis by simp
  next
    case Red
    then obtain p b where f: "f = LF Red p b \<or> f = RF b Red p" by (cases f) auto
    let ?R = "round t f g U"
    have c: "rb b" "bh b = bh t" "tcolor b = Black" "rb U" "bh U = bh t" "cg = Black" "cinv D (bh t + 1)" using 1(4) f by (auto simp: Let_def)
    note r = round_rb [OF 1(2,3) f c(1-5), of g]
    show ?thesis
    proof (cases "snd ?R")
      case True
      with 1(1) r c(7) Red show ?thesis by simp
    next
      case False
      with rb_plug [of "fst ?R" D] r c(7) Red show ?thesis by simp
    qed
  qed
next
  case (2 f U cg g D t)
  show ?case
  proof (cases "fcolor f")
    case Black
    with 2(2-4) rb_plug [of t "f # RF U cg g # D"] show ?thesis by (simp add: Let_def)
  next
    case Red
    then obtain p b where f: "f = LF Red p b \<or> f = RF b Red p" by (cases f) auto
    let ?R = "round (mirror t) (mirf f) g (mirror U)"
    have c: "rb b" "bh b = bh t" "tcolor b = Black" "rb U" "bh U = bh t" "cg = Black" "cinv D (bh t + 1)" using 2(4) f by (auto simp: Let_def)
    have m: "rb (mirror t)" "bh (mirror t) = bh t" "rb (mirror b)" "bh (mirror b) = bh b" "rb (mirror U)" "bh (mirror U) = bh U"
      using rb_mirror 2(2) c(1,4) by blast+
    have "mirf f = LF Red p (mirror b) \<or> mirf f = RF (mirror b) Red p" using f by auto
    from round_rb [OF m(1) _ this m(3) _ _ m(5), of g] m c 2(3)
    have r: "rb (fst ?R)" "bh (fst ?R) = bh t + 1" "tcolor (fst ?R) = (if snd ?R then Red else Black)" by simp_all
    note r' = rb_mirror [OF r(1)]
    show ?thesis
    proof (cases "snd ?R")
      case True
      with 2(1) [OF refl] r r' c(7) Red show ?thesis by (simp add: Let_def)
    next
      case False
      with rb_plug [of "mirror (fst ?R)" D] r r' c(7) Red show ?thesis by (simp add: Let_def)
    qed
  qed
qed (auto intro!: rb_plug simp: Let_def intro: color.exhaust)

text \<open>The height of a red-black tree.\<close>

lemma rb_height: "rb t \<Longrightarrow> height t \<le> 2 * bh t + (if tcolor t = Red then 1 else 0)"
proof (induction t rule: rb.induct)
  case (2 l a c r)
  then show ?case by (cases c; cases "tcolor l"; cases "tcolor r") auto
qed simp

lemma rb_size: "rb t \<Longrightarrow> 2 ^ bh t \<le> length (addrs t) + 1"
  by (induction t rule: rb.induct) auto

lemma rb_balanced:
  assumes "rb t" "tcolor t = Black"
  shows "2 ^ ((height t + 1) div 2) \<le> length (addrs t) + 1"
proof -
  have "(height t + 1) div 2 \<le> bh t" using rb_height [OF assms(1)] assms(2) by simp
  then have "(2 :: nat) ^ ((height t + 1) div 2) \<le> 2 ^ bh t" by (intro power_increasing) simp_all
  with rb_size [OF assms(1)] show ?thesis by linarith
qed

end
