(* ===== verification/RB_Search.thy ===== *)
theory RB_Search
  imports RB_Colours
begin

section \<open>The order of the keys and insertion\<close>

text \<open>
  Keys are compared by the sign of a 32-bit difference, so they are in order only within a window of
  \<open>2 ^ 31\<close> above some base. \<open>queue_of\<close> says that the linked nodes are a red-black tree whose walk is a
  given list of nodes in the order of their keys; \<open>Insert\<close> puts a node after those with the same key.
\<close>

definition offset :: "u64 \<Rightarrow> u64 \<Rightarrow> nat" where "offset base k = unat (k - base)"

abbreviation off :: "u64 \<Rightarrow> rbtree \<Rightarrow> nat \<Rightarrow> nat" where "off base s a \<equiv> offset base (mtKey (nodes s a))"

lemma diff_window:
  assumes "offset base k < 2 ^ 31" "offset base k' < 2 ^ 31"
  shows "sint (ucast (k - k') :: u32) = int (offset base k) - int (offset base k')"
proof -
  define a b where "a = k - base" and "b = k' - base"
  have "k - k' = a - b" by (simp add: a_def b_def)
  moreover have "uint (a - b) = take_bit 64 (uint a - uint b)" by (simp add: uint_word_ariths take_bit_eq_mod)
  moreover have "sint (ucast w :: u32) = signed_take_bit 31 (uint w)" for w :: u64 by (simp add: sint_uint unsigned_ucast_eq signed_take_bit_take_bit)
  ultimately have s: "sint (ucast (k - k') :: u32) = signed_take_bit 31 (uint a - uint b)" by (simp add: signed_take_bit_take_bit)
  have "int (unat a) < int (2 ^ 31)" "int (unat b) < int (2 ^ 31)" using assms unfolding offset_def a_def b_def of_nat_less_iff by -
  then have "uint a < 2 ^ 31" "uint b < 2 ^ 31" by simp_all
  then have "- (2 ^ 31) \<le> uint a - uint b" "uint a - uint b < 2 ^ 31" using uint_nonnegative [of a] uint_nonnegative [of b] by linarith+
  then have "signed_take_bit 31 (uint a - uint b) = uint a - uint b" by (rule signed_take_bit_int_eq_self)
  with s show ?thesis by (simp add: offset_def a_def b_def)
qed

lemma key_less_window:
  "offset base k < 2 ^ 31 \<Longrightarrow> offset base k' < 2 ^ 31 \<Longrightarrow> key_less k k' \<longleftrightarrow> offset base k < offset base k'"
  using diff_window [of base k k'] by (simp add: key_less_def)

definition window :: "u64 \<Rightarrow> rbtree \<Rightarrow> nat list \<Rightarrow> bool" where
  "window base s xs \<longleftrightarrow> (\<forall>a\<in>set xs. off base s a < 2 ^ 31)"

definition queue_of :: "u64 \<Rightarrow> rbtree \<Rightarrow> nat list \<Rightarrow> bool" where
  "queue_of base s xs \<longleftrightarrow> (\<exists>T. rb_rep s T \<and> addrs T = xs \<and> rb T \<and> tcolor T = Black) \<and> window base s xs \<and> sorted (map (off base s) xs)"

lemma kept_off: "kept s s' \<Longrightarrow> off base s' a = off base s a"
  by (simp add: kept_def)

subsection \<open>The place of a new node\<close>

lemma link_leaf:
  assumes f: "focus s q0 C q SENT Leaf" and x: "x \<notin> set (caddrs C)" "x \<noteq> 0" "x \<noteq> SENT" and C: "C \<noteq> []"
  defines "s' \<equiv> (relink C x s)\<lparr>nodes := (nodes (relink C x s))(x := (nodes s x)\<lparr>mpoParent := q, mpoLeft := SENT, mpoRight := SENT, mcColor := Red\<rparr>)\<rparr>"
  shows "focus s' q0 C q x (Node Leaf (x, Red) Leaf)" "kept s s'"
proof -
  have c: "ctx_at s q0 (mpoRoot s) C q SENT" "distinct (caddrs C)" using f by (simp_all add: focus_def)
  note r = relink_ctx [OF this, of x]
  have "mpoRoot s' = mpoRoot (relink C x s)" by (simp add: s'_def)
  moreover have "ctx_at s' q0 p C q x = ctx_at (relink C x s) q0 p C q x" for p by (rule ctx_at_cong) (use x in \<open>auto simp: s'_def\<close>)
  moreover have "SENT \<notin> set (caddrs C)" using ctx_at_addrs [OF c(1)] by blast
  then have "nodes s' SENT = nodes s SENT" using x by (simp add: s'_def relink_nodes)
  ultimately show "focus s' q0 C q x (Node Leaf (x, Red) Leaf)" using r f x by (auto simp: focus_def s'_def)
  have "mtKey (nodes (relink C x s) a) = mtKey (nodes s a)" for a by (cases C rule: caddrs.cases) (simp_all add: relink_def)
  with \<open>nodes s' SENT = nodes s SENT\<close> show "kept s s'" by (simp add: kept_def s'_def)
qed

text \<open>What the loop knows of the place it has come to.\<close>

definition place_for :: "u64 \<Rightarrow> rbtree \<Rightarrow> nat \<Rightarrow> frame list \<Rightarrow> bool" where
  "place_for base s x C \<longleftrightarrow> (\<forall>a\<in>set (lside C). off base s a \<le> off base s x) \<and> (\<forall>a\<in>set (rside C). off base s x < off base s a)"

lemma insert_leaf_run:
  assumes "focus s q0 C q p t" "t \<noteq> Leaf" "x \<notin> set (caddrs C @ addrs t)" "x \<noteq> 0" "x \<noteq> SENT"
    "window base s (x # addrs (plug C t))" "sorted (map (off base s) (addrs (plug C t)))" "place_for base s x C"
  shows "\<exists>s' D y. rb_insert_leaf p x s = Some s' \<and> plug D Leaf = plug C t \<and> focus s' q0 D y x (Node Leaf (x, Red) Leaf) \<and>
    kept s s' \<and> place_for base s x D"
  using assms
proof (induction t arbitrary: C q p)
  case (Node l n r)
  obtain a c where n: "n = (a, c)" by (cases n)
  note f = Node.prems(1) [unfolded n]
  note fn = focus_node [OF f]
  have less: "key_less (mtKey (nodes s x)) (mtKey (nodes s a)) \<longleftrightarrow> off base s x < off base s a"
    using Node.prems(6) by (intro key_less_window) (auto simp: window_def n addrs_plug)
  have srt: "\<forall>b\<in>set (addrs l). off base s b \<le> off base s a" "\<forall>b\<in>set (addrs r). off base s a \<le> off base s b"
    "\<forall>b\<in>set (lside C). off base s b \<le> off base s a" "\<forall>b\<in>set (rside C). off base s a \<le> off base s b"
    using Node.prems(7) by (auto simp: n addrs_plug sorted_append)
  have xa: "x \<noteq> a" using Node.prems(3) n by auto
  have down: ?case if g: "focus s q0 D a ch u" and D: "D \<noteq> []" and pl: "place_for base s x D" and pg: "plug D u = plug C (Node l n r)"
    and code: "rb_insert_leaf p x s = (if ch = SENT then Some ((relink D x s)\<lparr>nodes := (nodes (relink D x s))(x := (nodes s x)\<lparr>mpoParent := a, mpoLeft := SENT, mpoRight := SENT, mcColor := Red\<rparr>)\<rparr>)
        else rb_insert_leaf ch x s)"
    and u: "u = l \<or> u = r" for D ch u
  proof (cases "u = Leaf")
    case True
    with g have ch: "ch = SENT" by (simp add: focus_def)
    have "x \<notin> set (caddrs D)" using Node.prems(3) pg True set_plug [of D Leaf] set_plug [of C "Node l n r"] by auto
    from link_leaf [of s q0 D a x] g True ch this Node.prems(4,5) D show ?thesis using code pl pg by fastforce
  next
    case False
    with g have "ch \<noteq> SENT" by (cases u) (auto simp: focus_def)
    moreover have "x \<notin> set (caddrs D @ addrs u)" using Node.prems(3) pg set_plug [of D u] set_plug [of C "Node l n r"] by auto
    moreover have "window base s (x # addrs (plug D u))" "sorted (map (off base s) (addrs (plug D u)))" using Node.prems(6,7) pg by simp_all
    ultimately have "\<exists>s' E y. rb_insert_leaf ch x s = Some s' \<and> plug E Leaf = plug D u \<and> focus s' q0 E y x (Node Leaf (x, Red) Leaf) \<and>
        kept s s' \<and> place_for base s x E"
      using u Node.IH(1) [of D a ch] Node.IH(2) [of D a ch] False g pl Node.prems(4,5) by blast
    with code pg \<open>ch \<noteq> SENT\<close> show ?thesis by simp
  qed
  have unf: "rb_insert_leaf p x s = do { ch \<leftarrow> (if off base s x < off base s a then rd mpoLeft a s else rd mpoRight a s);
      if ch = SENT then do { s \<leftarrow> (if off base s x < off base s a then setL a x s else setR a x s);
                    s \<leftarrow> setP x a s; s \<leftarrow> setL x SENT s; s \<leftarrow> setR x SENT s; setC x Red s }
      else rb_insert_leaf ch x s }"
    by (subst rb_insert_leaf.simps) (use fn(1,2) Node.prems(4) less in \<open>simp add: rd_def\<close>)
  show ?case
  proof (cases "off base s x < off base s a")
    case True
    show ?thesis
    proof (rule down [of "LF c a r # C" "mpoLeft (nodes s a)" l])
      show "focus s q0 (LF c a r # C) a (mpoLeft (nodes s a)) l" using f fn by (simp add: focus_up)
      show "place_for base s x (LF c a r # C)" using Node.prems(8) True srt by (fastforce simp: place_for_def)
    qed (use n True unf fn(2) xa Node.prems(4) in \<open>simp_all add: rd_def wr_def relink_def\<close>)
  next
    case False
    show ?thesis
    proof (rule down [of "RF l c a # C" "mpoRight (nodes s a)" r])
      show "focus s q0 (RF l c a # C) a (mpoRight (nodes s a)) r" using f fn by (simp add: focus_up)
      show "place_for base s x (RF l c a # C)" using Node.prems(8) False srt by (fastforce simp: place_for_def)
    qed (use n False unf fn(2) xa Node.prems(4) in \<open>simp_all add: rd_def wr_def relink_def\<close>)
  qed
qed simp

subsection \<open>The whole insertion\<close>

definition enqueue :: "(nat \<Rightarrow> nat) \<Rightarrow> nat \<Rightarrow> nat list \<Rightarrow> nat list" where
  "enqueue k x xs = takeWhile (\<lambda>a. k a \<le> k x) xs @ x # dropWhile (\<lambda>a. k a \<le> k x) xs"

lemma enqueue_split:
  assumes "\<forall>a\<in>set ys. k a \<le> k x" "\<forall>a\<in>set zs. k x < k a"
  shows "enqueue k x (ys @ zs) = ys @ x # zs"
proof -
  have "takeWhile (\<lambda>a. k a \<le> k x) zs = []" "dropWhile (\<lambda>a. k a \<le> k x) zs = zs" using assms(2) by (cases zs; simp)+
  with assms(1) show ?thesis by (simp add: enqueue_def takeWhile_append dropWhile_append)
qed

lemma enqueue_set [simp]: "set (enqueue k x xs) = insert x (set xs)"
proof -
  have "set xs = set (takeWhile (\<lambda>a. k a \<le> k x) xs) \<union> set (dropWhile (\<lambda>a. k a \<le> k x) xs)"
    by (simp only: set_append [symmetric] takeWhile_dropWhile_id)
  then show ?thesis by (auto simp: enqueue_def)
qed

lemma enqueue_length: "length (enqueue k x xs) = length xs + 1"
proof -
  have "length (takeWhile (\<lambda>a. k a \<le> k x) xs @ dropWhile (\<lambda>a. k a \<le> k x) xs) = length xs" by simp
  then show ?thesis by (simp add: enqueue_def del: takeWhile_dropWhile_id)
qed

lemma enqueue_sorted: "sorted (map k xs) \<Longrightarrow> sorted (map k (enqueue k x xs))"
proof (induction xs)
  case (Cons a xs)
  show ?case
  proof (cases "k a \<le> k x")
    case True
    then have "enqueue k x (a # xs) = a # enqueue k x xs" by (simp add: enqueue_def)
    with True Cons show ?thesis by simp
  next
    case False
    with Cons.prems show ?thesis by (fastforce simp: enqueue_def)
  qed
qed (simp add: enqueue_def)

lemma rb_Insert_empty:
  assumes "rb_rep s Leaf" "x \<noteq> 0" "x \<noteq> SENT"
  shows "\<exists>s'. rb_Insert x s = Some s' \<and> rb_rep s' (Node Leaf (x, Black) Leaf) \<and> kept s s'"
  using assms by (auto simp: rb_Insert_def rb_rep_def wr_def kept_def)

lemma rb_Insert_node:
  assumes rep: "rb_rep s T" and T: "T \<noteq> Leaf" "rb T" "tcolor T = Black" and x: "x \<notin> set (addrs T)" "x \<noteq> 0" "x \<noteq> SENT"
    and w: "window base s (x # addrs T)" and srt: "sorted (map (off base s) (addrs T))"
  shows "\<exists>s' T'. rb_Insert x s = Some s' \<and> rb_rep s' T' \<and> addrs T' = enqueue (off base s) x (addrs T) \<and> rb T' \<and> tcolor T' = Black \<and> kept s s'"
proof -
  from rep obtain q0 q p where f: "focus s q0 [] q p T" using rb_rep_focus [of s "[]" T] by auto
  then have p: "p = mpoRoot s" by (simp add: focus_def)
  from T(1) p f have "mpoRoot s \<noteq> SENT" by (cases T) (auto simp: focus_def)
  then have ins: "rb_Insert x s = do { s \<leftarrow> rb_insert_leaf p x s; rb_insert_fix x s }" by (simp add: rb_Insert_def p)
  from insert_leaf_run [OF f T(1), of x base] x w srt obtain s1 D y where
    s1: "rb_insert_leaf p x s = Some s1" "plug D Leaf = T" "focus s1 q0 D y x (Node Leaf (x, Red) Leaf)" "kept s s1" "place_for base s x D"
    by (auto simp: place_for_def)
  have D: "cinv D 0" using rb_unplug [of D Leaf] s1(2) T(2,3) by auto
  from insert_fix_run [OF s1(3) refl] cinv_last [OF D] obtain s' where
    s': "rb_insert_fix x s1 = Some s'" "rb_rep s' (paint Black (fixup D (Node Leaf (x, Red) Leaf)))" "kept s1 s'" by blast
  have addrs: "addrs (fixup D (Node Leaf (x, Red) Leaf)) = enqueue (off base s) x (addrs T)"
    using s1(2,5) enqueue_split [of "lside D" "off base s" x "rside D"] by (auto simp: fixup_addrs addrs_plug place_for_def)
  have "rb (fixup D (Node Leaf (x, Red) Leaf))" using D by (intro fixup_rb) auto
  then have "rb (paint Black (fixup D (Node Leaf (x, Red) Leaf)))" by (rule rb_paint)
  moreover have "addrs (paint Black t) = addrs t" "tcolor (paint Black t) = Black" for t by (cases t rule: tcolor.cases; simp)+
  ultimately show ?thesis using ins s1(1) s' addrs kept_trans [OF s1(4) s'(3)] by auto
qed

lemma Insert_queue:
  assumes q: "queue_of base s xs" and x: "x \<notin> set xs" "x \<noteq> 0" "x \<noteq> SENT" "off base s x < 2 ^ 31"
  shows "\<exists>s'. rb_Insert x s = Some s' \<and> queue_of base s' (enqueue (off base s) x xs) \<and> kept s s'"
proof -
  from q obtain T where T: "rb_rep s T" "addrs T = xs" "rb T" "tcolor T = Black" and w: "window base s (x # xs)" and srt: "sorted (map (off base s) xs)"
    using x(4) by (auto simp: queue_of_def window_def)
  have "\<exists>s' T'. rb_Insert x s = Some s' \<and> rb_rep s' T' \<and> addrs T' = enqueue (off base s) x xs \<and> rb T' \<and> tcolor T' = Black \<and> kept s s'"
  proof (cases "T = Leaf")
    case True
    with T(1) rb_Insert_empty [of s x] x(2,3) obtain s' where "rb_Insert x s = Some s'" "rb_rep s' (Node Leaf (x, Black) Leaf)" "kept s s'" by auto
    moreover have "addrs (Node Leaf (x, Black) Leaf) = enqueue (off base s) x xs" using True T(2) by (simp add: enqueue_def)
    moreover have "rb (Node Leaf (x, Black) Leaf)" "tcolor (Node Leaf (x, Black) Leaf) = Black" by simp_all
    ultimately show ?thesis by blast
  next
    case False
    with rb_Insert_node [OF T(1) _ T(3,4)] x w srt T(2) show ?thesis by blast
  qed
  then obtain s' T' where s': "rb_Insert x s = Some s'" "rb_rep s' T'" "addrs T' = enqueue (off base s) x xs" "rb T'" "tcolor T' = Black" "kept s s'" by blast
  have "off base s' = off base s" using kept_off [OF s'(6)] by auto
  then have "sorted (map (off base s') (enqueue (off base s) x xs))" using enqueue_sorted [OF srt] by simp
  moreover have "window base s' (enqueue (off base s) x xs)" using w kept_off [OF s'(6)] by (simp add: window_def)
  ultimately show ?thesis using s' by (auto simp: queue_of_def)
qed

end
