(* ===== verification/RB_Delete.thy ===== *)
theory RB_Delete
  imports RB_Search
begin

section \<open>Deletion of a node with at most one child\<close>

text \<open>
  Where the node has a missing child, \<open>CRBTree::Delete\<close> cuts out the node itself, and its loop
  restores the black heights: the result is the red-black tree of the other nodes in their order.
\<close>

subsection \<open>Colours and rotations below a place\<close>

lemma setC_deep:
  assumes "focus s q0 C q p (plug E (Node l (a, c) r))"
  shows "\<exists>s'. setC a c' s = Some s' \<and> focus s' q0 C q p (plug E (Node l (a, c') r)) \<and> kept s s'"
proof -
  let ?s = "s\<lparr>nodes := (nodes s)(a := (nodes s a)\<lparr>mcColor := c'\<rparr>)\<rparr>"
  from assms obtain q1 p1 where E: "ctx_at s q p E q1 p1" "tree_at s q1 p1 (Node l (a, c) r)" and C: "ctx_at s q0 (mpoRoot s) C q p"
    by (auto simp: focus_def tree_at_plug)
  have d: "distinct (caddrs C @ caddrs E @ addrs l @ a # addrs r)" "mcColor (nodes s SENT) = Black"
    using assms distinct_plug [of E "Node l (a, c) r"] set_plug [of E "Node l (a, c) r"] by (auto simp: focus_def)
  have "ctx_at ?s q p E q1 p1 = ctx_at s q p E q1 p1" by (rule ctx_at_cong) (use d in auto)
  moreover have "ctx_at ?s q0 (mpoRoot s) C q p = ctx_at s q0 (mpoRoot s) C q p" by (rule ctx_at_cong) (use d in auto)
  moreover have "tree_at ?s a z t = tree_at s a z t" if "t \<in> {l, r}" for z t by (rule tree_at_cong) (use d that in auto)
  then have "tree_at ?s q1 p1 (Node l (a, c') r)" using E(2) by auto
  moreover have "distinct (caddrs C @ addrs (plug E (Node l (a, c') r)))"
    using d distinct_plug [of E "Node l (a, c') r"] set_plug [of E "Node l (a, c') r"] by auto
  moreover have "a \<noteq> 0" "a \<noteq> SENT" using E(2) by auto
  ultimately show ?thesis using d(2) E(1) C by (auto simp: focus_def tree_at_plug wr_def kept_def)
qed

text \<open>
  The place of the left subtree \<open>t\<close> of \<open>a\<close>, whose sibling is \<open>W\<close>. The code reads the parent of \<open>t\<close>, of
  the sentinel too.
\<close>

definition tptr :: "rbt \<Rightarrow> nat" where
  "tptr t = (case t of Leaf \<Rightarrow> SENT | Node l n r \<Rightarrow> fst n)"

lemma tptr_simps [simp]: "tptr Leaf = SENT" "tptr (Node l (a, c) r) = a"
  by (simp_all add: tptr_def)

lemma ptr_tptr: "tree_at s q p t \<Longrightarrow> p = tptr t"
  by (cases t) auto

definition at_left :: "rbtree \<Rightarrow> nat \<Rightarrow> frame list \<Rightarrow> rbt \<Rightarrow> color \<Rightarrow> nat \<Rightarrow> rbt \<Rightarrow> bool" where
  "at_left s q0 D t c a W \<longleftrightarrow> (\<exists>q. focus s q0 D q a (Node t (a, c) W)) \<and> (t = Leaf \<longrightarrow> mpoParent (nodes s SENT) = a)"

lemma at_left_kept:
  "at_left s q0 D t c a W \<Longrightarrow> kept s s' \<Longrightarrow> focus s' q0 D' q a (Node t (a, c') W') \<Longrightarrow> at_left s' q0 D' t c' a W'"
  by (auto simp: at_left_def kept_def)

lemma at_left_reads:
  assumes "at_left s q0 D t c a W"
  shows "rd mpoParent (tptr t) s = Some a" "rd mpoRight a s = Some (tptr W)" "rd mcColor (tptr W) s = Some (tcolor W)" "rd mcColor a s = Some c"
    "rd mpoLeft a s = Some (tptr t)"
proof -
  from assms obtain q where f: "focus s q0 D q a (Node t (a, c) W)" by (auto simp: at_left_def)
  note fn = focus_node [OF f]
  show "rd mpoParent (tptr t) s = Some a" using fn(6) assms by (cases t) (auto simp: rd_def at_left_def SENT_def)
  show "rd mpoRight a s = Some (tptr W)" "rd mcColor a s = Some c" "rd mpoLeft a s = Some (tptr t)"
    using ptr_tptr [OF fn(7)] ptr_tptr [OF fn(6)] fn(2,5) by (simp_all add: rd_def)
  show "rd mcColor (tptr W) s = Some (tcolor W)" using fn(7) ptr_tptr [OF fn(7)] ptr_color [OF fn(7)] f by (simp add: focus_def)
qed

lemma at_left_sibling:
  assumes "at_left s q0 D t c a (Node l (w, d) r)"
  shows "rd mpoLeft w s = Some (tptr l)" "rd mpoRight w s = Some (tptr r)" "rd mcColor (tptr l) s = Some (tcolor l)" "rd mcColor (tptr r) s = Some (tcolor r)"
proof -
  from assms obtain q where "focus s q0 D q a (Node t (a, c) (Node l (w, d) r))" by (auto simp: at_left_def)
  then have w: "w \<noteq> 0" "mcColor (nodes s SENT) = Black" and l: "tree_at s w (mpoLeft (nodes s w)) l" and r: "tree_at s w (mpoRight (nodes s w)) r"
    by (auto simp: focus_def)
  show "rd mpoLeft w s = Some (tptr l)" "rd mpoRight w s = Some (tptr r)" using w ptr_tptr [OF l] ptr_tptr [OF r] by (simp_all add: rd_def)
  show "rd mcColor (tptr l) s = Some (tcolor l)" "rd mcColor (tptr r) s = Some (tcolor r)"
    using ptr_tptr [OF l] ptr_tptr [OF r] ptr_color [OF l w(2)] ptr_color [OF r w(2)] by simp_all
qed

lemma at_left_color:
  assumes "at_left s q0 D t c a (plug E (Node l (w, d) r))"
  shows "\<exists>s'. setC w d' s = Some s' \<and> at_left s' q0 D t c a (plug E (Node l (w, d') r)) \<and> kept s s'"
proof -
  from assms obtain q where "focus s q0 D q a (plug (E @ [RF t c a]) (Node l (w, d) r))"
    by (auto simp: at_left_def plug_append)
  from setC_deep [OF this, of d'] obtain s' where
    s': "setC w d' s = Some s'" "focus s' q0 D q a (plug (E @ [RF t c a]) (Node l (w, d') r))" "kept s s'" by blast
  with at_left_kept [OF assms s'(3), of D q c] show ?thesis by (auto simp: plug_append)
qed

lemma at_left_color_parent:
  assumes "at_left s q0 D t c a W"
  shows "\<exists>s'. setC a c' s = Some s' \<and> at_left s' q0 D t c' a W \<and> kept s s'"
proof -
  from assms obtain q where "focus s q0 D q a (Node t (a, c) W)" by (auto simp: at_left_def)
  from setC_focus [OF this, of c'] at_left_kept [OF assms] show ?thesis by blast
qed

lemma at_left_rotate:
  assumes "at_left s q0 D t c a (Node l (w, d) r)"
  shows "\<exists>s' q. LeftRotate a s = Some s' \<and> focus s' q0 D q w (Node (Node t (a, c) l) (w, d) r) \<and> kept s s' \<and> at_left s' q0 (LF d w r # D) t c a l"
proof -
  from assms obtain q where "focus s q0 D q a (Node t (a, c) (Node l (w, d) r))" by (auto simp: at_left_def)
  from LeftRotate_focus [OF this] obtain s' where s': "LeftRotate a s = Some s'" "focus s' q0 D q w (Node (Node t (a, c) l) (w, d) r)" "kept s s'" by blast
  have "focus s' q0 (LF d w r # D) w a (Node t (a, c) l)" using s'(2) focus_node(4,6) [OF s'(2)] by (auto simp: focus_up)
  from at_left_kept [OF assms s'(3) this] s' show ?thesis by blast
qed

lemma at_left_rotate_sibling:
  assumes "at_left s q0 D t c a (Node (Node E (u, d) B) (w, e) A)"
  shows "\<exists>s'. RightRotate w s = Some s' \<and> at_left s' q0 D t c a (Node E (u, d) (Node B (w, e) A)) \<and> kept s s'"
proof -
  from assms obtain q where f: "focus s q0 D q a (Node t (a, c) (Node (Node E (u, d) B) (w, e) A))" by (auto simp: at_left_def)
  then have "focus s q0 (RF t c a # D) a w (Node (Node E (u, d) B) (w, e) A)" using focus_node(4,7) [OF f] by (auto simp: focus_up)
  from RightRotate_focus [OF this] obtain s' where s': "RightRotate w s = Some s'"
    "focus s' q0 (RF t c a # D) a u (Node E (u, d) (Node B (w, e) A))" "kept s s'" by blast
  from s'(2) at_left_kept [OF assms s'(3), of D "mpoParent (nodes s' a)" c] s' show ?thesis by (auto simp: focus_up)
qed

subsection \<open>One round\<close>

definition far :: "nat \<Rightarrow> nat \<Rightarrow> rbtree \<Rightarrow> (nat \<times> rbtree) option" where
  "far t w s = do { p \<leftarrow> rd mpoParent t s; cp \<leftarrow> rd mcColor p s; s \<leftarrow> setC w cp s; s \<leftarrow> setC p Black s; wr' \<leftarrow> rd mpoRight w s;
     s \<leftarrow> setC wr' Black s; s \<leftarrow> LeftRotate p s; Some (mpoRoot s, s) }"

definition sib :: "nat \<Rightarrow> nat \<Rightarrow> rbtree \<Rightarrow> (nat \<times> rbtree) option" where
  "sib t w s =
     do { wl \<leftarrow> rd mpoLeft w s; cl \<leftarrow> rd mcColor wl s;
          wr' \<leftarrow> rd mpoRight w s; cr \<leftarrow> rd mcColor wr' s;
          if cl = Black \<and> cr = Black
          then do { s \<leftarrow> setC w Red s; p \<leftarrow> rd mpoParent t s; Some (p, s) }
          else do {
            (w, s) \<leftarrow> (if cr = Black
                       then do { s \<leftarrow> setC wl Black s; s \<leftarrow> setC w Red s; s \<leftarrow> RightRotate w s;
                                 p \<leftarrow> rd mpoParent t s; w \<leftarrow> rd mpoRight p s; Some (w, s) }
                       else Some (w, s));
            far t w s } }"

lemma delete_step_left_sib:
  "delete_step_left t p s =
     do { w \<leftarrow> rd mpoRight p s;
          cw \<leftarrow> rd mcColor w s;
          (w, s) \<leftarrow> (if cw = Red
                     then do { s \<leftarrow> setC w Black s; s \<leftarrow> setC p Red s; s \<leftarrow> LeftRotate p s;
                               p \<leftarrow> rd mpoParent t s; w \<leftarrow> rd mpoRight p s; Some (w, s) }
                     else Some (w, s));
          sib t w s }"
  unfolding delete_step_left_def sib_def far_def by (rule refl)

lemma far_run:
  assumes "at_left s q0 D t c a (Node l (w, d) (Node l' (v, Red) r'))"
  shows "\<exists>s' q. far (tptr t) w s = Some (mpoRoot s', s') \<and> focus s' q0 D q w (Node (Node t (a, Black) l) (w, c) (Node l' (v, Black) r')) \<and> kept s s'"
proof -
  from at_left_color [of s q0 D t c a "[]" l w d "Node l' (v, Red) r'" c] assms obtain s1 where
    s1: "setC w c s = Some s1" "at_left s1 q0 D t c a (Node l (w, c) (Node l' (v, Red) r'))" "kept s s1" by auto
  from at_left_color_parent [OF s1(2), of Black] obtain s2 where
    s2: "setC a Black s1 = Some s2" "at_left s2 q0 D t Black a (Node l (w, c) (Node l' (v, Red) r'))" "kept s1 s2" by blast
  from at_left_color [of s2 q0 D t Black a "[RF l c w]" l' v Red r' Black] s2(2) obtain s3 where
    s3: "setC v Black s2 = Some s3" "at_left s3 q0 D t Black a (Node l (w, c) (Node l' (v, Black) r'))" "kept s2 s3" by auto
  from at_left_rotate [OF s3(2)] obtain s' q where
    s': "LeftRotate a s3 = Some s'" "focus s' q0 D q w (Node (Node t (a, Black) l) (w, c) (Node l' (v, Black) r'))" "kept s3 s'" by blast
  have "far (tptr t) w s = Some (mpoRoot s', s')"
    using at_left_reads [OF assms] s1(1) s2(1) at_left_sibling(2) [OF s2(2)] s3(1) s'(1) by (simp add: far_def)
  with s'(2) kept_trans [OF s1(3) kept_trans [OF s2(3) kept_trans [OF s3(3) s'(3)]]] show ?thesis by blast
qed

definition lifted :: "rbt \<Rightarrow> color \<Rightarrow> nat \<Rightarrow> rbt \<Rightarrow> nat \<Rightarrow> rbt \<Rightarrow> rbt" where
  "lifted t c a l w r =
     (if tcolor r = Red then Node (Node t (a, Black) l) (w, c) (paint Black r)
      else (case l of Node l' (u, _) r' \<Rightarrow> Node (Node t (a, Black) l') (u, c) (Node r' (w, Black) r) | Leaf \<Rightarrow> t))"

lemma sib_run:
  assumes "at_left s q0 D t c a (Node l (w, Black) r)"
  shows "\<exists>y s' q p. sib (tptr t) w s = Some (y, s') \<and> kept s s' \<and>
    (if tcolor l = Black \<and> tcolor r = Black then y = a \<and> focus s' q0 D q a (Node t (a, c) (Node l (w, Red) r))
     else y = mpoRoot s' \<and> focus s' q0 D q p (lifted t c a l w r))"
proof -
  note reads = at_left_reads [OF assms] at_left_sibling [OF assms]
  consider (both) "tcolor l = Black" "tcolor r = Black" | (far) "tcolor r = Red" | (near) "tcolor r = Black" "tcolor l = Red"
    by (cases "tcolor l"; cases "tcolor r") auto
  then show ?thesis
  proof cases
    case both
    from at_left_color [of s q0 D t c a "[]" l w Black r Red] assms obtain s1 where
      s1: "setC w Red s = Some s1" "at_left s1 q0 D t c a (Node l (w, Red) r)" "kept s s1" by auto
    with both reads at_left_reads(1) [OF s1(2)] show ?thesis by (auto simp: sib_def at_left_def)
  next
    case far
    then obtain l' v r' where r: "r = Node l' (v, Red) r'" using red_node by blast
    with far_run [of s q0 D t c a l w Black l' v r'] assms far reads show ?thesis by (auto simp: sib_def lifted_def)
  next
    case near
    then obtain l' u r' where l: "l = Node l' (u, Red) r'" using red_node by blast
    from at_left_color [of s q0 D t c a "[LF Black w r]" l' u Red r' Black] assms l obtain s1 where
      s1: "setC u Black s = Some s1" "at_left s1 q0 D t c a (Node (Node l' (u, Black) r') (w, Black) r)" "kept s s1" by auto
    from at_left_color [of s1 q0 D t c a "[]" "Node l' (u, Black) r'" w Black r Red] s1(2) obtain s2 where
      s2: "setC w Red s1 = Some s2" "at_left s2 q0 D t c a (Node (Node l' (u, Black) r') (w, Red) r)" "kept s1 s2" by auto
    from at_left_rotate_sibling [OF s2(2)] obtain s3 where
      s3: "RightRotate w s2 = Some s3" "at_left s3 q0 D t c a (Node l' (u, Black) (Node r' (w, Red) r))" "kept s2 s3" by blast
    from far_run [OF s3(2)] obtain s' q where
      s': "far (tptr t) u s3 = Some (mpoRoot s', s')" "focus s' q0 D q u (Node (Node t (a, Black) l') (u, c) (Node r' (w, Black) r))" "kept s3 s'" by blast
    have "lifted t c a l w r = Node (Node t (a, Black) l') (u, c) (Node r' (w, Black) r)"
      using near(1) l by (simp add: lifted_def)
    moreover have "sib (tptr t) w s = Some (mpoRoot s', s')"
      using near l reads s1(1) s2(1) s3(1) at_left_reads [OF s3(2)] s'(1) by (simp add: sib_def)
    ultimately show ?thesis using near s'(2) kept_trans [OF s1(3) kept_trans [OF s2(3) kept_trans [OF s3(3) s'(3)]]] by auto
  qed
qed

text \<open>
  What a round achieves: the tree is in order (the loop then ends at the root), or the place has
  moved up, or its tree has a red root.
\<close>

definition outcome :: "rbtree \<Rightarrow> nat \<Rightarrow> nat list \<Rightarrow> nat \<Rightarrow> nat \<Rightarrow> rbtree \<Rightarrow> bool" where
  "outcome s q0 xs n y s' \<longleftrightarrow> kept s s' \<and> (\<exists>E q p T. focus s' q0 E q p T \<and> T \<noteq> Leaf \<and> addrs (plug E T) = xs \<and>
     (y = mpoRoot s' \<and> rb (plug E T) \<or>
      y = p \<and> tcolor T = Red \<and> rb (paint Black T) \<and> cinv E (bh (paint Black T)) \<or>
      y = p \<and> tcolor T = Black \<and> rb T \<and> cinv E (bh T + 1) \<and> length E < n))"

lemma outcome_mono: "outcome s q0 xs n y s' \<Longrightarrow> n \<le> m \<Longrightarrow> outcome s q0 xs m y s'"
  unfolding outcome_def by (elim conjE exE, intro conjI exI, assumption+, auto)

lemma outcome_kept: "outcome s1 q0 xs n y s' \<Longrightarrow> kept s s1 \<Longrightarrow> outcome s q0 xs n y s'"
  unfolding outcome_def by (blast intro: kept_trans)

lemma lifted_rb:
  assumes "rb t" "tcolor t = Black" "rb (Node l (w, Black) r)" "bh l = bh t" "\<not> (tcolor l = Black \<and> tcolor r = Black)"
  shows "rb (lifted t c a l w r)" "bh (lifted t c a l w r) = bh t + 1 + (if c = Black then 1 else 0)" "tcolor (lifted t c a l w r) = c"
    "addrs (lifted t c a l w r) = addrs t @ a # addrs l @ w # addrs r"
proof -
  have red: "tcolor u = Red \<Longrightarrow> \<exists>ul b ur. u = Node ul (b, Red) ur" for u using red_node by blast
  have "tcolor r = Red \<or> tcolor r = Black \<and> tcolor l = Red" using assms(5) by (cases "tcolor l"; cases "tcolor r") auto
  with red obtain ul b ur where "r = Node ul (b, Red) ur \<or> tcolor r = Black \<and> l = Node ul (b, Red) ur" by blast
  then have "(rb (lifted t c a l w r) \<and> bh (lifted t c a l w r) = bh t + 1 + (if c = Black then 1 else 0)) \<and>
    tcolor (lifted t c a l w r) = c \<and> addrs (lifted t c a l w r) = addrs t @ a # addrs l @ w # addrs r"
    using assms by (auto simp: lifted_def)
  then show "rb (lifted t c a l w r)" "bh (lifted t c a l w r) = bh t + 1 + (if c = Black then 1 else 0)" "tcolor (lifted t c a l w r) = c"
    "addrs (lifted t c a l w r) = addrs t @ a # addrs l @ w # addrs r" by blast+
qed

lemma black_node: "bh W = Suc n \<Longrightarrow> tcolor W = Black \<Longrightarrow> \<exists>l w r. W = Node l (w, Black) r"
  by (cases W rule: tcolor.cases) auto

lemma sib_outcome:
  assumes at: "at_left s q0 D t c a (Node l (w, Black) r)" and t: "rb t" "tcolor t = Black" and C: "cinv (LF c a (Node l (w, Black) r) # D) (bh t + 1)"
  shows "\<exists>y s'. sib (tptr t) w s = Some (y, s') \<and>
    outcome s q0 (addrs (plug D (Node t (a, c) (Node l (w, Black) r)))) (if c = Red then 0 else length D + 1) y s'"
proof -
  from C have W: "rb (Node l (w, Black) r)" "bh l = bh t" "c = Red \<Longrightarrow> D \<noteq> [] \<and> fcolor (hd D) = Black"
    "cinv D (bh t + 1 + (if c = Black then 1 else 0))" by (auto simp: Let_def split: if_splits)
  from sib_run [OF at] obtain y s' q p where s': "sib (tptr t) w s = Some (y, s')" "kept s s'"
    "if tcolor l = Black \<and> tcolor r = Black then y = a \<and> focus s' q0 D q a (Node t (a, c) (Node l (w, Red) r))
     else y = mpoRoot s' \<and> focus s' q0 D q p (lifted t c a l w r)" by blast
  show ?thesis
  proof (cases "tcolor l = Black \<and> tcolor r = Black")
    case True
    let ?T = "Node t (a, c) (Node l (w, Red) r)"
    have "rb (Node t (a, Black) (Node l (w, Red) r))" using True W t by auto
    moreover have "addrs (plug D ?T) = addrs (plug D (Node t (a, c) (Node l (w, Black) r)))" by (simp add: addrs_plug)
    moreover have "y = a" "focus s' q0 D q a ?T" using s'(3) True by simp_all
    moreover have "if c = Red then cinv D (bh (Node t (a, Black) (Node l (w, Red) r))) else c = Black \<and> rb ?T \<and> cinv D (bh ?T + 1)"
      using calculation(1) W(4) by (cases c) auto
    ultimately have "outcome s q0 (addrs (plug D (Node t (a, c) (Node l (w, Black) r)))) (if c = Red then 0 else length D + 1) y s'"
      unfolding outcome_def using s'(2)
      by (intro conjI exI [of _ D] exI [of _ q] exI [of _ a] exI [of _ ?T]) (simp_all split: if_splits)
    with s'(1) show ?thesis by blast
  next
    case False
    note L = lifted_rb [OF t W(1,2) False, of c a]
    have "rb (plug D (lifted t c a l w r))" using L W by (intro rb_plug) (auto simp: add.commute)
    moreover have "lifted t c a l w r \<noteq> Leaf" using L(4) by auto
    moreover have "addrs (plug D (lifted t c a l w r)) = addrs (plug D (Node t (a, c) (Node l (w, Black) r)))" using L(4) by (simp add: addrs_plug)
    ultimately show ?thesis using s' False unfolding outcome_def by auto
  qed
qed

lemma delete_step_left_outcome:
  assumes at: "at_left s q0 D t c a W" and t: "rb t" "tcolor t = Black" and C: "cinv (LF c a W # D) (bh t + 1)"
  shows "\<exists>y s'. delete_step_left (tptr t) a s = Some (y, s') \<and> outcome s q0 (addrs (plug D (Node t (a, c) W))) (length D + 1) y s'"
proof (cases "tcolor W")
  case Black
  from black_node [OF _ Black] C obtain l w r where W: "W = Node l (w, Black) r" by (auto simp: Let_def)
  from sib_outcome [OF _ t] at C W obtain y s' where s': "sib (tptr t) w s = Some (y, s')"
    "outcome s q0 (addrs (plug D (Node t (a, c) W))) (if c = Red then 0 else length D + 1) y s'" by blast
  from outcome_mono [OF s'(2), of "length D + 1"] s'(1) at_left_reads [OF at] W show ?thesis by (simp add: delete_step_left_sib)
next
  case Red
  then obtain l w r where W: "W = Node l (w, Red) r" using red_node by blast
  from C W have c: "c = Black" "rb l" "rb r" "bh l = bh t + 1" "bh r = bh t + 1" "tcolor l = Black" "tcolor r = Black" "cinv D (bh t + 1 + 1)"
    by (cases c; auto simp: Let_def)+
  from black_node [of l] c obtain l' w' r' where l: "l = Node l' (w', Black) r'" by auto
  from at_left_color [of s q0 D t c a "[]" l w Red r Black] at W obtain s1 where
    s1: "setC w Black s = Some s1" "at_left s1 q0 D t c a (Node l (w, Black) r)" "kept s s1" by auto
  from at_left_color_parent [OF s1(2), of Red] obtain s2 where
    s2: "setC a Red s1 = Some s2" "at_left s2 q0 D t Red a (Node l (w, Black) r)" "kept s1 s2" by blast
  from at_left_rotate [OF s2(2)] obtain s3 where
    s3: "LeftRotate a s2 = Some s3" "kept s2 s3" "at_left s3 q0 (LF Black w r # D) t Red a l" by blast
  have "cinv (LF Red a l # LF Black w r # D) (bh t + 1)" using c by simp
  from sib_outcome [OF _ t] s3(3) this l obtain y s' where s': "sib (tptr t) w' s3 = Some (y, s')"
    "outcome s3 q0 (addrs (plug (LF Black w r # D) (Node t (a, Red) l))) 0 y s'" by fastforce
  have "outcome s q0 (addrs (plug D (Node t (a, c) W))) (length D + 1) y s'"
    using outcome_kept [OF outcome_mono [OF s'(2), of "length D + 1"] kept_trans [OF s1(3) kept_trans [OF s2(3) s3(2)]]] W
    by (simp add: addrs_plug)
  moreover have "delete_step_left (tptr t) a s = Some (y, s')"
    using at_left_reads [OF at] W s1(1) s2(1) s3(1) at_left_reads [OF s3(3)] s'(1) l by (simp add: delete_step_left_sib)
  ultimately show ?thesis by blast
qed

subsection \<open>The other side\<close>

lemma plug_mirror: "plug (map mirf C) (mirror t) = mirror (plug C t)"
proof (induction C arbitrary: t)
  case (Cons f C)
  show ?case by (cases f) (simp_all flip: Cons.IH)
qed simp

lemma mirror_rb [simp]: "rb (mirror t) = rb t"
  using rb_mirror [of t] rb_mirror [of "mirror t"] by auto

lemma mirf_color [simp]: "fcolor (mirf f) = fcolor f"
  by (cases f) simp_all

lemma cinv_mirf: "cinv C n \<Longrightarrow> cinv (map mirf C) n"
proof (induction C arbitrary: n)
  case (Cons f C)
  then show ?case by (cases f; cases C) (auto simp: Let_def rb_mirror)
qed simp

lemma mirf_mirf [simp]: "map mirf (map mirf C) = C"
  by (induction C) simp_all

lemma outcome_mir:
  assumes "outcome (mir s) q0 (rev xs) n y s'"
  shows "outcome s q0 xs n y (mir s')"
proof -
  from assms obtain E q p T where o: "kept (mir s) s'" "focus s' q0 E q p T" "T \<noteq> Leaf" "addrs (plug E T) = rev xs"
    "y = mpoRoot s' \<and> rb (plug E T) \<or> y = p \<and> tcolor T = Red \<and> rb (paint Black T) \<and> cinv E (bh (paint Black T)) \<or>
      y = p \<and> tcolor T = Black \<and> rb T \<and> cinv E (bh T + 1) \<and> length E < n" unfolding outcome_def by blast
  have "focus (mir s') q0 (map mirf E) q p (mirror T)" using o(2) by (simp add: focus_mir)
  moreover have "mirror T \<noteq> Leaf" using o(3) by (simp add: mirror_node)
  moreover have "addrs (plug (map mirf E) (mirror T)) = xs" using o(4) by (simp add: plug_mirror)
  moreover have "rb t \<Longrightarrow> bh (mirror t) = bh t" for t using rb_mirror by blast
  moreover have pm: "paint Black (mirror T) = mirror (paint Black T)" by (cases T rule: tcolor.cases) simp_all
  ultimately show ?thesis using o(5) cinv_mirf o(1) unfolding outcome_def
    by (intro conjI exI [of _ "map mirf E"] exI [of _ q] exI [of _ p] exI [of _ "mirror T"]) (auto simp: kept_mir plug_mirror)
qed

lemma read_swap:
  "Option.bind (rd mpoRight w s) (\<lambda>x. Option.bind (rd mcColor x s) (\<lambda>cx. Option.bind (rd mpoLeft w s) (\<lambda>y. Option.bind (rd mcColor y s) (\<lambda>cy. k x cx y cy)))) =
   Option.bind (rd mpoLeft w s) (\<lambda>y. Option.bind (rd mcColor y s) (\<lambda>cy. Option.bind (rd mpoRight w s) (\<lambda>x. Option.bind (rd mcColor x s) (\<lambda>cx. k x cx y cy))))"
  by (simp add: rd_def)

lemma delete_step_right_mir: "delete_step_right t p s = map_option (apsnd mir) (delete_step_left t p (mir s))"
  by (simp add: delete_step_right_def delete_step_left_def if_bind Rotate_mir if_distrib [of "map_option (apsnd mir)"] read_swap conj_commute cong: if_cong)

definition at_right :: "rbtree \<Rightarrow> nat \<Rightarrow> frame list \<Rightarrow> rbt \<Rightarrow> color \<Rightarrow> nat \<Rightarrow> rbt \<Rightarrow> bool" where
  "at_right s q0 D t c a W \<longleftrightarrow> (\<exists>q. focus s q0 D q a (Node W (a, c) t)) \<and> (t = Leaf \<longrightarrow> mpoParent (nodes s SENT) = a)"

lemma tptr_mirror [simp]: "tptr (mirror t) = tptr t"
  by (cases t) (auto simp: tptr_def)

lemma at_right_mir: "at_right s q0 D t c a W \<Longrightarrow> at_left (mir s) q0 (map mirf D) (mirror t) c a (mirror W)"
  using focus_mir [of s q0 D _ a "Node W (a, c) t"] by (auto simp: at_left_def at_right_def mirror_node)

lemma delete_step_right_outcome:
  assumes at: "at_right s q0 D t c a W" and t: "rb t" "tcolor t = Black" and C: "cinv (RF W c a # D) (bh t + 1)"
  shows "\<exists>y s'. delete_step_right (tptr t) a s = Some (y, s') \<and> outcome s q0 (addrs (plug D (Node W (a, c) t))) (length D + 1) y s'"
proof -
  have "cinv (LF c a (mirror W) # map mirf D) (bh (mirror t) + 1)" using cinv_mirf [OF C] rb_mirror [OF t(1)] by simp
  from delete_step_left_outcome [OF at_right_mir [OF at] _ _ this] t obtain y s' where
    s': "delete_step_left (tptr t) a (mir s) = Some (y, s')"
    "outcome (mir s) q0 (addrs (plug (map mirf D) (mirror (Node W (a, c) t)))) (length D + 1) y s'" by auto
  then have "outcome (mir s) q0 (rev (addrs (plug D (Node W (a, c) t)))) (length D + 1) y s'" by (simp only: plug_mirror addrs_mirror)
  from outcome_mir [OF this] s'(1) show ?thesis by (auto simp: delete_step_right_mir)
qed

subsection \<open>The loop\<close>

definition rebuilt :: "rbtree \<Rightarrow> nat list \<Rightarrow> rbtree option \<Rightarrow> bool" where
  "rebuilt s xs m \<longleftrightarrow> (\<exists>s' T. m = Some s' \<and> rb_rep s' T \<and> addrs T = xs \<and> rb T \<and> tcolor T = Black \<and> kept s s')"

lemma rebuilt_kept: "rebuilt s1 xs m \<Longrightarrow> kept s s1 \<Longrightarrow> rebuilt s xs m"
  unfolding rebuilt_def by (blast intro: kept_trans)

lemma plug_color: "C \<noteq> [] \<Longrightarrow> tcolor (plug C t) = fcolor (last C)"
proof (induction C arbitrary: t)
  case (Cons f C)
  then show ?case by (cases f; cases "C = []") simp_all
qed simp

lemma paint_color: "t \<noteq> Leaf \<Longrightarrow> tcolor (paint c t) = c"
  by (cases t rule: tcolor.cases) simp_all

lemma delete_fix_root:
  assumes "focus s q0 C q p T" "T \<noteq> Leaf" "rb (plug C T)"
  shows "rebuilt s (addrs (plug C T)) (rb_delete_fix (mpoRoot s) s)"
proof -
  from blacken_root [OF assms(1,2)] obtain s' where s': "setC (mpoRoot s) Black s = Some s'" "rb_rep s' (paint Black (plug C T))" "kept s s'" by blast
  have "mpoRoot s \<noteq> 0" using s'(1) by (simp add: wr_def split: if_splits)
  then have "rb_delete_fix (mpoRoot s) s = Some s'" using s'(1) by (subst rb_delete_fix.simps) (simp add: rd_def)
  moreover have "plug C T \<noteq> Leaf" using assms(2) by (induction C T rule: plug.induct) auto
  ultimately show ?thesis using s' rb_paint [OF assms(3)] by (auto simp: rebuilt_def paint_color)
qed

lemma delete_fix_red:
  assumes "focus s q0 C q p T" "tcolor T = Red" "rb (paint Black T)" "cinv C (bh (paint Black T))"
  shows "rebuilt s (addrs (plug C T)) (rb_delete_fix p s)"
proof -
  from red_node [OF assms(2)] obtain l a r where T: "T = Node l (a, Red) r" by blast
  with setC_focus [of s q0 C q p l a Red r Black] assms(1) obtain s' where
    s': "setC a Black s = Some s'" "focus s' q0 C q p (Node l (a, Black) r)" "kept s s'" by auto
  have "p = a" "a \<noteq> 0" "mcColor (nodes s a) = Red" using focus_node [of s q0 C q p l a Red r] assms(1) T by auto
  then have "rb_delete_fix p s = Some s'" using s'(1) by (subst rb_delete_fix.simps) (simp add: rd_def)
  moreover have "rb (plug C (Node l (a, Black) r))" using assms(3,4) T by (intro rb_plug) simp_all
  moreover have "tcolor (plug C (Node l (a, Black) r)) = Black" using cinv_last [OF assms(4)] plug_color [of C] by (cases "C = []") auto
  moreover have "rb_rep s' (plug C (Node l (a, Black) r))" using s'(2) by (auto simp: rb_rep_focus)
  ultimately show ?thesis using s'(3) T by (auto simp: rebuilt_def addrs_plug intro!: exI [of _ "plug C (Node l (a, Black) r)"])
qed

lemma outcome_rebuilt:
  assumes "outcome s q0 xs n y s1"
    and "\<And>E q p T. length E < n \<Longrightarrow> focus s1 q0 E q p T \<Longrightarrow> T \<noteq> Leaf \<Longrightarrow> rb T \<Longrightarrow> cinv E (bh T + 1) \<Longrightarrow>
      rebuilt s1 (addrs (plug E T)) (rb_delete_fix p s1)"
  shows "rebuilt s xs (rb_delete_fix y s1)"
proof -
  from assms(1) obtain E q p T where o: "kept s s1" "focus s1 q0 E q p T" "T \<noteq> Leaf" "addrs (plug E T) = xs"
    "y = mpoRoot s1 \<and> rb (plug E T) \<or> y = p \<and> tcolor T = Red \<and> rb (paint Black T) \<and> cinv E (bh (paint Black T)) \<or>
      y = p \<and> tcolor T = Black \<and> rb T \<and> cinv E (bh T + 1) \<and> length E < n" unfolding outcome_def by blast
  from o(5) have "rebuilt s1 xs (rb_delete_fix y s1)"
    using delete_fix_root [OF o(2,3)] delete_fix_red [OF o(2)] assms(2) [OF _ o(2,3)] o(4) by auto
  from rebuilt_kept [OF this o(1)] show ?thesis .
qed

lemma at_left_focus: "focus s q0 (LF c a W # D) q p t \<Longrightarrow> (t = Leaf \<Longrightarrow> mpoParent (nodes s SENT) = q) \<Longrightarrow> at_left s q0 D t c a W"
  by (auto simp: at_left_def focus_up)

lemma at_right_focus: "focus s q0 (RF W c a # D) q p t \<Longrightarrow> (t = Leaf \<Longrightarrow> mpoParent (nodes s SENT) = q) \<Longrightarrow> at_right s q0 D t c a W"
  by (auto simp: at_right_def focus_up)

lemma focus_below:
  assumes "focus s q0 C q p t" "C \<noteq> []"
  shows "p = tptr t" "p \<noteq> mpoRoot s" "p \<noteq> 0"
proof -
  from assms have t: "tree_at s q p t" "ctx_at s q0 (mpoRoot s) C q p" "set (caddrs C) \<inter> set (addrs t) = {}" by (auto simp: focus_def)
  show "p = tptr t" using ptr_tptr t(1) by blast
  show "p \<noteq> mpoRoot s" using ptr_mem [OF t(1)] ctx_root [OF t(2) assms(2)] ctx_at_addrs [OF t(2)] t(3) by auto
  show "p \<noteq> 0" using t(1) by (cases t) (auto simp: SENT_def)
qed

lemma delete_fix_run:
  "focus s q0 C q p t \<Longrightarrow> (t = Leaf \<Longrightarrow> C \<noteq> [] \<and> mpoParent (nodes s SENT) = q) \<Longrightarrow> rb t \<Longrightarrow> cinv C (bh t + 1) \<Longrightarrow>
   rebuilt s (addrs (plug C t)) (rb_delete_fix p s)"
proof (induction "length C" arbitrary: C s q p t rule: less_induct)
  case less
  note f = less.prems(1) and leaf = less.prems(2) and rbt = less.prems(3) and C = less.prems(4)
  show ?case
  proof (cases "tcolor t")
    case Red
    then obtain l a r where "t = Node l (a, Red) r" using red_node by blast
    with delete_fix_red [OF f Red] rbt C rb_paint [OF rbt] show ?thesis by simp
  next
    case Black
    show ?thesis
    proof (cases C)
      case Nil
      then have "p = mpoRoot s" using f by (simp add: focus_def)
      with delete_fix_root [OF f] Nil leaf rbt show ?thesis by auto
    next
      case (Cons g D)
      note b = focus_below [OF f, unfolded Cons, simplified]
      have col: "rd mcColor p s = Some Black" using focus_color [OF f] Black by simp
      have go: ?thesis if "rb_delete_fix p s = rb_delete_fix y s1" "outcome s q0 (addrs (plug C t)) (length D + 1) y s1" for y s1
        using outcome_rebuilt [OF that(2)] less.hyps [of _ s1] that(1) Cons by auto
      show ?thesis
      proof (cases g)
        case (LF c a W)
        have at: "at_left s q0 D t c a W" using at_left_focus [of s q0 c a W D q p t] f leaf Cons LF by auto
        from delete_step_left_outcome [OF at rbt Black] C Cons LF obtain y s1 where
          s1: "delete_step_left (tptr t) a s = Some (y, s1)" "outcome s q0 (addrs (plug C t)) (length D + 1) y s1" by auto
        have "rb_delete_fix p s = rb_delete_fix y s1"
          by (subst rb_delete_fix.simps) (use b col at_left_reads [OF at] s1(1) in simp)
        from go [OF this s1(2)] show ?thesis .
      next
        case (RF W c a)
        have at: "at_right s q0 D t c a W" using at_right_focus [of s q0 W c a D q p t] f leaf Cons RF by auto
        note reads = at_left_reads [OF at_right_mir [OF at], simplified]
        from delete_step_right_outcome [OF at rbt Black] C Cons RF obtain y s1 where
          s1: "delete_step_right (tptr t) a s = Some (y, s1)" "outcome s q0 (addrs (plug C t)) (length D + 1) y s1" by auto
        have "W \<noteq> Leaf" using C Cons RF by (auto simp: Let_def)
        then have "tptr W \<noteq> tptr t" using f Cons RF by (cases W; cases t) (auto simp: focus_def)
        then have "rb_delete_fix p s = rb_delete_fix y s1"
          by (subst rb_delete_fix.simps) (use b col reads s1(1) in simp)
        from go [OF this s1(2)] show ?thesis .
      qed
    qed
  qed
qed

end
