(* ===== verification/RB_Queue.thy ===== *)
theory RB_Queue
  imports RB_Delete
begin

section \<open>The tree as a queue in the order of the keys\<close>

text \<open>
  \<open>Delete\<close> of a node that has a missing child, \<open>SeekToFirst\<close>, and the queue that the tree implements;
  what \<open>Delete\<close> does to a node with two children.
\<close>

subsection \<open>Cutting a node out\<close>

definition same_keys :: "rbtree \<Rightarrow> rbtree \<Rightarrow> bool" where
  "same_keys s s' \<longleftrightarrow> (\<forall>a. mtKey (nodes s' a) = mtKey (nodes s a))"

definition unlink :: "nat \<Rightarrow> nat \<Rightarrow> rbtree \<Rightarrow> rbtree option" where
  "unlink x t s = do { mp \<leftarrow> rd mpoParent x s; mpl \<leftarrow> rd mpoLeft mp s; s \<leftarrow> (if x = mpl then setL mp t s else setR mp t s);
     mp \<leftarrow> rd mpoParent x s; s \<leftarrow> setP t mp s; clear_links x s }"

lemma unlink_run:
  assumes f: "focus s q0 C q p (Node l (x, c) r)" and C: "C \<noteq> []" and u: "u = l \<or> u = r"
  shows "\<exists>s'. unlink x (tptr u) s = Some s' \<and> focus s' q0 C q (tptr u) u \<and> (u = Leaf \<longrightarrow> mpoParent (nodes s' SENT) = q) \<and> same_keys s s'"
proof -
  note fn = focus_node [OF f]
  define t where "t = tptr u"
  define s1 where "s1 = relink C t s"
  define s' where "s' = s1\<lparr>nodes := (nodes s1)(t := (nodes s1 t)\<lparr>mpoParent := q\<rparr>, x := (nodes s x)\<lparr>mpoLeft := 0, mpoRight := 0, mpoParent := 0\<rparr>)\<rparr>"
  have dis: "distinct (caddrs C @ addrs l @ x # addrs r)" "mcColor (nodes s SENT) = Black" using f by (auto simp: focus_def)
  have tu: "tree_at s x t u" using fn(6,7) ptr_tptr u unfolding t_def by metis
  have x: "x \<notin> set (caddrs C)" "x \<notin> set (addrs u)" using dis u by auto
  have t: "t \<noteq> 0" "t \<noteq> x" "t \<notin> set (caddrs C)"
    using ptr_mem [OF tu] tree_at_addrs [OF tu] ctx_at_addrs [OF fn(8)] dis u fn(3) by (auto simp: SENT_def)
  have q: "q \<in> set (caddrs C)" "q \<noteq> 0" "q \<noteq> x" using ctx_parent [OF fn(8) C] x by auto
  have n1: "nodes s1 a = nodes s a" if "a \<notin> set (caddrs C)" for a using relink_nodes [OF that] by (simp add: s1_def)
  have nr: "x \<noteq> mpoRoot s" using focus_root [OF f] C by simp
  have code: "(do { mpl \<leftarrow> rd mpoLeft q s; if x = mpl then setL q t s else setR q t s }) = Some s1"
    using relink_code(1) [OF fn(8) x(1) fn(3,2), of t] nr by (simp add: s1_def)
  have run: "unlink x t s = Some s'"
  proof -
    obtain mpl where mpl: "rd mpoLeft q s = Some mpl" "(if x = mpl then setL q t s else setR q t s) = Some s1" using code by (auto simp: bind_eq_Some_conv)
    have "nodes s1 x = nodes s x" using n1 x(1) by simp
    then have "(do { mp \<leftarrow> rd mpoParent x s1; s \<leftarrow> setP t mp s1; clear_links x s }) = Some s'"
      using fn(2,4) t by (simp add: rd_def wr_def clear_links_def s'_def fun_upd_twist)
    with mpl fn(2,4) show ?thesis by (simp add: unlink_def rd_def [of mpoParent x s])
  qed
  have ctx: "ctx_at s' q0 (mpoRoot s') C q t"
  proof -
    have "ctx_at s1 q0 (mpoRoot s1) C q t" unfolding s1_def by (rule relink_ctx [OF fn(8)]) (use dis in simp)
    moreover have "ctx_at s' q0 (mpoRoot s1) C q t = ctx_at s1 q0 (mpoRoot s1) C q t" by (rule ctx_at_cong) (use x t in \<open>auto simp: s'_def\<close>)
    ultimately show ?thesis by (simp add: s'_def)
  qed
  have rest: "nodes s' a = nodes s a" if "a \<notin> set (caddrs C)" "a \<noteq> t" "a \<noteq> x" for a using that n1 by (simp add: s'_def)
  have nt: "nodes s' t = (nodes s t)\<lparr>mpoParent := q\<rparr>" using t n1 by (simp add: s'_def)
  have "tree_at s' q t u"
  proof (cases u)
    case (Node ul n ur)
    obtain b d where n: "n = (b, d)" by (cases n)
    have b: "b = t" using Node n by (simp add: t_def)
    have "distinct (addrs u)" "set (caddrs C) \<inter> set (addrs u) = {}" using dis u by auto
    then have "tree_at s' b z T = tree_at s b z T" if "T \<in> {ul, ur}" for z T
      by (intro tree_at_cong rest) (use that Node n b x in auto)
    with tu Node n b nt show ?thesis by simp
  qed (use tu in simp)
  moreover have "SENT \<notin> set (caddrs C)" using ctx_at_addrs [OF fn(8)] by blast
  then have "mcColor (nodes s' SENT) = Black" using rest [of SENT] nt fn(3) dis(2) by (cases "t = SENT") auto
  moreover have "distinct (caddrs C @ addrs u)" using dis(1) u by auto
  moreover have "u = Leaf \<longrightarrow> mpoParent (nodes s' SENT) = q" using nt by (auto simp: t_def)
  moreover have "mtKey (nodes s1 a) = mtKey (nodes s a)" for a by (simp add: s1_def relink_def split: list.split frame.split)
  then have "same_keys s s'" by (simp add: same_keys_def s'_def)
  ultimately show ?thesis using run ctx unfolding t_def focus_def by blast
qed

lemma unlink_root:
  assumes f: "focus s q0 [] q p (Node l (x, c) r)" and u: "u = l \<or> u = r"
  shows "\<exists>s'. (do { s \<leftarrow> setC (tptr u) Black (s\<lparr>mpoRoot := tptr u\<rparr>); clear_links x s }) = Some s' \<and> rb_rep s' (paint Black u) \<and> same_keys s s'"
proof -
  note fn = focus_node [OF f]
  define t where "t = tptr u"
  define s' where "s' = s\<lparr>mpoRoot := t, nodes := (nodes s)(t := (nodes s t)\<lparr>mcColor := Black\<rparr>, x := (nodes s x)\<lparr>mpoLeft := 0, mpoRight := 0, mpoParent := 0\<rparr>)\<rparr>"
  have dis: "distinct (addrs l @ x # addrs r)" "mcColor (nodes s SENT) = Black" using f by (auto simp: focus_def)
  have tu: "tree_at s x t u" using fn(6,7) ptr_tptr u unfolding t_def by metis
  have t: "t \<noteq> 0" "t \<noteq> x" "x \<notin> set (addrs u)" using ptr_mem [OF tu] tree_at_addrs [OF tu] dis u fn(3) by (auto simp: SENT_def)
  have run: "(do { s \<leftarrow> setC t Black (s\<lparr>mpoRoot := t\<rparr>); clear_links x s }) = Some s'"
    using t fn(2) by (simp add: wr_def clear_links_def s'_def fun_upd_twist)
  have "tree_at s' x t (paint Black u)"
  proof (cases u)
    case (Node ul n ur)
    obtain b d where n: "n = (b, d)" by (cases n)
    have b: "b = t" using Node n by (simp add: t_def)
    have "distinct (addrs u)" using dis u by auto
    then have "tree_at s' b z T = tree_at s b z T" if "T \<in> {ul, ur}" for z T
      by (intro tree_at_cong) (use that Node n b t in \<open>auto simp: s'_def\<close>)
    with tu Node n b t show ?thesis by (simp add: s'_def)
  qed (use tu in simp)
  moreover have "mcColor (nodes s' SENT) = Black" using dis(2) fn(3) by (simp add: s'_def)
  moreover have "distinct (addrs u)" using dis(1) u by auto
  ultimately have "rb_rep s' (paint Black u)" by (auto simp: rb_rep_def s'_def)
  with run show ?thesis by (auto simp: t_def same_keys_def s'_def)
qed

subsection \<open>Delete\<close>

lemma Delete_one_child:
  assumes "mpoLeft (nodes s x) = SENT \<and> u = mpoRight (nodes s x) \<or> mpoRight (nodes s x) = SENT \<and> u = mpoLeft (nodes s x)" "x \<noteq> 0" "u \<noteq> 0"
  shows "rb_Delete x s =
    (if x = mpoRoot s then do { s \<leftarrow> setC u Black (s\<lparr>mpoRoot := u\<rparr>); clear_links x s }
     else do { s' \<leftarrow> unlink x u s; if mcColor (nodes s x) = Red then Some s' else rb_delete_fix u s' })"
proof -
  have "rb_subst x s = Some (x, u)" using assms by (auto simp: rb_subst_def rd_def)
  moreover have "mpoLeft (nodes s x) \<noteq> 0" "mpoRight (nodes s x) \<noteq> 0" using assms by (auto simp: SENT_def)
  ultimately show ?thesis using assms(2) by (simp add: rb_Delete_def unlink_def rd_def if_bind)
qed

lemma focus_at: "rb_rep s T \<Longrightarrow> x \<in> set (addrs T) \<Longrightarrow> \<exists>C q0 q l c r. T = plug C (Node l (x, c) r) \<and> focus s q0 C q x (Node l (x, c) r)"
proof -
  have "x \<in> set (addrs T) \<Longrightarrow> \<exists>D l c r. plug C T = plug D (Node l (x, c) r)" for C
  proof (induction T arbitrary: C)
    case (Node l n r)
    obtain a c where n: "n = (a, c)" by (cases n)
    with Node.prems consider "a = x" | "x \<in> set (addrs l)" | "x \<in> set (addrs r)" by auto
    then show ?case using Node.IH(1) [of "LF c a r # C"] Node.IH(2) [of "RF l c a # C"] n by cases auto
  qed simp
  from this [of "[]"] show "rb_rep s T \<Longrightarrow> x \<in> set (addrs T) \<Longrightarrow> ?thesis" using rb_rep_focus focus_node(1) by (metis plug.simps(1))
qed

lemma remove1_plug:
  assumes "distinct (addrs (plug C (Node l (x, c) r)))" "l = Leaf \<and> u = r \<or> r = Leaf \<and> u = l"
  shows "addrs (plug C u) = remove1 x (addrs (plug C (Node l (x, c) r)))"
  using assms by (auto simp: addrs_plug remove1_append)

lemma Delete_rebuilt:
  assumes rep: "rb_rep s T" and T: "rb T" "tcolor T = Black" and x: "x \<in> set (addrs T)"
    and one: "mpoLeft (nodes s x) = SENT \<or> mpoRight (nodes s x) = SENT"
  shows "\<exists>s' T'. rb_Delete x s = Some s' \<and> rb_rep s' T' \<and> addrs T' = remove1 x (addrs T) \<and> rb T' \<and> tcolor T' = Black \<and> same_keys s s'"
proof -
  from focus_at [OF rep x] obtain C q0 q l c r where TC: "T = plug C (Node l (x, c) r)" and f: "focus s q0 C q x (Node l (x, c) r)" by blast
  note fn = focus_node [OF f]
  have ptr: "mpoLeft (nodes s x) = tptr l" "mpoRight (nodes s x) = tptr r" using ptr_tptr fn(6,7) by blast+
  have "tptr t = SENT \<Longrightarrow> tree_at s x p t \<Longrightarrow> t = Leaf" for t p by (cases t) (auto simp: tptr_def)
  with one ptr fn(6,7) have "l = Leaf \<or> r = Leaf" by metis
  then obtain u where u: "l = Leaf \<and> u = r \<or> r = Leaf \<and> u = l" by blast
  have "tptr u \<noteq> 0" using u fn(6,7) by (cases u) (auto simp: SENT_def)
  with Delete_one_child [of s x "tptr u"] u ptr fn(2) have del: "rb_Delete x s =
    (if x = mpoRoot s then do { s \<leftarrow> setC (tptr u) Black (s\<lparr>mpoRoot := tptr u\<rparr>); clear_links x s }
     else do { s' \<leftarrow> unlink x (tptr u) s; if c = Red then Some s' else rb_delete_fix (tptr u) s' })"
    using fn(5) by auto
  from rb_unplug [of C "Node l (x, c) r"] T TC have R: "rb (Node l (x, c) r)" "cinv C (bh (Node l (x, c) r))" by auto
  have bhu: "bh u = bh l" "rb u" "c = Red \<Longrightarrow> tcolor u = Black" using R(1) u by auto
  have ad: "addrs (plug C u) = remove1 x (addrs T)" using remove1_plug [of C l x c r u] u rep TC by (auto simp: rb_rep_def)
  show ?thesis
  proof (cases "C = []")
    case True
    with unlink_root [of s q0 q x l x c r u] f u obtain s' where "(do { s \<leftarrow> setC (tptr u) Black (s\<lparr>mpoRoot := tptr u\<rparr>); clear_links x s }) = Some s'"
      "rb_rep s' (paint Black u)" "same_keys s s'" by auto
    moreover have "x = mpoRoot s" using focus_root [OF f] True by simp
    moreover have "tcolor (paint Black u) = Black" by (cases u rule: tcolor.cases) simp_all
    ultimately show ?thesis using del ad True rb_paint [OF bhu(2)] by auto
  next
    case False
    with focus_root [OF f] have nr: "x \<noteq> mpoRoot s" by simp
    from unlink_run [OF f False] u obtain s1 where s1: "unlink x (tptr u) s = Some s1" "focus s1 q0 C q (tptr u) u"
      "u = Leaf \<longrightarrow> mpoParent (nodes s1 SENT) = q" "same_keys s s1" by blast
    show ?thesis
    proof (cases c)
      case Red
      then have "rb (plug C u)" "tcolor (plug C u) = Black" using rb_plug [of u C] bhu R(2) plug_color [OF False] cinv_last [OF R(2) False] by auto
      moreover have "rb_rep s1 (plug C u)" using s1(2) by (auto simp: rb_rep_focus)
      ultimately show ?thesis using del nr s1(1,4) ad Red by auto
    next
      case Black
      have "cinv C (bh u + 1)" using R(2) bhu(1) Black by simp
      from delete_fix_run [OF s1(2) _ bhu(2) this] s1(3) False ad have "rebuilt s1 (remove1 x (addrs T)) (rb_delete_fix (tptr u) s1)" by auto
      moreover have "rb_Delete x s = rb_delete_fix (tptr u) s1" using del nr s1(1) Black by simp
      ultimately show ?thesis using s1(4) unfolding rebuilt_def same_keys_def kept_def by metis
    qed
  qed
qed

lemma queue_same_keys: "same_keys s s' \<Longrightarrow> off base s' a = off base s a"
  by (simp add: same_keys_def)

lemma Delete_queue:
  assumes q: "queue_of base s xs" and x: "x \<in> set xs" and one: "mpoLeft (nodes s x) = SENT \<or> mpoRight (nodes s x) = SENT"
  shows "\<exists>s'. rb_Delete x s = Some s' \<and> queue_of base s' (remove1 x xs) \<and> same_keys s s'"
proof -
  from q obtain T where T: "rb_rep s T" "addrs T = xs" "rb T" "tcolor T = Black" and w: "window base s xs" and srt: "sorted (map (off base s) xs)"
    by (auto simp: queue_of_def)
  from Delete_rebuilt [OF T(1,3,4) _ one] x T(2) obtain s' T' where
    s': "rb_Delete x s = Some s'" "rb_rep s' T'" "addrs T' = remove1 x xs" "rb T'" "tcolor T' = Black" "same_keys s s'" by auto
  have "window base s' (remove1 x xs)" using w queue_same_keys [OF s'(6)] set_remove1_subset [of x xs] by (auto simp: window_def)
  moreover have "off base s' = off base s" using queue_same_keys [OF s'(6)] by auto
  then have "sorted (map (off base s') (remove1 x xs))" using srt by (simp add: sorted_map_remove1)
  ultimately show ?thesis using s' by (auto simp: queue_of_def)
qed

subsection \<open>The first node\<close>

lemma leftmost_run:
  "tree_at s q p (Node l (a, c) r) \<Longrightarrow> \<exists>b. leftmost p s = Some b \<and> b = hd (addrs (Node l (a, c) r)) \<and> mpoLeft (nodes s b) = SENT"
proof (induction l arbitrary: q p a c r)
  case Leaf
  then show ?case by (subst leftmost.simps) (auto simp: rd_def)
next
  case (Node l1 n r1)
  obtain b d where n: "n = (b, d)" by (cases n)
  from Node.IH(1) [of a b b d r1] Node.prems n obtain e where "leftmost b s = Some e" "e = hd (addrs (Node l1 n r1))" "mpoLeft (nodes s e) = SENT" by auto
  moreover have "leftmost p s = leftmost b s" by (subst leftmost.simps) (use Node.prems n in \<open>auto simp: rd_def\<close>)
  ultimately show ?case using n by (auto simp: hd_append)
qed

lemma SeekToFirst_queue:
  assumes "queue_of base s (x # xs)"
  shows "SeekToFirst s = Some x" "mpoLeft (nodes s x) = SENT" "x \<noteq> 0" "x \<noteq> SENT"
proof -
  from assms obtain T q where T: "tree_at s q (mpoRoot s) T" "addrs T = x # xs" by (auto simp: queue_of_def rb_rep_def)
  then obtain l a c r where "T = Node l (a, c) r" by (cases T) auto
  with leftmost_run [of s q "mpoRoot s" l a c r] T show "SeekToFirst s = Some x" "mpoLeft (nodes s x) = SENT" by (auto simp: SeekToFirst_def)
  show "x \<noteq> 0" "x \<noteq> SENT" using tree_at_addrs [OF T(1), of x] T(2) by auto
qed

lemma Empty_queue: "queue_of base s xs \<Longrightarrow> rb_Empty s \<longleftrightarrow> xs = []"
proof -
  assume "queue_of base s xs"
  then obtain T q where T: "tree_at s q (mpoRoot s) T" "addrs T = xs" by (auto simp: queue_of_def rb_rep_def)
  then show "rb_Empty s \<longleftrightarrow> xs = []" by (cases T) (auto simp: rb_Empty_def)
qed

text \<open>The first node leaves the queue.\<close>

lemma Delete_first:
  assumes "queue_of base s (x # xs)"
  shows "\<exists>s'. rb_Delete x s = Some s' \<and> queue_of base s' xs \<and> same_keys s s'"
  using Delete_queue [OF assms, of x] SeekToFirst_queue(2) [OF assms] by auto

subsection \<open>The interface to the timers\<close>

text \<open>
  What a client of the tree relies on: nodes stand in the order of their keys, a new node goes
  behind the nodes with the same key, and the first node can be read and taken out.
\<close>

locale ordered_queue =
  fixes rep :: "'s \<Rightarrow> nat list \<Rightarrow> bool" and key :: "'s \<Rightarrow> nat \<Rightarrow> nat" and ready :: "'s \<Rightarrow> nat \<Rightarrow> bool"
    and enq :: "nat \<Rightarrow> 's \<Rightarrow> 's option" and front :: "'s \<Rightarrow> nat option" and deq :: "nat \<Rightarrow> 's \<Rightarrow> 's option"
  assumes in_order: "rep s xs \<Longrightarrow> sorted (map (key s) xs)"
    and enq_rep: "rep s xs \<Longrightarrow> x \<notin> set xs \<Longrightarrow> ready s x \<Longrightarrow> \<exists>s'. enq x s = Some s' \<and> rep s' (enqueue (key s) x xs) \<and> key s' = key s"
    and front_rep: "rep s (x # xs) \<Longrightarrow> front s = Some x"
    and deq_rep: "rep s (x # xs) \<Longrightarrow> \<exists>s'. deq x s = Some s' \<and> rep s' xs \<and> key s' = key s"
begin

lemma front_least:
  assumes "rep s xs" "xs \<noteq> []"
  shows "\<exists>x. front s = Some x \<and> x \<in> set xs \<and> (\<forall>y\<in>set xs. key s x \<le> key s y)"
  using front_rep [of s "hd xs" "tl xs"] in_order [OF assms(1)] assms by (cases xs) auto

lemma enq_front:
  assumes "rep s xs" "x \<notin> set xs" "ready s x"
  shows "\<exists>s'. enq x s = Some s' \<and> front s' = Some (if xs = [] \<or> key s x < key s (hd xs) then x else hd xs)"
proof -
  from enq_rep [OF assms] obtain s' where s': "enq x s = Some s'" "rep s' (enqueue (key s) x xs)" by blast
  have "enqueue (key s) x xs = (if xs = [] \<or> key s x < key s (hd xs) then x else hd xs) # tl (enqueue (key s) x xs)"
    by (cases xs) (auto simp: enqueue_def)
  with s'(2) have "front s' = Some (if xs = [] \<or> key s x < key s (hd xs) then x else hd xs)" using front_rep by metis
  with s'(1) show ?thesis by blast
qed

end

definition insertable :: "u64 \<Rightarrow> rbtree \<Rightarrow> nat \<Rightarrow> bool" where
  "insertable base s x \<longleftrightarrow> x \<noteq> 0 \<and> x \<noteq> SENT \<and> off base s x < 2 ^ 31"

interpretation rbq: ordered_queue "queue_of base" "off base" "insertable base" rb_Insert SeekToFirst rb_Delete for base
proof unfold_locales
  fix s xs x
  show "queue_of base s xs \<Longrightarrow> sorted (map (off base s) xs)" by (simp add: queue_of_def)
  show "SeekToFirst s = Some x" if "queue_of base s (x # xs)" by (rule SeekToFirst_queue(1) [OF that])
  have ext: "(\<And>a. off base s' a = off base s a) \<Longrightarrow> off base s' = off base s" for s' by auto
  show "\<exists>s'. rb_Insert x s = Some s' \<and> queue_of base s' (enqueue (off base s) x xs) \<and> off base s' = off base s"
    if "queue_of base s xs" "x \<notin> set xs" "insertable base s x"
    using Insert_queue [OF that(1,2)] that(3) ext kept_off unfolding insertable_def by blast
  show "\<exists>s'. rb_Delete x s = Some s' \<and> queue_of base s' xs \<and> off base s' = off base s" if "queue_of base s (x # xs)"
    using Delete_first [OF that] ext queue_same_keys by blast
qed

text \<open>Nodes outside the tree do not matter.\<close>

lemma queue_cong:
  assumes "queue_of base s xs" "mpoRoot s' = mpoRoot s" "\<And>a. a \<in> set xs \<Longrightarrow> nodes s' a = nodes s a" "nodes s' SENT = nodes s SENT"
  shows "queue_of base s' xs"
proof -
  from assms(1) obtain T q where T: "tree_at s q (mpoRoot s) T" "distinct (addrs T)" "addrs T = xs" "rb T" "tcolor T = Black" "mcColor (nodes s SENT) = Black"
    by (auto simp: queue_of_def rb_rep_def)
  have "tree_at s' q (mpoRoot s) T" using T(1,3) tree_at_cong [of T s' s q "mpoRoot s"] assms(3) by simp
  then have "rb_rep s' T" using T assms(2,4) by (auto simp: rb_rep_def)
  moreover have "map (off base s') xs = map (off base s) xs" using assms(3) by (intro map_cong) simp_all
  then have "sorted (map (off base s') xs)" using assms(1) by (simp only: queue_of_def)
  moreover have "window base s' xs = window base s xs" using assms(3) by (simp add: window_def)
  ultimately show ?thesis using T assms(1) by (auto simp: queue_of_def)
qed

lemma queue_new: "queue_of base (rb_new st) []"
  by (auto simp: queue_of_def rb_rep_def rb_new_def window_def intro!: exI [of _ Leaf])

end
