(* ===== verification/Net_Ring.thy ===== *)
theory Net_Ring
  imports Net_Prelude "HOL-Library.Monad_Syntax"
begin

section \<open>The linked ring of the framework\<close>

text \<open>
  The model of \<open>CQueueNode\<close> (\<^verbatim>\<open>src/netfram/Queue.h\<close>): nodes linked in both directions around a head
  node. A node is its address in a store, 0 is the null pointer; following the null pointer is
  \<open>None\<close>. \<open>ring\<close> says which list of nodes hangs on a head.
\<close>

record qnode =
  mpoNext :: nat
  mpoPrev :: nat
  mbIn :: bool

type_synonym qstore = "nat \<Rightarrow> qnode"

definition q_Init :: "nat \<Rightarrow> qstore \<Rightarrow> qstore" where
  "q_Init h m = m(h := (m h)\<lparr>mpoPrev := h, mpoNext := h, mbIn := False\<rparr>)"

definition q_Empty :: "nat \<Rightarrow> qstore \<Rightarrow> bool" where
  "q_Empty h m \<longleftrightarrow> h = mpoPrev (m h)"

definition q_Head :: "nat \<Rightarrow> qstore \<Rightarrow> nat" where "q_Head h m = mpoNext (m h)"
definition q_Tail :: "nat \<Rightarrow> qstore \<Rightarrow> nat" where "q_Tail h m = mpoPrev (m h)"

abbreviation setNext :: "nat \<Rightarrow> nat \<Rightarrow> qstore \<Rightarrow> qstore option" where
  "setNext p q m \<equiv> (if p = 0 then None else Some (m(p := (m p)\<lparr>mpoNext := q\<rparr>)))"

abbreviation setPrev :: "nat \<Rightarrow> nat \<Rightarrow> qstore \<Rightarrow> qstore option" where
  "setPrev p q m \<equiv> (if p = 0 then None else Some (m(p := (m p)\<lparr>mpoPrev := q\<rparr>)))"

abbreviation setIn :: "nat \<Rightarrow> bool \<Rightarrow> qstore \<Rightarrow> qstore option" where
  "setIn p b m \<equiv> (if p = 0 then None else Some (m(p := (m p)\<lparr>mbIn := b\<rparr>)))"

definition q_InsertAM :: "nat \<Rightarrow> nat \<Rightarrow> qstore \<Rightarrow> qstore option" where
  "q_InsertAM h n m =
     do { m \<leftarrow> setNext n (mpoNext (m h)) m;
          m \<leftarrow> setPrev n h m;
          m \<leftarrow> setPrev (mpoNext (m h)) n m;
          m \<leftarrow> setNext h n m;
          setIn n True m }"

definition q_InsertBM :: "nat \<Rightarrow> nat \<Rightarrow> qstore \<Rightarrow> qstore option" where
  "q_InsertBM h n m =
     do { m \<leftarrow> setNext n h m;
          m \<leftarrow> setPrev n (mpoPrev (m h)) m;
          m \<leftarrow> setNext (mpoPrev (m h)) n m;
          m \<leftarrow> setPrev h n m;
          setIn n True m }"

definition q_Remove :: "nat \<Rightarrow> qstore \<Rightarrow> (bool \<times> qstore) option" where
  "q_Remove n m =
     (if n = 0 then None
      else if mbIn (m n)
      then do { m \<leftarrow> setPrev (mpoNext (m n)) (mpoPrev (m n)) m;
                m \<leftarrow> setNext (mpoPrev (m n)) (mpoNext (m n)) m;
                m \<leftarrow> setNext n 0 m;
                m \<leftarrow> setPrev n 0 m;
                m \<leftarrow> setIn n False m;
                Some (True, m) }
      else Some (False, m))"

definition q_Join :: "nat \<Rightarrow> nat \<Rightarrow> qstore \<Rightarrow> qstore option" where
  "q_Join h n m =
     do { m \<leftarrow> setNext (mpoPrev (m h)) (mpoNext (m n)) m;
          m \<leftarrow> setPrev (mpoNext (m n)) (mpoPrev (m h)) m;
          m \<leftarrow> setPrev h (mpoPrev (m n)) m;
          m \<leftarrow> setNext (mpoPrev (m h)) h m;
          Some (q_Init n m) }"

definition q_Split :: "nat \<Rightarrow> nat \<Rightarrow> nat \<Rightarrow> qstore \<Rightarrow> qstore option" where
  "q_Split src p dst m =
     do { m \<leftarrow> setPrev dst (mpoPrev (m src)) m;
          m \<leftarrow> setNext (mpoPrev (m dst)) dst m;
          m \<leftarrow> setNext dst p m;
          m \<leftarrow> setPrev src (mpoPrev (m p)) m;
          m \<leftarrow> setNext (mpoPrev (m src)) src m;
          setPrev p dst m }"

subsection \<open>The list on a head\<close>

fun seg :: "qstore \<Rightarrow> nat \<Rightarrow> nat list \<Rightarrow> nat \<Rightarrow> bool" where
  "seg m a [] b \<longleftrightarrow> mpoNext (m a) = b \<and> mpoPrev (m b) = a"
| "seg m a (x # xs) b \<longleftrightarrow> mpoNext (m a) = x \<and> mpoPrev (m x) = a \<and> seg m x xs b"

definition ring :: "qstore \<Rightarrow> nat \<Rightarrow> nat list \<Rightarrow> bool" where
  "ring m h xs \<longleftrightarrow> seg m h xs h \<and> distinct (h # xs) \<and> 0 \<notin> set (h # xs) \<and> (\<forall>x\<in>set xs. mbIn (m x))"

lemma seg_append: "seg m a (xs @ y # ys) b \<longleftrightarrow> seg m a xs y \<and> seg m y ys b"
  by (induction xs arbitrary: a) auto

text \<open>A segment depends on the links out of its nodes and back into them.\<close>

lemma seg_cong:
  "(\<And>x. x \<in> set (a # xs) \<Longrightarrow> mpoNext (m' x) = mpoNext (m x)) \<Longrightarrow> (\<And>x. x \<in> set (xs @ [b]) \<Longrightarrow> mpoPrev (m' x) = mpoPrev (m x)) \<Longrightarrow>
   seg m' a xs b = seg m a xs b"
  by (induction xs arbitrary: a) auto

lemma seg_last: "seg m a xs b \<Longrightarrow> mpoPrev (m b) = last (a # xs)"
  by (induction xs arbitrary: a) auto

lemma ring_Init: "h \<noteq> 0 \<Longrightarrow> ring (q_Init h m) h []"
  by (simp add: ring_def q_Init_def)

lemma ring_Empty: "ring m h xs \<Longrightarrow> q_Empty h m \<longleftrightarrow> xs = []"
  using seg_last [of m h xs h] by (cases xs rule: rev_cases) (auto simp: ring_def q_Empty_def)

lemma ring_Head: "ring m h xs \<Longrightarrow> q_Head h m = hd (xs @ [h])"
  by (cases xs) (auto simp: ring_def q_Head_def)

lemma ring_Tail: "ring m h xs \<Longrightarrow> q_Tail h m = last (h # xs)"
  using seg_last [of m h xs h] by (simp add: ring_def q_Tail_def)

text \<open>The last node of a segment turns to another node.\<close>

lemma seg_relast:
  assumes "seg m a xs b" "distinct (a # xs)" "c \<notin> set xs" "\<And>x. x \<in> set (butlast (a # xs)) \<Longrightarrow> mpoNext (m' x) = mpoNext (m x)"
    "\<And>x. x \<in> set xs \<Longrightarrow> mpoPrev (m' x) = mpoPrev (m x)" "mpoNext (m' (last (a # xs))) = c" "mpoPrev (m' c) = last (a # xs)"
  shows "seg m' a xs c"
  using assms by (induction xs arbitrary: a) (auto split: if_splits)

lemma last_notin_butlast: "distinct (x # xs) \<Longrightarrow> last (x # xs) \<notin> set (butlast (x # xs))"
  using distinct_append [of "butlast (x # xs)" "[last (x # xs)]"] by (simp del: butlast.simps last.simps)

lemma InsertBM_ring:
  assumes r: "ring m h xs" and n: "n \<noteq> 0" "n \<notin> set (h # xs)"
  shows "\<exists>m'. q_InsertBM h n m = Some m' \<and> ring m' h (xs @ [n]) \<and> (\<forall>a. a \<notin> set (n # h # xs) \<longrightarrow> m' a = m a)"
proof -
  define l where "l = last (h # xs)"
  have p: "mpoPrev (m h) = l" using ring_Tail [OF r] by (simp add: q_Tail_def l_def)
  have l: "l \<in> set (h # xs)" unfolding l_def by (rule last_in_set) simp
  then have l0: "l \<noteq> 0" "l \<noteq> n" using r n(2) unfolding ring_def by metis+
  define m' where "m' = (let m1 = m(n := (m n)\<lparr>mpoNext := h, mpoPrev := l, mbIn := True\<rparr>); m2 = m1(l := (m1 l)\<lparr>mpoNext := n\<rparr>) in m2(h := (m2 h)\<lparr>mpoPrev := n\<rparr>))"
  have h: "h \<noteq> 0" "h \<noteq> n" "0 \<notin> set xs" using r n by (auto simp: ring_def)
  have run: "q_InsertBM h n m = Some m'"
    using n l0 p h by (auto simp: q_InsertBM_def m'_def Let_def fun_eq_iff)
  have "seg m' h xs n"
  proof (rule seg_relast [of m h xs h])
    show "seg m h xs h" "distinct (h # xs)" using r by (auto simp: ring_def)
    show "mpoNext (m' x) = mpoNext (m x)" if "x \<in> set (butlast (h # xs))" for x
    proof -
      have "l \<notin> set (butlast (h # xs))" unfolding l_def by (rule last_notin_butlast) (use r in \<open>simp add: ring_def\<close>)
      then have "x \<noteq> l" "x \<noteq> n" using that n in_set_butlastD [OF that] by auto
      then show ?thesis by (simp add: m'_def Let_def)
    qed
    show "mpoPrev (m' x) = mpoPrev (m x)" if "x \<in> set xs" for x using that n r by (auto simp: m'_def Let_def ring_def)
  qed (use n l0 h in \<open>auto simp: m'_def Let_def l_def\<close>)
  moreover have "seg m' n [] h" using h l0 by (simp add: m'_def Let_def)
  ultimately have "seg m' h (xs @ [n]) h" by (simp add: seg_append)
  moreover have "\<forall>x\<in>set (xs @ [n]). mbIn (m' x)" using r l0 n by (auto simp: ring_def m'_def Let_def)
  ultimately have "ring m' h (xs @ [n])" using r n by (auto simp: ring_def)
  moreover have "\<forall>a. a \<notin> set (n # h # xs) \<longrightarrow> m' a = m a" using l by (auto simp: m'_def Let_def)
  ultimately show ?thesis using run by blast
qed


lemma InsertAM_ring:
  assumes r: "ring m h xs" and n: "n \<noteq> 0" "n \<notin> set (h # xs)"
  shows "\<exists>m'. q_InsertAM h n m = Some m' \<and> ring m' h (n # xs)"
proof -
  define f where "f = hd (xs @ [h])"
  have p: "mpoNext (m h) = f" using ring_Head [OF r] by (simp add: q_Head_def f_def)
  have "f \<in> set (h # xs)" by (cases xs) (simp_all add: f_def)
  then have f0: "f \<noteq> 0" "f \<noteq> n" using r n(2) unfolding ring_def by metis+
  have h: "h \<noteq> 0" "h \<noteq> n" using r n by (auto simp: ring_def)
  define m' where "m' = (let m1 = m(n := (m n)\<lparr>mpoNext := f, mpoPrev := h, mbIn := True\<rparr>); m2 = m1(f := (m1 f)\<lparr>mpoPrev := n\<rparr>) in m2(h := (m2 h)\<lparr>mpoNext := n\<rparr>))"
  have run: "q_InsertAM h n m = Some m'" using n f0 p h by (auto simp: q_InsertAM_def m'_def Let_def fun_eq_iff)
  have "seg m' n xs h"
  proof (cases xs)
    case (Cons x ys)
    have "seg m' x ys h = seg m x ys h"
      by (rule seg_cong) (use r n Cons in \<open>auto simp: m'_def Let_def f_def ring_def\<close>)
    with r Cons n show ?thesis by (auto simp: ring_def m'_def Let_def f_def)
  qed (use h n in \<open>simp add: m'_def Let_def f_def\<close>)
  moreover have "mpoNext (m' h) = n" "mpoPrev (m' n) = h" using h f0 by (auto simp: m'_def Let_def)
  moreover have "\<forall>x\<in>set (n # xs). mbIn (m' x)" using r n f0 by (auto simp: ring_def m'_def Let_def)
  ultimately have "ring m' h (n # xs)" using r n by (auto simp: ring_def)
  with run show ?thesis by blast
qed

lemma Remove_ring:
  assumes r: "ring m h (ys @ x # zs)"
  shows "\<exists>m'. q_Remove x m = Some (True, m') \<and> ring m' h (ys @ zs) \<and> \<not> mbIn (m' x)"
proof -
  define l where "l = last (h # ys)"
  define f where "f = hd (zs @ [h])"
  from r have sg: "seg m h ys x" "seg m x zs h" and d: "distinct (h # ys @ x # zs)" "0 \<notin> set (h # ys @ x # zs)" "\<forall>a\<in>set (ys @ x # zs). mbIn (m a)"
    by (auto simp: ring_def seg_append)
  have px: "mpoPrev (m x) = l" using seg_last [OF sg(1)] by (simp add: l_def)
  have nx: "mpoNext (m x) = f" using sg(2) by (cases zs) (simp_all add: f_def)
  have lin: "l \<in> set (h # ys)" unfolding l_def by (rule last_in_set) simp
  have fin: "f \<in> set (h # zs)" by (cases zs) (simp_all add: f_def)
  have lf: "l \<noteq> 0" "l \<noteq> x" "f \<noteq> 0" "f \<noteq> x" using lin fin d by (auto intro: gr0I)
  have x: "x \<noteq> 0" "mbIn (m x)" using d by auto
  define m' where "m' = (let m1 = m(f := (m f)\<lparr>mpoPrev := l\<rparr>); m2 = m1(l := (m1 l)\<lparr>mpoNext := f\<rparr>) in m2(x := (m x)\<lparr>mpoNext := 0, mpoPrev := 0, mbIn := False\<rparr>))"
  have run: "q_Remove x m = Some (True, m')" using x lf px nx by (auto simp: q_Remove_def m'_def Let_def fun_eq_iff)
  have sf: "seg m' h ys f"
  proof (rule seg_relast [OF sg(1)])
    show "mpoNext (m' a) = mpoNext (m a)" if "a \<in> set (butlast (h # ys))" for a
    proof -
      have "l \<notin> set (butlast (h # ys))" unfolding l_def by (rule last_notin_butlast) (use d in auto)
      then have "a \<noteq> l" "a \<noteq> x" using that d in_set_butlastD [OF that] by auto
      then show ?thesis by (simp add: m'_def Let_def)
    qed
    show "mpoPrev (m' a) = mpoPrev (m a)" if "a \<in> set ys" for a using that d fin by (auto simp: m'_def Let_def)
  qed (use d fin lf in \<open>auto simp: m'_def Let_def l_def\<close>)
  have "seg m' h (ys @ zs) h"
  proof (cases zs)
    case (Cons z ws)
    have "seg m' z ws h = seg m z ws h" by (rule seg_cong) (use d Cons lin in \<open>auto simp: m'_def Let_def f_def\<close>)
    with sf sg(2) Cons show ?thesis by (simp add: seg_append f_def)
  qed (use sf in \<open>simp add: f_def\<close>)
  moreover have "\<forall>a\<in>set (ys @ zs). mbIn (m' a)" using d by (auto simp: m'_def Let_def)
  moreover have "\<not> mbIn (m' x)" by (simp add: m'_def Let_def)
  ultimately show ?thesis using run d by (auto simp: ring_def)
qed


text \<open>\<open>Join\<close> moves the nodes of a second ring to the end of the first; \<open>Split\<close> is its inverse.\<close>

lemma Join_ring:
  assumes r: "ring m h xs" and q: "ring m n ys" and d: "set (h # xs) \<inter> set (n # ys) = {}"
  shows "\<exists>m'. q_Join h n m = Some m' \<and> ring m' h (xs @ ys) \<and> ring m' n []"
proof -
  define l where "l = last (h # xs)"
  define k where "k = last (n # ys)"
  define f where "f = hd (ys @ [n])"
  have lin: "l \<in> set (h # xs)" unfolding l_def by (rule last_in_set) simp
  have kin: "k \<in> set (n # ys)" unfolding k_def by (rule last_in_set) simp
  have fin: "f \<in> set (n # ys)" by (cases ys) (simp_all add: f_def)
  have h: "h \<noteq> 0" "n \<noteq> 0" "l \<noteq> 0" "k \<noteq> 0" "f \<noteq> 0" using r q lin kin fin unfolding ring_def by (metis list.set_intros(1))+
  have ne: "h \<noteq> n" "l \<noteq> n" "l \<noteq> k" "l \<noteq> f" "f \<noteq> h" "k \<noteq> h" using d lin kin fin by auto
  have p: "mpoPrev (m h) = l" "mpoNext (m n) = f" "mpoPrev (m n) = k"
    using ring_Tail [OF r] ring_Head [OF q] ring_Tail [OF q] by (simp_all add: q_Tail_def q_Head_def l_def f_def k_def)
  show ?thesis
  proof (cases ys)
    case Nil
    then have fk: "f = n" "k = n" by (simp_all add: f_def k_def)
    define m' where "m' = m(n := (m n)\<lparr>mpoPrev := n, mpoNext := n, mbIn := False\<rparr>)"
    have nl: "mpoNext (m l) = h" using r unfolding ring_def l_def
      by (cases xs rule: rev_cases) (auto simp: seg_append)
    have same: "(m l)\<lparr>mpoNext := h\<rparr> = m l" "(m h)\<lparr>mpoPrev := l\<rparr> = m h" using nl p(1) by (cases "m l"; cases "m h"; simp)+
    have "q_Join h n m = Some m'"
    proof (cases "h = l")
      case True
      have "(m l)\<lparr>mpoPrev := l, mpoNext := l\<rparr> = m l" using same True by simp
      with True h ne p fk show ?thesis by (simp add: q_Join_def q_Init_def m'_def fun_upd_twist fun_upd_idem_iff)
    next
      case False
      have "q_Join h n m = Some (m(l := (m l)\<lparr>mpoNext := h\<rparr>, h := (m h)\<lparr>mpoPrev := l\<rparr>, n := (m n)\<lparr>mpoPrev := n, mpoNext := n, mbIn := False\<rparr>))"
        using False h ne p fk by (simp add: q_Join_def q_Init_def fun_upd_twist)
      then show ?thesis by (simp only: same fun_upd_triv m'_def)
    qed
    moreover have "seg m' h xs h = seg m h xs h" by (rule seg_cong) (use d in \<open>auto simp: m'_def\<close>)
    then have "ring m' h xs" using r d by (auto simp: ring_def m'_def)
    moreover have "ring m' n []" using h by (simp add: ring_def m'_def)
    ultimately show ?thesis using Nil by simp
  next
    case (Cons y ws)
    then have f: "f = y" by (simp add: f_def)
    have kn: "k \<in> set ys" unfolding k_def using Cons by (simp add: last_in_set)
    have nn: "n \<notin> set ys" "f \<noteq> n" "k \<noteq> n" using q kn Cons f by (auto simp: ring_def)
    define m1 where "m1 = m(l := (m l)\<lparr>mpoNext := f\<rparr>)"
    define m2 where "m2 = m1(f := (m1 f)\<lparr>mpoPrev := l\<rparr>)"
    define m3 where "m3 = m2(h := (m2 h)\<lparr>mpoPrev := k\<rparr>)"
    define m4 where "m4 = m3(k := (m3 k)\<lparr>mpoNext := h\<rparr>)"
    define m' where "m' = q_Init n m4"
    note m' = m'_def m4_def m3_def m2_def m1_def q_Init_def
    have steps: "setNext l f m = Some m1" "setPrev f l m1 = Some m2" "setPrev h k m2 = Some m3" "setNext k h m3 = Some m4"
      using h by (simp_all add: m4_def m3_def m2_def m1_def)
    have reads: "mpoNext (m1 n) = f" "mpoPrev (m1 h) = l" "mpoPrev (m2 n) = k" "mpoPrev (m3 h) = k"
      using ne nn p by (auto simp: m3_def m2_def m1_def)
    have run: "q_Join h n m = Some m'"
      by (simp only: q_Join_def p steps reads Option.bind.bind_lunit m'_def)
    have nxt: "mpoNext (m' a) = (if a = n then n else if a = k then h else if a = l then f else mpoNext (m a))" for a
      using ne by (simp add: m')
    have prv: "mpoPrev (m' a) = (if a = n then n else if a = h then k else if a = f then l else mpoPrev (m a))" for a
      using ne by (simp add: m')
    have dx: "distinct (h # xs)" "h \<notin> set xs" "f \<notin> set xs" "n \<notin> set xs" using r d fin by (auto simp: ring_def)
    have sx: "seg m' h xs f"
    proof (rule seg_relast [of m h xs h])
      show "mpoNext (m' a) = mpoNext (m a)" if "a \<in> set (butlast (h # xs))" for a
      proof -
        have "l \<notin> set (butlast (h # xs))" unfolding l_def by (rule last_notin_butlast [OF dx(1)])
        then have "a \<noteq> l" "a \<noteq> k" "a \<noteq> n" using that d kin in_set_butlastD [OF that] by auto
        then show ?thesis by (simp add: nxt)
      qed
      show "seg m h xs h" "distinct (h # xs)" "f \<notin> set xs" using r dx by (simp_all add: ring_def)
      show "mpoPrev (m' a) = mpoPrev (m a)" if "a \<in> set xs" for a using that dx by (auto simp: prv)
      show "mpoNext (m' (last (h # xs))) = f" "mpoPrev (m' f) = last (h # xs)" unfolding l_def [symmetric] using ne nn by (simp_all add: nxt prv)
    qed
    have sy: "seg m' y ws h"
    proof (rule seg_relast [of m y ws n])
      have kl: "last (y # ws) = k" using Cons by (simp add: k_def)
      show "seg m y ws n" "distinct (y # ws)" "h \<notin> set ws" using q Cons d by (auto simp: ring_def)
      show "mpoNext (m' a) = mpoNext (m a)" if "a \<in> set (butlast (y # ws))" for a
      proof -
        have "k \<notin> set (butlast (y # ws))" unfolding kl [symmetric] by (rule last_notin_butlast) (use q Cons in \<open>simp add: ring_def\<close>)
        then have "a \<noteq> k" "a \<noteq> l" "a \<noteq> n" using that d lin nn Cons in_set_butlastD [OF that] by auto
        then show ?thesis by (simp add: nxt)
      qed
      have "y \<notin> set ws" "h \<notin> set ws" "n \<notin> set ws" using q d Cons nn by (auto simp: ring_def)
      then show "mpoPrev (m' a) = mpoPrev (m a)" if "a \<in> set ws" for a using that f by (auto simp: prv)
      show "mpoNext (m' (last (y # ws))) = h" "mpoPrev (m' h) = last (y # ws)" unfolding kl using ne nn by (simp_all add: nxt prv)
    qed
    have "seg m' h (xs @ ys) h" using sx sy Cons f by (simp add: seg_append)
    moreover have "mbIn (m' a) = mbIn (m a)" if "a \<noteq> n" for a using that by (simp add: m')
    moreover have "a \<noteq> n \<and> mbIn (m a)" if "a \<in> set (xs @ ys)" for a using that r q d nn by (auto simp: ring_def)
    ultimately have "seg m' h (xs @ ys) h" "\<forall>a\<in>set (xs @ ys). mbIn (m' a)" by blast+
    then have "ring m' h (xs @ ys)" using r q d by (auto simp: ring_def)
    moreover have "ring m' n []" using h by (simp add: ring_def m')
    ultimately show ?thesis using run by blast
  qed
qed

lemma Split_ring:
  assumes r: "ring m h (xs @ p # ys)" and n: "n \<noteq> 0" "n \<notin> set (h # xs @ p # ys)"
  shows "\<exists>m'. q_Split h p n m = Some m' \<and> ring m' h xs \<and> ring m' n (p # ys)"
proof -
  define l where "l = last (h # xs)"
  define k where "k = last (p # ys)"
  from r have sg: "seg m h xs p" "seg m p ys h" and d: "distinct (h # xs @ p # ys)" "0 \<notin> set (h # xs @ p # ys)" "\<forall>a\<in>set (xs @ p # ys). mbIn (m a)"
    by (auto simp: ring_def seg_append)
  have lin: "l \<in> set (h # xs)" unfolding l_def by (rule last_in_set) simp
  have kin: "k \<in> set (p # ys)" unfolding k_def by (rule last_in_set) simp
  have pr: "mpoPrev (m h) = k" "mpoPrev (m p) = l" using seg_last [OF sg(2)] seg_last [OF sg(1)] by (simp_all add: k_def l_def)
  have nz: "h \<noteq> 0" "p \<noteq> 0" "l \<noteq> 0" "k \<noteq> 0" using d lin kin by (auto intro: gr0I)
  have ne: "h \<noteq> n" "l \<noteq> n" "k \<noteq> n" "p \<noteq> n" "h \<noteq> k" "h \<noteq> p" "l \<noteq> p" "l \<noteq> k" using d n lin kin by auto
  define m1 where "m1 = m(n := (m n)\<lparr>mpoPrev := k\<rparr>)"
  define m2 where "m2 = m1(k := (m1 k)\<lparr>mpoNext := n\<rparr>)"
  define m3 where "m3 = m2(n := (m2 n)\<lparr>mpoNext := p\<rparr>)"
  define m4 where "m4 = m3(h := (m3 h)\<lparr>mpoPrev := l\<rparr>)"
  define m5 where "m5 = m4(l := (m4 l)\<lparr>mpoNext := h\<rparr>)"
  define m' where "m' = m5(p := (m5 p)\<lparr>mpoPrev := n\<rparr>)"
  note m' = m'_def m5_def m4_def m3_def m2_def m1_def
  have steps: "setPrev n k m = Some m1" "setNext k n m1 = Some m2" "setNext n p m2 = Some m3" "setPrev h l m3 = Some m4" "setNext l h m4 = Some m5"
    "setPrev p n m5 = Some m'"
    using nz n by (simp_all add: m')
  have reads: "mpoPrev (m1 n) = k" "mpoPrev (m3 p) = l" "mpoPrev (m4 h) = l"
    using ne pr by (auto simp: m4_def m3_def m2_def m1_def)
  have run: "q_Split h p n m = Some m'"
    by (simp only: q_Split_def pr steps reads Option.bind.bind_lunit)
  have nxt: "mpoNext (m' a) = (if a = n then p else if a = k then n else if a = l then h else mpoNext (m a))" for a
    using ne by (simp add: m')
  have prv: "mpoPrev (m' a) = (if a = n then k else if a = h then l else if a = p then n else mpoPrev (m a))" for a
    using ne by (simp add: m')
  have sx: "seg m' h xs h"
  proof (rule seg_relast [OF sg(1)])
    show "mpoNext (m' a) = mpoNext (m a)" if "a \<in> set (butlast (h # xs))" for a
    proof -
      have "l \<notin> set (butlast (h # xs))" unfolding l_def by (rule last_notin_butlast) (use d in auto)
      then have "a \<noteq> k" "a \<noteq> l" "a \<noteq> n" using that d n kin in_set_butlastD [OF that] by auto
      then show ?thesis by (simp add: nxt)
    qed
    show "distinct (h # xs)" "h \<notin> set xs" using d by auto
    show "mpoPrev (m' a) = mpoPrev (m a)" if "a \<in> set xs" for a using that d n by (auto simp: prv)
    show "mpoNext (m' (last (h # xs))) = h" "mpoPrev (m' h) = last (h # xs)" unfolding l_def [symmetric] using ne by (simp_all add: nxt prv)
  qed
  have sy: "seg m' p ys n"
  proof (rule seg_relast [OF sg(2)])
    show "mpoNext (m' a) = mpoNext (m a)" if "a \<in> set (butlast (p # ys))" for a
    proof -
      have "k \<notin> set (butlast (p # ys))" unfolding k_def by (rule last_notin_butlast) (use d in auto)
      then have "a \<noteq> k" "a \<noteq> l" "a \<noteq> n" using that d n lin in_set_butlastD [OF that] by auto
      then show ?thesis by (simp add: nxt)
    qed
    show "distinct (p # ys)" "n \<notin> set ys" using d n by auto
    show "mpoPrev (m' a) = mpoPrev (m a)" if "a \<in> set ys" for a using that d n by (auto simp: prv)
    show "mpoNext (m' (last (p # ys))) = n" "mpoPrev (m' n) = last (p # ys)" unfolding k_def [symmetric] using ne by (simp_all add: nxt prv)
  qed
  have "mpoNext (m' n) = p" "mpoPrev (m' p) = n" using ne by (simp_all add: nxt prv)
  moreover have mb: "mbIn (m' a) = mbIn (m a)" for a by (simp add: m')
  ultimately have "ring m' n (p # ys)" using sy d n by (auto simp: ring_def mb)
  moreover have "ring m' h xs" using sx d by (auto simp: ring_def mb)
  ultimately show ?thesis using run by blast
qed

text \<open>A node that is already in the ring: \<open>InsertBM\<close> does not look, and \<open>Remove\<close> then leaves it behind.\<close>

lemma InsertBM_twice:
  assumes "ring m h [n]"
  shows "\<exists>m1 m2. q_InsertBM h n m = Some m1 \<and> q_Remove n m1 = Some (True, m2) \<and> \<not> q_Empty h m2 \<and> q_Head h m2 = n \<and>
    mpoNext (m2 n) = 0 \<and> q_Remove n m2 = Some (False, m2)"
  using assms by (auto simp: ring_def q_InsertBM_def q_Remove_def q_Empty_def q_Head_def)

end
