(* ===== verification/Event_Timer.thy ===== *)
theory Event_Timer
  imports RB_Queue Net_Ring
begin

section \<open>Timers and posted events of the framework\<close>

text \<open>
  The model of \<open>CTimeValue\<close> (\<^verbatim>\<open>src/netfram/TimeValue.cpp\<close>), of \<open>CTimer\<close> (\<^verbatim>\<open>src/netfram/Timer.cpp\<close>), of the
  flags of \<open>CIoEvent\<close> (\<^verbatim>\<open>src/netfram/IoEvent.cpp\<close>) and of the queue of posted events
  (\<^verbatim>\<open>src/netfram/EventPosted.cpp\<close>). An event is a number: its address as a node of the tree and as a
  node of the ring. The lock around each call makes it one step.
\<close>

subsection \<open>Time values\<close>

text \<open>A time value is a count of nanoseconds, a signed 64-bit integer; the division of C rounds towards zero.\<close>

definition TIME_NSEC :: u64 where "TIME_NSEC = 1"
definition TIME_USEC :: u64 where "TIME_USEC = TIME_NSEC * 1000"
definition TIME_MSEC :: u64 where "TIME_MSEC = TIME_USEC * 1000"
definition TIME_SEC :: u64 where "TIME_SEC = TIME_MSEC * 1000"
definition TIME_MIN :: u64 where "TIME_MIN = TIME_SEC * 60"
definition TIME_HOUR :: u64 where "TIME_HOUR = TIME_MIN * 60"
definition TIME_DAY :: u64 where "TIME_DAY = TIME_HOUR * 24"
definition TIME_WEEK :: u64 where "TIME_WEEK = TIME_DAY * 7"

definition quot :: "u64 \<Rightarrow> u64 \<Rightarrow> u64" where
  "quot a b = word_of_int (sgn (sint a) * sgn (sint b) * (\<bar>sint a\<bar> div \<bar>sint b\<bar>))"

definition tv_Set :: "u64 \<Rightarrow> u64 \<Rightarrow> u64" where "tv_Set v u = v * u"
definition tv_setNsec :: "u64 \<Rightarrow> u64" where "tv_setNsec v = tv_Set v TIME_NSEC"
definition tv_setUsec :: "u64 \<Rightarrow> u64" where "tv_setUsec v = tv_Set v TIME_USEC"
definition tv_setMsec :: "u64 \<Rightarrow> u64" where "tv_setMsec v = tv_Set v TIME_MSEC"
definition tv_setSec :: "u64 \<Rightarrow> u64" where "tv_setSec v = tv_Set v TIME_SEC"
definition tv_setMin :: "u64 \<Rightarrow> u64" where "tv_setMin v = tv_Set v TIME_MIN"
definition tv_setHour :: "u64 \<Rightarrow> u64" where "tv_setHour v = tv_Set v TIME_HOUR"
definition tv_setDay :: "u64 \<Rightarrow> u64" where "tv_setDay v = tv_Set v TIME_DAY"
definition tv_setWeek :: "u64 \<Rightarrow> u64" where "tv_setWeek v = tv_Set v TIME_WEEK"
definition tv_Nsec :: "u64 \<Rightarrow> u64" where "tv_Nsec t = t"
definition tv_Usec :: "u64 \<Rightarrow> u64" where "tv_Usec t = quot t TIME_USEC"
definition tv_Msec :: "u64 \<Rightarrow> u64" where "tv_Msec t = quot t TIME_MSEC"
definition tv_Sec :: "u64 \<Rightarrow> u64" where "tv_Sec t = quot t TIME_SEC"
definition tv_Min :: "u64 \<Rightarrow> u64" where "tv_Min t = quot t TIME_MIN"
definition tv_Hour :: "u64 \<Rightarrow> u64" where "tv_Hour t = quot t TIME_HOUR"
definition tv_Day :: "u64 \<Rightarrow> u64" where "tv_Day t = quot t TIME_DAY"
definition tv_Week :: "u64 \<Rightarrow> u64" where "tv_Week t = quot t TIME_WEEK"

text \<open>The operators; a number on the right is a number of seconds.\<close>

definition tv_add :: "u64 \<Rightarrow> u64 \<Rightarrow> u64" where "tv_add t r = t + r"
definition tv_add_sec :: "u64 \<Rightarrow> u64 \<Rightarrow> u64" where "tv_add_sec t r = t + r * TIME_SEC"
definition tv_assign_sec :: "u64 \<Rightarrow> u64" where "tv_assign_sec r = r * TIME_SEC"
definition tv_sub :: "u64 \<Rightarrow> u64 \<Rightarrow> u64" where "tv_sub t r = t - r"
definition tv_sub_sec :: "u64 \<Rightarrow> u64 \<Rightarrow> u64" where "tv_sub_sec t r = t - r * TIME_SEC"
definition tv_incr :: "u64 \<Rightarrow> u64 \<times> u64" where "tv_incr t = (t, tv_add_sec t 1)"
definition tv_decr :: "u64 \<Rightarrow> u64 \<times> u64" where "tv_decr t = (t, tv_sub_sec t 1)"
definition tv_less :: "u64 \<Rightarrow> u64 \<Rightarrow> bool" where "tv_less a b \<longleftrightarrow> sint (tv_Nsec a) < sint (tv_Nsec b)"

lemmas TIME_defs = TIME_NSEC_def TIME_USEC_def TIME_MSEC_def TIME_SEC_def TIME_MIN_def TIME_HOUR_def TIME_DAY_def TIME_WEEK_def

text \<open>A getter reads back what its setter wrote, as long as the nanoseconds fit.\<close>

lemma quot_times:
  assumes "0 < sint u" "- (2 ^ 63) \<le> sint v * sint u" "sint v * sint u < 2 ^ 63"
  shows "quot (v * u) u = v"
proof -
  have "v * u = word_of_int (sint v * sint u)" by simp
  then have "sint (v * u) = sint (word_of_int (sint v * sint u) :: u64)" by simp
  also have "\<dots> = signed_take_bit 63 (sint v * sint u)" unfolding sint_sbintrunc' by simp
  also have "\<dots> = sint v * sint u" by (rule signed_take_bit_int_eq_self [OF assms(2,3)])
  finally have "sint (v * u) = sint v * sint u" .
  moreover have "sgn (sint v * sint u) * (\<bar>sint v * sint u\<bar> div sint u) = sint v"
    using assms(1) by (simp add: sgn_mult abs_mult sgn_mult_abs)
  ultimately show ?thesis using assms(1) by (simp add: quot_def)
qed

lemma tv_roundtrip:
  "- (2 ^ 63) \<le> sint v * 604800000000000 \<Longrightarrow> sint v * 604800000000000 < 2 ^ 63 \<Longrightarrow> tv_Week (tv_setWeek v) = v"
  "- (2 ^ 63) \<le> sint v * 1000000000 \<Longrightarrow> sint v * 1000000000 < 2 ^ 63 \<Longrightarrow> tv_Sec (tv_setSec v) = v"
  "- (2 ^ 63) \<le> sint v * 1000000 \<Longrightarrow> sint v * 1000000 < 2 ^ 63 \<Longrightarrow> tv_Msec (tv_setMsec v) = v"
  using quot_times [of TIME_WEEK v] quot_times [of TIME_SEC v] quot_times [of TIME_MSEC v]
  by (simp_all add: tv_Week_def tv_setWeek_def tv_Sec_def tv_setSec_def tv_Msec_def tv_setMsec_def tv_Set_def TIME_defs)

subsection \<open>The state\<close>

record ioevent =
  mbTimeout :: bool
  mbTimerOn :: bool
  mbAccept :: bool
  mbReady :: bool

record evloop =
  moTime :: u64
  moTimerHolder :: rbtree
  muSlot :: nat
  muLock :: bool
  moCacheTimes :: "nat \<Rightarrow> u64"
  mpoCacheTime :: nat
  maacFormatTimes :: "nat \<Rightarrow> u64"
  events :: "nat \<Rightarrow> ioevent"
  posted :: qstore
  accepted :: "nat list"

definition TIME_SLOTS :: nat where "TIME_SLOTS = 12"

text \<open>The heads of the two rings; \<open>accepted\<close> lists the events given to \<open>CEventDo::Accept\<close> directly.\<close>

definition moHead :: nat where "moHead = 1"
definition moAccept :: nat where "moAccept = 2"

definition MINA_POST_EVENTS :: u32 where "MINA_POST_EVENTS = 2"
definition MINA_POST_THREAD_EVENTS :: u32 where "MINA_POST_THREAD_EVENTS = 4"

definition set_event :: "(ioevent \<Rightarrow> ioevent) \<Rightarrow> nat \<Rightarrow> evloop \<Rightarrow> evloop" where
  "set_event f e s = s\<lparr>events := (events s)(e := f (events s e))\<rparr>"

subsection \<open>Posted events\<close>

definition posted_new :: "evloop \<Rightarrow> evloop" where
  "posted_new s = s\<lparr>posted := q_Init moAccept (q_Init moHead (posted s))\<rparr>"

definition Post :: "nat \<Rightarrow> evloop \<Rightarrow> evloop option" where
  "Post e s = do { m \<leftarrow> q_InsertBM moHead e (posted s); Some (s\<lparr>posted := m\<rparr>) }"

definition PostAccept :: "nat \<Rightarrow> evloop \<Rightarrow> evloop option" where
  "PostAccept e s = do { m \<leftarrow> q_InsertBM moAccept e (posted s); Some (s\<lparr>posted := m\<rparr>) }"

definition HasPosted :: "evloop \<Rightarrow> bool" where
  "HasPosted s \<longleftrightarrow> \<not> q_Empty moHead (posted s)"

definition LockedDeletePosted :: "nat \<Rightarrow> evloop \<Rightarrow> evloop option" where
  "LockedDeletePosted e s = do { (b, m) \<leftarrow> q_Remove e (posted s); Some (s\<lparr>posted := m\<rparr>) }"

definition PostEvent :: "nat \<Rightarrow> u32 \<Rightarrow> evloop \<Rightarrow> evloop option" where
  "PostEvent e flag s =
     (let s = set_event (\<lambda>v. v\<lparr>mbReady := True\<rparr>) e s
      in if flag AND MINA_POST_EVENTS \<noteq> 0 \<or> \<not> mbAccept (events s e)
         then if mbAccept (events s e) then PostAccept e s else Post e s
         else Some (s\<lparr>accepted := accepted s @ [e]\<rparr>))"

definition PostTimeout :: "nat \<Rightarrow> evloop \<Rightarrow> evloop option" where
  "PostTimeout e s = PostEvent e MINA_POST_THREAD_EVENTS (set_event (\<lambda>v. v\<lparr>mbTimeout := True\<rparr>) e s)"

subsection \<open>Timers\<close>

definition CTimer_Empty :: "evloop \<Rightarrow> bool" where
  "CTimer_Empty s \<longleftrightarrow> rb_Empty (moTimerHolder s)"

text \<open>The milliseconds to the first timer, or \<open>-1\<close>: there is none, or it is due.\<close>

definition CTimer_Find :: "evloop \<Rightarrow> u32 option" where
  "CTimer_Find s =
     (if rb_Empty (moTimerHolder s) then Some (- 1)
      else do { e \<leftarrow> SeekToFirst (moTimerHolder s);
                if it_Valid e
                then do { k \<leftarrow> rd mtKey e (moTimerHolder s);
                          let timer = (ucast (k - tv_Msec (moTime s)) :: u32);
                          Some (if 0 < sint timer then timer else - 1) }
                else Some (- 1) })"

definition CTimer_Delete :: "nat \<Rightarrow> evloop \<Rightarrow> evloop option" where
  "CTimer_Delete e s =
     (if rb_Empty (moTimerHolder s) then None
      else do { t \<leftarrow> rb_Delete e (moTimerHolder s);
                Some (set_event (\<lambda>v. v\<lparr>mbTimerOn := False\<rparr>) e (s\<lparr>moTimerHolder := t\<rparr>)) })"

partial_function (option) CTimer_Expire :: "evloop \<Rightarrow> evloop option" where
  "CTimer_Expire s =
     (if rb_Empty (moTimerHolder s) then Some s
      else do { e \<leftarrow> SeekToFirst (moTimerHolder s);
                if \<not> it_Valid e then None
                else do { k \<leftarrow> rd mtKey e (moTimerHolder s);
                          if 0 \<le> sint (ucast (tv_Msec (moTime s) - k) :: u32)
                          then do { s \<leftarrow> PostTimeout e s; s \<leftarrow> CTimer_Delete e s; CTimer_Expire s }
                          else Some s } })"

declare CTimer_Expire.simps [code]

text \<open>\<open>abs\<close> of the least 32-bit integer is that integer.\<close>

definition CTimer_Add :: "nat \<Rightarrow> u64 \<Rightarrow> evloop \<Rightarrow> evloop option" where
  "CTimer_Add e ms s =
     (if ms = 0 \<or> ms < 1 then Some s
      else
        let key = tv_Msec (moTime s) + ms;
            diff = (ucast (key - mtKey (nodes (moTimerHolder s) e)) :: u32)
        in if mbTimerOn (events s e) \<and> sint (if sint diff < 0 then - diff else diff) < 1 then Some s
           else do { s \<leftarrow> (if mbTimerOn (events s e) then CTimer_Delete e s else Some s);
                     t \<leftarrow> wr (\<lambda>n. n\<lparr>mtKey := key\<rparr>) e (moTimerHolder s);
                     t \<leftarrow> rb_Insert e t;
                     Some (set_event (\<lambda>v. v\<lparr>mbTimerOn := True\<rparr>) e (s\<lparr>moTimerHolder := t\<rparr>)) })"

text \<open>
  \<open>Update\<close> with the seconds and microseconds that \<open>gettimeofday\<close> returns; a slot of
  \<open>maacFormatTimes\<close> is the second it shows.
\<close>

definition CTimer_Update :: "u64 \<Rightarrow> u64 \<Rightarrow> evloop \<Rightarrow> evloop" where
  "CTimer_Update sec usec s =
     (if muLock s then s
      else
        let msec = quot usec TIME_MSEC;
            s = s\<lparr>moTime := tv_Set (sec * TIME_SEC + usec * TIME_USEC) TIME_NSEC\<rparr>
        in if tv_Sec (moCacheTimes s (muSlot s)) = sec
           then s\<lparr>moCacheTimes := (moCacheTimes s)(muSlot s := tv_setMsec msec)\<rparr>
           else
             let slot = (if muSlot s = TIME_SLOTS - 1 then 0 else muSlot s + 1);
                 c = (moCacheTimes s)(slot := tv_setSec sec)
             in s\<lparr>muSlot := slot, moCacheTimes := c(slot := tv_setMsec msec),
                  maacFormatTimes := (maacFormatTimes s)(slot := sec), mpoCacheTime := slot\<rparr>)"

definition CTimer_Init :: "u64 \<Rightarrow> u64 \<Rightarrow> evloop \<Rightarrow> evloop" where
  "CTimer_Init sec usec s = (CTimer_Update sec usec (s\<lparr>muSlot := 0, mpoCacheTime := 0\<rparr>))\<lparr>muLock := False\<rparr>"

text \<open>How long \<open>CPoll::Poll\<close> waits.\<close>

definition poll_delay :: "u32 \<Rightarrow> evloop \<Rightarrow> u32 option" where
  "poll_delay maxDelay s = do { t \<leftarrow> CTimer_Find s; Some (if t = - 1 \<or> t > maxDelay then maxDelay else t) }"

subsection \<open>Posting\<close>

lemma events_set [simp]:
  "events (set_event f e s) = (events s)(e := f (events s e))" "posted (set_event f e s) = posted s"
  "moTimerHolder (set_event f e s) = moTimerHolder s" "moTime (set_event f e s) = moTime s" "accepted (set_event f e s) = accepted s"
  by (simp_all add: set_event_def)

lemma PostTimeout_run:
  assumes "ring (posted s) moHead ps" "e \<noteq> 0" "e \<notin> set (moHead # ps)" "\<not> mbAccept (events s e)"
  shows "\<exists>s'. PostTimeout e s = Some s' \<and> ring (posted s') moHead (ps @ [e]) \<and> moTimerHolder s' = moTimerHolder s \<and> moTime s' = moTime s \<and>
    events s' = (events s)(e := (events s e)\<lparr>mbTimeout := True, mbReady := True\<rparr>)"
  using InsertBM_ring [OF assms(1-3)] assms(4) by (auto simp: PostTimeout_def PostEvent_def Post_def Let_def)

subsection \<open>Expiry\<close>

definition due :: "u64 \<Rightarrow> evloop \<Rightarrow> nat \<Rightarrow> bool" where
  "due base s e \<longleftrightarrow> off base (moTimerHolder s) e \<le> offset base (tv_Msec (moTime s))"

lemma Expire_run:
  "queue_of base (moTimerHolder s) xs \<Longrightarrow> offset base (tv_Msec (moTime s)) < 2 ^ 31 \<Longrightarrow> ring (posted s) moHead ps \<Longrightarrow>
   \<forall>e\<in>set xs. e \<notin> set (moHead # ps) \<and> \<not> mbAccept (events s e) \<Longrightarrow>
   \<exists>s'. CTimer_Expire s = Some s' \<and> queue_of base (moTimerHolder s') (dropWhile (due base s) xs) \<and>
     ring (posted s') moHead (ps @ takeWhile (due base s) xs) \<and>
     (\<forall>e. events s' e = (if e \<in> set (takeWhile (due base s) xs) then (events s e)\<lparr>mbTimeout := True, mbReady := True, mbTimerOn := False\<rparr> else events s e))"
proof (induction xs arbitrary: s ps)
  case Nil
  then show ?case using Empty_queue [OF Nil(1)] by (subst CTimer_Expire.simps) auto
next
  case (Cons x xs)
  note q = Cons.prems(1)
  have ne: "\<not> rb_Empty (moTimerHolder s)" using Empty_queue [OF q] by simp
  note fr = rbq.front_rep [OF q] and x = SeekToFirst_queue(3,4) [OF q]
  have w: "off base (moTimerHolder s) x < 2 ^ 31" using q by (simp add: queue_of_def window_def)
  have test: "0 \<le> sint (ucast (tv_Msec (moTime s) - mtKey (nodes (moTimerHolder s) x)) :: u32) \<longleftrightarrow> due base s x"
    using diff_window [OF Cons.prems(2) w] by (auto simp: due_def)
  have unf: "CTimer_Expire s = (if due base s x then do { s \<leftarrow> PostTimeout x s; s \<leftarrow> CTimer_Delete x s; CTimer_Expire s } else Some s)"
    by (subst CTimer_Expire.simps) (simp add: ne fr x it_Valid_def rd_def test)
  show ?case
  proof (cases "due base s x")
    case True
    from PostTimeout_run [OF Cons.prems(3) x(1)] Cons.prems(4) obtain s1 where
      s1: "PostTimeout x s = Some s1" "ring (posted s1) moHead (ps @ [x])" "moTimerHolder s1 = moTimerHolder s" "moTime s1 = moTime s"
        "events s1 = (events s)(x := (events s x)\<lparr>mbTimeout := True, mbReady := True\<rparr>)" by auto
    from rbq.deq_rep [OF q] obtain t where t: "rb_Delete x (moTimerHolder s) = Some t" "queue_of base t xs" "off base t = off base (moTimerHolder s)" by blast
    define s2 where "s2 = set_event (\<lambda>v. v\<lparr>mbTimerOn := False\<rparr>) x (s1\<lparr>moTimerHolder := t\<rparr>)"
    have del: "CTimer_Delete x s1 = Some s2" using ne s1(3) t(1) by (simp add: CTimer_Delete_def s2_def)
    have h2: "moTimerHolder s2 = t" "moTime s2 = moTime s" "posted s2 = posted s1"
      "events s2 = (events s)(x := (events s x)\<lparr>mbTimeout := True, mbReady := True, mbTimerOn := False\<rparr>)" using s1 by (auto simp: s2_def)
    have du: "due base s2 = due base s" using t(3) h2(1,2) by (simp add: due_def fun_eq_iff)
    have dx: "x \<notin> set xs" using q by (auto simp: queue_of_def rb_rep_def)
    have p: "queue_of base (moTimerHolder s2) xs" "offset base (tv_Msec (moTime s2)) < 2 ^ 31" "ring (posted s2) moHead (ps @ [x])"
      using t(2) h2 s1(2) Cons.prems(2) by simp_all
    have "\<forall>e\<in>set xs. e \<notin> set (moHead # ps @ [x]) \<and> \<not> mbAccept (events s2 e)" using Cons.prems(4) dx h2(4) by auto
    from Cons.IH [OF p this, unfolded du] obtain s' where
      s': "CTimer_Expire s2 = Some s'" "queue_of base (moTimerHolder s') (dropWhile (due base s) xs)" "ring (posted s') moHead ((ps @ [x]) @ takeWhile (due base s) xs)"
        "\<forall>e. events s' e = (if e \<in> set (takeWhile (due base s) xs) then (events s2 e)\<lparr>mbTimeout := True, mbReady := True, mbTimerOn := False\<rparr> else events s2 e)" by blast
    have "x \<notin> set (takeWhile (due base s) xs)" using dx set_takeWhileD by metis
    with s' unf True s1(1) del h2(4) show ?thesis by auto
  next
    case False
    with unf Cons.prems show ?thesis by simp
  qed
qed

subsection \<open>Arming a timer\<close>

lemma Add_run:
  assumes q: "queue_of base (moTimerHolder s) xs" and e: "e \<notin> set xs" "e \<noteq> 0" "e \<noteq> SENT" "\<not> mbTimerOn (events s e)"
    and ms: "ms \<noteq> 0" "offset base (tv_Msec (moTime s) + ms) < 2 ^ 31"
  defines "key \<equiv> (off base (moTimerHolder s))(e := offset base (tv_Msec (moTime s) + ms))"
  shows "\<exists>s'. CTimer_Add e ms s = Some s' \<and> queue_of base (moTimerHolder s') (enqueue key e xs) \<and> mbTimerOn (events s' e) \<and>
    off base (moTimerHolder s') = key \<and> moTime s' = moTime s"
proof -
  define h where "h = (moTimerHolder s)\<lparr>nodes := (nodes (moTimerHolder s))(e := (nodes (moTimerHolder s) e)\<lparr>mtKey := tv_Msec (moTime s) + ms\<rparr>)\<rparr>"
  have w: "wr (\<lambda>n. n\<lparr>mtKey := tv_Msec (moTime s) + ms\<rparr>) e (moTimerHolder s) = Some h" using e(2) by (simp add: wr_def h_def)
  have "queue_of base h xs" by (rule queue_cong [OF q]) (use e in \<open>auto simp: h_def\<close>)
  moreover have k: "off base h = key" by (auto simp: h_def key_def)
  moreover have "off base h e < 2 ^ 31" using ms(2) by (simp add: h_def)
  then have "insertable base h e" using e(2,3) by (simp add: insertable_def)
  ultimately obtain t where t: "rb_Insert e h = Some t" "queue_of base t (enqueue key e xs)" "off base t = key"
    using rbq.enq_rep [of base h xs e] e(1) by auto
  have "\<not> ms < 1" using ms(1) by (simp add: word_less_1)
  with ms(1) e(4) w t show ?thesis by (auto simp: CTimer_Add_def Let_def)
qed

subsection \<open>The next deadline\<close>

text \<open>A timer that is due counts as no timer: the poll then waits for its longest delay.\<close>

lemma Find_queue:
  assumes q: "queue_of base (moTimerHolder s) (x # xs)" and now: "offset base (tv_Msec (moTime s)) < 2 ^ 31"
  defines "d \<equiv> int (off base (moTimerHolder s) x) - int (offset base (tv_Msec (moTime s)))"
  shows "CTimer_Find s = Some (if 0 < d then word_of_int d else - 1)"
proof -
  have w: "off base (moTimerHolder s) x < 2 ^ 31" using q by (simp add: queue_of_def window_def)
  let ?t = "ucast (mtKey (nodes (moTimerHolder s) x) - tv_Msec (moTime s)) :: u32"
  have "sint ?t = d" using diff_window [OF w now] by (simp add: d_def)
  moreover have "word_of_int (sint ?t) = ?t" by simp
  ultimately have "sint ?t = d" "?t = word_of_int d" by simp_all
  then show ?thesis
    using Empty_queue [OF q] rbq.front_rep [OF q] SeekToFirst_queue(3,4) [OF q] by (simp add: CTimer_Find_def it_Valid_def rd_def Let_def)
qed

lemma poll_overdue:
  assumes "queue_of base (moTimerHolder s) (x # xs)" "offset base (tv_Msec (moTime s)) < 2 ^ 31" "due base s x"
  shows "poll_delay maxDelay s = Some maxDelay"
  using Find_queue [OF assms(1,2)] assms(3) by (simp add: poll_delay_def due_def)

subsection \<open>The cached times\<close>

lemma quot_small: "unat a < unat b \<Longrightarrow> unat b < 2 ^ 63 \<Longrightarrow> quot a b = 0"
proof -
  assume h: "unat a < unat b" "unat b < 2 ^ 63"
  have "sint c = int (unat c)" if "unat c < 2 ^ 63" for c :: u64
  proof -
    have "int (unat c) < int (2 ^ 63)" using that unfolding of_nat_less_iff .
    then have "uint c < 2 ^ 63" by simp
    then have "signed_take_bit 63 (uint c) = uint c" using uint_nonnegative [of c] by (intro signed_take_bit_int_eq_self) linarith+
    then show ?thesis by (simp add: sint_uint)
  qed
  with h have "sint a = uint a" "sint b = uint b" by simp_all
  moreover have "int (unat a) < int (unat b)" using h(1) by (simp only: of_nat_less_iff)
  then have "uint a div uint b = 0" by (intro div_pos_pos_trivial) simp_all
  ultimately show "quot a b = 0" by (simp add: quot_def)
qed

lemma Update_cache:
  assumes "\<not> muLock s" "unat usec < 1000000"
  shows "moCacheTimes (CTimer_Update sec usec s) (muSlot (CTimer_Update sec usec s)) = 0"
proof -
  have "quot usec TIME_MSEC = 0" using assms(2) by (intro quot_small) (simp_all add: TIME_MSEC_def TIME_USEC_def TIME_NSEC_def)
  with assms(1) show ?thesis by (simp add: CTimer_Update_def Let_def tv_setMsec_def tv_Set_def)
qed

text \<open>So the test for an unchanged second fails on every later call, and the text is formatted anew.\<close>

lemma Update_formats:
  fixes sec usec sec' usec' :: u64
  assumes "\<not> muLock s" "unat usec < 1000000" "sec' \<noteq> 0"
  defines "s1 \<equiv> CTimer_Update sec usec s"
  shows "muSlot (CTimer_Update sec' usec' s1) = (if muSlot s1 = TIME_SLOTS - 1 then 0 else muSlot s1 + 1)"
proof -
  have "\<not> muLock s1" using assms(1) by (simp add: s1_def CTimer_Update_def Let_def)
  moreover have "tv_Sec (moCacheTimes s1 (muSlot s1)) = 0" using Update_cache [OF assms(1,2), of sec] by (simp add: s1_def tv_Sec_def quot_def)
  ultimately show ?thesis using assms(3) by (simp add: CTimer_Update_def Let_def)
qed

end
