(* ===== verification/Net_Theorems.thy ===== *)
theory Net_Theorems
  imports Event_Timer
begin

section \<open>Properties of the timers and their containers\<close>

text \<open>The theorems on the red-black tree, the timers and the posted events, with runs on a small tree.\<close>

subsection \<open>A small tree\<close>

text \<open>Five timers with the addresses 3 to 7, due at ten times the address.\<close>

definition demo_node :: "nat \<Rightarrow> nat \<Rightarrow> nat \<Rightarrow> nat \<Rightarrow> color \<Rightarrow> rbnode" where
  "demo_node a l r p c = \<lparr>mtKey = of_nat (10 * a), mpoLeft = l, mpoRight = r, mpoParent = p, mcColor = c\<rparr>"

definition demo_tree :: rbtree where
  "demo_tree = \<lparr>mpoRoot = 4, nodes = (\<lambda>a.
     if a = 3 then demo_node 3 SENT SENT 4 Black
     else if a = 4 then demo_node 4 3 6 0 Black
     else if a = 5 then demo_node 5 SENT SENT 6 Red
     else if a = 6 then demo_node 6 5 7 4 Black
     else if a = 7 then demo_node 7 SENT SENT 6 Red
     else demo_node a 0 0 0 Black)\<rparr>"

lemma demo_queue: "queue_of 0 demo_tree [3, 4, 5, 6, 7]"
proof -
  let ?T = "Node (Node Leaf (3, Black) Leaf) (4, Black) (Node (Node Leaf (5, Red) Leaf) (6, Black) (Node Leaf (7, Red) Leaf))"
  have "rb_rep demo_tree ?T" by (auto simp: rb_rep_def demo_tree_def demo_node_def SENT_def)
  moreover have "addrs ?T = [3, 4, 5, 6, 7]" "rb ?T" "tcolor ?T = Black" by simp_all
  moreover have "window 0 demo_tree [3, 4, 5, 6, 7]" "sorted (map (off 0 demo_tree) [3, 4, 5, 6, 7])"
    by (simp_all add: window_def offset_def demo_tree_def demo_node_def)
  ultimately show ?thesis unfolding queue_of_def by blast
qed

definition demo_loop :: evloop where
  "demo_loop = posted_new \<lparr>moTime = 35000000, moTimerHolder = demo_tree, muSlot = 0, muLock = False, moCacheTimes = (\<lambda>_. 0), mpoCacheTime = 0,
     maacFormatTimes = (\<lambda>_. 0), events = (\<lambda>_. \<lparr>mbTimeout = False, mbTimerOn = True, mbAccept = False, mbReady = False\<rparr>),
     posted = (\<lambda>_. \<lparr>mpoNext = 0, mpoPrev = 0, mbIn = False\<rparr>), accepted = []\<rparr>"

subsection \<open>The tree\<close>

text \<open>
  C16. \<open>CRBTree::Insert\<close> ends: both its search for the leaf and its colouring loop come to an end, and
  the node stands behind the nodes with the same key. The result is again a red-black tree in the
  order of the keys, of a height at most twice the logarithm of its size, with all keys unchanged.
\<close>

theorem insert_ends_in_order:
  assumes "queue_of base s xs" "x \<notin> set xs" "x \<noteq> 0" "x \<noteq> SENT" "off base s x < 2 ^ 31"
  shows "\<exists>s' T. rb_Insert x s = Some s' \<and> rb_rep s' T \<and> rb T \<and> addrs T = enqueue (off base s) x xs \<and> sorted (map (off base s') (addrs T)) \<and>
    2 ^ ((height T + 1) div 2) \<le> length xs + 2 \<and> (\<forall>a. mtKey (nodes s' a) = mtKey (nodes s a))"
proof -
  from Insert_queue [OF assms] obtain s' where s': "rb_Insert x s = Some s'" "queue_of base s' (enqueue (off base s) x xs)" "kept s s'" by blast
  from s'(2) obtain T where T: "rb_rep s' T" "rb T" "tcolor T = Black" "addrs T = enqueue (off base s) x xs" "sorted (map (off base s') (addrs T))"
    by (auto simp: queue_of_def)
  have "length (addrs T) + 1 = length xs + 2" using T(4) by (simp add: enqueue_length)
  with rb_balanced [OF T(2,3)] have "2 ^ ((height T + 1) div 2) \<le> length xs + 2" by simp
  with s' T show ?thesis by (auto simp: kept_def)
qed

theorem insert_ends_in_order_witness:
  "\<exists>s' T. rb_Insert 8 demo_tree = Some s' \<and> rb_rep s' T \<and> rb T \<and> addrs T = [3, 4, 5, 6, 7, 8] \<and> 2 ^ ((height T + 1) div 2) \<le> (7 :: nat)"
proof -
  have p: "(8 :: nat) \<notin> set [3, 4, 5, 6, 7]" "(8 :: nat) \<noteq> 0" "8 \<noteq> SENT" "off 0 demo_tree 8 < 2 ^ 31"
    by (simp_all add: SENT_def offset_def demo_tree_def demo_node_def)
  have e: "enqueue (off 0 demo_tree) 8 [3, 4, 5, 6, 7] = [3, 4, 5, 6, 7, 8]" by (simp add: enqueue_def offset_def demo_tree_def demo_node_def)
  have l: "length [3, 4, 5, 6, 7 :: nat] + 2 = 7" by simp
  from insert_ends_in_order [OF demo_queue p, unfolded e l] show ?thesis by blast
qed

text \<open>
  C18. \<open>CRBTree::Delete\<close> of a node with a missing child takes exactly that node out: its loop ends, and
  the result is the red-black tree of the other nodes in their order.
\<close>

theorem delete_outer_node:
  assumes "queue_of base s xs" "x \<in> set xs" "mpoLeft (nodes s x) = SENT \<or> mpoRight (nodes s x) = SENT"
  shows "\<exists>s'. rb_Delete x s = Some s' \<and> queue_of base s' (remove1 x xs) \<and> (\<forall>a. mtKey (nodes s' a) = mtKey (nodes s a))"
  using Delete_queue [OF assms] by (auto simp: same_keys_def)

theorem delete_outer_node_witness: "\<exists>s'. rb_Delete 3 demo_tree = Some s' \<and> queue_of 0 s' [4, 5, 6, 7]"
  using delete_outer_node [OF demo_queue, of 3] by (auto simp: demo_tree_def demo_node_def)


subsection \<open>Timers and posted events\<close>

text \<open>
  C17. \<open>CTimer::Expire\<close> ends, and posts exactly the timers that are due, in the order of their times,
  behind the events already posted; the others stay in the tree. Each posted event is marked as timed
  out and ready and its timer is off; no other event changes.
\<close>

theorem expire_posts_due:
  assumes "queue_of base (moTimerHolder s) xs" "offset base (tv_Msec (moTime s)) < 2 ^ 31" "ring (posted s) moHead ps"
    "\<forall>e\<in>set xs. e \<notin> set (moHead # ps) \<and> \<not> mbAccept (events s e)"
  shows "\<exists>s'. CTimer_Expire s = Some s' \<and> queue_of base (moTimerHolder s') (dropWhile (due base s) xs) \<and>
    ring (posted s') moHead (ps @ takeWhile (due base s) xs) \<and>
    (\<forall>e. events s' e = (if e \<in> set (takeWhile (due base s) xs) then (events s e)\<lparr>mbTimeout := True, mbReady := True, mbTimerOn := False\<rparr> else events s e))"
  by (rule Expire_run [OF assms])

theorem expire_posts_due_witness:
  "\<exists>s'. CTimer_Expire demo_loop = Some s' \<and> queue_of 0 (moTimerHolder s') [4, 5, 6, 7] \<and> ring (posted s') moHead [3] \<and> mbTimeout (events s' 3)"
proof -
  have h: "moTimerHolder demo_loop = demo_tree" by (simp add: demo_loop_def posted_new_def)
  have t: "tv_Msec (moTime demo_loop) = 35" by code_simp
  have d: "due 0 demo_loop a \<longleftrightarrow> a = 3" if "a \<in> {3, 4, 5, 6, 7}" for a
    using that by (auto simp: due_def t h offset_def demo_tree_def demo_node_def)
  have p: "queue_of 0 (moTimerHolder demo_loop) [3, 4, 5, 6, 7]" "offset 0 (tv_Msec (moTime demo_loop)) < 2 ^ 31" "ring (posted demo_loop) moHead []"
    "\<forall>e\<in>set [3, 4, 5, 6, 7]. e \<notin> set [moHead] \<and> \<not> mbAccept (events demo_loop e)"
    by (simp_all add: h demo_queue t offset_def) (simp_all add: demo_loop_def posted_new_def ring_def q_Init_def moHead_def moAccept_def)
  have w: "takeWhile (due 0 demo_loop) [3, 4, 5, 6, 7] = [3]" "dropWhile (due 0 demo_loop) [3, 4, 5, 6, 7] = [4, 5, 6, 7]" using d by simp_all
  from expire_posts_due [OF p, unfolded w] obtain s' where s': "CTimer_Expire demo_loop = Some s'" "queue_of 0 (moTimerHolder s') [4, 5, 6, 7]"
    "ring (posted s') moHead ([] @ [3])"
    "\<forall>e. events s' e = (if e \<in> set [3] then (events demo_loop e)\<lparr>mbTimeout := True, mbReady := True, mbTimerOn := False\<rparr> else events demo_loop e)" by blast
  from s'(4) have "mbTimeout (events s' 3)" by simp
  with s'(1-3) show ?thesis by simp
qed



end
