(* ===== verification/Tair_Table.thy ===== *)
theory Tair_Table
  imports Net_Prelude "HOL-Library.Product_Lexorder" "HOL-Library.Monad_Syntax"
begin

section \<open>Placement tables of the distributed store\<close>

text \<open>
  The model of \<open>table_builder\<close>, of \<open>table_builder1\<close> and of the test of \<open>table_builder2\<close>
  (\<^verbatim>\<open>src/tair/table_builder.cpp\<close>, \<^verbatim>\<open>src/tair/table_builder1.cpp\<close>, \<^verbatim>\<open>src/tair/table_builder2.cpp\<close>), which spread the buckets of a distributed store and their copies over
  the available servers. A table is a list of lines, one for each copy; a line lists the server of
  each bucket, and line 0 holds the masters. An ordered map of C++ is an association list in the
  order of its keys, an ordered set a sorted list.
\<close>

type_synonym server = "u64 \<times> u32"
type_synonym placement = "server list list"

subsection \<open>Ordered maps and sets\<close>

fun m_put :: "'k :: linorder \<Rightarrow> 'v \<Rightarrow> ('k \<times> 'v) list \<Rightarrow> ('k \<times> 'v) list" where
  "m_put k v [] = [(k, v)]"
| "m_put k v (e # m) = (if fst e < k then e # m_put k v m else if fst e = k then (k, v) # m else (k, v) # e # m)"

text \<open>Reading with \<open>[]\<close>: a missing key counts as the default value.\<close>

definition m_at :: "'v \<Rightarrow> ('k \<times> 'v) list \<Rightarrow> 'k \<Rightarrow> 'v" where
  "m_at d m k = (case map_of m k of Some v \<Rightarrow> v | None \<Rightarrow> d)"

definition s_insert :: "server \<Rightarrow> server list \<Rightarrow> server list" where
  "s_insert x xs = (if x \<in> set xs then xs else insort x xs)"

definition s_erase :: "server \<Rightarrow> server list \<Rightarrow> server list" where
  "s_erase x xs = filter (\<lambda>y. y \<noteq> x) xs"

type_synonym counts = "(server \<times> int) list"
type_synonym index = "(int \<times> server list) list"

definition ix_insert :: "int \<Rightarrow> server \<Rightarrow> index \<Rightarrow> index" where
  "ix_insert k x m = m_put k (s_insert x (m_at [] m k)) m"

definition ix_erase :: "int \<Rightarrow> server \<Rightarrow> index \<Rightarrow> index" where
  "ix_erase k x m = m_put k (s_erase x (m_at [] m k)) m"

subsection \<open>The builder\<close>

text \<open>
  The state of a builder; \<open>randoms\<close> are the results of \<open>random\<close>, of which \<open>randoms_used\<close> have been
  drawn. The last six numbers belong to \<open>table_builder1\<close>.
\<close>

record table_builder =
  tokens_count_in_node :: counts
  max_count_now :: int
  tokens_count_in_node_now :: counts
  count_server :: index
  mtokens_count_in_node :: counts
  mcount_server :: index
  scandidate_node :: index
  mcandidate_node :: index
  available_server :: "server list"
  server_capable :: counts
  master_server_capable :: counts
  pos_mask :: u64
  bucket_count :: nat
  copy_count :: nat
  data_lost_allowed :: bool
  b_place_flag :: int
  randoms :: "nat \<Rightarrow> nat"
  randoms_used :: nat
  tokens_per_node_min :: int
  tokens_per_node_max_count :: int
  tokens_per_node_min_count :: int
  master_tokens_per_node_min :: int
  master_tokens_per_node_max_count :: int
  master_tokens_per_node_min_count :: int

definition CONSIDER_ALL :: nat where "CONSIDER_ALL = 0"
definition CONSIDER_BASE :: nat where "CONSIDER_BASE = 2"
definition CONSIDER_FORCE :: nat where "CONSIDER_FORCE = 3"

datatype node_state = NODE_OK | INVALID_NODE | TOOMANY_MASTER | TOOMANY_BUCKET | SAME_NODE | SAME_POS

datatype build_result = BUILD_ERROR | BUILD_OK | BUILD_QUICK

definition INVALID_FLAG :: u64 where "INVALID_FLAG = 0"

definition set_cell :: "nat \<Rightarrow> nat \<Rightarrow> server \<Rightarrow> placement \<Rightarrow> placement" where
  "set_cell l i n t = t[l := (t ! l)[i := n]]"

definition init_token_count :: "table_builder \<Rightarrow> counts" where
  "init_token_count b = map (\<lambda>s. (s, 0)) (available_server b)"

definition update_node_count :: "server \<Rightarrow> counts \<Rightarrow> bool \<times> counts" where
  "update_node_count n c = (case map_of c n of Some v \<Rightarrow> (True, m_put n (v + 1) c) | None \<Rightarrow> (False, c))"

definition build_index :: "counts \<Rightarrow> index" where
  "build_index c = fold (\<lambda>(s, k) ix. ix_insert k s ix) c []"

definition is_node_availble :: "table_builder \<Rightarrow> server \<Rightarrow> bool" where
  "is_node_availble b n \<longleftrightarrow> fst n \<noteq> INVALID_FLAG \<and> n \<in> set (available_server b)"

definition change_tokens_count_in_node ::
  "counts \<Rightarrow> server \<Rightarrow> index \<Rightarrow> index \<Rightarrow> counts \<Rightarrow> bool \<Rightarrow> counts \<times> index \<times> index" where
  "change_tokens_count_in_node cnt n ix cand cap down =
     (let c = m_at 0 cnt n;
          ix = ix_erase c n ix;
          cand = ix_erase (c - m_at 0 cap n) n cand;
          c = (if down then c - 1 else c + 1)
      in (m_put n c cnt, ix_insert c n ix, ix_insert (c - m_at 0 cap n) n cand))"

text \<open>Its two uses: for all buckets of a server, and for the buckets it is the master of.\<close>

definition change_tokens :: "server \<Rightarrow> bool \<Rightarrow> table_builder \<Rightarrow> table_builder" where
  "change_tokens n down b =
     (case change_tokens_count_in_node (tokens_count_in_node b) n (count_server b) (scandidate_node b) (server_capable b) down of
        (c, ix, cand) \<Rightarrow> b\<lparr>tokens_count_in_node := c, count_server := ix, scandidate_node := cand\<rparr>)"

definition change_mtokens :: "server \<Rightarrow> bool \<Rightarrow> table_builder \<Rightarrow> table_builder" where
  "change_mtokens n down b =
     (case change_tokens_count_in_node (mtokens_count_in_node b) n (mcount_server b) (mcandidate_node b) (master_server_capable b) down of
        (c, ix, cand) \<Rightarrow> b\<lparr>mtokens_count_in_node := c, mcount_server := ix, mcandidate_node := cand\<rparr>)"

definition invaliad_node :: "nat \<Rightarrow> nat \<Rightarrow> placement \<times> table_builder \<Rightarrow> placement \<times> table_builder" where
  "invaliad_node l i tb =
     (case tb of (t, b) \<Rightarrow>
        let n = t ! l ! i;
            b = (if is_node_availble b n
                 then let b = change_tokens n True b in if l = 0 then change_mtokens n True b else b
                 else b)
        in (set_cell l i (INVALID_FLAG, snd n) t, b))"

text \<open>The copy of a bucket on the server with the fewest masters: its line and that number.\<close>

fun choose_master :: "nat list \<Rightarrow> nat \<Rightarrow> placement \<Rightarrow> table_builder \<Rightarrow> (nat \<times> int) option \<Rightarrow> (nat \<times> int) option" where
  "choose_master [] i t b best = best"
| "choose_master (l # ls) i t b best =
     (let n = t ! l ! i; c = m_at 0 (mtokens_count_in_node b) n
      in choose_master ls i t b
           (if is_node_availble b n \<and> (case best of None \<Rightarrow> True | Some (_, m) \<Rightarrow> c < m) then Some (l, c) else best))"

definition change_master_node :: "nat \<Rightarrow> bool \<Rightarrow> placement \<times> table_builder \<Rightarrow> bool \<times> placement \<times> table_builder" where
  "change_master_node i force tb =
     (case tb of (t, b) \<Rightarrow>
        case choose_master [1..<copy_count b] i t b None of
          None \<Rightarrow> (False, t, b)
        | Some (l, _) \<Rightarrow>
            let new = t ! l ! i
            in if \<not> force \<and> m_at 0 (mtokens_count_in_node b) new \<ge> m_at 0 (master_server_capable b) new then (False, t, b)
               else
                 let org = t ! 0 ! i;
                     t = set_cell 0 i new t;
                     b = b\<lparr>tokens_count_in_node_now := m_put new (m_at 0 (tokens_count_in_node_now b) new + 1) (tokens_count_in_node_now b)\<rparr>;
                     b = change_mtokens new False b
                 in if is_node_availble b org
                    then (True, set_cell l i org t, change_mtokens org True b)
                    else (True, set_cell l i (INVALID_FLAG, snd new) t, b))"

definition update_node :: "nat \<Rightarrow> nat \<Rightarrow> server \<Rightarrow> placement \<times> table_builder \<Rightarrow> placement \<times> table_builder" where
  "update_node l i n tb =
     (case tb of (t, b) \<Rightarrow>
        (set_cell l i n t,
         if is_node_availble b n
         then let b = change_tokens n False b in if l = 0 then change_mtokens n False b else b
         else b))"

definition init_candidate :: "counts \<Rightarrow> index \<Rightarrow> index" where
  "init_candidate cap ix = fold (\<lambda>(k, xs) cand. fold (\<lambda>s cand. ix_insert (k - m_at 0 cap s) s cand) xs cand) ix []"

subsection \<open>The search for a server\<close>

text \<open>
  The test whether a server may hold a copy, \<open>is_this_node_OK\<close>, is a virtual function: an argument
  here. Among the servers of one candidate set the last one that passes is taken, or the first one
  with the address of the original server.
\<close>

type_synonym node_test = "table_builder \<Rightarrow> server \<Rightarrow> nat \<Rightarrow> nat \<Rightarrow> placement \<Rightarrow> nat \<Rightarrow> bool \<Rightarrow> node_state"

fun scan_servers :: "(server \<Rightarrow> bool) \<Rightarrow> u64 \<Rightarrow> server \<Rightarrow> server list \<Rightarrow> server" where
  "scan_servers ok orig best [] = best"
| "scan_servers ok orig best (x # xs) =
     (if ok x then if fst x = orig then x else scan_servers ok orig x xs else scan_servers ok orig best xs)"

text \<open>The candidate sets from the least loaded on; \<open>left\<close> is the number of sets still to look at.\<close>

fun scan_sets :: "(server \<Rightarrow> bool) \<Rightarrow> u64 \<Rightarrow> nat option \<Rightarrow> index \<Rightarrow> table_builder \<Rightarrow> server \<times> table_builder" where
  "scan_sets ok orig left [] b = ((INVALID_FLAG, 0), b)"
| "scan_sets ok orig left ((k, xs) # m) b =
     (if left = Some 0 then ((INVALID_FLAG, 0), b)
      else
        let rotate = xs \<noteq> [] \<and> b_place_flag b \<noteq> 0;
            start = (if rotate then randoms b (randoms_used b) mod length xs else 0);
            b = (if rotate then b\<lparr>randoms_used := randoms_used b + 1\<rparr> else b);
            n = scan_servers ok orig (INVALID_FLAG, 0) (drop start xs @ take start xs)
        in if fst n \<noteq> INVALID_FLAG then (n, b) else scan_sets ok orig (map_option (\<lambda>k. k - 1) left) m b)"

fun scan_levels :: "node_test \<Rightarrow> nat list \<Rightarrow> nat \<Rightarrow> nat \<Rightarrow> u64 \<Rightarrow> placement \<Rightarrow> table_builder \<Rightarrow> server \<times> table_builder" where
  "scan_levels okf [] l i orig t b = ((INVALID_FLAG, 0), b)"
| "scan_levels okf (v # vs) l i orig t b =
     (case scan_sets (\<lambda>x. okf b x l i t v False = NODE_OK) orig (if v < CONSIDER_BASE then Some (v + 1) else None)
             (if l = 0 then mcandidate_node b else scandidate_node b) b of
        (n, b) \<Rightarrow> if fst n \<noteq> INVALID_FLAG then (n, b) else scan_levels okf vs l i orig t b)"

definition get_suitable_node :: "node_test \<Rightarrow> nat \<Rightarrow> nat \<Rightarrow> server \<Rightarrow> placement \<Rightarrow> table_builder \<Rightarrow> server \<times> table_builder" where
  "get_suitable_node okf l i orig t b = scan_levels okf [CONSIDER_ALL..<CONSIDER_FORCE + 1] l i (fst orig) t b"

subsection \<open>Building a table\<close>

text \<open>The quick table: a copy becomes the master where the master is gone.\<close>

fun quick_masters :: "nat list \<Rightarrow> placement \<times> table_builder \<Rightarrow> bool \<times> placement \<times> table_builder" where
  "quick_masters [] tb = (True, tb)"
| "quick_masters (i # is) tb =
     (if is_node_availble (snd tb) (fst tb ! 0 ! i) then quick_masters is tb
      else case change_master_node i True tb of
             (r, tb') \<Rightarrow> if \<not> r \<and> \<not> data_lost_allowed (snd tb') then (False, tb') else quick_masters is tb')"

definition drop_lost :: "table_builder \<Rightarrow> server \<Rightarrow> server" where
  "drop_lost b n = (if is_node_availble b n then n else (0, 0))"

definition build_quick_table :: "placement \<times> table_builder \<Rightarrow> bool \<times> placement \<times> table_builder" where
  "build_quick_table tb =
     (case quick_masters [0..<bucket_count (snd tb)] tb of
        (r, t, b) \<Rightarrow>
          if r then (True, map (\<lambda>l. if l = 0 \<or> copy_count b \<le> l then t ! l
                                   else map (\<lambda>i. if i < bucket_count b then drop_lost b (t ! l ! i) else t ! l ! i) [0..<length (t ! l)]) [0..<length t], b)
          else (False, t, b))"

text \<open>The buckets each server holds in the old table, and whether a master is missing.\<close>

definition count_line :: "server list \<Rightarrow> counts \<Rightarrow> bool \<times> counts" where
  "count_line ns c = fold (\<lambda>n (all, c). case update_node_count n c of (r, c) \<Rightarrow> (all \<and> r, c)) ns (True, c)"

definition count_tokens :: "placement \<Rightarrow> table_builder \<Rightarrow> bool \<times> table_builder" where
  "count_tokens t b =
     (let c = fold (\<lambda>line c. snd (count_line (take (bucket_count b) line) c)) t (init_token_count b);
          (all, m) = (case t of [] \<Rightarrow> (True, init_token_count b) | line # _ \<Rightarrow> count_line (take (bucket_count b) line) (init_token_count b))
      in (\<not> all, b\<lparr>tokens_count_in_node := c, tokens_count_in_node_now := init_token_count b, mtokens_count_in_node := m, max_count_now := 0\<rparr>))"

text \<open>One cell of the table: the server stays, a copy and the master change places, or a server is searched.\<close>

definition count_now :: "(table_builder \<Rightarrow> server \<Rightarrow> int) \<Rightarrow> server \<Rightarrow> table_builder \<Rightarrow> table_builder" where
  "count_now tokf n b =
     (let c = m_at 0 (tokens_count_in_node_now b) n + 1;
          b = b\<lparr>tokens_count_in_node_now := m_put n c (tokens_count_in_node_now b)\<rparr>
      in if c = tokf b n + 1 then b\<lparr>max_count_now := max_count_now b + 1\<rparr> else b)"

definition place_cell :: "node_test \<Rightarrow> (table_builder \<Rightarrow> server \<Rightarrow> int) \<Rightarrow> nat \<Rightarrow> nat \<Rightarrow> placement \<times> table_builder \<Rightarrow> bool \<times> placement \<times> table_builder" where
  "place_cell okf tokf l i tb =
     (case tb of (t, b) \<Rightarrow>
        let n = t ! l ! i
        in if okf b n l i t (if l = 0 then CONSIDER_BASE else CONSIDER_ALL) True = NODE_OK then (True, t, count_now tokf n b)
           else
             case (if l = 0 then change_master_node i False (t, b) else (False, t, b)) of
               (True, t, b) \<Rightarrow> (True, t, b)
             | (False, t, b) \<Rightarrow>
                 let (t, b) = invaliad_node l i (t, b);
                     (new, b) = get_suitable_node okf l i n t b
                 in if fst new = INVALID_FLAG then (False, t, b)
                    else let (t, b) = update_node l i new (t, b) in (True, t, count_now tokf new b))"

fun place_cells :: "node_test \<Rightarrow> (table_builder \<Rightarrow> server \<Rightarrow> int) \<Rightarrow> (nat \<times> nat) list \<Rightarrow> placement \<times> table_builder \<Rightarrow> bool \<times> placement \<times> table_builder" where
  "place_cells okf tokf [] tb = (True, tb)"
| "place_cells okf tokf ((l, i) # cs) tb = (case place_cell okf tokf l i tb of (r, tb) \<Rightarrow> if r then place_cells okf tokf cs tb else (False, tb))"

text \<open>First all masters, then for each bucket its other copies.\<close>

definition master_cells :: "table_builder \<Rightarrow> (nat \<times> nat) list" where
  "master_cells b = (if copy_count b = 0 then [] else map (\<lambda>i. (0, i)) [0..<bucket_count b])"

definition copy_cells :: "table_builder \<Rightarrow> (nat \<times> nat) list" where
  "copy_cells b = concat (map (\<lambda>i. map (\<lambda>l. (l, i)) [1..<copy_count b]) [0..<bucket_count b])"

text \<open>
  The model covers tables with at least the lines and columns the builder expects, such as
  \<open>load_hash_table\<close> makes them. For other tables, which lead to reads outside the vectors, and when
  \<open>caculate_capable\<close> divides by zero there is no result (\<open>None\<close>).
\<close>

definition rebuild_table ::
  "node_test \<Rightarrow> (table_builder \<Rightarrow> table_builder option) \<Rightarrow> (table_builder \<Rightarrow> server \<Rightarrow> int) \<Rightarrow> placement \<Rightarrow> bool \<Rightarrow> table_builder \<Rightarrow>
   (build_result \<times> placement \<times> table_builder) option" where
  "rebuild_table okf capf tokf source no_quick_table b =
     (if length source < copy_count b \<or> (\<exists>line\<in>set source. length line < bucket_count b) then None
      else do {
        let (need_quick, b) = count_tokens source b;
        let b = b\<lparr>count_server := build_index (tokens_count_in_node b), mcount_server := build_index (mtokens_count_in_node b)\<rparr>;
        b \<leftarrow> capf b;
        let b = b\<lparr>mcandidate_node := init_candidate (master_server_capable b) (mcount_server b),
                  scandidate_node := init_candidate (server_capable b) (count_server b)\<rparr>;
        if need_quick \<and> \<not> no_quick_table
        then Some (case build_quick_table (source, b) of (r, tb) \<Rightarrow> (if r then BUILD_QUICK else BUILD_ERROR, tb))
        else if length (available_server b) < copy_count b then Some (BUILD_ERROR, source, b)
        else Some (case place_cells okf tokf (master_cells b @ copy_cells b) (source, b) of
                     (r, tb) \<Rightarrow> (if r then BUILD_OK else BUILD_ERROR, tb)) })"

definition load_hash_table :: "u64 list \<Rightarrow> table_builder \<Rightarrow> placement option" where
  "load_hash_table p b =
     (if length p < copy_count b * bucket_count b then None
      else Some (map (\<lambda>i. map (\<lambda>j. let x = p ! (i * bucket_count b + j) in (x, ucast (x AND pos_mask b))) [0..<bucket_count b]) [0..<copy_count b]))"

definition write_hash_table :: "placement \<Rightarrow> table_builder \<Rightarrow> u64 list" where
  "write_hash_table t b = concat (map (\<lambda>line. map fst (take (bucket_count b) line)) t)"

definition set_available_server :: "u64 list \<Rightarrow> table_builder \<Rightarrow> table_builder" where
  "set_available_server ids b = b\<lparr>available_server := fold (\<lambda>x s. s_insert (x, ucast (x AND pos_mask b)) s) ids []\<rparr>"

subsection \<open>The first strategy: balance\<close>

text \<open>The test of \<open>table_builder1\<close> for a server at line \<open>l\<close> of bucket \<open>i\<close>.\<close>

definition clash :: "table_builder \<Rightarrow> server \<Rightarrow> nat \<Rightarrow> nat \<Rightarrow> placement \<Rightarrow> nat \<Rightarrow> nat \<Rightarrow> node_state option" where
  "clash b n l i t level k =
     (if k = l then None
      else if fst (t ! k ! i) = fst n then Some SAME_NODE
      else if level < CONSIDER_BASE \<and> snd (t ! k ! i) = snd n then Some SAME_POS
      else None)"

text \<open>The limits on the buckets of a server; \<open>least\<close> and \<open>many\<close> are those the strategy has for it.\<close>

definition overload :: "int \<Rightarrow> int \<Rightarrow> table_builder \<Rightarrow> server \<Rightarrow> nat \<Rightarrow> nat \<Rightarrow> int \<Rightarrow> node_state option" where
  "overload least many b n l level turn =
     (if l = 0
      then if m_at 0 (mtokens_count_in_node b) n \<ge> m_at 0 (master_server_capable b) n + turn then Some TOOMANY_MASTER else None
      else if level = CONSIDER_ALL
      then if m_at 0 (tokens_count_in_node b) n \<ge> m_at 0 (server_capable b) n + turn then Some TOOMANY_BUCKET else None
      else if level \<noteq> CONSIDER_FORCE \<and> m_at 0 (tokens_count_in_node_now b) n \<ge> least + turn \<and> max_count_now b \<ge> many + turn
      then Some TOOMANY_BUCKET else None)"

definition is_this_node_OK1 :: node_test where
  "is_this_node_OK1 b n l i t level in_use =
     (if \<not> is_node_availble b n then INVALID_NODE
      else case overload (tokens_per_node_min b) (tokens_per_node_max_count b) b n l level (if in_use then 1 else 0) of
             Some r \<Rightarrow> r
           | None \<Rightarrow>
               if l = 0 \<and> level = CONSIDER_BASE then NODE_OK
               else case List.map_filter (clash b n l i t level) [0..<copy_count b] of [] \<Rightarrow> NODE_OK | r # _ \<Rightarrow> r)"

text \<open>Numbers of the type \<open>int\<close>; products and differences of the unsigned members wrap before.\<close>

definition to_int :: "int \<Rightarrow> int" where "to_int x = signed_take_bit 31 x"

definition mean_count :: "counts \<Rightarrow> int" where
  "mean_count c =
     (let v = filter (\<lambda>x. x \<noteq> 0) (map snd c)
      in if v = [] then 0 else sum_list v div int (length v))"

text \<open>
  The number of buckets for one server, number \<open>i\<close>, when \<open>most\<close> servers have got one more than the
  least number so far: servers with few buckets keep few.
\<close>

definition capable_step :: "int \<Rightarrow> int \<Rightarrow> int \<Rightarrow> int \<Rightarrow> int \<Rightarrow> int \<Rightarrow> int \<Rightarrow> int \<times> int" where
  "capable_step least few many i most before mean =
     (if before \<le> mean
      then if i - most < few then (least, most) else (least + 1, most + 1)
      else if most < many then (least + 1, most + 1) else (least, most))"

fun capable_loop :: "int \<Rightarrow> int \<Rightarrow> int \<Rightarrow> int \<Rightarrow> counts \<Rightarrow> int \<Rightarrow> int \<Rightarrow> server list \<Rightarrow> counts \<Rightarrow> counts" where
  "capable_loop least few many mean before i most [] cap = cap"
| "capable_loop least few many mean before i most (s # ss) cap =
     (case capable_step least few many i most (m_at 0 before s) mean of
        (c, most) \<Rightarrow> capable_loop least few many mean before (i + 1) most ss (m_put s c cap))"

definition caculate_capable1 :: "table_builder \<Rightarrow> table_builder option" where
  "caculate_capable1 b =
     (let S = to_int (int (length (available_server b)));
          all = int (bucket_count b * copy_count b) mod 2 ^ 32;
          least = to_int (all div (S mod 2 ^ 32));
          many = to_int (all - least * S);
          mleast = to_int (int (bucket_count b) div (S mod 2 ^ 32));
          mmany = to_int (int (bucket_count b) - mleast * S)
      in if S = 0 then None
         else Some (b\<lparr>tokens_per_node_min := least, tokens_per_node_max_count := many, tokens_per_node_min_count := S - many,
                     master_tokens_per_node_min := mleast, master_tokens_per_node_max_count := mmany, master_tokens_per_node_min_count := S - mmany,
                     server_capable := capable_loop least (S - many) many (mean_count (tokens_count_in_node b)) (tokens_count_in_node b) 0 0 (available_server b) [],
                     master_server_capable := capable_loop mleast (S - mmany) mmany (mean_count (mtokens_count_in_node b)) (mtokens_count_in_node b) 0 0 (available_server b) []\<rparr>))"

definition rebuild_table1 :: "placement \<Rightarrow> bool \<Rightarrow> table_builder \<Rightarrow> (build_result \<times> placement \<times> table_builder) option" where
  "rebuild_table1 = rebuild_table is_this_node_OK1 caculate_capable1 (\<lambda>b _. tokens_per_node_min b)"

subsection \<open>The second strategy: copies in two rooms\<close>

text \<open>
  The members of \<open>table_builder2\<close> that its test reads. The servers of the largest room have limits
  of their own; \<open>build_stat_normal\<close> says that the rooms are of comparable size.
\<close>

record rooms =
  max_machine_room_id :: u32
  mtokens_per_node_min :: int
  mtokens_per_node_max_count :: int
  otokens_per_node_min :: int
  otokens_per_node_max_count :: int
  build_stat_normal :: bool

definition other_cells :: "table_builder \<Rightarrow> nat \<Rightarrow> nat \<Rightarrow> placement \<Rightarrow> server list" where
  "other_cells b l i t = map (\<lambda>k. t ! k ! i) (filter (\<lambda>k. k \<noteq> l) [0..<copy_count b])"

definition is_this_node_OK2 :: "rooms \<Rightarrow> node_test" where
  "is_this_node_OK2 r b n l i t level in_use =
     (let big = snd n = max_machine_room_id r
      in if \<not> is_node_availble b n then INVALID_NODE
         else case overload (if big then mtokens_per_node_min r else otokens_per_node_min r)
                     (if big then mtokens_per_node_max_count r else otokens_per_node_max_count r) b n l level (if in_use then 1 else 0) of
                Some e \<Rightarrow> e
              | None \<Rightarrow>
                  if l = 0 \<and> level = CONSIDER_BASE then NODE_OK
                  else if fst n \<in> fst ` set (other_cells b l i t) then SAME_NODE
                  else if build_stat_normal r \<and> l \<noteq> 0 \<and> length (remdups (snd n # map snd (other_cells b l i t))) < 2 then SAME_POS
                  else NODE_OK)"

definition get_tokens_per_node2 :: "rooms \<Rightarrow> table_builder \<Rightarrow> server \<Rightarrow> int" where
  "get_tokens_per_node2 r b n = (if snd n = max_machine_room_id r then mtokens_per_node_min r else otokens_per_node_min r)"

end
