(* ===== verification/Tair_Safety.thy ===== *)
theory Tair_Safety
  imports Tair_Table "HOL-Library.Multiset"
begin

section \<open>Tables that a builder accepts\<close>

text \<open>
  What every strategy has in common: a table that is built holds available servers only, and the
  copies of a bucket are on different servers. The strategy's test is a parameter with the laws of
  the locale \<open>node_rule\<close>.
\<close>

subsection \<open>Maps, indexes and cells\<close>

lemma map_of_m_put: "map_of (m_put k v m) = (map_of m)(k \<mapsto> v)"
  by (induction m) (auto simp: fun_eq_iff)

lemma m_at_put [simp]: "m_at d (m_put k v m) k' = (if k' = k then v else m_at d m k')"
  by (simp add: m_at_def map_of_m_put)

lemma m_at_Nil [simp]: "m_at d [] k = d"
  by (simp add: m_at_def)

definition listed_in :: "index \<Rightarrow> server \<Rightarrow> bool" where
  "listed_in m s \<longleftrightarrow> (\<exists>k. s \<in> set (m_at [] m k))"

lemma set_s_insert [simp]: "set (s_insert x xs) = insert x (set xs)"
  by (auto simp: s_insert_def set_insort_key)

lemma set_s_erase [simp]: "set (s_erase x xs) = set xs - {x}"
  by (auto simp: s_erase_def)

lemma at_ix_insert: "s \<in> set (m_at [] (ix_insert k x m) k') \<longleftrightarrow> s = x \<and> k' = k \<or> s \<in> set (m_at [] m k')"
  by (auto simp: ix_insert_def)

lemma at_ix_erase: "s \<in> set (m_at [] (ix_erase k x m) k') \<longleftrightarrow> \<not> (s = x \<and> k' = k) \<and> s \<in> set (m_at [] m k')"
  by (auto simp: ix_erase_def)

lemma listed_insert [simp]: "listed_in (ix_insert k x m) s \<longleftrightarrow> s = x \<or> listed_in m s"
  by (auto simp: listed_in_def at_ix_insert)

lemma listed_erase: "s \<noteq> x \<Longrightarrow> listed_in (ix_erase k x m) s \<longleftrightarrow> listed_in m s"
  by (auto simp: listed_in_def at_ix_erase)

lemma listed_entry: "listed_in m s \<Longrightarrow> \<exists>k xs. (k, xs) \<in> set m \<and> s \<in> set xs"
proof -
  assume "listed_in m s"
  then obtain k where k: "s \<in> set (m_at [] m k)" by (auto simp: listed_in_def)
  then obtain xs where "map_of m k = Some xs" "s \<in> set xs" by (cases "map_of m k") (auto simp: m_at_def)
  then show "\<exists>k xs. (k, xs) \<in> set m \<and> s \<in> set xs" using map_of_SomeD by fast
qed

lemma listed_Nil [simp]: "\<not> listed_in [] s"
  by (simp add: listed_in_def)

text \<open>The shape of a table.\<close>

definition shaped :: "table_builder \<Rightarrow> placement \<Rightarrow> bool" where
  "shaped b t \<longleftrightarrow> length t = copy_count b \<and> (\<forall>line\<in>set t. length line = bucket_count b)"

lemma set_cell_nth:
  assumes "shaped b t" "l < copy_count b" "i < bucket_count b"
  shows "set_cell l i n t ! l' ! i' = (if l' = l \<and> i' = i then n else t ! l' ! i')" "shaped b (set_cell l i n t)"
proof -
  have "length (t ! l) = bucket_count b" "l < length t" using assms by (auto simp: shaped_def)
  then show "set_cell l i n t ! l' ! i' = (if l' = l \<and> i' = i then n else t ! l' ! i')"
    using assms by (cases "l' = l") (auto simp: set_cell_def nth_list_update)
  show "shaped b (set_cell l i n t)" using \<open>length (t ! l) = bucket_count b\<close> assms(1)
    by (auto simp: shaped_def set_cell_def dest: set_update_subset_insert [THEN subsetD])
qed

text \<open>What the operations leave alone.\<close>

definition same_setting :: "table_builder \<Rightarrow> table_builder \<Rightarrow> bool" where
  "same_setting b b' \<longleftrightarrow> available_server b' = available_server b \<and> bucket_count b' = bucket_count b \<and> copy_count b' = copy_count b \<and>
     master_server_capable b' = master_server_capable b \<and> server_capable b' = server_capable b \<and> data_lost_allowed b' = data_lost_allowed b"

lemma same_setting_refl [simp]: "same_setting b b" by (simp add: same_setting_def)
lemma same_setting_trans: "same_setting b b1 \<Longrightarrow> same_setting b1 b2 \<Longrightarrow> same_setting b b2" by (simp add: same_setting_def)

lemma same_avail: "same_setting b b' \<Longrightarrow> is_node_availble b' n = is_node_availble b n"
  by (simp add: same_setting_def is_node_availble_def)

lemma same_shaped: "same_setting b b' \<Longrightarrow> shaped b' t = shaped b t"
  by (simp add: same_setting_def shaped_def)

lemma change_same [simp]: "same_setting b (change_tokens n d b)" "same_setting b (change_mtokens n d b)" "same_setting b (b\<lparr>randoms_used := r\<rparr>)"
  "same_setting b (b\<lparr>tokens_count_in_node_now := c\<rparr>)" "same_setting b (count_now tokf n b)"
  by (simp_all add: same_setting_def change_tokens_def change_mtokens_def count_now_def Let_def split: prod.splits)

lemma change_both_same [simp]: "same_setting b (change_mtokens n d (change_tokens n' d' b))"
  by (rule same_setting_trans [OF change_same(1) change_same(2)])

lemma invaliad_same: "invaliad_node l i (t, b) = (t', b') \<Longrightarrow> t' = set_cell l i (INVALID_FLAG, snd (t ! l ! i)) t \<and> same_setting b b'"
  by (auto simp: invaliad_node_def Let_def)

lemma update_same: "update_node l i n (t, b) = (t', b') \<Longrightarrow> t' = set_cell l i n t \<and> same_setting b b'"
  by (auto simp: update_node_def Let_def split: if_splits)

lemma choose_master_some:
  "choose_master ls i t b best = Some (l, c) \<Longrightarrow> best = Some (l, c) \<or> l \<in> set ls \<and> is_node_availble b (t ! l ! i)"
  by (induction ls arbitrary: best) (fastforce simp: Let_def split: if_splits)+

lemma choose_master_none:
  "choose_master ls i t b best = None \<longleftrightarrow> best = None \<and> (\<forall>l\<in>set ls. \<not> is_node_availble b (t ! l ! i))"
  by (induction ls arbitrary: best) (auto simp: Let_def split: option.splits)

text \<open>What a change of the master does to the table.\<close>

definition promote :: "server \<Rightarrow> table_builder \<Rightarrow> table_builder" where
  "promote n b = change_mtokens n False (b\<lparr>tokens_count_in_node_now := m_put n (m_at 0 (tokens_count_in_node_now b) n + 1) (tokens_count_in_node_now b)\<rparr>)"

lemma promote_same [simp]: "same_setting b (promote n b)"
  unfolding promote_def by (rule same_setting_trans [OF change_same(4) change_same(2)])

lemma promote_avail [simp]: "is_node_availble (promote n b) m = is_node_availble b m"
  by (rule same_avail [OF promote_same])

lemma change_master_eq:
  "change_master_node i force (t, b) =
     (case choose_master [1..<copy_count b] i t b None of
        None \<Rightarrow> (False, t, b)
      | Some (l, _) \<Rightarrow>
          if \<not> force \<and> m_at 0 (mtokens_count_in_node b) (t ! l ! i) \<ge> m_at 0 (master_server_capable b) (t ! l ! i) then (False, t, b)
          else if is_node_availble b (t ! 0 ! i)
          then (True, set_cell l i (t ! 0 ! i) (set_cell 0 i (t ! l ! i) t), change_mtokens (t ! 0 ! i) True (promote (t ! l ! i) b))
          else (True, set_cell l i (INVALID_FLAG, snd (t ! l ! i)) (set_cell 0 i (t ! l ! i) t), promote (t ! l ! i) b))"
  by (auto simp: change_master_node_def Let_def promote_def [symmetric] split: option.splits)

definition swapped :: "nat \<Rightarrow> nat \<Rightarrow> placement \<Rightarrow> table_builder \<Rightarrow> placement" where
  "swapped l i t b = set_cell l i (if is_node_availble b (t ! 0 ! i) then t ! 0 ! i else (INVALID_FLAG, snd (t ! l ! i))) (set_cell 0 i (t ! l ! i) t)"

definition swapped_state :: "nat \<Rightarrow> nat \<Rightarrow> placement \<Rightarrow> table_builder \<Rightarrow> table_builder" where
  "swapped_state l i t b =
     (if is_node_availble b (t ! 0 ! i) then change_mtokens (t ! 0 ! i) True (promote (t ! l ! i) b) else promote (t ! l ! i) b)"

lemma change_master_run:
  assumes "change_master_node i force (t, b) = (True, t', b')"
  obtains l where "1 \<le> l" "l < copy_count b" "is_node_availble b (t ! l ! i)"
    "force \<or> m_at 0 (mtokens_count_in_node b) (t ! l ! i) < m_at 0 (master_server_capable b) (t ! l ! i)"
    "t' = swapped l i t b" "b' = swapped_state l i t b" "same_setting b b'"
proof -
  from assms obtain l c where ch: "choose_master [1..<copy_count b] i t b None = Some (l, c)" by (auto simp: change_master_eq split: option.splits)
  have l: "1 \<le> l" "l < copy_count b" "is_node_availble b (t ! l ! i)" using choose_master_some [OF ch] by auto
  have "same_setting b (swapped_state l i t b)"
    unfolding swapped_state_def using promote_same same_setting_trans [OF promote_same change_same(2)] by simp
  then show ?thesis using that [of l] assms ch l unfolding change_master_eq swapped_def swapped_state_def by (auto split: if_splits)
qed

lemma change_master_false: "change_master_node i force (t, b) = (False, t', b') \<Longrightarrow> t' = t \<and> b' = b"
  by (auto simp: change_master_node_def Let_def split: option.splits if_splits)

subsection \<open>The search\<close>

lemma scan_servers_ok: "scan_servers ok orig best xs = best \<or> ok (scan_servers ok orig best xs)"
proof (induction xs arbitrary: best)
  case (Cons x xs)
  show ?case using Cons.IH [of x] Cons.IH [of best] by (cases "ok x"; cases "fst x = orig") (simp_all, metis)
qed simp

text \<open>One candidate set: where the look begins, the state after it and what it finds.\<close>

definition set_start :: "table_builder \<Rightarrow> server list \<Rightarrow> nat" where
  "set_start b xs = (if xs \<noteq> [] \<and> b_place_flag b \<noteq> 0 then randoms b (randoms_used b) mod length xs else 0)"

definition set_after :: "table_builder \<Rightarrow> server list \<Rightarrow> table_builder" where
  "set_after b xs = (if xs \<noteq> [] \<and> b_place_flag b \<noteq> 0 then b\<lparr>randoms_used := randoms_used b + 1\<rparr> else b)"

definition set_found :: "(server \<Rightarrow> bool) \<Rightarrow> u64 \<Rightarrow> table_builder \<Rightarrow> server list \<Rightarrow> server" where
  "set_found ok orig b xs = scan_servers ok orig (INVALID_FLAG, 0) (drop (set_start b xs) xs @ take (set_start b xs) xs)"

lemma scan_sets_Cons:
  "scan_sets ok orig left ((k, xs) # m) b =
     (if left = Some 0 then ((INVALID_FLAG, 0), b)
      else if fst (set_found ok orig b xs) \<noteq> INVALID_FLAG then (set_found ok orig b xs, set_after b xs)
      else scan_sets ok orig (map_option (\<lambda>k. k - 1) left) m (set_after b xs))"
  unfolding set_found_def set_start_def set_after_def scan_sets.simps Let_def by (rule refl)

lemma set_after_random: "\<exists>r. set_after b xs = b\<lparr>randoms_used := r\<rparr>"
proof (cases "xs \<noteq> [] \<and> b_place_flag b \<noteq> 0")
  case False
  then have "set_after b xs = b\<lparr>randoms_used := randoms_used b\<rparr>" by (auto simp: set_after_def)
  then show ?thesis by blast
qed (auto simp: set_after_def)

lemma set_found_ok: "fst (set_found ok orig b xs) \<noteq> 0 \<Longrightarrow> ok (set_found ok orig b xs)"
  using scan_servers_ok [of ok orig "(INVALID_FLAG, 0)" "drop (set_start b xs) xs @ take (set_start b xs) xs"]
  by (auto simp: set_found_def INVALID_FLAG_def)

lemma same_random: "\<exists>r. b = b\<lparr>randoms_used := r\<rparr>"
  by (rule exI [of _ "randoms_used b"]) simp

lemma scan_sets_ok:
  "scan_sets ok orig left m b = (n, b') \<Longrightarrow> (fst n \<noteq> 0 \<longrightarrow> ok n) \<and> (\<exists>r. b' = b\<lparr>randoms_used := r\<rparr>)"
proof (induction m arbitrary: left b)
  case Nil
  then show ?case using same_random [of b'] by (auto simp: INVALID_FLAG_def)
next
  case (Cons e m)
  obtain k xs where e: "e = (k, xs)" by (cases e)
  note run = Cons.prems [unfolded e scan_sets_Cons]
  obtain r where r: "set_after b xs = b\<lparr>randoms_used := r\<rparr>" using set_after_random by blast
  show ?case
  proof (cases "left = Some 0")
    case True
    then show ?thesis using run same_random [of b'] by (auto simp: INVALID_FLAG_def)
  next
    case left: False
    show ?thesis
    proof (cases "fst (set_found ok orig b xs) = INVALID_FLAG")
      case True
      with run left have "scan_sets ok orig (map_option (\<lambda>k. k - 1) left) m (set_after b xs) = (n, b')" by simp
      from Cons.IH [OF this] r show ?thesis by auto
    next
      case False
      with run left have "n = set_found ok orig b xs" "b' = set_after b xs" by auto
      then show ?thesis using set_found_ok [of ok orig b xs] r by blast
    qed
  qed
qed

lemma scan_levels_ok:
  "scan_levels okf vs l i orig t b = (n, b') \<Longrightarrow>
   (fst n \<noteq> 0 \<longrightarrow> (\<exists>v r. okf (b\<lparr>randoms_used := r\<rparr>) n l i t v False = NODE_OK)) \<and> (\<exists>r. b' = b\<lparr>randoms_used := r\<rparr>)"
proof (induction vs arbitrary: b)
  case Nil
  then show ?case using same_random [of b'] by (auto simp: INVALID_FLAG_def)
next
  case (Cons v vs)
  obtain n1 b1 where s: "scan_sets (\<lambda>x. okf b x l i t v False = NODE_OK) orig (if v < CONSIDER_BASE then Some (v + 1) else None)
      (if l = 0 then mcandidate_node b else scandidate_node b) b = (n1, b1)" by fastforce
  from scan_sets_ok [OF s] obtain r where r: "fst n1 \<noteq> 0 \<longrightarrow> okf b n1 l i t v False = NODE_OK" "b1 = b\<lparr>randoms_used := r\<rparr>" by blast
  show ?case
  proof (cases "fst n1 = 0")
    case True
    with s Cons.prems have "scan_levels okf vs l i orig t b1 = (n, b')" by (simp add: INVALID_FLAG_def)
    from Cons.IH [OF this] r(2) show ?thesis by auto
  next
    case False
    with s Cons.prems have "n = n1" "b' = b1" by (simp_all add: INVALID_FLAG_def)
    moreover have "okf (b\<lparr>randoms_used := randoms_used b\<rparr>) n1 l i t v False = NODE_OK" using r(1) False by simp
    ultimately show ?thesis using r(2) by blast
  qed
qed

lemma get_suitable_ok:
  assumes "get_suitable_node okf l i orig t b = (n, b')"
  shows "fst n \<noteq> 0 \<Longrightarrow> \<exists>v r. okf (b\<lparr>randoms_used := r\<rparr>) n l i t v False = NODE_OK" "\<exists>r. b' = b\<lparr>randoms_used := r\<rparr>"
  using scan_levels_ok [OF assms [unfolded get_suitable_node_def]] by auto

subsection \<open>The rule of a strategy\<close>

text \<open>Two tables that differ in column \<open>i\<close> only.\<close>

definition same_elsewhere :: "nat \<Rightarrow> placement \<Rightarrow> placement \<Rightarrow> bool" where
  "same_elsewhere i t t' \<longleftrightarrow> (\<forall>k j. j \<noteq> i \<longrightarrow> t' ! k ! j = t ! k ! j)"

text \<open>
  The cells placed so far: they hold available servers, different ones in each column.
\<close>

definition placed_well :: "table_builder \<Rightarrow> placement \<Rightarrow> (nat \<times> nat) set \<Rightarrow> bool" where
  "placed_well b t D \<longleftrightarrow> (\<forall>(l, i)\<in>D. l < copy_count b \<and> i < bucket_count b \<and> is_node_availble b (t ! l ! i) \<and>
     (\<forall>k. (k, i) \<in> D \<longrightarrow> k \<noteq> l \<longrightarrow> fst (t ! k ! i) \<noteq> fst (t ! l ! i)))"

lemma same_placed: "same_setting b b' \<Longrightarrow> placed_well b' t D = placed_well b t D"
  by (simp add: placed_well_def same_setting_def is_node_availble_def)

text \<open>A new cell \<open>(l, i)\<close> that differs from the others of its column.\<close>

lemma placed_well_insert:
  assumes "placed_well b t D" "l < copy_count b" "i < bucket_count b" "is_node_availble b (t' ! l ! i)"
    "\<forall>(k, j)\<in>D. (k, j) \<noteq> (l, i) \<and> t' ! k ! j = t ! k ! j"
    "\<forall>k. (k, i) \<in> D \<longrightarrow> fst (t' ! k ! i) \<noteq> fst (t' ! l ! i)"
  shows "placed_well b t' (insert (l, i) D)"
proof -
  have keep: "t' ! k ! j = t ! k ! j \<and> (k, j) \<noteq> (l, i)" if "(k, j) \<in> D" for k j using assms(5) that by fast
  have "k < copy_count b \<and> j < bucket_count b \<and> is_node_availble b (t' ! k ! j) \<and>
      (\<forall>m. (m, j) \<in> insert (l, i) D \<longrightarrow> m \<noteq> k \<longrightarrow> fst (t' ! m ! j) \<noteq> fst (t' ! k ! j))" if d: "(k, j) \<in> D" for k j
  proof -
    have old: "k < copy_count b \<and> j < bucket_count b \<and> is_node_availble b (t ! k ! j) \<and>
        (\<forall>m. (m, j) \<in> D \<longrightarrow> m \<noteq> k \<longrightarrow> fst (t ! m ! j) \<noteq> fst (t ! k ! j))" using assms(1) d unfolding placed_well_def by fast
    have "fst (t' ! m ! j) \<noteq> fst (t' ! k ! j)" if "(m, j) \<in> insert (l, i) D" "m \<noteq> k" for m
      using that old keep [OF d] keep [of m j] assms(6) d by (cases "(m, j) = (l, i)") (metis prod.inject, auto)
    then show ?thesis using old keep [OF d] by simp
  qed
  moreover have "fst (t' ! k ! i) \<noteq> fst (t' ! l ! i)" if "(k, i) \<in> insert (l, i) D" "k \<noteq> l" for k using assms(6) that by simp
  ultimately show ?thesis using assms(2-4) unfolding placed_well_def by blast
qed

text \<open>The order in which the cells are placed.\<close>

definition all_cells :: "table_builder \<Rightarrow> (nat \<times> nat) set" where
  "all_cells b = {(l, i). l < copy_count b \<and> i < bucket_count b}"

lemma set_master_cells: "set (master_cells b) = {(l, i). l = 0 \<and> l < copy_count b \<and> i < bucket_count b}"
  by (auto simp: master_cells_def)

lemma set_copy_cells: "set (copy_cells b) = {(l, i). l \<noteq> 0 \<and> l < copy_count b \<and> i < bucket_count b}"
  by (auto simp: copy_cells_def)

lemma set_cells: "set (master_cells b @ copy_cells b) = all_cells b"
  by (auto simp: set_master_cells set_copy_cells all_cells_def)

lemma distinct_cells: "distinct (master_cells b @ copy_cells b)"
proof -
  have "distinct (concat (map (\<lambda>i. map (\<lambda>l. (l, i)) ls) js))" if "distinct ls" "distinct js" for ls js :: "nat list"
    using that by (induction js) (auto simp: distinct_map inj_on_def)
  then have "distinct (copy_cells b)" by (simp add: copy_cells_def)
  then show ?thesis by (auto simp: master_cells_def distinct_map inj_on_def set_copy_cells)
qed

lemma ordered_cells: "sorted_wrt (\<lambda>c d. fst d = 0 \<longrightarrow> snd d \<noteq> snd c) (master_cells b @ copy_cells b)"
proof -
  have "sorted_wrt (\<lambda>c d. fst d = 0 \<longrightarrow> snd d \<noteq> snd c) (copy_cells b)"
    by (rule sorted_wrt_mono_rel [of _ "\<lambda>c d. True"]) (auto simp: set_copy_cells sorted_wrt_true)
  moreover have "sorted_wrt (\<lambda>x y :: nat. y \<noteq> x) [0..<bucket_count b]"
    by (rule sorted_wrt_mono_rel [OF _ sorted_wrt_upt]) simp
  ultimately show ?thesis by (auto simp: sorted_wrt_append set_copy_cells) (simp add: master_cells_def sorted_wrt_map)
qed

text \<open>The builder when the cells are placed: the counts of the old table, the capacities and the candidates.\<close>

definition prepared :: "(table_builder \<Rightarrow> table_builder option) \<Rightarrow> placement \<Rightarrow> table_builder \<Rightarrow> table_builder option" where
  "prepared capf source b =
     (let b1 = snd (count_tokens source b)
      in map_option (\<lambda>b. b\<lparr>mcandidate_node := init_candidate (master_server_capable b) (mcount_server b),
                            scandidate_node := init_candidate (server_capable b) (count_server b)\<rparr>)
           (capf (b1\<lparr>count_server := build_index (tokens_count_in_node b1), mcount_server := build_index (mtokens_count_in_node b1)\<rparr>)))"

lemma rebuild_table_eq:
  assumes "shaped b source"
  shows "rebuild_table okf capf tokf source no_quick b =
    (case prepared capf source b of
       None \<Rightarrow> None
     | Some b2 \<Rightarrow>
         Some (if fst (count_tokens source b) \<and> \<not> no_quick
               then (case build_quick_table (source, b2) of (r, tb) \<Rightarrow> (if r then BUILD_QUICK else BUILD_ERROR, tb))
               else if length (available_server b2) < copy_count b2 then (BUILD_ERROR, source, b2)
               else (case place_cells okf tokf (master_cells b2 @ copy_cells b2) (source, b2) of
                     (r, tb) \<Rightarrow> (if r then BUILD_OK else BUILD_ERROR, tb))))"
proof -
  have "\<not> (length source < copy_count b \<or> (\<exists>line\<in>set source. length line < bucket_count b))" using assms by (auto simp: shaped_def)
  then show ?thesis
    by (cases "count_tokens source b") (auto simp: rebuild_table_def prepared_def Let_def split: bind_split option.split)
qed

text \<open>A calculation of the capacities that leaves the servers and the sizes alone.\<close>

definition same_sizes :: "table_builder \<Rightarrow> table_builder \<Rightarrow> bool" where
  "same_sizes b b' \<longleftrightarrow> available_server b' = available_server b \<and> bucket_count b' = bucket_count b \<and> copy_count b' = copy_count b \<and>
     data_lost_allowed b' = data_lost_allowed b"

lemma prepared_sizes:
  assumes "prepared capf source b = Some b2" "\<And>x y. capf x = Some y \<Longrightarrow> same_sizes x y"
  shows "same_sizes b b2"
proof -
  obtain x y where "capf x = Some y" "same_sizes b x" "same_sizes y b2"
    using assms(1) by (fastforce simp: prepared_def Let_def count_tokens_def same_sizes_def split: prod.splits)
  then show ?thesis using assms(2) [of x y] by (simp add: same_sizes_def)
qed

lemma sizes_placed: "same_sizes b b' \<Longrightarrow> placed_well b' t D = placed_well b t D \<and> shaped b' t = shaped b t \<and> all_cells b' = all_cells b"
  by (simp add: placed_well_def same_sizes_def is_node_availble_def shaped_def all_cells_def)

text \<open>The level at which the server of a cell is judged before another one is searched.\<close>

definition first_level :: "nat \<Rightarrow> nat" where
  "first_level l = (if l = 0 then CONSIDER_BASE else CONSIDER_ALL)"

locale node_rule =
  fixes okf :: node_test
  assumes ok_available: "okf b n l i t v u = NODE_OK \<Longrightarrow> is_node_availble b n"
    and ok_differs: "okf b n l i t v u = NODE_OK \<Longrightarrow> l \<noteq> 0 \<Longrightarrow> k < copy_count b \<Longrightarrow> k \<noteq> l \<Longrightarrow> fst (t ! k ! i) \<noteq> fst n"
begin

lemma search_found:
  assumes "get_suitable_node okf l i orig t b = (n, b')" "fst n \<noteq> 0"
  shows "is_node_availble b n" "l \<noteq> 0 \<Longrightarrow> k < copy_count b \<Longrightarrow> k \<noteq> l \<Longrightarrow> fst (t ! k ! i) \<noteq> fst n" "same_setting b b'"
proof -
  from get_suitable_ok [OF assms(1)] assms(2) obtain v r q where
    ok: "okf (b\<lparr>randoms_used := r\<rparr>) n l i t v False = NODE_OK" and b': "b' = b\<lparr>randoms_used := q\<rparr>" by blast
  show "is_node_availble b n" using ok_available [OF ok] by (simp add: is_node_availble_def)
  show "l \<noteq> 0 \<Longrightarrow> k < copy_count b \<Longrightarrow> k \<noteq> l \<Longrightarrow> fst (t ! k ! i) \<noteq> fst n" using ok_differs [OF ok] by simp
  show "same_setting b b'" unfolding b' by simp
qed

text \<open>
  One cell: a server that stays, two that change places, or one that is searched.
\<close>

lemma place_cell_cases:
  assumes run: "place_cell okf tokf l i (t, b) = (r, t', b')"
  obtains (stay) "r" "okf b (t ! l ! i) l i t (first_level l) True = NODE_OK" "t' = t" "b' = count_now tokf (t ! l ! i) b"
  | (swap) "r" "okf b (t ! l ! i) l i t (first_level l) True \<noteq> NODE_OK" "l = 0" "change_master_node i False (t, b) = (True, t', b')"
  | (search) t1 b1 b2 b3 n where "r" "okf b (t ! l ! i) l i t (first_level l) True \<noteq> NODE_OK"
      "invaliad_node l i (t, b) = (t1, b1)" "t1 = set_cell l i (INVALID_FLAG, snd (t ! l ! i)) t"
      "get_suitable_node okf l i (t ! l ! i) t1 b1 = (n, b2)" "fst n \<noteq> 0"
      "update_node l i n (t1, b2) = (t', b3)" "b' = count_now tokf n b3"
  | (failed) t1 b1 b2 n where "\<not> r" "okf b (t ! l ! i) l i t (first_level l) True \<noteq> NODE_OK"
      "invaliad_node l i (t, b) = (t1, b1)" "t1 = set_cell l i (INVALID_FLAG, snd (t ! l ! i)) t"
      "get_suitable_node okf l i (t ! l ! i) t1 b1 = (n, b2)" "fst n = 0"
proof (cases "okf b (t ! l ! i) l i t (first_level l) True = NODE_OK")
  case True
  have "place_cell okf tokf l i (t, b) = (True, t, count_now tokf (t ! l ! i) b)"
    by (simp only: place_cell_def prod.case Let_def first_level_def [symmetric] if_P [OF True])
  with run stay [OF _ True] show ?thesis by auto
next
  case ok: False
  define w where "w = (if l = 0 then change_master_node i False (t, b) else (False, t, b))"
  obtain q t0 b0 where w: "w = (q, t0, b0)" by (cases w) auto
  note unfold = place_cell_def prod.case Let_def first_level_def [symmetric] if_not_P [OF ok] w_def [symmetric] bool.case
  show ?thesis
  proof (cases q)
    case True
    with w have "l = 0" "change_master_node i False (t, b) = (True, t0, b0)" by (auto simp: w_def split: if_splits)
    moreover have "r = True" "t' = t0" "b' = b0" using run w True by (simp_all only: unfold prod.inject)
    ultimately show ?thesis using swap ok by blast
  next
    case False
    have old: "t0 = t" "b0 = b" using w False change_master_false by (auto simp: w_def split: if_splits)
    obtain t1 b1 where inv: "invaliad_node l i (t, b) = (t1, b1)" by fastforce
    have t1: "t1 = set_cell l i (INVALID_FLAG, snd (t ! l ! i)) t" using invaliad_same [OF inv] by blast
    obtain n b2 where g: "get_suitable_node okf l i (t ! l ! i) t1 b1 = (n, b2)" by fastforce
    obtain t3 b3 where u: "update_node l i n (t1, b2) = (t3, b3)" by fastforce
    have "place_cell okf tokf l i (t, b) = (if fst n = INVALID_FLAG then (False, t1, b2) else (True, t3, count_now tokf n b3))"
      using False w by (simp only: unfold old inv g u)
    then consider "fst n \<noteq> 0" "r" "t' = t3" "b' = count_now tokf n b3" | "fst n = 0" "\<not> r"
      using run by (auto simp: INVALID_FLAG_def split: if_splits)
    then show ?thesis
    proof cases
      case 1
      show ?thesis by (rule search [OF 1(2) ok inv t1 g 1(1) u [folded 1(3)] 1(4)])
    next
      case 2
      show ?thesis by (rule failed [OF 2(2) ok inv t1 g 2(1)])
    qed
  qed
qed

lemma place_cell_effect:
  assumes run: "place_cell okf tokf l i (t, b) = (True, t', b')" and sh: "shaped b t" and l: "l < copy_count b" "i < bucket_count b"
  shows "same_setting b b'" "shaped b t'" "same_elsewhere i t t'" "is_node_availble b (t' ! l ! i)"
    "l \<noteq> 0 \<Longrightarrow> k \<noteq> l \<Longrightarrow> t' ! k ! i = t ! k ! i"
    "l \<noteq> 0 \<Longrightarrow> k < copy_count b \<Longrightarrow> k \<noteq> l \<Longrightarrow> fst (t' ! k ! i) \<noteq> fst (t' ! l ! i)"
proof -
  have "same_setting b b' \<and> shaped b t' \<and> same_elsewhere i t t' \<and> is_node_availble b (t' ! l ! i) \<and>
    (l \<noteq> 0 \<longrightarrow> (\<forall>k. k \<noteq> l \<longrightarrow> t' ! k ! i = t ! k ! i \<and> (k < copy_count b \<longrightarrow> fst (t' ! k ! i) \<noteq> fst (t' ! l ! i))))"
    using run
  proof (cases rule: place_cell_cases)
    case stay
    then show ?thesis using sh ok_available [OF stay(2)] ok_differs [OF stay(2)] by (simp add: same_elsewhere_def)
  next
    case swap
    from swap(4) obtain m where m: "1 \<le> m" "m < copy_count b" "is_node_availble b (t ! m ! i)" "t' = swapped m i t b" "same_setting b b'"
      by (rule change_master_run) blast
    have z: "0 < copy_count b" using m by simp
    note c0 = set_cell_nth [OF sh z l(2)]
    note c1 = set_cell_nth [OF c0(2) m(2) l(2)]
    have "same_elsewhere i t t'" "t' ! 0 ! i = t ! m ! i" "shaped b t'"
      using m(1) unfolding m(4) swapped_def same_elsewhere_def by (simp_all add: c0(1) c1)
    then show ?thesis using m swap(3) by simp
  next
    case (search t1 b1 b2 b3 n)
    have s1: "same_setting b b1" using invaliad_same [OF search(3)] by blast
    have cc: "copy_count b1 = copy_count b" "bucket_count b1 = bucket_count b" using s1 by (simp_all add: same_setting_def)
    note c0 = set_cell_nth [OF sh l, of "(INVALID_FLAG, snd (t ! l ! i))"]
    note c1 = set_cell_nth [OF c0(2) l]
    note f = search_found [OF search(5,6)]
    have t': "t' = set_cell l i n t1" and s3: "same_setting b2 b3" using update_same [OF search(7)] by blast+
    have sb: "same_setting b b'" unfolding search(8)
      by (rule same_setting_trans [OF same_setting_trans [OF same_setting_trans [OF s1 f(3)] s3] change_same(5)])
    have "is_node_availble b n" using f(1) same_avail [OF s1] by simp
    moreover have "fst (t' ! k ! i) \<noteq> fst n" if "l \<noteq> 0" "k \<noteq> l" "k < copy_count b" for k
      using f(2) [of k] that unfolding t' search(4) cc by (simp add: c0(1) c1(1))
    ultimately show ?thesis using sb unfolding t' search(4) same_elsewhere_def by (simp add: c0(1) c1)
  qed simp
  then show "same_setting b b'" "shaped b t'" "same_elsewhere i t t'" "is_node_availble b (t' ! l ! i)"
    "l \<noteq> 0 \<Longrightarrow> k \<noteq> l \<Longrightarrow> t' ! k ! i = t ! k ! i"
    "l \<noteq> 0 \<Longrightarrow> k < copy_count b \<Longrightarrow> k \<noteq> l \<Longrightarrow> fst (t' ! k ! i) \<noteq> fst (t' ! l ! i)" by blast+
qed

text \<open>Cells in an order in which no master follows a copy of its bucket.\<close>

lemma place_cells_well:
  assumes "place_cells okf tokf cs (t, b) = (True, t', b')" "shaped b t" "placed_well b t D"
    "distinct cs" "set cs \<inter> D = {}" "\<forall>(l, i)\<in>set cs. l < copy_count b \<and> i < bucket_count b"
    "\<forall>i k. (0, i) \<in> set cs \<longrightarrow> (k, i) \<notin> D" "sorted_wrt (\<lambda>c d. fst d = 0 \<longrightarrow> snd d \<noteq> snd c) cs"
  shows "same_setting b b' \<and> shaped b t' \<and> placed_well b t' (set cs \<union> D)"
  using assms
proof (induction cs arbitrary: t b D)
  case Nil
  then show ?case by simp
next
  case (Cons c cs)
  obtain l i where c: "c = (l, i)" by (cases c)
  have l: "l < copy_count b" "i < bucket_count b" using Cons.prems(6) c by auto
  obtain t1 b1 where p: "place_cell okf tokf l i (t, b) = (True, t1, b1)" and r: "place_cells okf tokf cs (t1, b1) = (True, t', b')"
    using Cons.prems(1) by (auto simp: c split: prod.splits if_splits)
  note e = place_cell_effect [OF p Cons.prems(2) l]
  have "placed_well b t1 (insert (l, i) D)"
  proof (rule placed_well_insert [OF Cons.prems(3) l e(4)])
    show "\<forall>(k, j)\<in>D. (k, j) \<noteq> (l, i) \<and> t1 ! k ! j = t ! k ! j"
    proof (clarify, rule conjI)
      fix k j assume d: "(k, j) \<in> D"
      then show ne: "(k, j) \<noteq> (l, i)" using Cons.prems(5) c by auto
      show "t1 ! k ! j = t ! k ! j"
      proof (cases "j = i")
        case True
        then have "l \<noteq> 0" "k \<noteq> l" using Cons.prems(7) d c ne by auto
        then show ?thesis using e(5) True by blast
      next
        case False
        then show ?thesis using e(3) by (simp add: same_elsewhere_def)
      qed
    qed
    show "\<forall>k. (k, i) \<in> D \<longrightarrow> fst (t1 ! k ! i) \<noteq> fst (t1 ! l ! i)"
    proof (intro allI impI)
      fix k assume d: "(k, i) \<in> D"
      then have "l \<noteq> 0" "k \<noteq> l" using Cons.prems(5,7) c by auto
      moreover have "k < copy_count b" using Cons.prems(3) d unfolding placed_well_def by fast
      ultimately show "fst (t1 ! k ! i) \<noteq> fst (t1 ! l ! i)" using e(6) by blast
    qed
  qed
  then have w: "placed_well b1 t1 (insert (l, i) D)" by (simp add: same_placed [OF e(1)])
  have nm: "\<forall>j k. (0, j) \<in> set cs \<longrightarrow> (k, j) \<notin> insert (l, i) D" using Cons.prems(7,8) c by fastforce
  have sh: "shaped b1 t1" using same_shaped [OF e(1)] e(2) by blast
  have dis: "distinct cs" "set cs \<inter> insert (l, i) D = {}" and so: "sorted_wrt (\<lambda>c d. fst d = 0 \<longrightarrow> snd d \<noteq> snd c) cs"
    using Cons.prems(4,5,8) c by auto
  have cb: "copy_count b1 = copy_count b" "bucket_count b1 = bucket_count b" using e(1) by (simp_all add: same_setting_def)
  have ran: "\<forall>(l, i)\<in>set cs. l < copy_count b1 \<and> i < bucket_count b1" unfolding cb using Cons.prems(6) by (meson list.set_intros(2))
  from Cons.IH [OF r sh w dis ran nm so] have "same_setting b1 b'" "shaped b t'" "placed_well b t' (set cs \<union> insert (l, i) D)"
    using same_shaped [OF e(1)] same_placed [OF e(1)] by blast+
  then show ?case using same_setting_trans [OF e(1)] by (simp add: c)
qed

lemma built_well:
  assumes "rebuild_table okf capf tokf source no_quick b = Some (BUILD_OK, t, b')" "shaped b source"
    "\<And>x y. capf x = Some y \<Longrightarrow> same_sizes x y"
  shows "shaped b t \<and> placed_well b t (all_cells b)"
proof -
  obtain b2 where b2: "prepared capf source b = Some b2" and run: "place_cells okf tokf (master_cells b2 @ copy_cells b2) (source, b2) = (True, t, b')"
    using assms(1) by (auto simp: rebuild_table_eq [OF assms(2)] split: option.splits if_splits prod.splits)
  note eq = sizes_placed [OF prepared_sizes [OF b2 assms(3)]]
  have sh: "shaped b2 source" and em: "placed_well b2 source {}" using assms(2) eq by (simp_all add: placed_well_def)
  have ran: "\<forall>(l, i)\<in>set (master_cells b2 @ copy_cells b2). l < copy_count b2 \<and> i < bucket_count b2"
    unfolding set_cells by (auto simp: all_cells_def)
  from place_cells_well [OF run sh em distinct_cells _ ran _ ordered_cells]
  have "shaped b2 t" "placed_well b2 t (all_cells b2)" unfolding set_cells by simp_all
  then show ?thesis using eq by simp
qed

end

subsection \<open>The rules of the two strategies\<close>

lemma capable1_sizes: "caculate_capable1 b = Some b' \<Longrightarrow> same_sizes b b'"
  by (auto simp: caculate_capable1_def Let_def same_sizes_def split: if_splits)

lemma map_filter_Nil: "List.map_filter f xs = [] \<longleftrightarrow> (\<forall>x\<in>set xs. f x = None)"
  by (induction xs) (auto simp: List.map_filter_simps split: option.splits)

lemma no_clash: "List.map_filter (clash b n l i t v) [0..<copy_count b] = [] \<Longrightarrow> k < copy_count b \<Longrightarrow> k \<noteq> l \<Longrightarrow> fst (t ! k ! i) \<noteq> fst n"
  by (fastforce simp: map_filter_Nil clash_def split: if_splits)

lemma overload_NODE_OK [simp]: "overload least many b n l v c \<noteq> Some NODE_OK"
  by (simp add: overload_def)

lemma OK1_iff: "is_this_node_OK1 b n l i t v u = NODE_OK \<longleftrightarrow>
    is_node_availble b n \<and> overload (tokens_per_node_min b) (tokens_per_node_max_count b) b n l v (if u then 1 else 0) = None \<and>
    (l = 0 \<and> v = CONSIDER_BASE \<or> List.map_filter (clash b n l i t v) [0..<copy_count b] = [])"
proof -
  have "x \<noteq> NODE_OK" if "x \<in> set (List.map_filter (clash b n l i t v) ks)" for x ks
    using that by (induction ks) (auto simp: List.map_filter_simps clash_def split: option.splits if_splits)
  from this [of _ "[0..<copy_count b]"] show ?thesis
    using overload_NODE_OK [of "tokens_per_node_min b" "tokens_per_node_max_count b" b n l v "if u then 1 else 0"]
    by (auto simp: is_this_node_OK1_def split: option.splits list.splits)
qed

interpretation r1: node_rule is_this_node_OK1
  by unfold_locales (auto simp: OK1_iff dest: no_clash)

definition room_limits :: "rooms \<Rightarrow> server \<Rightarrow> int \<times> int" where
  "room_limits r n = (if snd n = max_machine_room_id r then (mtokens_per_node_min r, mtokens_per_node_max_count r)
                      else (otokens_per_node_min r, otokens_per_node_max_count r))"

lemma OK2_iff: "is_this_node_OK2 r b n l i t v u = NODE_OK \<longleftrightarrow>
    is_node_availble b n \<and> overload (fst (room_limits r n)) (snd (room_limits r n)) b n l v (if u then 1 else 0) = None \<and>
    (l = 0 \<and> v = CONSIDER_BASE \<or>
     fst n \<notin> fst ` set (other_cells b l i t) \<and>
     \<not> (build_stat_normal r \<and> l \<noteq> 0 \<and> length (remdups (snd n # map snd (other_cells b l i t))) < 2))"
proof -
  define ov where "ov = overload (fst (room_limits r n)) (snd (room_limits r n)) b n l v (if u then 1 else 0)"
  define few where "few = (length (remdups (snd n # map snd (other_cells b l i t))) < 2)"
  have "is_this_node_OK2 r b n l i t v u =
    (if \<not> is_node_availble b n then INVALID_NODE
     else case ov of Some e \<Rightarrow> e
          | None \<Rightarrow> if l = 0 \<and> v = CONSIDER_BASE then NODE_OK else if fst n \<in> fst ` set (other_cells b l i t) then SAME_NODE
                    else if build_stat_normal r \<and> l \<noteq> 0 \<and> few then SAME_POS else NODE_OK)"
    by (simp only: is_this_node_OK2_def Let_def ov_def few_def room_limits_def if_distrib [of fst] if_distrib [of snd] fst_conv snd_conv)
  moreover have "ov \<noteq> Some NODE_OK" by (simp add: ov_def)
  ultimately show ?thesis unfolding ov_def [symmetric] few_def [symmetric] by (cases ov) auto
qed

lemma other_cells_member: "k < copy_count b \<Longrightarrow> k \<noteq> l \<Longrightarrow> t ! k ! i \<in> set (other_cells b l i t)"
  by (auto simp: other_cells_def)

interpretation r2: node_rule "is_this_node_OK2 r" for r
proof unfold_locales
  fix b n l i t v u k
  assume "is_this_node_OK2 r b n l i t v u = NODE_OK" "l \<noteq> 0" "k < copy_count b" "k \<noteq> l"
  then show "fst (t ! k ! i) \<noteq> fst n" using other_cells_member [of k b l t i] by (metis OK2_iff image_eqI)
qed (simp add: OK2_iff)

end
