(* ===== verification/Tair_Balance.thy ===== *)
theory Tair_Balance
  imports Tair_Safety
begin

section \<open>Balanced masters\<close>

text \<open>
  A table can always be rebuilt when there are as many servers as copies, and the masters are then
  spread evenly. The invariant of the first pass counts the buckets each server is the master of and
  keeps every server listed as a candidate; a search fails only when all servers are full.
\<close>

subsection \<open>Counts and candidates\<close>

definition mt :: "table_builder \<Rightarrow> server \<Rightarrow> int" where
  "mt b s = m_at 0 (mtokens_count_in_node b) s"

definition mcap :: "table_builder \<Rightarrow> server \<Rightarrow> int" where
  "mcap b s = m_at 0 (master_server_capable b) s"

definition candidate :: "table_builder \<Rightarrow> server \<Rightarrow> bool" where
  "candidate b s \<longleftrightarrow> listed_in (mcandidate_node b) s \<and> listed_in (scandidate_node b) s"

lemma same_mcap: "same_setting b b' \<Longrightarrow> mcap b' = mcap b"
  by (simp add: fun_eq_iff mcap_def same_setting_def)

lemma mt_change_mtokens: "mt (change_mtokens n down b) s = mt b s + (if s = n then if down then - 1 else 1 else 0)"
  by (simp add: mt_def change_mtokens_def change_tokens_count_in_node_def Let_def)

lemma mt_same [simp]: "mt (change_tokens n down b) = mt b" "mt (b\<lparr>randoms_used := r\<rparr>) = mt b"
  "mt (b\<lparr>tokens_count_in_node_now := c\<rparr>) = mt b" "mt (count_now tokf n b) = mt b"
  by (simp_all add: fun_eq_iff mt_def change_tokens_def change_tokens_count_in_node_def count_now_def Let_def)

lemma mt_promote: "mt (promote n b) s = mt b s + (if s = n then 1 else 0)"
  by (simp add: promote_def mt_change_mtokens)

lemma listed_moved: "listed_in m s \<Longrightarrow> listed_in (ix_insert k n (ix_erase k' n m)) s"
  by (cases "s = n") (simp_all add: listed_erase)

lemma candidate_change: "candidate b s \<Longrightarrow> candidate (change_tokens n down b) s" "candidate b s \<Longrightarrow> candidate (change_mtokens n down b) s"
  by (simp_all add: candidate_def change_tokens_def change_mtokens_def change_tokens_count_in_node_def Let_def listed_moved del: listed_insert)

lemma candidate_same [simp]: "candidate (b\<lparr>randoms_used := r\<rparr>) = candidate b" "candidate (b\<lparr>tokens_count_in_node_now := c\<rparr>) = candidate b"
  "candidate (count_now tokf n b) = candidate b"
  by (simp_all add: fun_eq_iff candidate_def count_now_def Let_def)

lemma candidate_promote: "candidate b s \<Longrightarrow> candidate (promote n b) s"
  by (simp add: promote_def candidate_change)

text \<open>The effect of taking a bucket from a server and of giving it one.\<close>

lemma invaliad_effect:
  assumes "invaliad_node l i (t, b) = (t1, b1)"
  shows "mt b1 s = mt b s - (if l = 0 \<and> s = t ! l ! i \<and> is_node_availble b s then 1 else 0)" "candidate b s \<Longrightarrow> candidate b1 s"
proof -
  have b1: "b1 = (if is_node_availble b (t ! l ! i)
      then if l = 0 then change_mtokens (t ! l ! i) True (change_tokens (t ! l ! i) True b) else change_tokens (t ! l ! i) True b else b)"
    using assms by (auto simp: invaliad_node_def Let_def)
  show "mt b1 s = mt b s - (if l = 0 \<and> s = t ! l ! i \<and> is_node_availble b s then 1 else 0)" unfolding b1 by (auto simp: mt_change_mtokens)
  show "candidate b s \<Longrightarrow> candidate b1 s" unfolding b1 by (simp add: candidate_change)
qed

lemma update_effect:
  assumes "update_node l i n (t, b) = (t1, b1)" "is_node_availble b n"
  shows "mt b1 s = mt b s + (if l = 0 \<and> s = n then 1 else 0)" "candidate b s \<Longrightarrow> candidate b1 s"
proof -
  have b1: "b1 = (if l = 0 then change_mtokens n False (change_tokens n False b) else change_tokens n False b)"
    using assms by (auto simp: update_node_def Let_def)
  show "mt b1 s = mt b s + (if l = 0 \<and> s = n then 1 else 0)" unfolding b1 by (auto simp: mt_change_mtokens)
  show "candidate b s \<Longrightarrow> candidate b1 s" unfolding b1 by (simp add: candidate_change)
qed

subsection \<open>Searches that find a server\<close>

lemma scan_servers_finds:
  assumes "\<And>x. ok x \<Longrightarrow> fst x \<noteq> 0" "fst best \<noteq> 0 \<or> (\<exists>x\<in>set xs. ok x)"
  shows "fst (scan_servers ok orig best xs) \<noteq> 0"
  using assms(2)
proof (induction xs arbitrary: best)
  case (Cons x xs)
  show ?case using Cons.IH [of x] Cons.IH [of best] Cons.prems assms(1) [of x] by (cases "ok x"; cases "fst x = orig") auto
qed simp

lemma set_found_finds:
  assumes "\<And>x. ok x \<Longrightarrow> fst x \<noteq> 0" "s \<in> set xs" "ok s"
  shows "fst (set_found ok orig b xs) \<noteq> 0"
proof -
  have "set (drop k xs @ take k xs) = set xs" for k using set_append [of "take k xs" "drop k xs"] by auto
  then show ?thesis unfolding set_found_def using scan_servers_finds [OF assms(1)] assms(2,3) by blast
qed

lemma scan_sets_finds:
  assumes "\<And>x. ok x \<Longrightarrow> fst x \<noteq> 0" "(k, xs) \<in> set m" "s \<in> set xs" "ok s"
  shows "fst (fst (scan_sets ok orig None m b)) \<noteq> 0"
  using assms(2)
proof (induction m arbitrary: b)
  case (Cons e m)
  obtain j ys where e: "e = (j, ys)" by (cases e)
  show ?case
  proof (cases "fst (set_found ok orig b ys) = INVALID_FLAG")
    case True
    then have "(k, xs) \<in> set m" using Cons.prems set_found_finds [of ok s xs orig b] assms(1,3,4) e by (auto simp: INVALID_FLAG_def)
    then show ?thesis using Cons.IH True by (simp add: e scan_sets_Cons del: scan_sets.simps)
  next
    case False
    then show ?thesis by (simp add: e scan_sets_Cons INVALID_FLAG_def del: scan_sets.simps)
  qed
qed simp

lemma scan_levels_finds:
  assumes "v \<in> set vs" "CONSIDER_BASE \<le> v" "\<And>b x v. okf b x l i t v False = NODE_OK \<Longrightarrow> fst x \<noteq> 0"
    "listed_in (if l = 0 then mcandidate_node b else scandidate_node b) s" "\<And>r. okf (b\<lparr>randoms_used := r\<rparr>) s l i t v False = NODE_OK"
  shows "fst (fst (scan_levels okf vs l i orig t b)) \<noteq> 0"
  using assms(1,4,5)
proof (induction vs arbitrary: b)
  case (Cons w vs)
  let ?ok = "\<lambda>x. okf b x l i t w False = NODE_OK" and ?m = "if l = 0 then mcandidate_node b else scandidate_node b"
    and ?left = "if w < CONSIDER_BASE then Some (w + 1) else None"
  obtain n b1 where s: "scan_sets ?ok orig ?left ?m b = (n, b1)" by fastforce
  obtain r where b1: "b1 = b\<lparr>randoms_used := r\<rparr>" using scan_sets_ok [OF s] by blast
  show ?case
  proof (cases "fst n = 0")
    case False
    then show ?thesis using s by (simp add: INVALID_FLAG_def)
  next
    case True
    have "w \<noteq> v"
    proof
      assume w: "w = v"
      obtain k xs where "(k, xs) \<in> set ?m" "s \<in> set xs" using listed_entry [OF Cons.prems(2)] by blast
      moreover have "?ok s" using Cons.prems(3) [of "randoms_used b"] w by simp
      moreover have "?left = None" using assms(2) w by simp
      ultimately show False using scan_sets_finds [of ?ok k xs ?m s orig b] assms(3) s True by simp
    qed
    then have "fst (fst (scan_levels okf vs l i orig t b1)) \<noteq> 0" using Cons.IH [of b1] Cons.prems unfolding b1 by (cases "l = 0") simp_all
    then show ?thesis using s True by (simp add: INVALID_FLAG_def)
  qed
qed simp

lemma get_suitable_finds:
  assumes "v = CONSIDER_BASE \<or> v = CONSIDER_FORCE" "\<And>b x v. okf b x l i t v False = NODE_OK \<Longrightarrow> fst x \<noteq> 0"
    "candidate b s" "\<And>r. okf (b\<lparr>randoms_used := r\<rparr>) s l i t v False = NODE_OK"
  shows "fst (fst (get_suitable_node okf l i orig t b)) \<noteq> 0"
  unfolding get_suitable_node_def
  by (rule scan_levels_finds [of v _ okf l i t b s])
    (use assms in \<open>auto simp: CONSIDER_BASE_def CONSIDER_FORCE_def CONSIDER_ALL_def candidate_def\<close>)

subsection \<open>The pass over the masters\<close>

lemma count_update: "i < length xs \<Longrightarrow> count_list (xs[i := n]) s + (if xs ! i = s then 1 else 0) = count_list xs s + (if n = s then 1 else 0)"
proof (induction xs arbitrary: i)
  case (Cons x xs)
  show ?case
  proof (cases i)
    case (Suc j)
    then show ?thesis using Cons.IH [of j] Cons.prems by (cases "n = s"; cases "xs ! j = s") simp_all
  qed simp
qed simp

lemma sum_count: "finite A \<Longrightarrow> (\<Sum>s\<in>A. count_list xs s) = length (filter (\<lambda>x. x \<in> A) xs)"
proof (induction xs)
  case (Cons x xs)
  have "(\<Sum>s\<in>A. count_list (x # xs) s) = (\<Sum>s\<in>A. count_list xs s + (if s = x then 1 else 0))" by (rule sum.cong) auto
  also have "\<dots> = length (filter (\<lambda>x. x \<in> A) (x # xs))" using Cons by (simp add: sum.distrib)
  finally show ?case .
qed simp

text \<open>
  After the first \<open>p\<close> buckets: the numbers are those of the table, every server is a candidate, and a
  server with too many buckets has none of the first \<open>p\<close>.
\<close>

definition master_inv :: "nat \<Rightarrow> placement \<Rightarrow> table_builder \<Rightarrow> bool" where
  "master_inv p t b \<longleftrightarrow> shaped b t \<and> (\<forall>j<p. is_node_availble b (t ! 0 ! j)) \<and>
     (\<forall>s\<in>set (available_server b). is_node_availble b s \<and> mt b s = int (count_list (t ! 0) s) \<and> candidate b s \<and>
        (mt b s \<le> mcap b s \<or> (\<forall>j<p. t ! 0 ! j \<noteq> s)))"

text \<open>One bucket changes its master, from a server that is gone or has too many to one that has room.\<close>

lemma master_inv_moved:
  assumes inv: "master_inv p t b" and p: "p < bucket_count b" "0 < copy_count b" and same: "same_setting b b'" and sh: "shaped b t'"
    and line: "t' ! 0 = (t ! 0)[p := n]" and n: "is_node_availble b n" "mt b n < mcap b n"
    and old: "\<not> is_node_availble b (t ! 0 ! p) \<or> mcap b (t ! 0 ! p) < mt b (t ! 0 ! p)"
    and m: "\<And>s. mt b' s = mt b s + (if s = n then 1 else 0) - (if s = t ! 0 ! p \<and> is_node_availble b s then 1 else 0)"
    and li: "\<And>s. candidate b s \<Longrightarrow> candidate b' s"
  shows "master_inv (Suc p) t' b'"
proof -
  have len: "p < length (t ! 0)" using inv p by (auto simp: master_inv_def shaped_def)
  have ne: "n \<noteq> t ! 0 ! p" using n old by auto
  have av: "available_server b' = available_server b" "mcap b' = mcap b" using same same_mcap [OF same] by (simp_all add: same_setting_def)
  have cell: "t' ! 0 ! j = (if j = p then n else t ! 0 ! j)" for j using len by (simp add: line nth_list_update)
  have "is_node_availble b s \<and> mt b' s = int (count_list (t' ! 0) s) \<and> candidate b' s \<and> (mt b' s \<le> mcap b s \<or> (\<forall>j<Suc p. t' ! 0 ! j \<noteq> s))"
    if s: "s \<in> set (available_server b)" for s
  proof -
    have i: "is_node_availble b s" "mt b s = int (count_list (t ! 0) s)" "candidate b s" "mt b s \<le> mcap b s \<or> (\<forall>j<p. t ! 0 ! j \<noteq> s)"
      using inv s unfolding master_inv_def by blast+
    have "mt b' s = int (count_list (t' ! 0) s)" using m [of s] i(1,2) count_update [OF len, of n s] by (auto simp: line split: if_splits)
    moreover have "mt b' s \<le> mcap b s \<or> (\<forall>j<Suc p. t' ! 0 ! j \<noteq> s)"
    proof (cases "s = n")
      case True
      then show ?thesis using m [of s] ne n(2) by simp
    next
      case sn: False
      show ?thesis
      proof (cases "s = t ! 0 ! p")
        case True
        then have "\<forall>j<p. t ! 0 ! j \<noteq> s" using i(1,4) old by auto
        then show ?thesis using sn by (simp add: cell less_Suc_eq)
      next
        case False
        then have "mt b' s = mt b s" using m [of s] sn by simp
        then show ?thesis using i(4) sn by (auto simp: cell less_Suc_eq)
      qed
    qed
    ultimately show ?thesis using i(1,3) li by blast
  qed
  moreover have "is_node_availble b (t' ! 0 ! j)" if "j < Suc p" for j using that inv n(1) by (auto simp: cell master_inv_def)
  ultimately show ?thesis unfolding master_inv_def av same_avail [OF same] same_shaped [OF same] using sh by blast
qed

lemma master_inv_stays:
  assumes "master_inv p t b" "is_node_availble b (t ! 0 ! p)" "mt b (t ! 0 ! p) \<le> mcap b (t ! 0 ! p)"
  shows "master_inv (Suc p) t (count_now tokf (t ! 0 ! p) b)"
proof -
  note same = change_same(5) [of b tokf "t ! 0 ! p"]
  have av: "available_server (count_now tokf (t ! 0 ! p) b) = available_server b" using same by (simp add: same_setting_def)
  show ?thesis using assms unfolding master_inv_def av same_avail [OF same] same_shaped [OF same] same_mcap [OF same] mt_same candidate_same
    by (auto simp: less_Suc_eq)
qed

text \<open>When one bucket has no master, some server has room.\<close>

lemma room_left:
  assumes inv: "master_inv p t b" and p: "p < bucket_count b" "0 < copy_count b" and gone: "\<not> is_node_availble b (t ! 0 ! p)"
    and caps: "(\<Sum>s\<in>set (available_server b). mcap b s) = int (bucket_count b)"
  shows "\<exists>s\<in>set (available_server b). mt b s < mcap b s"
proof (rule ccontr)
  assume "\<not> ?thesis"
  then have "(\<Sum>s\<in>set (available_server b). mcap b s) \<le> (\<Sum>s\<in>set (available_server b). mt b s)" by (auto simp: not_less intro: sum_mono)
  also have "\<dots> = int (\<Sum>s\<in>set (available_server b). count_list (t ! 0) s)" using inv unfolding of_nat_sum master_inv_def by (auto intro: sum.cong)
  finally have "bucket_count b \<le> length (filter (\<lambda>x. x \<in> set (available_server b)) (t ! 0))" using caps by (simp add: sum_count)
  moreover have len: "length (t ! 0) = bucket_count b" using inv p by (auto simp: master_inv_def shaped_def)
  moreover have "t ! 0 ! p \<notin> set (available_server b)" using inv gone by (auto simp: master_inv_def)
  then have "length (filter (\<lambda>x. x \<in> set (available_server b)) (t ! 0)) < length (t ! 0)"
    using p(1) len by (intro length_filter_less [of "t ! 0 ! p"]) auto
  ultimately show False by simp
qed

lemma set_cell_line: "l \<noteq> 0 \<Longrightarrow> set_cell l i n t ! 0 = t ! 0" "t \<noteq> [] \<Longrightarrow> set_cell 0 i n t ! 0 = (t ! 0)[i := n]"
  by (simp_all add: set_cell_def)

lemma master_inv_removed:
  assumes inv: "master_inv p t b" and p: "p < bucket_count b" "0 < copy_count b"
    and run: "invaliad_node 0 p (t, b) = (t1, b1)"
  shows "master_inv p t1 b1" "t1 ! 0 = (t ! 0)[p := (INVALID_FLAG, snd (t ! 0 ! p))]"
proof -
  have len: "p < length (t ! 0)" and tn: "t \<noteq> []" and sh: "shaped b t" using inv p by (auto simp: master_inv_def shaped_def)
  have t1: "t1 = set_cell 0 p (INVALID_FLAG, snd (t ! 0 ! p)) t" and same: "same_setting b b1" using invaliad_same [OF run] by simp_all
  show line: "t1 ! 0 = (t ! 0)[p := (INVALID_FLAG, snd (t ! 0 ! p))]" using set_cell_line(2) [OF tn] by (simp add: t1)
  have av: "available_server b1 = available_server b" "mcap b1 = mcap b" using same same_mcap [OF same] by (simp_all add: same_setting_def)
  have cell: "t1 ! 0 ! j = t ! 0 ! j" if "j < p" for j using that by (simp add: line)
  have "is_node_availble b s \<and> mt b1 s = int (count_list (t1 ! 0) s) \<and> candidate b1 s \<and> (mt b1 s \<le> mcap b s \<or> (\<forall>j<p. t1 ! 0 ! j \<noteq> s))"
    if s: "s \<in> set (available_server b)" for s
  proof -
    have i: "is_node_availble b s" "mt b s = int (count_list (t ! 0) s)" "candidate b s" "mt b s \<le> mcap b s \<or> (\<forall>j<p. t ! 0 ! j \<noteq> s)"
      using inv s unfolding master_inv_def by blast+
    have "(INVALID_FLAG, snd (t ! 0 ! p)) \<noteq> s" using i(1) by (auto simp: is_node_availble_def)
    then have "mt b1 s = int (count_list (t1 ! 0) s)"
      using invaliad_effect(1) [OF run, of s] i(1,2) count_update [OF len, of "(INVALID_FLAG, snd (t ! 0 ! p))" s]
      by (cases "s = t ! 0 ! p") (simp_all add: line)
    moreover have "mt b1 s \<le> mt b s" using invaliad_effect(1) [OF run, of s] by simp
    ultimately show ?thesis using i invaliad_effect(2) [OF run] cell by fastforce
  qed
  moreover have "is_node_availble b (t1 ! 0 ! j)" if "j < p" for j using that inv by (simp add: cell master_inv_def)
  moreover have "shaped b t1" using set_cell_nth(2) [OF sh p(2,1)] by (simp add: t1)
  ultimately show "master_inv p t1 b1" unfolding master_inv_def av same_avail [OF same] same_shaped [OF same] by blast
qed

locale master_rule = node_rule +
  assumes master_base: "okf b n 0 i t CONSIDER_BASE u = NODE_OK \<longleftrightarrow> is_node_availble b n \<and> mt b n < mcap b n + (if u then 1 else 0)"
    and master_any: "okf b n 0 i t v False = NODE_OK \<Longrightarrow> mt b n < mcap b n"
begin

lemma ok_nonzero: "okf b n l i t v u = NODE_OK \<Longrightarrow> fst n \<noteq> 0"
  using ok_available by (fastforce simp: is_node_availble_def INVALID_FLAG_def)

lemma master_search_room:
  assumes "get_suitable_node okf 0 i orig t b = (n, b')" "fst n \<noteq> 0"
  shows "mt b n < mcap b n"
proof -
  from get_suitable_ok(1) [OF assms] obtain v r where ok: "okf (b\<lparr>randoms_used := r\<rparr>) n 0 i t v False = NODE_OK" by blast
  from master_any [OF this] show ?thesis by (simp add: mcap_def)
qed

lemma master_search_finds:
  assumes "master_inv p t b" "p < bucket_count b" "0 < copy_count b" "\<not> is_node_availble b (t ! 0 ! p)"
    "(\<Sum>s\<in>set (available_server b). mcap b s) = int (bucket_count b)"
  shows "fst (fst (get_suitable_node okf 0 i orig t b)) \<noteq> 0"
proof -
  from room_left [OF assms] obtain s where s: "s \<in> set (available_server b)" "mt b s < mcap b s" by blast
  have "is_node_availble b s" "candidate b s" using assms(1) s(1) by (auto simp: master_inv_def)
  moreover have "okf (b\<lparr>randoms_used := r\<rparr>) s 0 i t CONSIDER_BASE False = NODE_OK" for r
    using s calculation(1) by (simp add: master_base mcap_def is_node_availble_def)
  ultimately show ?thesis using get_suitable_finds [of CONSIDER_BASE okf 0 i t b s] ok_nonzero by blast
qed

lemma master_step:
  assumes inv: "master_inv p t b" and p: "p < bucket_count b" "0 < copy_count b"
    and caps: "(\<Sum>s\<in>set (available_server b). mcap b s) = int (bucket_count b)"
    and run: "place_cell okf tokf 0 p (t, b) = (r, t', b')"
  shows "r \<and> master_inv (Suc p) t' b' \<and> same_setting b b'"
proof -
  have tn: "t \<noteq> []" and sh: "shaped b t" using inv p by (auto simp: master_inv_def shaped_def)
  have old: "\<not> is_node_availble b (t ! 0 ! p) \<or> mcap b (t ! 0 ! p) < mt b (t ! 0 ! p)" if "okf b (t ! 0 ! p) 0 p t (first_level 0) True \<noteq> NODE_OK"
    using that by (auto simp: first_level_def master_base)
  note effect = place_cell_effect [OF _ sh p(2,1)]
  from run show ?thesis
  proof (cases rule: place_cell_cases)
    case stay
    have "is_node_availble b (t ! 0 ! p)" "mt b (t ! 0 ! p) \<le> mcap b (t ! 0 ! p)"
      using stay(2) by (auto simp: first_level_def master_base)
    from master_inv_stays [OF inv this] show ?thesis using stay by simp
  next
    case swap
    note e = effect [OF run [unfolded eqTrueI [OF swap(1)]]]
    from swap(4) obtain l where l: "1 \<le> l" "l < copy_count b" "is_node_availble b (t ! l ! p)" "mt b (t ! l ! p) < mcap b (t ! l ! p)"
      "t' = swapped l p t b" "b' = swapped_state l p t b"
      by (rule change_master_run) (auto simp: mt_def mcap_def)
    have line: "t' ! 0 = (t ! 0)[p := t ! l ! p]" using l(1) tn by (simp add: l(5) swapped_def set_cell_line)
    have "mt b' s = mt b s + (if s = t ! l ! p then 1 else 0) - (if s = t ! 0 ! p \<and> is_node_availble b s then 1 else 0)" for s
      unfolding l(6) swapped_state_def by (auto simp: mt_promote mt_change_mtokens)
    moreover have "candidate b s \<Longrightarrow> candidate b' s" for s unfolding l(6) swapped_state_def by (simp add: candidate_promote candidate_change)
    ultimately have "master_inv (Suc p) t' b'" by (rule master_inv_moved [OF inv p e(1,2) line l(3,4) old [OF swap(2)]])
    then show ?thesis using e(1) swap(1) by blast
  next
    case (search t1 b1 b2 b3 n)
    note e = effect [OF run [unfolded eqTrueI [OF search(1)]]]
    note i = invaliad_effect [OF search(3)] and rem = master_inv_removed [OF inv p search(3)]
    have same: "same_setting b b1" using invaliad_same [OF search(3)] by blast
    note f = search_found [OF search(5,6)]
    have n: "is_node_availble b n" using f(1) same_avail [OF same] by simp
    obtain q where b2: "b2 = b1\<lparr>randoms_used := q\<rparr>" using get_suitable_ok(2) [OF search(5)] by blast
    have n2: "is_node_availble b2 n" using f(1) same_avail [OF f(3)] by simp
    have room: "mt b1 n < mcap b n" using master_search_room [OF search(5,6)] same_mcap [OF same] by simp
    then have roomb: "mt b n < mcap b n" using i(1) [of n] old [OF search(2)] n by (auto split: if_splits)
    have line: "t' ! 0 = (t ! 0)[p := n]"
    proof -
      have "t1 \<noteq> []" using tn by (simp add: search(4) set_cell_def)
      then show ?thesis using update_same [OF search(7)] rem(2) set_cell_line(2) [of t1 p n] by simp
    qed
    have "mt b' s = mt b s + (if s = n then 1 else 0) - (if s = t ! 0 ! p \<and> is_node_availble b s then 1 else 0)" for s
      using update_effect(1) [OF search(7) n2, of s] i(1) [of s] by (simp add: search(8) b2)
    moreover have "candidate b s \<Longrightarrow> candidate b' s" for s
      using update_effect(2) [OF search(7) n2, of s] i(2) [of s] by (simp add: search(8) b2)
    ultimately have "master_inv (Suc p) t' b'" by (rule master_inv_moved [OF inv p e(1,2) line n roomb old [OF search(2)]])
    then show ?thesis using e(1) search(1) by blast
  next
    case (failed t1 b1 b2 n)
    have same: "same_setting b b1" using invaliad_same [OF failed(3)] by blast
    note rem = master_inv_removed [OF inv p failed(3)]
    have "p < length (t ! 0)" using inv p by (auto simp: master_inv_def shaped_def)
    then have "\<not> is_node_availble b1 (t1 ! 0 ! p)" unfolding rem(2) by (simp add: is_node_availble_def)
    moreover have "p < bucket_count b1" "0 < copy_count b1" "(\<Sum>s\<in>set (available_server b1). mcap b1 s) = int (bucket_count b1)"
      using p caps same unfolding same_mcap [OF same] by (simp_all add: same_setting_def)
    ultimately have "fst n \<noteq> 0" using master_search_finds [OF rem(1)] failed(5) by (metis fst_conv)
    then show ?thesis using failed(6) by blast
  qed
qed

lemma masters_placed:
  assumes "master_inv p t b" "p \<le> bucket_count b" "0 < copy_count b"
    "(\<Sum>s\<in>set (available_server b). mcap b s) = int (bucket_count b)"
  shows "\<exists>t' b'. place_cells okf tokf (map (\<lambda>i. (0, i)) [p..<bucket_count b]) (t, b) = (True, t', b') \<and>
    master_inv (bucket_count b) t' b' \<and> same_setting b b'"
  using assms
proof (induction "bucket_count b - p" arbitrary: p t b)
  case 0
  then show ?case by auto
next
  case (Suc d)
  then have p: "p < bucket_count b" by simp
  obtain r t1 b1 where run: "place_cell okf tokf 0 p (t, b) = (r, t1, b1)" using prod_cases3 by blast
  from master_step [OF Suc.prems(1) p Suc.prems(3,4) run] have r: "r" "master_inv (Suc p) t1 b1" "same_setting b b1" by blast+
  have eq: "bucket_count b1 = bucket_count b" "copy_count b1 = copy_count b" "available_server b1 = available_server b"
    using r(3) by (simp_all add: same_setting_def)
  have "\<exists>t' b'. place_cells okf tokf (map (\<lambda>i. (0, i)) [Suc p..<bucket_count b1]) (t1, b1) = (True, t', b') \<and>
    master_inv (bucket_count b1) t' b' \<and> same_setting b1 b'"
    by (rule Suc.hyps(1)) (use Suc.hyps(2) Suc.prems p r same_mcap [OF r(3)] in \<open>simp_all add: eq\<close>)
  then obtain t' b' where c: "place_cells okf tokf (map (\<lambda>i. (0, i)) [Suc p..<bucket_count b]) (t1, b1) = (True, t', b')"
    "master_inv (bucket_count b) t' b'" "same_setting b1 b'" unfolding eq by blast
  have "place_cells okf tokf (map (\<lambda>i. (0, i)) [p..<bucket_count b]) (t, b) = (True, t', b')"
    using run r(1) c(1) p by (simp add: upt_conv_Cons)
  then show ?case using c(2) same_setting_trans [OF r(3) c(3)] by blast
qed

text \<open>When all masters are placed, each server has as many buckets as it is meant to have.\<close>

lemma masters_balanced:
  assumes inv: "master_inv (bucket_count b) t b" and c: "0 < copy_count b"
    and caps: "(\<Sum>s\<in>set (available_server b). mcap b s) = int (bucket_count b)" "\<And>s. s \<in> set (available_server b) \<Longrightarrow> 0 \<le> mcap b s"
    and s: "s \<in> set (available_server b)"
  shows "int (count_list (t ! 0) s) = mcap b s"
proof -
  have len: "length (t ! 0) = bucket_count b" using inv c by (auto simp: master_inv_def shaped_def)
  have mt: "mt b x = int (count_list (t ! 0) x)" if "x \<in> set (available_server b)" for x using inv that by (simp add: master_inv_def)
  have le: "mt b x \<le> mcap b x" if x: "x \<in> set (available_server b)" for x
  proof (cases "mt b x \<le> mcap b x")
    case False
    then have "\<forall>j<length (t ! 0). t ! 0 ! j \<noteq> x" using inv x len by (auto simp: master_inv_def)
    then have "x \<notin> set (t ! 0)" by (auto simp: in_set_conv_nth [of x])
    then show ?thesis using mt [OF x] caps(2) [OF x] by (simp add: count_list_0_iff)
  qed
  have "x \<in> set (available_server b)" if "x \<in> set (t ! 0)" for x
    using that inv len unfolding in_set_conv_nth [of x "t ! 0"] by (auto simp: master_inv_def is_node_availble_def)
  then have "filter (\<lambda>x. x \<in> set (available_server b)) (t ! 0) = t ! 0" by (auto simp: filter_id_conv)
  then have "(\<Sum>x\<in>set (available_server b). mt b x) = int (bucket_count b)"
    using sum_count [of "set (available_server b)" "t ! 0"] len by (simp add: mt flip: of_nat_sum)
  then have "(\<Sum>x\<in>set (available_server b). mcap b x - mt b x) = 0" using caps(1) by (simp add: sum_subtractf)
  then have "mcap b s - mt b s = 0" using sum_nonneg_eq_0_iff [of "set (available_server b)" "\<lambda>x. mcap b x - mt b x"] le s by simp
  then show ?thesis using mt [OF s] by simp
qed

end

subsection \<open>The pass over the copies\<close>

lemma place_cells_append: "place_cells okf tokf (xs @ ys) tb = (case place_cells okf tokf xs tb of (r, tb) \<Rightarrow> if r then place_cells okf tokf ys tb else (False, tb))"
  by (induction xs arbitrary: tb) (auto split: prod.splits)

definition copy_inv :: "placement \<Rightarrow> table_builder \<Rightarrow> bool" where
  "copy_inv t b \<longleftrightarrow> shaped b t \<and> (\<forall>s\<in>set (available_server b). is_node_availble b s \<and> candidate b s)"

text \<open>Servers of different addresses, as many as there are copies: one is not yet in a column.\<close>

definition enough_servers :: "table_builder \<Rightarrow> bool" where
  "enough_servers b \<longleftrightarrow> inj_on fst (set (available_server b)) \<and> copy_count b \<le> card (set (available_server b))"

lemma free_server:
  assumes "enough_servers b" "l < copy_count b"
  shows "\<exists>s\<in>set (available_server b). \<forall>k<copy_count b. k \<noteq> l \<longrightarrow> fst (t ! k ! i) \<noteq> fst s"
proof (rule ccontr)
  assume "\<not> ?thesis"
  then have "fst ` set (available_server b) \<subseteq> (\<lambda>k. fst (t ! k ! i)) ` ({..<copy_count b} - {l})" by (fastforce simp: image_iff)
  then have "card (fst ` set (available_server b)) \<le> card ((\<lambda>k. fst (t ! k ! i)) ` ({..<copy_count b} - {l}))" by (rule card_mono [rotated]) simp
  also have "\<dots> \<le> card ({..<copy_count b} - {l})" by (rule card_image_le) simp
  also have "\<dots> < copy_count b" using assms(2) by simp
  finally show False using assms(1) by (simp add: enough_servers_def card_image)
qed

locale free_rule = master_rule +
  assumes copy_force: "l \<noteq> 0 \<Longrightarrow> is_node_availble b n \<Longrightarrow> (\<And>k. k < copy_count b \<Longrightarrow> k \<noteq> l \<Longrightarrow> fst (t ! k ! i) \<noteq> fst n) \<Longrightarrow>
    okf b n l i t CONSIDER_FORCE False = NODE_OK"
begin

lemma copy_search_finds:
  assumes "copy_inv t b" "enough_servers b" "l \<noteq> 0" "l < copy_count b"
  shows "fst (fst (get_suitable_node okf l i orig t b)) \<noteq> 0"
proof -
  from free_server [OF assms(2,4), of t i] obtain s where s: "s \<in> set (available_server b)"
    "\<And>k. k < copy_count b \<Longrightarrow> k \<noteq> l \<Longrightarrow> fst (t ! k ! i) \<noteq> fst s" by blast
  have a: "is_node_availble b s" "candidate b s" using assms(1) s(1) by (auto simp: copy_inv_def)
  have "okf (b\<lparr>randoms_used := r\<rparr>) s l i t CONSIDER_FORCE False = NODE_OK" for r
    by (rule copy_force) (use assms(3) a(1) s(2) in \<open>auto simp: is_node_availble_def\<close>)
  then show ?thesis using get_suitable_finds [of CONSIDER_FORCE okf l i t b s] ok_nonzero a(2) by blast
qed

lemma copy_step:
  assumes inv: "copy_inv t b" and en: "enough_servers b" and l: "l \<noteq> 0" "l < copy_count b" "i < bucket_count b"
    and run: "place_cell okf tokf l i (t, b) = (r, t', b')"
  shows "r \<and> copy_inv t' b'"
proof -
  have sh: "shaped b t" using inv by (simp add: copy_inv_def)
  note effect = place_cell_effect [OF _ sh l(2,3)]
  have keeps: "copy_inv t' b'" if "r" "\<And>s. candidate b s \<Longrightarrow> candidate b' s"
  proof -
    note e = effect [OF run [unfolded eqTrueI [OF that(1)]]]
    have "available_server b' = available_server b" using e(1) by (simp add: same_setting_def)
    then show ?thesis using inv that(2) e(2) unfolding copy_inv_def same_avail [OF e(1)] same_shaped [OF e(1)] by simp
  qed
  from run show ?thesis
  proof (cases rule: place_cell_cases)
    case stay
    then show ?thesis using keeps by simp
  next
    case swap
    then show ?thesis using l(1) by blast
  next
    case (search t1 b1 b2 b3 n)
    note f = search_found [OF search(5,6)]
    have n2: "is_node_availble b2 n" using f(1) same_avail [OF f(3)] by simp
    obtain q where b2: "b2 = b1\<lparr>randoms_used := q\<rparr>" using get_suitable_ok(2) [OF search(5)] by blast
    have "candidate b s \<Longrightarrow> candidate b' s" for s
      using update_effect(2) [OF search(7) n2, of s] invaliad_effect(2) [OF search(3), of s] by (simp add: search(8) b2)
    then show ?thesis using keeps search(1) by blast
  next
    case (failed t1 b1 b2 n)
    have same: "same_setting b b1" using invaliad_same [OF failed(3)] by blast
    have av: "available_server b1 = available_server b" "copy_count b1 = copy_count b" using same by (simp_all add: same_setting_def)
    have "shaped b t1" using set_cell_nth(2) [OF sh l(2,3)] by (simp add: failed(4))
    then have "copy_inv t1 b1" using inv invaliad_effect(2) [OF failed(3)]
      unfolding copy_inv_def av same_avail [OF same] same_shaped [OF same] by blast
    moreover have "enough_servers b1" using en by (simp add: enough_servers_def av)
    ultimately have "fst n \<noteq> 0" using copy_search_finds [of t1 b1 l i "t ! l ! i"] failed(5) l av by simp
    then show ?thesis using failed(6) by blast
  qed
qed

lemma copies_placed:
  assumes "copy_inv t b" "enough_servers b" "\<forall>(l, i)\<in>set cs. l \<noteq> 0 \<and> l < copy_count b \<and> i < bucket_count b"
  shows "\<exists>t' b'. place_cells okf tokf cs (t, b) = (True, t', b') \<and> (\<forall>j. t' ! 0 ! j = t ! 0 ! j)"
  using assms
proof (induction cs arbitrary: t b)
  case (Cons c cs)
  obtain l i where c: "c = (l, i)" by (cases c)
  have l: "l \<noteq> 0" "l < copy_count b" "i < bucket_count b" using Cons.prems(3) c by auto
  have sh: "shaped b t" using Cons.prems(1) by (simp add: copy_inv_def)
  obtain r t1 b1 where run: "place_cell okf tokf l i (t, b) = (r, t1, b1)" using prod_cases3 by blast
  from copy_step [OF Cons.prems(1,2) l run] have r: "r" "copy_inv t1 b1" by blast+
  note e = place_cell_effect [OF run [unfolded eqTrueI [OF r(1)]] sh l(2,3)]
  have eq: "bucket_count b1 = bucket_count b" "copy_count b1 = copy_count b" "available_server b1 = available_server b"
    using e(1) by (simp_all add: same_setting_def)
  have "enough_servers b1" using Cons.prems(2) by (simp add: enough_servers_def eq)
  moreover have "\<forall>(l, i)\<in>set cs. l \<noteq> 0 \<and> l < copy_count b1 \<and> i < bucket_count b1" unfolding eq using Cons.prems(3) by (meson list.set_intros(2))
  ultimately obtain t' b' where "place_cells okf tokf cs (t1, b1) = (True, t', b')" "\<forall>j. t' ! 0 ! j = t1 ! 0 ! j"
    using Cons.IH [OF r(2)] by blast
  moreover have "t1 ! 0 ! j = t ! 0 ! j" for j using e(3) e(5) [of 0] l(1) by (cases "j = i") (simp_all add: same_elsewhere_def)
  ultimately show ?case using run r(1) by (simp add: c)
qed simp

end

end
