(* ===== verification/Tair_Rebuild.thy ===== *)
theory Tair_Rebuild
  imports Tair_Balance
begin

section \<open>Rebuilding a table\<close>

text \<open>
  The two strategies keep the rules of the passes, the capacities of the first add up to the number
  of buckets, and the counts and candidates of the old table establish the invariants.
\<close>

subsection \<open>The rules of the strategies\<close>

lemma overload_master: "overload least many b n 0 v u = None \<longleftrightarrow> mt b n < mcap b n + u"
  by (auto simp: overload_def mt_def mcap_def)

interpretation r1: free_rule is_this_node_OK1
proof unfold_locales
  fix b n i t u
  show "is_this_node_OK1 b n 0 i t CONSIDER_BASE u = NODE_OK \<longleftrightarrow> is_node_availble b n \<and> mt b n < mcap b n + (if u then 1 else 0)"
    by (auto simp: OK1_iff overload_master)
next
  fix b n i t v
  show "is_this_node_OK1 b n 0 i t v False = NODE_OK \<Longrightarrow> mt b n < mcap b n" by (simp add: OK1_iff overload_master)
next
  fix l i :: nat and b n and t :: placement
  assume "l \<noteq> 0" "is_node_availble b n" "\<And>k. k < copy_count b \<Longrightarrow> k \<noteq> l \<Longrightarrow> fst (t ! k ! i) \<noteq> fst n"
  then show "is_this_node_OK1 b n l i t CONSIDER_FORCE False = NODE_OK"
    by (auto simp: OK1_iff overload_def map_filter_Nil clash_def CONSIDER_FORCE_def CONSIDER_ALL_def CONSIDER_BASE_def)
qed

interpretation r2: master_rule "is_this_node_OK2 r" for r
proof unfold_locales
  fix b n i t u
  show "is_this_node_OK2 r b n 0 i t CONSIDER_BASE u = NODE_OK \<longleftrightarrow> is_node_availble b n \<and> mt b n < mcap b n + (if u then 1 else 0)"
    by (auto simp: OK2_iff overload_master)
next
  fix b n i t v
  show "is_this_node_OK2 r b n 0 i t v False = NODE_OK \<Longrightarrow> mt b n < mcap b n" by (simp add: OK2_iff overload_master)
qed

subsection \<open>Capacities\<close>

lemma capable_loop_sum:
  assumes "distinct ss" "i + int (length ss) = few + many" "most \<le> many" "i - most \<le> few"
  shows "(\<forall>s. s \<notin> set ss \<longrightarrow> m_at 0 (capable_loop least few many mean before i most ss cap) s = m_at 0 cap s) \<and>
    (\<forall>s\<in>set ss. m_at 0 (capable_loop least few many mean before i most ss cap) s \<in> {least, least + 1}) \<and>
    (\<Sum>s\<in>set ss. m_at 0 (capable_loop least few many mean before i most ss cap) s) = least * int (length ss) + (many - most)"
  using assms
proof (induction ss arbitrary: i most cap)
  case Nil
  then show ?case by simp
next
  case (Cons s ss)
  obtain c most' where st: "capable_step least few many i most (m_at 0 before s) mean = (c, most')" by fastforce
  have c: "c = least + (most' - most)" "most' = most \<or> most' = most + 1" "most' \<le> many" "i + 1 - most' \<le> few"
    using st Cons.prems unfolding capable_step_def by (auto split: if_splits)
  let ?r = "capable_loop least few many mean before (i + 1) most' ss (m_put s c cap)"
  have ih: "\<forall>x. x \<notin> set ss \<longrightarrow> m_at 0 ?r x = m_at 0 (m_put s c cap) x" "\<forall>x\<in>set ss. m_at 0 ?r x \<in> {least, least + 1}"
    "(\<Sum>x\<in>set ss. m_at 0 ?r x) = least * int (length ss) + (many - most')"
    using Cons.IH [of "i + 1" most' "m_put s c cap"] Cons.prems c by auto
  have s: "m_at 0 ?r s = c" using ih(1) [rule_format, of s] Cons.prems(1) by simp
  have "(\<Sum>x\<in>set (s # ss). m_at 0 ?r x) = c + (least * int (length ss) + (many - most'))"
    using Cons.prems(1) by (simp only: list.set sum.insert finite_set distinct.simps s ih(3) simp_thms)
  then have "(\<Sum>x\<in>set (s # ss). m_at 0 ?r x) = least * int (length (s # ss)) + (many - most)"
    unfolding c(1) by (simp only: list.size of_nat_add of_nat_Suc) (simp add: algebra_simps)
  moreover have "m_at 0 ?r s \<in> {least, least + 1}" using s c(1,2) by auto
  ultimately show ?case using ih(1,2) st by simp
qed

lemma to_int_small: "0 \<le> x \<Longrightarrow> x < 2 ^ 31 \<Longrightarrow> to_int x = x"
  by (simp add: to_int_def signed_take_bit_int_eq_self)

text \<open>Servers that a builder can work with, and numbers of the type \<open>int\<close>.\<close>

definition servers_ok :: "table_builder \<Rightarrow> bool" where
  "servers_ok b \<longleftrightarrow> distinct (available_server b) \<and> inj_on fst (set (available_server b)) \<and> (\<forall>s\<in>set (available_server b). fst s \<noteq> 0) \<and>
     available_server b \<noteq> [] \<and> length (available_server b) < 2 ^ 31 \<and> bucket_count b < 2 ^ 31"

lemma capable1_masters:
  assumes "servers_ok b" "caculate_capable1 b = Some b'"
  shows "(\<Sum>s\<in>set (available_server b). mcap b' s) = int (bucket_count b)"
    "s \<in> set (available_server b) \<Longrightarrow> mcap b' s \<in> {int (bucket_count b div length (available_server b)), int (bucket_count b div length (available_server b)) + 1}"
proof -
  define S where "S = int (length (available_server b))"
  define B where "B = int (bucket_count b)"
  have S: "0 < S" "S < 2 ^ 31" and B: "0 \<le> B" "B < 2 ^ 31" and dis: "distinct (available_server b)"
    using assms(1) by (auto simp: servers_ok_def S_def B_def)
  have q: "B div S \<le> B" using B(1) S(1) by (simp add: div_int_pos_iff zdiv_mono2 [of B 1 S, simplified])
  have m: "to_int (B - B div S * S) = B mod S"
    using pos_mod_bound [OF S(1), of B] pos_mod_sign [OF S(1), of B] S(2) by (simp add: minus_div_mult_eq_mod to_int_small)
  have S2: "to_int S = S" "S mod 2 ^ 32 = S" using S by (simp_all add: to_int_small)
  have d: "to_int (B div S) = B div S" using q B S(1) by (simp add: to_int_small pos_imp_zdiv_nonneg_iff)
  define c where "c = capable_loop (B div S) (S - B mod S) (B mod S) (mean_count (mtokens_count_in_node b)) (mtokens_count_in_node b) 0 0 (available_server b) []"
  have cap: "master_server_capable b' = c" using assms(2) S(1)
    unfolding caculate_capable1_def Let_def S_def [symmetric] B_def [symmetric] S2 d m c_def by auto
  have mod: "0 \<le> B mod S" "B mod S < S" using S(1) by simp_all
  have r: "\<forall>s\<in>set (available_server b). m_at 0 c s \<in> {B div S, B div S + 1}"
    "(\<Sum>s\<in>set (available_server b). m_at 0 c s) = B div S * S + (B mod S - 0)"
    using capable_loop_sum [OF dis, of 0 "S - B mod S" "B mod S" 0 "B div S" "mean_count (mtokens_count_in_node b)" "mtokens_count_in_node b" "[]"] mod
    by (simp_all add: c_def S_def)
  show "(\<Sum>s\<in>set (available_server b). mcap b' s) = int (bucket_count b)" unfolding mcap_def cap using r(2) by (simp add: B_def)
  show "s \<in> set (available_server b) \<Longrightarrow> mcap b' s \<in> {int (bucket_count b div length (available_server b)), int (bucket_count b div length (available_server b)) + 1}"
    unfolding mcap_def cap using r(1) by (simp add: B_def S_def zdiv_int)
qed

subsection \<open>The counts of the old table\<close>

lemma dom_init_token: "map_of (init_token_count b) s = (if s \<in> set (available_server b) then Some 0 else None)"
  unfolding init_token_count_def by (induction "available_server b" arbitrary: b) (auto simp: map_of_map_restrict restrict_map_def)

lemma count_line_fold:
  "map_of (snd (fold (\<lambda>n (all, c). case update_node_count n c of (r, c) \<Rightarrow> (all \<and> r, c)) ns (q, c))) s =
     map_option (\<lambda>v. v + int (count_list ns s)) (map_of c s)"
proof (induction ns arbitrary: q c)
  case (Cons n ns)
  obtain r c' where u: "update_node_count n c = (r, c')" by fastforce
  have "map_of c' s = map_option (\<lambda>v. v + (if n = s then 1 else 0)) (map_of c s)"
    using u by (auto simp: update_node_count_def map_of_m_put option.map_ident split: option.splits)
  then show ?case using Cons.IH [of "q \<and> r" c'] u by (cases "map_of c s") auto
qed (simp add: option.map_ident)

lemma map_of_count_line: "map_of (snd (count_line ns c)) s = map_option (\<lambda>v. v + int (count_list ns s)) (map_of c s)"
  unfolding count_line_def by (rule count_line_fold)

lemma count_lines_dom:
  "map_of c s \<noteq> None \<Longrightarrow> map_of (fold (\<lambda>line c. snd (count_line (take k line) c)) t c) s \<noteq> None"
  by (induction t arbitrary: c) (auto simp: map_of_count_line)

lemma listed_fold:
  assumes "listed_in ix s \<or> (\<exists>k. (s, k) \<in> set c)"
  shows "listed_in (fold (\<lambda>(s, k) ix. ix_insert k s ix) c ix) s"
  using assms by (induction c arbitrary: ix) auto

lemma listed_build_index: "map_of c s \<noteq> None \<Longrightarrow> listed_in (build_index c) s"
  unfolding build_index_def by (rule listed_fold) (auto dest: map_of_SomeD)

lemma listed_inner: "listed_in cand s \<or> s \<in> set xs \<Longrightarrow> listed_in (fold (\<lambda>x cand. ix_insert (f x) x cand) xs cand) s"
  by (induction xs arbitrary: cand) auto

lemma listed_outer:
  "listed_in cand s \<or> (\<exists>k xs. (k, xs) \<in> set ix \<and> s \<in> set xs) \<Longrightarrow>
   listed_in (fold (\<lambda>(k, xs) cand. fold (\<lambda>s cand. ix_insert (k - m_at 0 cap s) s cand) xs cand) ix cand) s"
proof (induction ix arbitrary: cand)
  case (Cons e ix)
  obtain k xs where e: "e = (k, xs)" by (cases e)
  have "listed_in (fold (\<lambda>s cand. ix_insert (k - m_at 0 cap s) s cand) xs cand) s \<or> (\<exists>k xs. (k, xs) \<in> set ix \<and> s \<in> set xs)"
    using Cons.prems listed_inner [of cand s xs "\<lambda>s. k - m_at 0 cap s"] e by auto
  then show ?case using Cons.IH e by simp
qed simp

lemma listed_init_candidate: "listed_in ix s \<Longrightarrow> listed_in (init_candidate cap ix) s"
  unfolding init_candidate_def by (rule listed_outer) (use listed_entry in blast)

text \<open>The state before the first cell.\<close>

lemma prepared1:
  assumes ok: "servers_ok b" and c: "0 < copy_count b" and sh: "shaped b source"
  obtains b2 where "prepared caculate_capable1 source b = Some b2" "same_sizes b b2" "master_inv 0 source b2"
    "(\<Sum>s\<in>set (available_server b2). mcap b2 s) = int (bucket_count b2)"
    "\<And>s. s \<in> set (available_server b) \<Longrightarrow> mcap b2 s \<in> {int (bucket_count b div length (available_server b)), int (bucket_count b div length (available_server b)) + 1}"
proof -
  define b1 where "b1 = snd (count_tokens source b)"
  define x where "x = b1\<lparr>count_server := build_index (tokens_count_in_node b1), mcount_server := build_index (mtokens_count_in_node b1)\<rparr>"
  obtain line rest where src: "source = line # rest" "length line = bucket_count b" using sh c by (cases source) (auto simp: shaped_def)
  have b1: "mtokens_count_in_node b1 = snd (count_line line (init_token_count b))"
    "tokens_count_in_node b1 = fold (\<lambda>line c. snd (count_line (take (bucket_count b) line) c)) source (init_token_count b)" "same_sizes b b1"
    using src by (simp_all add: b1_def count_tokens_def Let_def same_sizes_def split: prod.splits)
  have sx: "same_sizes b x" using b1(3) by (simp add: x_def same_sizes_def)
  have okx: "servers_ok x" using ok sx by (simp add: servers_ok_def same_sizes_def)
  have "to_int (int (length (available_server x))) \<noteq> 0" using okx by (simp add: servers_ok_def to_int_small)
  then obtain y where y: "caculate_capable1 x = Some y" by (simp add: caculate_capable1_def Let_def)
  define b2 where "b2 = y\<lparr>mcandidate_node := init_candidate (master_server_capable y) (mcount_server y),
                            scandidate_node := init_candidate (server_capable y) (count_server y)\<rparr>"
  have fields: "mtokens_count_in_node y = mtokens_count_in_node x" "mcount_server y = mcount_server x" "count_server y = count_server x"
    using y by (auto simp: caculate_capable1_def Let_def split: if_splits)
  have sy: "same_sizes b y" using sx capable1_sizes [OF y] by (simp add: same_sizes_def)
  have sb: "same_sizes b b2" using sy by (simp add: b2_def same_sizes_def)
  have prep: "prepared caculate_capable1 source b = Some b2" using y by (simp add: prepared_def b1_def [symmetric] x_def [symmetric] Let_def b2_def)
  have eq: "available_server b2 = available_server b" "bucket_count b2 = bucket_count b" "available_server x = available_server b" "bucket_count x = bucket_count b"
    using sb sx by (simp_all add: same_sizes_def)
  have mc: "mcap b2 = mcap y" by (simp add: fun_eq_iff b2_def mcap_def)
  note caps = capable1_masters [OF okx y, unfolded eq(3,4)]
  have "is_node_availble b2 s \<and> mt b2 s = int (count_list (source ! 0) s) \<and> candidate b2 s" if s: "s \<in> set (available_server b)" for s
  proof -
    have "is_node_availble b2 s" using s ok by (simp add: is_node_availble_def eq servers_ok_def INVALID_FLAG_def)
    moreover have "map_of (mtokens_count_in_node b1) s = Some (int (count_list line s))" "map_of (tokens_count_in_node b1) s \<noteq> None"
      unfolding b1 using s count_lines_dom by (simp_all add: map_of_count_line dom_init_token)
    then have "mt b2 s = int (count_list (source ! 0) s)" "listed_in (build_index (mtokens_count_in_node b1)) s" "listed_in (build_index (tokens_count_in_node b1)) s"
      by (simp_all add: mt_def b2_def fields x_def m_at_def src(1) listed_build_index)
    then have "mt b2 s = int (count_list (source ! 0) s)" "candidate b2 s"
      by (simp_all add: candidate_def b2_def fields x_def listed_init_candidate)
    ultimately show ?thesis by blast
  qed
  moreover have "shaped b2 source" using sizes_placed [OF sb] sh by blast
  ultimately have "master_inv 0 source b2" unfolding master_inv_def eq by simp
  with prep sb show ?thesis using that caps mc eq by simp
qed

text \<open>With enough servers a table is built, and its masters are spread evenly.\<close>

lemma rebuild1_builds:
  assumes ok: "servers_ok b" and c: "0 < copy_count b" "copy_count b \<le> length (available_server b)" and sh: "shaped b source"
    and nq: "no_quick \<or> \<not> fst (count_tokens source b)"
  obtains t b' where "rebuild_table1 source no_quick b = Some (BUILD_OK, t, b')" "shaped b t"
    "\<And>s. s \<in> set (available_server b) \<Longrightarrow>
       count_list (t ! 0) s \<in> {bucket_count b div length (available_server b), bucket_count b div length (available_server b) + 1}"
proof -
  obtain b2 where b2: "prepared caculate_capable1 source b = Some b2" "same_sizes b b2" "master_inv 0 source b2"
    "(\<Sum>s\<in>set (available_server b2). mcap b2 s) = int (bucket_count b2)"
    "\<And>s. s \<in> set (available_server b) \<Longrightarrow> mcap b2 s \<in> {int (bucket_count b div length (available_server b)), int (bucket_count b div length (available_server b)) + 1}"
    using prepared1 [OF ok c(1) sh] by metis
  have eq: "available_server b2 = available_server b" "bucket_count b2 = bucket_count b" "copy_count b2 = copy_count b"
    using b2(2) by (simp_all add: same_sizes_def)
  let ?tok = "\<lambda>b (_ :: server). tokens_per_node_min b"
  obtain t1 b3 where m: "place_cells is_this_node_OK1 ?tok (map (\<lambda>i. (0, i)) [0..<bucket_count b2]) (source, b2) = (True, t1, b3)"
    "master_inv (bucket_count b2) t1 b3" "same_setting b2 b3"
    using r1.masters_placed [OF b2(3) _ _ b2(4), of ?tok] c(1) eq by auto
  have eq3: "available_server b3 = available_server b" "bucket_count b3 = bucket_count b" "copy_count b3 = copy_count b" "mcap b3 = mcap b2"
    using m(3) same_mcap [OF m(3)] eq by (simp_all add: same_setting_def)
  have "copy_inv t1 b3" using m(2) by (simp add: master_inv_def copy_inv_def)
  moreover have "enough_servers b3" using ok c(2) by (simp add: enough_servers_def eq3 servers_ok_def distinct_card)
  moreover have "\<forall>(l, i)\<in>set (copy_cells b2). l \<noteq> 0 \<and> l < copy_count b3 \<and> i < bucket_count b3" by (auto simp: set_copy_cells eq eq3)
  ultimately obtain t b' where r: "place_cells is_this_node_OK1 ?tok (copy_cells b2) (t1, b3) = (True, t, b')" "\<forall>j. t ! 0 ! j = t1 ! 0 ! j"
    using r1.copies_placed by blast
  have run: "rebuild_table1 source no_quick b = Some (BUILD_OK, t, b')"
    using c nq m(1) r(1) unfolding rebuild_table1_def rebuild_table_eq [OF sh] b2(1)
    by (auto simp: eq master_cells_def place_cells_append)
  have w: "shaped b t" using r1.built_well [OF run [unfolded rebuild_table1_def] sh capable1_sizes] by blast
  have "length (t ! 0) = bucket_count b" "length (t1 ! 0) = bucket_count b"
    using w m(2) c(1) by (auto simp: shaped_def master_inv_def eq3)
  then have t0: "t ! 0 = t1 ! 0" using r(2) by (simp add: list_eq_iff_nth_eq)
  have nn: "0 \<le> mcap b3 s" if "s \<in> set (available_server b3)" for s using b2(5) [of s] that by (auto simp: eq3)
  have "int (count_list (t ! 0) s) = mcap b2 s" if "s \<in> set (available_server b)" for s
    using r1.masters_balanced [of b3 t1 s] m(2) c(1) b2(4) nn that by (simp add: t0 eq eq3)
  then have "count_list (t ! 0) s \<in> {bucket_count b div length (available_server b), bucket_count b div length (available_server b) + 1}"
    if "s \<in> set (available_server b)" for s using b2(5) [OF that] that by fastforce
  with run w show ?thesis using that by blast
qed

end
