(* ===== verification/Tair_Quick.thy ===== *)
theory Tair_Quick
  imports Tair_Rebuild
begin

section \<open>The quick table and the rooms\<close>

text \<open>
  What the quick table makes of the copies that are left, and what the second strategy adds to a
  table: copies of a bucket in more than one room.
\<close>

subsection \<open>The quick table\<close>

text \<open>The available copies of a bucket.\<close>

definition copies_left :: "table_builder \<Rightarrow> placement \<Rightarrow> nat \<Rightarrow> server set" where
  "copies_left b t i = {n. is_node_availble b n \<and> (\<exists>l<copy_count b. t ! l ! i = n)}"

lemma same_copies_left: "same_setting b b' \<Longrightarrow> copies_left b' t i = copies_left b t i"
  by (simp add: copies_left_def same_avail same_setting_def is_node_availble_def)

lemma not_available_flag [simp]: "\<not> is_node_availble b (INVALID_FLAG, x)" "\<not> is_node_availble b (0, x)"
  by (simp_all add: is_node_availble_def INVALID_FLAG_def)

lemma swapped_copies_left:
  assumes sh: "shaped b t" and l: "1 \<le> l" "l < copy_count b" "is_node_availble b (t ! l ! i)" and i: "i < bucket_count b"
    and gone: "\<not> is_node_availble b (t ! 0 ! i)"
  shows "shaped b (swapped l i t b)" "swapped l i t b ! 0 ! i = t ! l ! i" "copies_left b (swapped l i t b) j = copies_left b t j"
    "j \<noteq> i \<Longrightarrow> swapped l i t b ! k ! j = t ! k ! j"
proof -
  have z: "0 < copy_count b" using l by simp
  note c0 = set_cell_nth [OF sh z i]
  note c1 = set_cell_nth [OF c0(2) l(2) i]
  have cell: "swapped l i t b ! k ! j = (if k = l \<and> j = i then (INVALID_FLAG, snd (t ! l ! i)) else if k = 0 \<and> j = i then t ! l ! i else t ! k ! j)" for k j
    using gone unfolding swapped_def by (simp add: c0(1) c1(1))
  show "shaped b (swapped l i t b)" unfolding swapped_def by (rule c1(2))
  show "swapped l i t b ! 0 ! i = t ! l ! i" using l(1) by (simp add: cell)
  show "j \<noteq> i \<Longrightarrow> swapped l i t b ! k ! j = t ! k ! j" by (simp add: cell)
  have "(\<exists>k<copy_count b. swapped l i t b ! k ! j = n) \<longleftrightarrow> (\<exists>k<copy_count b. t ! k ! j = n)" if n: "is_node_availble b n" for n
  proof (cases "j = i")
    case True
    have there: "\<exists>k<copy_count b. swapped l i t b ! k ! i = n" if k: "k < copy_count b" "t ! k ! i = n" for k
    proof (cases "k = l")
      case True
      then show ?thesis using k z l(1) by (intro exI [of _ 0]) (simp add: cell)
    next
      case False
      then have "swapped l i t b ! k ! i = n" using k n gone by (cases "k = 0") (auto simp: cell)
      then show ?thesis using k(1) by blast
    qed
    have came: "\<exists>k<copy_count b. t ! k ! i = n" if k: "k < copy_count b" "swapped l i t b ! k ! i = n" for k
    proof -
      have "k \<noteq> l" using k(2) n by (auto simp: cell)
      then have "t ! (if k = 0 then l else k) ! i = n" using k(2) by (simp add: cell split: if_splits)
      then show ?thesis using k(1) l(2) by (cases "k = 0") auto
    qed
    show ?thesis unfolding True using there came by blast
  qed (simp add: cell)
  then show "copies_left b (swapped l i t b) j = copies_left b t j" unfolding copies_left_def by blast
qed

text \<open>The repair of one bucket whose master is gone.\<close>

lemma forced_change:
  assumes sh: "shaped b t" and c: "0 < copy_count b" and i: "i < bucket_count b" and gone: "\<not> is_node_availble b (t ! 0 ! i)"
    and run: "change_master_node i True (t, b) = (r, t', b')"
  shows "same_setting b b'" "shaped b t'" "copies_left b t' j = copies_left b t j" "r \<longleftrightarrow> copies_left b t i \<noteq> {}"
    "r \<Longrightarrow> is_node_availble b (t' ! 0 ! i)" "j \<noteq> i \<Longrightarrow> t' ! k ! j = t ! k ! j"
proof -
  have "same_setting b b' \<and> shaped b t' \<and> copies_left b t' j = copies_left b t j \<and> (r \<longleftrightarrow> copies_left b t i \<noteq> {}) \<and>
    (r \<longrightarrow> is_node_availble b (t' ! 0 ! i)) \<and> (j \<noteq> i \<longrightarrow> t' ! k ! j = t ! k ! j)"
  proof (cases r)
    case True
    from run [unfolded eqTrueI [OF True]] obtain l where l: "1 \<le> l" "l < copy_count b" "is_node_availble b (t ! l ! i)"
      "t' = swapped l i t b" "same_setting b b'" by (rule change_master_run) blast
    note s = swapped_copies_left [OF sh l(1-3) i gone]
    have "copies_left b t i \<noteq> {}" using l(2,3) unfolding copies_left_def by blast
    then show ?thesis using True s l(3,4,5) by simp
  next
    case False
    then have eq: "t' = t" "b' = b" using change_master_false run by simp_all
    have "choose_master [1..<copy_count b] i t b None = None"
      using run False by (auto simp: change_master_eq split: option.splits if_splits)
    then have none: "\<not> is_node_availble b (t ! l ! i)" if "1 \<le> l" "l < copy_count b" for l using that by (simp add: choose_master_none)
    have "copies_left b t i = {}" using none gone unfolding copies_left_def by (auto simp: less_Suc_eq_0_disj) (metis One_nat_def Suc_leI neq0_conv)
    then show ?thesis using eq False sh by simp
  qed
  then show "same_setting b b'" "shaped b t'" "copies_left b t' j = copies_left b t j" "r \<longleftrightarrow> copies_left b t i \<noteq> {}"
    "r \<Longrightarrow> is_node_availble b (t' ! 0 ! i)" "j \<noteq> i \<Longrightarrow> t' ! k ! j = t ! k ! j" by blast+
qed

lemma quick_masters_run:
  assumes "quick_masters is (t, b) = (r, t', b')" "shaped b t" "0 < copy_count b" "\<forall>i\<in>set is. i < bucket_count b"
  shows "same_setting b b' \<and> shaped b t' \<and> (\<forall>j. copies_left b t' j = copies_left b t j) \<and>
    (r \<longleftrightarrow> data_lost_allowed b \<or> (\<forall>i\<in>set is. copies_left b t i \<noteq> {})) \<and>
    (r \<longrightarrow> (\<forall>i\<in>set is. copies_left b t i \<noteq> {} \<longrightarrow> is_node_availble b (t' ! 0 ! i))) \<and>
    (\<forall>j. is_node_availble b (t ! 0 ! j) \<longrightarrow> t' ! 0 ! j = t ! 0 ! j)"
  using assms
proof (induction "is" arbitrary: t b)
  case Nil
  then show ?case by simp
next
  case (Cons i js)
  have i: "i < bucket_count b" using Cons.prems(4) by simp
  show ?case
  proof (cases "is_node_availble b (t ! 0 ! i)")
    case True
    then have run: "quick_masters js (t, b) = (r, t', b')" using Cons.prems(1) by simp
    have left: "copies_left b t i \<noteq> {}" using True Cons.prems(3) unfolding copies_left_def by blast
    from Cons.IH [OF run Cons.prems(2,3)] Cons.prems(4) left True show ?thesis by auto
  next
    case False
    obtain q t1 b1 where ch: "change_master_node i True (t, b) = (q, t1, b1)" using prod_cases3 by blast
    note f = forced_change [OF Cons.prems(2,3) i False ch]
    have eq: "data_lost_allowed b1 = data_lost_allowed b" "copy_count b1 = copy_count b" "bucket_count b1 = bucket_count b"
      using f(1) by (simp_all add: same_setting_def)
    show ?thesis
    proof (cases "\<not> q \<and> \<not> data_lost_allowed b")
      case True
      then have "r = False" "t' = t1" "b' = b1" using Cons.prems(1) False ch eq by simp_all
      then show ?thesis using True f False by auto metis
    next
      case go: False
      then have run: "quick_masters js (t1, b1) = (r, t', b')" using Cons.prems(1) False ch eq by auto
      have "shaped b1 t1" using same_shaped [OF f(1)] f(2) by blast
      from Cons.IH [OF run this] Cons.prems(3,4)
      have ih: "same_setting b1 b' \<and> shaped b t' \<and> (\<forall>j. copies_left b t' j = copies_left b t1 j) \<and>
          (r \<longleftrightarrow> data_lost_allowed b \<or> (\<forall>i\<in>set js. copies_left b t1 i \<noteq> {})) \<and>
          (r \<longrightarrow> (\<forall>i\<in>set js. copies_left b t1 i \<noteq> {} \<longrightarrow> is_node_availble b (t' ! 0 ! i))) \<and>
          (\<forall>j. is_node_availble b (t1 ! 0 ! j) \<longrightarrow> t' ! 0 ! j = t1 ! 0 ! j)"
        by (simp add: eq same_avail [OF f(1)] same_shaped [OF f(1)] same_copies_left [OF f(1)])
      have lr: "\<forall>j. copies_left b t1 j = copies_left b t j" using f(3) by blast
      have keep: "is_node_availble b (t ! 0 ! j) \<Longrightarrow> t1 ! 0 ! j = t ! 0 ! j" for j using f(6) [of j 0] False by (cases "j = i") auto
      have mi: "copies_left b t i \<noteq> {} \<Longrightarrow> is_node_availble b (t' ! 0 ! i)" using f(4,5) ih by metis
      have "same_setting b b'" using same_setting_trans [OF f(1)] ih by blast
      moreover have "r \<longleftrightarrow> data_lost_allowed b \<or> (\<forall>i\<in>set (i # js). copies_left b t i \<noteq> {})" using ih go f(4) lr by auto
      moreover have "r \<longrightarrow> (\<forall>i\<in>set (i # js). copies_left b t i \<noteq> {} \<longrightarrow> is_node_availble b (t' ! 0 ! i))" using ih mi lr by auto
      moreover have "\<forall>j. is_node_availble b (t ! 0 ! j) \<longrightarrow> t' ! 0 ! j = t ! 0 ! j" using ih keep by metis
      ultimately show ?thesis using ih lr by metis
    qed
  qed
qed

text \<open>The last step: the copies that are gone are cleared.\<close>

definition cleared :: "table_builder \<Rightarrow> placement \<Rightarrow> placement" where
  "cleared b t = map (\<lambda>l. if l = 0 \<or> copy_count b \<le> l then t ! l
                         else map (\<lambda>i. if i < bucket_count b then drop_lost b (t ! l ! i) else t ! l ! i) [0..<length (t ! l)]) [0..<length t]"

lemma build_quick_table_eq:
  "build_quick_table (t, b) = (case quick_masters [0..<bucket_count b] (t, b) of (r, t', b') \<Rightarrow> if r then (True, cleared b' t', b') else (False, t', b'))"
  unfolding build_quick_table_def cleared_def snd_conv by (rule refl)

lemma cleared_nth:
  assumes "shaped b t" "l < copy_count b" "i < bucket_count b"
  shows "cleared b t ! l ! i = (if l = 0 then t ! l ! i else drop_lost b (t ! l ! i))"
  using assms by (auto simp: cleared_def shaped_def)

lemma cleared_copies_left:
  assumes "shaped b t" "i < bucket_count b"
  shows "copies_left b (cleared b t) i = copies_left b t i"
proof -
  have "(\<exists>l<copy_count b. cleared b t ! l ! i = n) \<longleftrightarrow> (\<exists>l<copy_count b. t ! l ! i = n)" if n: "is_node_availble b n" for n
  proof -
    have "cleared b t ! l ! i = n \<longleftrightarrow> t ! l ! i = n" if "l < copy_count b" for l
      using n cleared_nth [OF assms(1) that assms(2)] by (auto simp: drop_lost_def)
    then show ?thesis by blast
  qed
  then show ?thesis unfolding copies_left_def by blast
qed

lemma quick_table_run:
  assumes run: "build_quick_table (t, b) = (r, t', b')" and sh: "shaped b t" and c: "0 < copy_count b"
  shows "r \<longleftrightarrow> data_lost_allowed b \<or> (\<forall>i<bucket_count b. copies_left b t i \<noteq> {})"
    "r \<Longrightarrow> i < bucket_count b \<Longrightarrow> copies_left b t' i = copies_left b t i"
    "r \<Longrightarrow> i < bucket_count b \<Longrightarrow> copies_left b t i \<noteq> {} \<Longrightarrow> is_node_availble b (t' ! 0 ! i)"
    "r \<Longrightarrow> i < bucket_count b \<Longrightarrow> 0 < l \<Longrightarrow> l < copy_count b \<Longrightarrow> is_node_availble b (t' ! l ! i) \<or> t' ! l ! i = (0, 0)"
proof -
  obtain q t1 b1 where qm: "quick_masters [0..<bucket_count b] (t, b) = (q, t1, b1)" using prod_cases3 by blast
  from quick_masters_run [OF qm sh c] have
    f: "same_setting b b1" "shaped b t1" "\<And>j. copies_left b t1 j = copies_left b t j" "q \<longleftrightarrow> data_lost_allowed b \<or> (\<forall>i<bucket_count b. copies_left b t i \<noteq> {})"
    "\<And>i. q \<Longrightarrow> i < bucket_count b \<Longrightarrow> copies_left b t i \<noteq> {} \<Longrightarrow> is_node_availble b (t1 ! 0 ! i)" by auto
  have r: "r = q" "r \<Longrightarrow> t' = cleared b1 t1" using run qm by (auto simp: build_quick_table_eq split: if_splits)
  have sh1: "shaped b1 t1" using f(1,2) same_shaped by blast
  have eq: "bucket_count b1 = bucket_count b" "copy_count b1 = copy_count b" using f(1) by (simp_all add: same_setting_def)
  note nth = cleared_nth [OF sh1, unfolded eq]
  show "r \<longleftrightarrow> data_lost_allowed b \<or> (\<forall>i<bucket_count b. copies_left b t i \<noteq> {})" using r(1) f(4) by simp
  show "r \<Longrightarrow> i < bucket_count b \<Longrightarrow> copies_left b t' i = copies_left b t i"
    using r(2) cleared_copies_left [OF sh1, of i] f(3) unfolding eq same_copies_left [OF f(1)] by simp
  show "r \<Longrightarrow> i < bucket_count b \<Longrightarrow> copies_left b t i \<noteq> {} \<Longrightarrow> is_node_availble b (t' ! 0 ! i)" using r f(5) nth [OF c] by simp
  show "r \<Longrightarrow> i < bucket_count b \<Longrightarrow> 0 < l \<Longrightarrow> l < copy_count b \<Longrightarrow> is_node_availble b (t' ! l ! i) \<or> t' ! l ! i = (0, 0)"
    using r(2) nth [of l i] by (simp add: drop_lost_def same_avail [OF f(1)])
qed

subsection \<open>Copies in two rooms\<close>

context node_rule
begin

text \<open>A copy that is placed has passed the test beside the other copies of its bucket.\<close>

lemma place_cell_judged:
  assumes run: "place_cell okf tokf l i (t, b) = (True, t', b')" and sh: "shaped b t" and l: "l \<noteq> 0" "l < copy_count b" "i < bucket_count b"
  obtains b0 t0 v u where "okf b0 (t' ! l ! i) l i t0 v u = NODE_OK" "copy_count b0 = copy_count b" "\<And>k. k \<noteq> l \<Longrightarrow> t0 ! k ! i = t' ! k ! i"
  using run
proof (cases rule: place_cell_cases)
  case stay
  then show ?thesis using that [of b t "first_level l" True] by simp
next
  case swap
  then show ?thesis using l(1) by blast
next
  case (search t1 b1 b2 b3 n)
  have s1: "same_setting b b1" using invaliad_same [OF search(3)] by blast
  note c0 = set_cell_nth [OF sh l(2,3), of "(INVALID_FLAG, snd (t ! l ! i))"]
  note c1 = set_cell_nth [OF c0(2) l(2,3)]
  have t': "t' = set_cell l i n t1" using update_same [OF search(7)] by blast
  obtain v q where ok: "okf (b1\<lparr>randoms_used := q\<rparr>) n l i t1 v False = NODE_OK" using get_suitable_ok(1) [OF search(5,6)] by blast
  have "t' ! l ! i = n" "\<And>k. k \<noteq> l \<Longrightarrow> t1 ! k ! i = t' ! k ! i" unfolding t' search(4) by (simp_all add: c0(1) c1(1))
  then show ?thesis using that [of "b1\<lparr>randoms_used := q\<rparr>" t1 v False] ok s1 by (simp add: same_setting_def)
qed simp

end

definition two_rooms :: "table_builder \<Rightarrow> placement \<Rightarrow> nat \<Rightarrow> bool" where
  "two_rooms b t i \<longleftrightarrow> (\<exists>k<copy_count b. \<exists>m<copy_count b. snd (t ! k ! i) \<noteq> snd (t ! m ! i))"

lemma remdups_two: "\<not> length (remdups (x # xs)) < 2 \<Longrightarrow> \<exists>y\<in>set xs. y \<noteq> x"
proof (rule ccontr)
  assume two: "\<not> length (remdups (x # xs)) < 2" and "\<not> (\<exists>y\<in>set xs. y \<noteq> x)"
  then have "set (x # xs) = {x}" by auto
  then have "card (set (x # xs)) = 1" by (simp only:) simp
  then show False using two by (simp only: length_remdups_card_conv)
qed

lemma OK2_rooms:
  assumes "is_this_node_OK2 r b n l i t v u = NODE_OK" "build_stat_normal r" "l \<noteq> 0"
  shows "\<exists>k<copy_count b. k \<noteq> l \<and> snd (t ! k ! i) \<noteq> snd n"
proof -
  have "\<exists>y\<in>set (map snd (other_cells b l i t)). y \<noteq> snd n" using assms OK2_iff [of r b n l i t v u] by (intro remdups_two) blast
  then show ?thesis by (auto simp: other_cells_def)
qed

lemma copies_in_rooms:
  assumes "place_cells (is_this_node_OK2 r) tokf cs (t, b) = (True, t', b')" "shaped b t" "build_stat_normal r"
    "\<forall>(l, i)\<in>set cs. l \<noteq> 0 \<and> l < copy_count b \<and> i < bucket_count b"
  shows "\<forall>i. two_rooms b t i \<or> (\<exists>l. (l, i) \<in> set cs) \<longrightarrow> two_rooms b t' i"
  using assms
proof (induction cs arbitrary: t b)
  case (Cons c cs)
  obtain l i where c: "c = (l, i)" by (cases c)
  have l: "l \<noteq> 0" "l < copy_count b" "i < bucket_count b" using Cons.prems(4) c by auto
  obtain t1 b1 where p: "place_cell (is_this_node_OK2 r) tokf l i (t, b) = (True, t1, b1)"
    and rest: "place_cells (is_this_node_OK2 r) tokf cs (t1, b1) = (True, t', b')"
    using Cons.prems(1) by (auto simp: c split: prod.splits if_splits)
  note e = r2.place_cell_effect [OF p Cons.prems(2) l(2,3)]
  have eq: "copy_count b1 = copy_count b" "bucket_count b1 = bucket_count b" using e(1) by (simp_all add: same_setting_def)
  obtain b0 t0 v u where ok: "is_this_node_OK2 r b0 (t1 ! l ! i) l i t0 v u = NODE_OK" "copy_count b0 = copy_count b"
    "\<And>k. k \<noteq> l \<Longrightarrow> t0 ! k ! i = t1 ! k ! i" using r2.place_cell_judged [OF p Cons.prems(2) l] by metis
  from OK2_rooms [OF ok(1) Cons.prems(3) l(1)] ok(2,3) have "\<exists>k<copy_count b. snd (t1 ! k ! i) \<noteq> snd (t1 ! l ! i)" by auto
  then have here: "two_rooms b t1 i" unfolding two_rooms_def using l(2) by blast
  have there: "two_rooms b t1 j = two_rooms b t j" if "j \<noteq> i" for j using e(3) that by (simp add: two_rooms_def same_elsewhere_def)
  have sh: "shaped b1 t1" using same_shaped [OF e(1)] e(2) by blast
  have ran: "\<forall>(l, i)\<in>set cs. l \<noteq> 0 \<and> l < copy_count b1 \<and> i < bucket_count b1" unfolding eq using Cons.prems(4) by (meson list.set_intros(2))
  have "two_rooms b1 t j = two_rooms b t j" for t j by (simp add: two_rooms_def eq)
  with Cons.IH [OF rest sh Cons.prems(3) ran] have ih: "two_rooms b t1 j \<or> (\<exists>l. (l, j) \<in> set cs) \<Longrightarrow> two_rooms b t' j" for j by blast
  show ?case
  proof (intro allI impI)
    fix j assume "two_rooms b t j \<or> (\<exists>l. (l, j) \<in> set (c # cs))"
    then show "two_rooms b t' j" using ih [of j] here there [of j] c by (cases "j = i") auto
  qed
qed simp

lemma rooms_built:
  assumes run: "place_cells (is_this_node_OK2 r) tokf (master_cells b @ copy_cells b) (t, b) = (True, t', b')"
    and sh: "shaped b t" and nr: "build_stat_normal r" and c: "2 \<le> copy_count b" and i: "i < bucket_count b"
  shows "two_rooms b t' i"
proof -
  obtain t1 b1 where m: "place_cells (is_this_node_OK2 r) tokf (master_cells b) (t, b) = (True, t1, b1)"
    and rest: "place_cells (is_this_node_OK2 r) tokf (copy_cells b) (t1, b1) = (True, t', b')"
    using run by (auto simp: place_cells_append split: prod.splits if_splits)
  have "same_setting b b1 \<and> shaped b t1 \<and> placed_well b t1 (set (master_cells b) \<union> {})"
    by (rule r2.place_cells_well [OF m sh]) (use distinct_cells [of b] ordered_cells [of b] in \<open>auto simp: placed_well_def set_master_cells sorted_wrt_append\<close>)
  then have e: "same_setting b b1" "shaped b1 t1" using same_shaped by blast+
  have eq: "copy_count b1 = copy_count b" "bucket_count b1 = bucket_count b" using e(1) by (simp_all add: same_setting_def)
  have "\<forall>(l, i)\<in>set (copy_cells b). l \<noteq> 0 \<and> l < copy_count b1 \<and> i < bucket_count b1" by (auto simp: set_copy_cells eq)
  from copies_in_rooms [OF rest e(2) nr this] have "(1, i) \<in> set (copy_cells b) \<Longrightarrow> two_rooms b1 t' i" by blast
  then have "two_rooms b1 t' i" using c i by (simp add: set_copy_cells)
  then show ?thesis by (simp add: two_rooms_def eq)
qed

end
