(* ===== verification/Tair_Theorems.thy ===== *)
theory Tair_Theorems
  imports Tair_Quick
begin

section \<open>What the placement tables guarantee\<close>

text \<open>
  The servers and the table as the builder gets them, and the guarantees of the builders.
\<close>

subsection \<open>Servers and tables from outside\<close>

definition with_pos :: "table_builder \<Rightarrow> u64 \<Rightarrow> server" where
  "with_pos b x = (x, ucast (x AND pos_mask b))"

lemma fold_s_insert:
  "distinct s \<Longrightarrow> distinct (fold (\<lambda>x s. s_insert (f x) s) ids s) \<and> set (fold (\<lambda>x s. s_insert (f x) s) ids s) = f ` set ids \<union> set s"
proof (induction ids arbitrary: s)
  case (Cons x ids)
  have "distinct (s_insert (f x) s)" using Cons.prems by (simp add: s_insert_def distinct_insort)
  from Cons.IH [OF this] show ?case by auto
qed simp

lemma set_available_fields [simp]:
  "bucket_count (set_available_server ids b) = bucket_count b" "copy_count (set_available_server ids b) = copy_count b"
  "pos_mask (set_available_server ids b) = pos_mask b" "data_lost_allowed (set_available_server ids b) = data_lost_allowed b"
  by (simp_all add: set_available_server_def)

lemma set_available:
  "distinct (available_server (set_available_server ids b))" "set (available_server (set_available_server ids b)) = with_pos b ` set ids"
  using fold_s_insert [of "[]" "with_pos b" ids] by (simp_all add: set_available_server_def with_pos_def)

lemma available_count: "length (available_server (set_available_server ids b)) = card (set ids)"
proof -
  have "length (available_server (set_available_server ids b)) = card (with_pos b ` set ids)" using set_available [of ids b] distinct_card by metis
  also have "\<dots> = card (set ids)" by (rule card_image) (simp add: inj_on_def with_pos_def)
  finally show ?thesis .
qed

lemma available_address:
  "0 \<notin> set ids \<Longrightarrow> is_node_availble (set_available_server ids b) n \<longleftrightarrow> n \<in> with_pos b ` set ids"
  by (auto simp: is_node_availble_def set_available INVALID_FLAG_def with_pos_def)

lemma available_servers_ok:
  assumes "0 \<notin> set ids" "ids \<noteq> []" "card (set ids) < 2 ^ 31" "bucket_count b < 2 ^ 31"
  shows "servers_ok (set_available_server ids b)"
proof -
  have "available_server (set_available_server ids b) \<noteq> []" using assms(2) set_available(2) [of ids b] by (metis image_is_empty set_empty)
  moreover have "inj_on fst (with_pos b ` set ids)" by (auto simp: inj_on_def with_pos_def)
  ultimately show ?thesis using assms by (auto simp: servers_ok_def set_available available_count with_pos_def)
qed

lemma load_shaped: "load_hash_table p b = Some t \<Longrightarrow> shaped b t"
  by (auto simp: load_hash_table_def shaped_def split: if_splits)

text \<open>A table that is written is the array it was loaded from.\<close>

lemma concat_slices: "c * B \<le> length p \<Longrightarrow> concat (map (\<lambda>i. map (\<lambda>j. p ! (i * B + j)) [0..<B]) [0..<c]) = take (c * B) p"
proof (induction c)
  case (Suc c)
  have "map (\<lambda>j. p ! (c * B + j)) [0..<B] = take B (drop (c * B) p)" using Suc.prems by (intro nth_equalityI) auto
  moreover have "take (c * B) p @ take B (drop (c * B) p) = take (Suc c * B) p" using take_add [of "c * B" B p] by (simp add: add.commute)
  ultimately show ?case using Suc by simp
qed simp

lemma write_loaded: "load_hash_table p b = Some t \<Longrightarrow> write_hash_table t b = take (copy_count b * bucket_count b) p"
  using concat_slices [of "copy_count b" "bucket_count b" p]
  by (auto simp: load_hash_table_def write_hash_table_def Let_def comp_def split: if_splits)

subsection \<open>The guarantees\<close>

text \<open>
  C13. When there are at least as many servers as copies, \<open>table_builder1::rebuild_table\<close> never gives
  up: from any old table it builds one in which every cell holds an available server, the copies of a
  bucket are on different servers, and each server is the master of \<open>B / S\<close> or \<open>B / S + 1\<close> of the \<open>B\<close>
  buckets.
\<close>

theorem rebuild_spreads_evenly:
  assumes "0 \<notin> set ids" "ids \<noteq> []" "card (set ids) < 2 ^ 31" "bucket_count b < 2 ^ 31" "0 < copy_count b" "copy_count b \<le> card (set ids)"
    and "load_hash_table p b = Some source"
  shows "\<exists>t b'. rebuild_table1 source True (set_available_server ids b) = Some (BUILD_OK, t, b') \<and>
    (\<forall>i<bucket_count b. \<forall>l<copy_count b. fst (t ! l ! i) \<in> set ids \<and> (\<forall>k<copy_count b. k \<noteq> l \<longrightarrow> fst (t ! k ! i) \<noteq> fst (t ! l ! i))) \<and>
    (\<forall>x\<in>set ids. length (filter (\<lambda>n. fst n = x) (t ! 0)) \<in> {bucket_count b div card (set ids), bucket_count b div card (set ids) + 1})"
proof -
  let ?b = "set_available_server ids b"
  have sh: "shaped ?b source" using load_shaped [OF assms(7)] by (simp add: shaped_def)
  obtain t b' where t: "rebuild_table1 source True ?b = Some (BUILD_OK, t, b')" "shaped ?b t"
    "\<And>s. s \<in> set (available_server ?b) \<Longrightarrow>
       count_list (t ! 0) s \<in> {bucket_count b div card (set ids), bucket_count b div card (set ids) + 1}"
    using rebuild1_builds [OF available_servers_ok [OF assms(1-4)] _ _ sh, of True] assms(5,6) by (auto simp: available_count)
  have cells: "is_node_availble ?b (t ! l ! i) \<and> (\<forall>k<copy_count b. k \<noteq> l \<longrightarrow> fst (t ! k ! i) \<noteq> fst (t ! l ! i))"
    if "i < bucket_count b" "l < copy_count b" for i l
    using r1.built_well [OF t(1) [unfolded rebuild_table1_def] sh capable1_sizes] that by (auto simp: placed_well_def all_cells_def)
  have len: "length (t ! 0) = bucket_count b" using t(2) assms(5) by (auto simp: shaped_def)
  have "length (filter (\<lambda>n. fst n = x) (t ! 0)) = count_list (t ! 0) (with_pos b x)" for x
  proof -
    have "n \<in> with_pos b ` set ids" if "n \<in> set (t ! 0)" for n
      using that cells [of _ 0] assms(1,5) len by (auto simp: in_set_conv_nth [of n] available_address)
    then have "(fst n = x) = (n = with_pos b x)" if "n \<in> set (t ! 0)" for n using that by (fastforce simp: with_pos_def)
    then have "filter (\<lambda>n. fst n = x) (t ! 0) = filter (\<lambda>n. n = with_pos b x) (t ! 0)" by (intro filter_cong) simp_all
    then show ?thesis by (simp add: count_list_eq_length_filter eq_commute [of _ "with_pos b x"])
  qed
  moreover have "fst (t ! l ! i) \<in> set ids" if "i < bucket_count b" "l < copy_count b" for i l
    using cells [OF that] assms(1) by (auto simp: available_address with_pos_def)
  ultimately show ?thesis using t(1,3) cells by (intro exI [of _ t] exI [of _ b']) (auto simp: set_available)
qed

definition example_builder :: table_builder where
  "example_builder = \<lparr>tokens_count_in_node = [], max_count_now = 0, tokens_count_in_node_now = [], count_server = [], mtokens_count_in_node = [],
     mcount_server = [], scandidate_node = [], mcandidate_node = [], available_server = [(1, 0), (2, 1)], server_capable = [],
     master_server_capable = [((1, 0), 1), ((2, 1), 1)], pos_mask = 1,
     bucket_count = 2, copy_count = 2, data_lost_allowed = False, b_place_flag = 0, randoms = (\<lambda>_. 0), randoms_used = 0,
     tokens_per_node_min = 0, tokens_per_node_max_count = 0, tokens_per_node_min_count = 0,
     master_tokens_per_node_min = 0, master_tokens_per_node_max_count = 0, master_tokens_per_node_min_count = 0\<rparr>"

theorem rebuild_spreads_evenly_witness:
  "\<exists>t b'. rebuild_table1 [[(7, 1), (7, 1)], [(0, 0), (1, 1)]] True (set_available_server [1, 2, 3] example_builder) = Some (BUILD_OK, t, b') \<and>
     fst (t ! 0 ! 0) \<in> {1, 2, 3} \<and> fst (t ! 1 ! 0) \<noteq> fst (t ! 0 ! 0)"
proof -
  have "load_hash_table [7, 7, 0, 1] example_builder = Some [[(7, 1), (7, 1)], [(0, 0), (1, 1)]]" by code_simp
  moreover have "bucket_count example_builder = 2" "copy_count example_builder = 2" by (simp_all add: example_builder_def)
  ultimately show ?thesis using rebuild_spreads_evenly [of "[1, 2, 3]" example_builder "[7, 7, 0, 1]" "[[(7, 1), (7, 1)], [(0, 0), (1, 1)]]"] by fastforce
qed

text \<open>
  C15. The second strategy, when the rooms are of comparable size: a table that is built holds
  available servers only, different ones for the copies of a bucket, and the copies of no bucket are
  all in the same room.
\<close>

theorem rooms_apart:
  assumes "place_cells (is_this_node_OK2 r) (get_tokens_per_node2 r) (master_cells b @ copy_cells b) (t, b) = (True, t', b')"
    and "shaped b t" "build_stat_normal r" "2 \<le> copy_count b" "i < bucket_count b"
  shows "(\<exists>k<copy_count b. \<exists>m<copy_count b. snd (t' ! k ! i) \<noteq> snd (t' ! m ! i)) \<and>
    (\<forall>l<copy_count b. is_node_availble b (t' ! l ! i) \<and> (\<forall>k<copy_count b. k \<noteq> l \<longrightarrow> fst (t' ! k ! i) \<noteq> fst (t' ! l ! i)))"
proof -
  have "same_setting b b' \<and> shaped b t' \<and> placed_well b t' (set (master_cells b @ copy_cells b) \<union> {})"
    by (rule r2.place_cells_well [OF assms(1,2) _ distinct_cells _ _ _ ordered_cells])
      (auto simp: placed_well_def set_cells all_cells_def simp del: set_append)
  then have "placed_well b t' (all_cells b)" by (simp only: set_cells Un_empty_right)
  then show ?thesis using rooms_built [OF assms] assms(5) by (auto simp: placed_well_def all_cells_def two_rooms_def)
qed

definition example_rooms :: rooms where
  "example_rooms = \<lparr>max_machine_room_id = 0, mtokens_per_node_min = 2, mtokens_per_node_max_count = 2, otokens_per_node_min = 2,
     otokens_per_node_max_count = 2, build_stat_normal = True\<rparr>"

definition example_counted :: table_builder where
  "example_counted = example_builder\<lparr>server_capable := [((1, 0), 2), ((2, 1), 2)]\<rparr>"

theorem rooms_apart_witness:
  "\<exists>t' b'. place_cells (is_this_node_OK2 example_rooms) (get_tokens_per_node2 example_rooms) (master_cells example_counted @ copy_cells example_counted)
     ([[(1, 0), (2, 1)], [(2, 1), (1, 0)]], example_counted) = (True, t', b') \<and> snd (t' ! 0 ! 0) \<noteq> snd (t' ! 1 ! 0)"
proof -
  let ?r = "place_cells (is_this_node_OK2 example_rooms) (get_tokens_per_node2 example_rooms) (master_cells example_counted @ copy_cells example_counted)
     ([[(1, 0), (2, 1)], [(2, 1), (1, 0)]], example_counted)"
  have ok: "fst ?r" by code_simp
  obtain q t' b' where r: "?r = (q, t', b')" using prod_cases3 by blast
  have "q" using ok unfolding r fst_conv .
  note run = r [unfolded eqTrueI [OF this]]
  have cnt: "copy_count example_counted = 2" "bucket_count example_counted = 2" by (simp_all add: example_counted_def example_builder_def)
  have "\<exists>k<2. \<exists>m<2. snd (t' ! k ! 0) \<noteq> snd (t' ! m ! 0)"
    using rooms_apart [OF run, of 0] unfolding cnt by (simp add: shaped_def cnt example_rooms_def)
  then have "snd (t' ! 0 ! 0) \<noteq> snd (t' ! 1 ! 0)" by (auto simp: less_2_cases_iff)
  then show ?thesis using run by blast
qed

text \<open>
  C14. The quick table is refused exactly when some bucket has lost all its copies and that is not
  allowed. Otherwise every available copy of a bucket is kept, a bucket with a copy left has an
  available master, and the other lines hold available servers or nothing.
\<close>

theorem quick_table_serves:
  assumes "build_quick_table (t, b) = (r, t', b')" "shaped b t" "0 < copy_count b"
  shows "(r \<longleftrightarrow> data_lost_allowed b \<or> (\<forall>i<bucket_count b. \<exists>l<copy_count b. is_node_availble b (t ! l ! i))) \<and>
    (r \<longrightarrow> (\<forall>i<bucket_count b.
       (\<forall>n. is_node_availble b n \<longrightarrow> (\<exists>l<copy_count b. t' ! l ! i = n) = (\<exists>l<copy_count b. t ! l ! i = n)) \<and>
       ((\<exists>l<copy_count b. is_node_availble b (t ! l ! i)) \<longrightarrow> is_node_availble b (t' ! 0 ! i)) \<and>
       (\<forall>l<copy_count b. 0 < l \<longrightarrow> is_node_availble b (t' ! l ! i) \<or> t' ! l ! i = (0, 0))))"
proof -
  note q = quick_table_run [OF assms]
  have left: "copies_left b x i \<noteq> {} \<longleftrightarrow> (\<exists>l<copy_count b. is_node_availble b (x ! l ! i))" for x i unfolding copies_left_def by blast
  have kept: "(\<exists>l<copy_count b. t' ! l ! i = n) = (\<exists>l<copy_count b. t ! l ! i = n)" if "r" "i < bucket_count b" "is_node_availble b n" for i n
    using q(2) [OF that(1,2)] that(3) unfolding copies_left_def by blast
  show ?thesis using q(1,3,4) kept unfolding left by blast
qed

theorem quick_table_serves_witness:
  "\<exists>t' b'. build_quick_table ([[(7, 1), (1, 0)], [(2, 1), (9, 1)]], example_builder) = (True, t', b') \<and>
     is_node_availble example_builder (t' ! 0 ! 0) \<and> is_node_availble example_builder (t' ! 0 ! 1)"
proof -
  let ?t = "[[(7, 1), (1, 0)], [(2, 1), (9, 1)]] :: placement"
  obtain r t' b' where run: "build_quick_table (?t, example_builder) = (r, t', b')" using prod_cases3 by blast
  have av: "is_node_availble example_builder (2, 1)" "is_node_availble example_builder (1, 0)" by code_simp+
  have "copy_count example_builder = 2" "bucket_count example_builder = 2" "\<not> data_lost_allowed example_builder" by (simp_all add: example_builder_def)
  moreover have "\<exists>l<2. is_node_availble example_builder (?t ! l ! 0)" "\<exists>l<2. is_node_availble example_builder (?t ! l ! 1)"
    using av by (auto intro: exI [of _ 1] exI [of _ 0])
  ultimately show ?thesis using quick_table_serves [OF run] run by (auto simp: shaped_def less_2_cases_iff all_conj_distrib)
qed

text \<open>
  C21. Without an available server \<open>table_builder1::rebuild_table\<close> has no result: the capacities are
  calculated, with a division by the number of servers, before that number is compared with the
  number of copies.
\<close>

theorem rebuild_without_servers: "rebuild_table1 source no_quick (set_available_server [] b) = None"
proof -
  have "caculate_capable1 x = None" if "available_server x = []" for x using that by (simp add: caculate_capable1_def Let_def to_int_def)
  moreover have "available_server (snd (count_tokens source (set_available_server [] b))) = []"
    by (simp add: count_tokens_def set_available_server_def Let_def split: prod.split)
  ultimately show ?thesis by (auto simp: rebuild_table1_def rebuild_table_def Let_def split: prod.split)
qed

end
