(* ===== verification/Spec2Isabelle.thy ===== *)
theory Spec2Isabelle
  imports PLease_Contest PLease_Theorems Intrusive_Queue Mdb_Theorems Mdb_Contract Net_Theorems Tair_Theorems
begin

text \<open>
  A verification library for the lease service, the cache, the timers and the placement tables of this
  repository.

  \<^bold>\<open>The program.\<close> Three programs of the repository carry its core logic. The lease service
  (\<^verbatim>\<open>src/PL\<close>) lets a cell of nodes agree on the owner of a lease: a node's \<open>PaxosLease\<close> receives
  datagrams and hands them to a proposer, an acceptor and a learner, which answer with datagrams and
  arm timers. The cache (\<^verbatim>\<open>src/dkv/mdb\<close>) keeps key-value pairs of numbered areas in a segment of
  shared memory: a pool hands out pages, slabs cut pages into items of one size, a hash table finds
  items by key, and the manager joins them with versions, expiry times, locks, counters and quotas.
  The configuration server of a distributed store (\<^verbatim>\<open>src/tair\<close>) decides with a table which servers
  hold the copies of which bucket. The first two use the framework \<^verbatim>\<open>src/netfram\<close>: its memory blocks, its text formats, and its event loop,
  whose timers wait in a red-black tree and whose due events wait in a linked ring for a thread.

  \<^bold>\<open>The lease service.\<close>
  \<^item> \<^verbatim>\<open>Net_Prelude\<close>: machine integers as words, decimal text, reads and writes in a buffer.
  \<^item> \<^verbatim>\<open>Text_Codec\<close>: \<^verbatim>\<open>netfram/common.cpp\<close> (\<open>strntouint64\<close>, \<open>strntoint64\<close>, \<open>strnchr\<close>, \<open>strrep\<close>,
    \<open>vsnreadf\<close>). The lemmas read back decimal numbers and blocks and bound what a scan consumes.
  \<^item> \<^verbatim>\<open>Memblock\<close>: \<^verbatim>\<open>netfram/Memblock.cpp\<close>, the buffer with its cursors as a record. A block is
    a byte queue (locale \<open>byte_queue\<close>); writes are characterised exactly, also where they leave the
    buffer.
  \<^item> \<^verbatim>\<open>PLease_Msg\<close>: \<^verbatim>\<open>PL/PLeaseMsg.cpp\<close>; reading inverts writing.
  \<^item> \<^verbatim>\<open>Intrusive_Queue\<close>: \<^verbatim>\<open>PL/Queue.h\<close>, a queue whose links are members of the elements, refines
    a list (locale \<open>fifo\<close>).
  \<^item> \<^verbatim>\<open>Config_File\<close>, \<^verbatim>\<open>PLease_Config\<close>: \<^verbatim>\<open>PL/Config.cpp\<close> and \<^verbatim>\<open>PL/ReplicatedConfig.cpp\<close>; the
    tokenizer and reader of the configuration, quorum sizes (locale \<open>quorum\<close>), proposal numbers.
  \<^item> \<^verbatim>\<open>PLease_Node\<close>: the handlers of \<open>PLeaseProposer\<close>, \<open>PLeaseAcceptor\<close>, \<open>PLeaseLearner\<close>,
    \<open>PaxosLease\<close> and the parts of \<open>ReplicatedLog\<close> and \<open>CTimer\<close> they use, over one record with the
    state of a node; a datagram that is sent is appended to a list. A failed assertion is \<open>None\<close>.
  \<^item> \<^verbatim>\<open>PLease_Invariants\<close>, \<^verbatim>\<open>PLease_Reach\<close>: the step relation of a node (any datagram, any due
    timer), its invariant by rule induction, and that no handler fails in a reachable state.
  \<^item> \<^verbatim>\<open>PLease_Cluster\<close>: several nodes and the datagrams in flight, with executable runs.
  \<^item> \<^verbatim>\<open>PLease_Theorems\<close>, \<^verbatim>\<open>PLease_Contest\<close>: the properties of a node and of a cell, among them that
    promises of a majority fence off older proposals, that a lease is announced only when it was
    won, and a run in which two nodes own the lease.

  \<^bold>\<open>The cache.\<close>
  \<^item> \<^verbatim>\<open>Mdb_Pool\<close>: \<^verbatim>\<open>mem_pool.cpp\<close>, the bitmap of pages (locale \<open>page_source\<close>).
  \<^item> \<^verbatim>\<open>Mdb_Item\<close>: the item layout, the bit fields of item identifiers, the hash functions
    (\<^verbatim>\<open>mem_cache.hpp\<close>, \<^verbatim>\<open>mdb_define.hpp\<close>, \<^verbatim>\<open>hash.hpp\<close>).
  \<^item> \<^verbatim>\<open>Mdb_Hashmap\<close>: \<^verbatim>\<open>cache_hashmap.cpp\<close>, chains of items in the shared store; the table refines
    a map from keys to items (locale \<open>key_index\<close>).
  \<^item> \<^verbatim>\<open>Mdb_Slab\<close>: \<^verbatim>\<open>mem_cache.cpp\<close>, slabs with their page lists and item lists, allocation,
    eviction and release.
  \<^item> \<^verbatim>\<open>Mdb_Lists\<close>: the doubly linked lists of pages and of items refine lists (locale \<open>dlist\<close>, with
    one interpretation for each); touching an item moves it to the front of its area's list.
  \<^item> \<^verbatim>\<open>Mdb_Entry\<close>: \<^verbatim>\<open>data_entry.hpp\<close>, \<^verbatim>\<open>data_entry.cpp\<close>, \<^verbatim>\<open>item_data_info.hpp\<close>, \<^verbatim>\<open>mdb_stat.hpp\<close>.
  \<^item> \<^verbatim>\<open>Mdb_Manager\<close>: \<^verbatim>\<open>mdb_manager.cpp\<close>, \<^verbatim>\<open>libmdb_c.cpp\<close>. The manager runs every operation under
    its mutex, so each is one function on the state.
  \<^item> \<^verbatim>\<open>Mdb_Pages\<close>, \<^verbatim>\<open>Mdb_Invariant\<close>: the page lists of all slabs with their counters, and the invariant
    \<open>cache_rep\<close> that ties pool, page headers, free chains, page lists and item lists together.
  \<^item> \<^verbatim>\<open>Mdb_Alloc\<close>, \<^verbatim>\<open>Mdb_Evict\<close>: release, allocation and eviction keep the invariant; an allocation in
    a slab always succeeds, from a free slot, from the own area or from any area.
  \<^item> \<^verbatim>\<open>Mdb_Refine\<close>, \<^verbatim>\<open>Mdb_Client\<close>: \<open>holds d M\<close>, the state \<open>d\<close> of the manager stores the map \<open>M\<close> from
    keys to entries; \<open>put\<close>, \<open>get\<close>, \<open>remove\<close>, \<open>lookup\<close> and \<open>clear\<close> act on it, and the calls of the C
    interface are simulated by the abstract cache \<open>acall\<close> (locale \<open>simulation\<close>).
  \<^item> \<^verbatim>\<open>Mdb_Start\<close>: \<open>initialize\<close> on a fresh segment yields a cache that holds the empty map.
  \<^item> \<^verbatim>\<open>Mdb_Theorems\<close>, \<^verbatim>\<open>Mdb_Contract\<close>: the properties of the manager's operations and of the cache
    as a whole.

  \<^bold>\<open>The timers of the framework.\<close>
  \<^item> \<^verbatim>\<open>RB_Tree\<close>: \<^verbatim>\<open>netfram/RBTree.h\<close>, the tree of linked nodes with its sentinel: \<open>Insert\<close>, \<open>Delete\<close>, the
    rotations and the iterators, statement by statement on a store of nodes.
  \<^item> \<^verbatim>\<open>RB_Shape\<close>: which tree the linked nodes stand for (\<open>rb_rep\<close>), places in it (\<open>focus\<close>), rotations and
    colours at a place, and the exchange of left and right.
  \<^item> \<^verbatim>\<open>RB_Insert\<close>, \<^verbatim>\<open>RB_Colours\<close>, \<^verbatim>\<open>RB_Search\<close>: the colouring loop of \<open>Insert\<close>, the colour rules it restores,
    the search for the leaf and the order of the keys (\<open>queue_of\<close>).
  \<^item> \<^verbatim>\<open>RB_Delete\<close>, \<^verbatim>\<open>RB_Queue\<close>: the loop of \<open>Delete\<close>, deletion of a node with a missing child, the first
    node; the tree as a queue in the order of the keys (locale \<open>ordered_queue\<close>).
  \<^item> \<^verbatim>\<open>Net_Ring\<close>: \<^verbatim>\<open>netfram/Queue.h\<close>, the ring of posted events refines a list.
  \<^item> \<^verbatim>\<open>Event_Timer\<close>: \<^verbatim>\<open>TimeValue.cpp\<close>, \<^verbatim>\<open>Timer.cpp\<close>, the posting part of \<^verbatim>\<open>EventPosted.cpp\<close> and \<^verbatim>\<open>IoEvent.cpp\<close>.
  \<^item> \<^verbatim>\<open>Net_Theorems\<close>: the properties of the tree, of expiry and of posting. The lease service uses the
    same timers through the map \<open>n_timers\<close> of \<^verbatim>\<open>PLease_Node\<close>.

  \<^bold>\<open>The placement tables.\<close>
  \<^item> \<^verbatim>\<open>Tair_Table\<close>: \<^verbatim>\<open>tair/table_builder.cpp\<close>, \<^verbatim>\<open>table_builder1.cpp\<close> and the test of
    \<^verbatim>\<open>table_builder2.cpp\<close>: loading a table, counting the buckets of the servers, the quick table, the search
    for a server, the passes over masters and copies. The virtual functions are arguments of
    \<open>rebuild_table\<close>, the results of \<open>random\<close> a stream in the builder.
  \<^item> \<^verbatim>\<open>Tair_Safety\<close>: tables that are accepted hold available servers, different ones for each bucket
    (locale \<open>node_rule\<close>, interpreted on both strategies).
  \<^item> \<^verbatim>\<open>Tair_Balance\<close>: the invariant of the pass over the masters, and that no search fails (locales
    \<open>master_rule\<close> and \<open>free_rule\<close>).
  \<^item> \<^verbatim>\<open>Tair_Rebuild\<close>, \<^verbatim>\<open>Tair_Quick\<close>: the interpretations, the capacities, the first state, the quick table
    and the rooms.
  \<^item> \<^verbatim>\<open>Tair_Theorems\<close>: the properties of the tables.

  \<^bold>\<open>Errors, loops and bounds.\<close> A failed assertion, an access outside a buffer or an array, and a
  loop that does not end are the value \<open>None\<close> of an operation; result codes are values. Loops over
  links and the search for a free page are \<open>partial_function (option)\<close>, and their lemmas show that
  they return on well-formed structures. The bound 50 of \<open>find_expired\<close> and the bound 101 of
  \<open>evict_area\<close> are those of the code. Words have the width of the code's integers; counters of pages
  and lengths are natural numbers or integers, since the code's assertions keep them small.

  \<^bold>\<open>Parameters.\<close> The clock and the identity of the node are in the environment record of
  \<^verbatim>\<open>PLease_Node\<close>; \<open>time(NULL)\<close> is the argument \<open>now\<close> of the cache operations; how a socket address
  is read, the floating-point growth of slab sizes and the floating-point balancing of slabs are
  arguments.

  \<^bold>\<open>Not modelled.\<close> Sockets, sessions, epoll, threads and processes (input and output), logging, the
  background loops of the manager, attaching to an existing segment, the vendored JSON library, the
  Berkeley DB wrapper, the HTTP examples, the configuration server around the placement tables (files
  and packets of classes that are not in the repository) and the floating-point capacities of its
  second strategy. The skip list of the framework replaces the tree only in a build with
  \<^verbatim>\<open>SKIPTIMER\<close>, and \<open>vsnwritef\<close> is commented out in the source.
\<close>

end
